(* ===== verification/MQ_Prelude.thy ===== *)
theory MQ_Prelude
  imports Main "HOL-Library.Word" "HOL-Library.Monad_Syntax"
begin

text \<open>
  Shared vocabulary of the development: addresses, C characters and C strings, the
  conventions for undefined behaviour, and the generic lemmas on lists, maps and options
  that the component theories use.

  Conventions. A C pointer is an \<open>addr option\<close>, \<open>None\<close> being \<open>NULL\<close>. A partial C operation
  returns an \<open>option\<close>: \<open>None\<close> means that the execution has no defined result (a \<open>NULL\<close> or
  freed object is dereferenced, an \<open>assert\<close> fails, an index is out of range). The allocator
  never reuses an address, so an access through a dangling pointer is always seen as such.
\<close>

named_theorems frame_simps \<open>how a heap update leaves the rest of a structure alone\<close>
named_theorems c_str_simps \<open>evaluation of the C string functions\<close>

type_synonym addr = nat
type_synonym cstring = string

subsection \<open>C characters\<close>

text \<open>The value of a (signed) \<open>char\<close> as the C code sees it on the target.\<close>

definition schar :: "char \<Rightarrow> int" where
  "schar c = (let n = of_char c in if n < 128 then n else n - 256)"

lemma schar_bounds: "- 128 \<le> schar c" "schar c < 128"
proof -
  have "0 \<le> (of_char c :: int)" "(of_char c :: int) < 256"
    by (metis of_char_mod_256 pos_mod_sign zero_less_numeral,
        metis of_char_mod_256 pos_mod_bound zero_less_numeral)
  then show "- 128 \<le> schar c" "schar c < 128" unfolding schar_def Let_def by auto
qed

subsection \<open>Lists linked by the macros of sys/queue.h\<close>

text \<open>
  A \<open>LIST\<close> or \<open>TAILQ\<close> is the list of the addresses of its elements.
  \<open>TAILQ_NEXT\<close> of an element that is not linked reads a stale link.
\<close>

fun tailq_next :: "'a list \<Rightarrow> 'a \<Rightarrow> 'a option option" where
  "tailq_next [] x = None"
| "tailq_next [y] x = (if x = y then Some None else None)"
| "tailq_next (y # z # zs) x = (if x = y then Some (Some z) else tailq_next (z # zs) x)"

lemma tailq_next_append:
  "x \<notin> set ys \<Longrightarrow>
   tailq_next (ys @ x # zs) x = Some (case zs of [] \<Rightarrow> None | z # _ \<Rightarrow> Some z)"
proof (induction ys rule: tailq_next.induct [where ?a0.0 = ys and ?a1.0 = x for ys])
  case (1 x)
  then show ?case by (cases zs) auto
next
  case (2 y x)
  then show ?case by (cases zs) auto
next
  case (3 y z zs x)
  then show ?case by auto
qed

lemma remove1_filter: "distinct xs \<Longrightarrow> remove1 x xs = filter (\<lambda>y. y \<noteq> x) xs"
  by (auto simp: distinct_remove1_removeAll removeAll_filter_not_eq intro: filter_cong)

lemma distinct_concat_nthD:
  assumes "distinct (concat xss)" "i < length xss" "j < length xss" "x \<in> set (xss ! i)"
    "x \<in> set (xss ! j)"
  shows "i = j"
  using assms
proof (induction xss arbitrary: i j)
  case Nil
  then show ?case by simp
next
  case (Cons xs xss)
  have "x \<in> set xs \<Longrightarrow> n < length xss \<Longrightarrow> x \<notin> set (xss ! n)" for n
  proof
    assume x: "x \<in> set xs" "n < length xss" "x \<in> set (xss ! n)"
    then have "x \<in> set (concat xss)" using nth_mem [of n xss] by auto
    with x(1) Cons.prems(1) show False by auto
  qed
  with Cons show ?case
    by (cases i; cases j) auto
qed

lemma map_of_filter_key:
  "map_of (filter (\<lambda>e. fst e \<noteq> k) es) k' = (if k' = k then None else map_of es k')"
  by (induction es) auto

lemma set_nth_concat: "b < length xss \<Longrightarrow> set (xss ! b) \<subseteq> set (concat xss)"
  using UN_upper [OF nth_mem, of b xss set] by simp

lemma distinct_concat_update:
  assumes "distinct (concat xss)" "b < length xss" "distinct ys"
    "set ys \<inter> set (concat xss) \<subseteq> set (xss ! b)"
  shows "distinct (concat (xss[b := ys]))"
  using assms
proof (induction xss arbitrary: b)
  case Nil
  then show ?case by simp
next
  case (Cons xs xss)
  show ?case
  proof (cases b)
    case 0
    with Cons.prems show ?thesis by auto
  next
    case (Suc c)
    have dis: "set xs \<inter> set (concat xss) = {}" using Cons.prems(1) by auto
    have sub: "set (xss ! c) \<subseteq> set (concat xss)"
      using Cons.prems(2) Suc by (intro set_nth_concat) simp
    have "distinct (concat (xss[c := ys]))"
      using Cons.prems Suc sub dis by (intro Cons.IH) auto
    moreover have "set (concat (xss[c := ys])) \<subseteq> set (concat xss) \<union> set ys"
      using set_update_subset_insert [of xss c ys] by auto
    moreover have "set xs \<inter> set ys = {}"
    proof -
      have "set ys \<inter> (set xs \<union> set (concat xss)) \<subseteq> set (xss ! c)"
        using Cons.prems(4) Suc by simp
      with dis sub show ?thesis by blast
    qed
    ultimately show ?thesis using Cons.prems(1) Suc dis by auto
  qed
qed

lemma set_concat_update_Cons:
  "b < length xss \<Longrightarrow> set (concat (xss[b := x # xss ! b])) = insert x (set (concat xss))"
proof (induction xss arbitrary: b)
  case (Cons xs xss)
  then show ?case by (cases b) auto
qed simp

lemma set_concat_update_remove1:
  "b < length xss \<Longrightarrow> distinct (concat xss) \<Longrightarrow> x \<in> set (xss ! b) \<Longrightarrow>
   set (concat (xss[b := remove1 x (xss ! b)])) = set (concat xss) - {x}"
proof (induction xss arbitrary: b)
  case (Cons xs xss)
  show ?case
  proof (cases b)
    case 0
    with Cons.prems show ?thesis by auto
  next
    case (Suc c)
    with Cons.prems have c: "c < length xss" "x \<in> set (xss ! c)" by simp_all
    have "x \<in> set (concat xss)" using set_nth_concat [OF c(1)] c(2) by blast
    moreover have "set xs \<inter> set (concat xss) = {}" using Cons.prems(2) by simp
    ultimately have "x \<notin> set xs" by blast
    with Cons Suc c show ?thesis by auto
  qed
qed simp

end
