(* ===== verification/Hash.thy ===== *)
theory Hash
  imports MQ_Prelude
begin

text \<open>
  The hash table of \<open>src/src/hash.c\<close>: items are heap objects that are linked both into the
  bucket list of their hash value and into one list in insertion order; a cursor
  (\<open>order_next\<close>) walks the latter. The theory shows that a well-formed table is an ordered
  dictionary (locale \<open>ordered_dict\<close>), that a traversal visits the entries in insertion order
  and that \<open>h_free\<close> frees every item exactly once.
\<close>

subsection \<open>The data structure\<close>

record 'v h_item =
  h_key :: cstring
  h_value :: 'v

record 'v h_hash =
  buckets :: "addr list list"
  order_head :: "addr list"
  h_size :: "32 word"
  order_next :: "addr option"
  h_items :: "addr \<Rightarrow> 'v h_item option"
  h_fresh :: addr

subsection \<open>Operations\<close>

text \<open>
  \<open>h_hash_func\<close> sums the (signed) characters into an \<open>int\<close> that is returned as \<open>uint32_t\<close>.
\<close>

definition h_hash_func :: "cstring \<Rightarrow> nat \<Rightarrow> 32 word" where
  "h_hash_func key len = foldl (\<lambda>hash c. hash + word_of_int (schar c)) 0 (take len key)"

text \<open>The bucket of a key; \<open>None\<close> on a division by zero or an index outside the array.\<close>

definition h_index :: "'v h_hash \<Rightarrow> cstring \<Rightarrow> nat option" where
  "h_index h key =
     (if h_size h = 0 then None
      else let i = unat (h_hash_func key (length key) mod h_size h)
           in if i < length (buckets h) then Some i else None)"

text \<open>The two flags say whether the two \<open>calloc\<close> calls succeed.\<close>

definition h_init :: "bool \<Rightarrow> bool \<Rightarrow> 32 word \<Rightarrow> 'v h_hash option" where
  "h_init ok1 ok2 sz =
     (if \<not> ok1 then None
      else if \<not> ok2 then None
      else Some \<lparr>buckets = replicate (unat sz) [], order_head = [], h_size = sz,
                 order_next = None, h_items = Map.empty, h_fresh = 0\<rparr>)"

text \<open>The \<open>LIST_FOREACH\<close> over a bucket that stops at the first item with the key.\<close>

fun bucket_find :: "(addr \<Rightarrow> 'v h_item option) \<Rightarrow> cstring \<Rightarrow> addr list \<Rightarrow> addr option option" where
  "bucket_find items key [] = Some None"
| "bucket_find items key (i # is) =
     do {
       item \<leftarrow> items i;
       if key = h_key item then Some (Some i) else bucket_find items key is
     }"

definition h_remove :: "'v h_hash \<Rightarrow> cstring \<Rightarrow> (int \<times> 'v h_hash) option" where
  "h_remove h key =
     do {
       b \<leftarrow> h_index h key;
       r \<leftarrow> bucket_find (h_items h) key (buckets h ! b);
       case r of
         Some i \<Rightarrow>
           Some (0, h\<lparr>buckets := (buckets h)[b := remove1 i (buckets h ! b)],
                      order_head := remove1 i (order_head h),
                      h_items := (h_items h)(i := None)\<rparr>)
       | None \<Rightarrow> Some (- 1, h)
     }"

text \<open>The flag says whether the \<open>calloc\<close> of the item succeeds.\<close>

definition h_insert :: "bool \<Rightarrow> 'v h_hash \<Rightarrow> cstring \<Rightarrow> 'v \<Rightarrow> (int \<times> 'v h_hash) option" where
  "h_insert ok h key v =
     do {
       b \<leftarrow> h_index h key;
       r \<leftarrow> bucket_find (h_items h) key (buckets h ! b);
       case r of
         Some i \<Rightarrow> Some (- 1, h)
       | None \<Rightarrow>
           if \<not> ok then Some (- 1, h)
           else Some (0, h\<lparr>buckets := (buckets h)[b := h_fresh h # (buckets h ! b)],
                           order_head := order_head h @ [h_fresh h],
                           h_items := (h_items h)(h_fresh h \<mapsto> \<lparr>h_key = key, h_value = v\<rparr>),
                           h_fresh := Suc (h_fresh h)\<rparr>)
     }"

definition h_init_traverse :: "'v h_hash \<Rightarrow> 'v h_hash" where
  "h_init_traverse h = h\<lparr>order_next := None\<rparr>"

definition h_get :: "'v h_hash \<Rightarrow> cstring \<Rightarrow> 'v option option" where
  "h_get h key =
     do {
       b \<leftarrow> h_index h key;
       r \<leftarrow> bucket_find (h_items h) key (buckets h ! b);
       case r of
         Some i \<Rightarrow> do { item \<leftarrow> h_items h i; Some (Some (h_value item)) }
       | None \<Rightarrow> Some None
     }"

definition h_next :: "'v h_hash \<Rightarrow> (addr option \<times> 'v h_hash) option" where
  "h_next h =
     (case order_next h of
        None \<Rightarrow>
          let n = (case order_head h of [] \<Rightarrow> None | i # _ \<Rightarrow> Some i)
          in Some (n, h\<lparr>order_next := n\<rparr>)
      | Some i \<Rightarrow>
          do {
            _ \<leftarrow> h_items h i;
            n \<leftarrow> tailq_next (order_head h) i;
            Some (n, h\<lparr>order_next := n\<rparr>)
          })"

text \<open>\<open>h_free\<close>: the loop takes items off the front of the list and frees them.\<close>

fun h_free_items :: "(addr \<Rightarrow> 'v h_item option) \<Rightarrow> addr list \<Rightarrow> (addr \<Rightarrow> 'v h_item option) option"
where
  "h_free_items items [] = Some items"
| "h_free_items items (i # is) =
     do { _ \<leftarrow> items i; h_free_items (items(i := None)) is }"

definition h_free :: "'v h_hash \<Rightarrow> (addr \<Rightarrow> 'v h_item option) option" where
  "h_free h = (let h = h_init_traverse h in h_free_items (h_items h) (order_head h))"

text \<open>
  The callers' loop \<open>while ((item = h_next(h)))\<close>, collecting the items it visits. The fuel
  bounds the number of calls of \<open>h_next\<close>.
\<close>

fun h_traverse :: "nat \<Rightarrow> 'v h_hash \<Rightarrow> ((cstring \<times> 'v) list \<times> 'v h_hash) option" where
  "h_traverse 0 h = None"
| "h_traverse (Suc fuel) h =
     do {
       (n, h) \<leftarrow> h_next h;
       case n of
         None \<Rightarrow> Some ([], h)
       | Some i \<Rightarrow>
           do {
             item \<leftarrow> h_items h i;
             (rest, h) \<leftarrow> h_traverse fuel h;
             Some ((h_key item, h_value item) # rest, h)
           }
     }"

subsection \<open>Well-formed tables and their contents\<close>

definition h_wf :: "'v h_hash \<Rightarrow> bool" where
  "h_wf h \<longleftrightarrow>
     h_size h \<noteq> 0 \<and> length (buckets h) = unat (h_size h) \<and>
     distinct (order_head h) \<and> set (order_head h) = dom (h_items h) \<and>
     distinct (concat (buckets h)) \<and> set (concat (buckets h)) = dom (h_items h) \<and>
     (\<forall>b i item. b < length (buckets h) \<longrightarrow> i \<in> set (buckets h ! b) \<longrightarrow>
        h_items h i = Some item \<longrightarrow> h_index h (h_key item) = Some b) \<and>
     (\<forall>i j a b. h_items h i = Some a \<longrightarrow> h_items h j = Some b \<longrightarrow> h_key a = h_key b \<longrightarrow> i = j) \<and>
     (\<forall>i \<in> dom (h_items h). i < h_fresh h)"

text \<open>The contents in insertion order.\<close>

definition h_entry :: "'v h_hash \<Rightarrow> addr \<Rightarrow> cstring \<times> 'v" where
  "h_entry h i = (case h_items h i of Some item \<Rightarrow> (h_key item, h_value item))"

definition h_entries :: "'v h_hash \<Rightarrow> (cstring \<times> 'v) list" where
  "h_entries h = map (h_entry h) (order_head h)"

lemma h_entry_Some [simp]: "h_items h i = Some item \<Longrightarrow> h_entry h i = (h_key item, h_value item)"
  by (simp add: h_entry_def)

lemma h_wfD:
  assumes "h_wf h"
  shows "h_size h \<noteq> 0" "length (buckets h) = unat (h_size h)" "distinct (order_head h)"
    "set (order_head h) = dom (h_items h)" "distinct (concat (buckets h))"
    "set (concat (buckets h)) = dom (h_items h)"
    "b < length (buckets h) \<Longrightarrow> i \<in> set (buckets h ! b) \<Longrightarrow> h_items h i = Some item \<Longrightarrow>
       h_index h (h_key item) = Some b"
    "h_items h i = Some item \<Longrightarrow> h_items h j = Some item' \<Longrightarrow> h_key item = h_key item' \<Longrightarrow> i = j"
    "h_items h i = Some item \<Longrightarrow> i < h_fresh h"
  using assms unfolding h_wf_def by (auto dest: domI)

text \<open>The hash index is always inside the bucket array: \<open>uint32_t\<close> arithmetic never yields a
  negative index, whatever the signs of the characters.\<close>

lemma h_index_total:
  assumes "h_wf h"
  obtains b where "h_index h k = Some b" "b < length (buckets h)"
proof -
  have "unat (h_hash_func k (length k) mod h_size h) < unat (h_size h)"
    using h_wfD(1) [OF assms] by (simp add: unat_mod_distrib unat_gt_0)
  then show ?thesis
    using that h_wfD(1,2) [OF assms] by (simp add: h_index_def Let_def)
qed

lemma h_index_cong:
  "h_size h' = h_size h \<Longrightarrow> length (buckets h') = length (buckets h) \<Longrightarrow> h_index h' k = h_index h k"
  by (simp add: h_index_def Let_def)

lemma bucket_find_eq:
  "\<forall>i \<in> set is. items i \<noteq> None \<Longrightarrow>
   bucket_find items k is = Some (find (\<lambda>i. h_key (the (items i)) = k) is)"
  by (induction "is") auto

text \<open>An item lives in the bucket of its key, so a search of that bucket decides membership.\<close>

lemma h_wf_item_bucket:
  assumes wf: "h_wf h" and i: "h_items h i = Some item" and k: "h_index h (h_key item) = Some b"
  shows "i \<in> set (buckets h ! b)"
proof -
  have "i \<in> set (concat (buckets h))"
    using h_wfD(6) [OF wf] i by auto
  then obtain c where "c < length (buckets h)" "i \<in> set (buckets h ! c)"
    by (auto simp: set_conv_nth [of "buckets h"])
  with h_wfD(7) [OF wf this i] k show ?thesis by simp
qed

lemma h_search:
  assumes wf: "h_wf h" and b: "h_index h k = Some b" "b < length (buckets h)"
  shows "\<exists>r. bucket_find (h_items h) k (buckets h ! b) = Some r \<and>
    (case r of
       Some i \<Rightarrow> i \<in> set (buckets h ! b) \<and> (\<exists>item. h_items h i = Some item \<and> h_key item = k)
     | None \<Rightarrow> (\<forall>i item. h_items h i = Some item \<longrightarrow> h_key item \<noteq> k))"
proof -
  have "\<forall>i \<in> set (buckets h ! b). h_items h i \<noteq> None"
    using h_wfD(6) [OF wf] nth_mem [OF b(2)] by (fastforce simp: set_eq_iff)
  moreover from this bucket_find_eq
  have "bucket_find (h_items h) k (buckets h ! b) =
     Some (find (\<lambda>i. h_key (the (h_items h i)) = k) (buckets h ! b))" by blast
  ultimately show ?thesis
    using h_wf_item_bucket [OF wf] b
    by (auto simp: find_Some_iff find_None_iff split: option.splits) force+
qed

lemma h_wf_keys_distinct:
  assumes "h_wf h"
  shows "distinct (map fst (h_entries h))"
proof -
  have "inj_on (\<lambda>i. fst (h_entry h i)) (set (order_head h))"
    using h_wfD(4) [OF assms] h_wfD(8) [OF assms] by (fastforce intro!: inj_onI)
  with h_wfD(3) [OF assms] show ?thesis
    by (simp add: h_entries_def distinct_map comp_def)
qed

lemma h_entries_item:
  assumes wf: "h_wf h" and i: "h_items h i = Some item"
  shows "map_of (h_entries h) (h_key item) = Some (h_value item)"
proof -
  have "i \<in> set (order_head h)" using h_wfD(4) [OF wf] i by auto
  then have "(h_key item, h_value item) \<in> set (h_entries h)"
    using i by (force simp: h_entries_def)
  with h_wf_keys_distinct [OF wf] show ?thesis by simp
qed

lemma h_entries_no_item:
  assumes wf: "h_wf h" and n: "\<And>i item. h_items h i = Some item \<Longrightarrow> h_key item \<noteq> k"
  shows "map_of (h_entries h) k = None"
proof -
  have "k \<notin> fst ` set (h_entries h)"
    using h_wfD(4) [OF wf] n by (fastforce simp: h_entries_def)
  then show ?thesis by (simp add: map_of_eq_None_iff)
qed

subsection \<open>The interface of an ordered dictionary\<close>

text \<open>
  What the rest of the program relies on: lookups see the last state of the contents, an
  insertion of a present key is refused, insertion appends and removal keeps the order.
\<close>

locale ordered_dict =
  fixes invar :: "'d \<Rightarrow> bool"
    and entries :: "'d \<Rightarrow> ('k \<times> 'v) list"
    and get :: "'d \<Rightarrow> 'k \<Rightarrow> 'v option option"
    and ins :: "'d \<Rightarrow> 'k \<Rightarrow> 'v \<Rightarrow> (int \<times> 'd) option"
    and rem :: "'d \<Rightarrow> 'k \<Rightarrow> (int \<times> 'd) option"
  assumes keys_distinct: "invar d \<Longrightarrow> distinct (map fst (entries d))"
    and get_entries: "invar d \<Longrightarrow> get d k = Some (map_of (entries d) k)"
    and ins_new: "invar d \<Longrightarrow> map_of (entries d) k = None \<Longrightarrow>
      \<exists>d'. ins d k v = Some (0, d') \<and> invar d' \<and> entries d' = entries d @ [(k, v)]"
    and ins_old: "invar d \<Longrightarrow> map_of (entries d) k = Some w \<Longrightarrow> ins d k v = Some (- 1, d)"
    and rem_old: "invar d \<Longrightarrow> map_of (entries d) k = Some w \<Longrightarrow>
      \<exists>d'. rem d k = Some (0, d') \<and> invar d' \<and> entries d' = filter (\<lambda>e. fst e \<noteq> k) (entries d)"
    and rem_new: "invar d \<Longrightarrow> map_of (entries d) k = None \<Longrightarrow> rem d k = Some (- 1, d)"
begin

lemma get_after_ins:
  assumes "invar d" "map_of (entries d) k = None"
  shows "\<exists>d'. ins d k v = Some (0, d') \<and> invar d' \<and>
           (\<forall>k'. get d' k' = (if k' = k then Some (Some v) else get d k'))"
proof -
  obtain d' where d': "ins d k v = Some (0, d')" "invar d'" "entries d' = entries d @ [(k, v)]"
    using ins_new [OF assms] by blast
  have "get d' k' = (if k' = k then Some (Some v) else get d k')" for k'
    using assms d' by (simp add: get_entries map_add_def split: option.splits)
  with d' show ?thesis by blast
qed

lemma get_after_rem:
  assumes "invar d"
  shows "\<exists>r d'. rem d k = Some (r, d') \<and> invar d' \<and>
           (\<forall>k'. get d' k' = (if k' = k then Some None else get d k'))"
proof (cases "map_of (entries d) k")
  case None
  with assms rem_new show ?thesis by (fastforce simp: get_entries)
next
  case (Some w)
  obtain d' where d': "rem d k = Some (0, d')" "invar d'"
      "entries d' = filter (\<lambda>e. fst e \<noteq> k) (entries d)"
    using rem_old [OF assms Some] by blast
  then have "get d' k' = (if k' = k then Some None else get d k')" for k'
    using assms by (simp add: get_entries map_of_filter_key)
  with d' show ?thesis by blast
qed

lemma absent_filter: "map_of es k = None \<Longrightarrow> filter (\<lambda>e. fst e \<noteq> k) es = es"
  by (force simp: filter_id_conv map_of_eq_None_iff)

lemma rem_entries:
  "invar d \<Longrightarrow> \<exists>r d'. rem d k = Some (r, d') \<and> invar d' \<and>
     entries d' = filter (\<lambda>e. fst e \<noteq> k) (entries d)"
  using rem_new [of d k] rem_old [of d k] absent_filter [of "entries d" k]
  by (cases "map_of (entries d) k") auto

lemma ins_rem_entries:
  assumes "invar d" "map_of (entries d) k = None"
  shows "\<exists>d' d''. ins d k v = Some (0, d') \<and> rem d' k = Some (0, d'') \<and> invar d'' \<and>
           entries d'' = entries d"
proof -
  obtain d' where d': "ins d k v = Some (0, d')" "invar d'" "entries d' = entries d @ [(k, v)]"
    using ins_new [OF assms] by blast
  then have "map_of (entries d') k = Some v" using assms(2) by (simp add: map_add_def)
  from rem_old [OF d'(2) this] obtain d'' where
    d'': "rem d' k = Some (0, d'')" "invar d''" "entries d'' = filter (\<lambda>e. fst e \<noteq> k) (entries d')"
    by blast
  with d' absent_filter [OF assms(2)] show ?thesis by auto
qed

end

subsection \<open>The operations implement the interface\<close>

lemma h_get_entries:
  assumes wf: "h_wf h"
  shows "h_get h k = Some (map_of (h_entries h) k)"
proof -
  obtain b where b: "h_index h k = Some b" "b < length (buckets h)"
    using h_index_total [OF wf] .
  obtain r where r: "bucket_find (h_items h) k (buckets h ! b) = Some r"
    and R: "case r of
       Some i \<Rightarrow> i \<in> set (buckets h ! b) \<and> (\<exists>item. h_items h i = Some item \<and> h_key item = k)
     | None \<Rightarrow> (\<forall>i item. h_items h i = Some item \<longrightarrow> h_key item \<noteq> k)"
    using h_search [OF wf b] by blast
  show ?thesis
  proof (cases r)
    case None
    with R have "map_of (h_entries h) k = None"
      by (intro h_entries_no_item [OF wf]) auto
    with None b r show ?thesis by (simp add: h_get_def)
  next
    case (Some i)
    with R obtain item where "h_items h i = Some item" "h_key item = k" by auto
    with Some b r h_entries_item [OF wf] show ?thesis by (auto simp: h_get_def)
  qed
qed

text \<open>The search outcome in terms of the contents.\<close>

lemma h_search_entries:
  assumes wf: "h_wf h"
  obtains b where "h_index h k = Some b" "b < length (buckets h)"
    "map_of (h_entries h) k = None \<Longrightarrow> bucket_find (h_items h) k (buckets h ! b) = Some None"
    "\<And>w. map_of (h_entries h) k = Some w \<Longrightarrow>
       \<exists>i item. bucket_find (h_items h) k (buckets h ! b) = Some (Some i) \<and>
         i \<in> set (buckets h ! b) \<and> h_items h i = Some item \<and> h_key item = k \<and> h_value item = w"
proof -
  obtain b where b: "h_index h k = Some b" "b < length (buckets h)"
    using h_index_total [OF wf] .
  obtain r where r: "bucket_find (h_items h) k (buckets h ! b) = Some r"
    and R: "case r of
       Some i \<Rightarrow> i \<in> set (buckets h ! b) \<and> (\<exists>item. h_items h i = Some item \<and> h_key item = k)
     | None \<Rightarrow> (\<forall>i item. h_items h i = Some item \<longrightarrow> h_key item \<noteq> k)"
    using h_search [OF wf b] by blast
  show ?thesis
  proof (rule that [OF b])
    assume "map_of (h_entries h) k = None"
    with r R h_entries_item [OF wf] show "bucket_find (h_items h) k (buckets h ! b) = Some None"
      by (fastforce split: option.splits)
  next
    fix w assume w: "map_of (h_entries h) k = Some w"
    with R h_entries_no_item [OF wf, of k] obtain i item where
      "r = Some i" "i \<in> set (buckets h ! b)" "h_items h i = Some item" "h_key item = k"
      by (cases r) auto
    with r w h_entries_item [OF wf, of i item]
    show "\<exists>i item. bucket_find (h_items h) k (buckets h ! b) = Some (Some i) \<and>
         i \<in> set (buckets h ! b) \<and> h_items h i = Some item \<and> h_key item = k \<and> h_value item = w"
      by auto
  qed
qed

lemma h_insert_new:
  assumes wf: "h_wf h" and new: "map_of (h_entries h) k = None"
  shows "\<exists>h'. h_insert True h k v = Some (0, h') \<and> h_wf h' \<and> h_entries h' = h_entries h @ [(k, v)]"
proof -
  note D = h_wfD [OF wf]
  obtain b where b: "h_index h k = Some b" "b < length (buckets h)"
      "bucket_find (h_items h) k (buckets h ! b) = Some None"
    using h_search_entries [OF wf, of k] new by blast
  define h' where "h' = h\<lparr>buckets := (buckets h)[b := h_fresh h # (buckets h ! b)],
                           order_head := order_head h @ [h_fresh h],
                           h_items := (h_items h)(h_fresh h \<mapsto> \<lparr>h_key = k, h_value = v\<rparr>),
                           h_fresh := Suc (h_fresh h)\<rparr>"
  have res: "h_insert True h k v = Some (0, h')"
    using b by (simp add: h_insert_def h'_def)
  have fresh: "h_fresh h \<notin> dom (h_items h)" using D(9) by blast
  then have fresh': "h_fresh h \<notin> set (order_head h)" "h_fresh h \<notin> set (concat (buckets h))"
    using D(4,6) by auto
  have idx: "h_index h' k' = h_index h k'" for k'
    by (rule h_index_cong) (simp_all add: h'_def)
  have nokey: "h_items h i = Some item \<Longrightarrow> h_key item \<noteq> k" for i item
    using h_entries_item [OF wf, of i item] new by auto
  have bset: "set (concat (buckets h')) = insert (h_fresh h) (set (concat (buckets h)))"
    unfolding h'_def by (simp add: set_concat_update_Cons [OF b(2)] del: set_concat)
  have bdist: "distinct (concat (buckets h'))"
  proof -
    have "distinct (buckets h ! b)" "set (buckets h ! b) \<subseteq> set (concat (buckets h))"
      using D(5) nth_mem [OF b(2)] set_nth_concat [OF b(2)] by (auto simp: distinct_concat_iff)
    then show ?thesis
      using D(5) b(2) fresh'(2) unfolding h'_def
      by (simp, intro distinct_concat_update) auto
  qed
  have "h_wf h'"
    unfolding h_wf_def idx
  proof (intro conjI allI impI ballI)
    show "set (concat (buckets h')) = dom (h_items h')"
      using bset D(6) by (auto simp: h'_def)
    fix c i item
    assume "c < length (buckets h')" "i \<in> set (buckets h' ! c)" "h_items h' i = Some item"
    then show "h_index h (h_key item) = Some c"
      using D(7) [of c i item] b(1,2) fresh'(2) nth_mem [of c "buckets h"]
      by (auto simp: h'_def nth_list_update split: if_splits)
  next
    fix i j p q
    assume "h_items h' i = Some p" "h_items h' j = Some q" "h_key p = h_key q"
    then show "i = j"
      using D(8) [of i p j q] nokey [of i p] nokey [of j q] by (auto simp: h'_def split: if_splits)
  next
    fix i assume "i \<in> dom (h_items h')"
    then show "i < h_fresh h'"
      using D(9) by (force simp: h'_def less_Suc_eq split: if_splits)
  qed (use D(1-5) bdist fresh' in \<open>auto simp: h'_def\<close>)
  moreover have "h_entries h' = h_entries h @ [(k, v)]"
    using fresh'(1) by (auto simp: h_entries_def h_entry_def h'_def)
  ultimately show ?thesis using res by blast
qed

lemma h_insert_old:
  "h_wf h \<Longrightarrow> map_of (h_entries h) k = Some w \<Longrightarrow> h_insert ok h k v = Some (- 1, h)"
  by (rule h_search_entries [of h k]) (auto simp: h_insert_def)

lemma h_insert_nomem:
  "h_wf h \<Longrightarrow> h_insert False h k v = Some (- 1, h)"
  by (rule h_search_entries [of h k]; cases "map_of (h_entries h) k") (auto simp: h_insert_def)

lemma h_remove_old:
  assumes wf: "h_wf h" and old: "map_of (h_entries h) k = Some w"
  shows "\<exists>h'. h_remove h k = Some (0, h') \<and> h_wf h' \<and>
           h_entries h' = filter (\<lambda>e. fst e \<noteq> k) (h_entries h)"
proof -
  note D = h_wfD [OF wf]
  obtain b i item where b: "h_index h k = Some b" "b < length (buckets h)"
      "bucket_find (h_items h) k (buckets h ! b) = Some (Some i)"
    and i: "i \<in> set (buckets h ! b)" "h_items h i = Some item" "h_key item = k"
    using h_search_entries [OF wf, of k] old by metis
  define h' where "h' = h\<lparr>buckets := (buckets h)[b := remove1 i (buckets h ! b)],
                           order_head := remove1 i (order_head h),
                           h_items := (h_items h)(i := None)\<rparr>"
  have res: "h_remove h k = Some (0, h')"
    using b by (simp add: h_remove_def h'_def)
  have idx: "h_index h' k' = h_index h k'" for k'
    by (rule h_index_cong) (simp_all add: h'_def)
  have bdist: "distinct (concat (buckets h'))"
  proof -
    have "distinct (buckets h ! b)"
      using D(5) nth_mem [OF b(2)] by (auto simp: distinct_concat_iff)
    then show ?thesis
      using D(5) b(2) unfolding h'_def
      by (simp, intro distinct_concat_update) (auto dest: notin_set_remove1)
  qed
  have "h_wf h'"
    unfolding h_wf_def idx
  proof (intro conjI allI impI ballI)
    show "set (concat (buckets h')) = dom (h_items h')"
      using D(6) unfolding h'_def
      by (simp add: set_concat_update_remove1 [OF b(2) D(5) i(1)] del: set_concat)
    fix c j it
    assume "c < length (buckets h')" "j \<in> set (buckets h' ! c)" "h_items h' j = Some it"
    then show "h_index h (h_key it) = Some c"
      using b(2) D(7) [of c j it] subsetD [OF set_remove1_subset, of j i "buckets h ! c"]
      by (auto simp: h'_def nth_list_update split: if_splits)
  next
    fix j l p q
    assume "h_items h' j = Some p" "h_items h' l = Some q" "h_key p = h_key q"
    then show "j = l"
      using D(8) [of j p l q] by (auto simp: h'_def split: if_splits)
  next
    fix j assume "j \<in> dom (h_items h')"
    then show "j < h_fresh h'" using D(9) by (auto simp: h'_def split: if_splits)
  qed (use D(1-5) bdist in \<open>auto simp: h'_def\<close>)
  moreover have "h_entries h' = filter (\<lambda>e. fst e \<noteq> k) (h_entries h)"
  proof -
    have "j \<in> set (order_head h) \<Longrightarrow> (fst (h_entry h j) \<noteq> k) = (j \<noteq> i)" for j
      using D(4) D(8) [of j _ i item] i by auto
    then have "filter (\<lambda>e. fst e \<noteq> k) (h_entries h) = map (h_entry h) (filter (\<lambda>j. j \<noteq> i) (order_head h))"
      by (auto simp: h_entries_def filter_map comp_def intro!: arg_cong [where f = "map _"] filter_cong)
    then show ?thesis
      by (auto simp: h_entries_def h_entry_def h'_def remove1_filter [OF D(3)])
  qed
  ultimately show ?thesis using res by blast
qed

lemma h_remove_new:
  "h_wf h \<Longrightarrow> map_of (h_entries h) k = None \<Longrightarrow> h_remove h k = Some (- 1, h)"
  by (rule h_search_entries [of h k]) (auto simp: h_remove_def)

interpretation hh: ordered_dict h_wf h_entries h_get "h_insert True" h_remove
  by unfold_locales
    (rule h_wf_keys_distinct h_get_entries h_insert_new h_insert_old h_remove_old h_remove_new;
      assumption)+

lemma h_init_wf:
  "sz \<noteq> 0 \<Longrightarrow> \<exists>h. h_init True True sz = Some h \<and> h_wf h \<and> h_entries h = [] \<and> order_next h = None"
  by (auto simp: h_init_def h_wf_def h_entries_def)

subsection \<open>Traversal and disposal\<close>

lemma h_traverse_from:
  assumes "distinct (order_head h)" "set (order_head h) \<subseteq> dom (h_items h)"
    "order_head h = ys @ i # zs" "order_next h = Some i" "length zs < fuel"
  shows "h_traverse fuel h = Some (map (h_entry h) zs, h\<lparr>order_next := None\<rparr>)"
  using assms
proof (induction zs arbitrary: ys i h fuel)
  case Nil
  then obtain f where "fuel = Suc f" by (cases fuel) auto
  with Nil show ?case by (force simp: h_next_def tailq_next_append)
next
  case (Cons j zs)
  then obtain f where f: "fuel = Suc f" "length zs < f" by (cases fuel) auto
  obtain it jt where it: "h_items h i = Some it" "h_items h j = Some jt"
    using Cons.prems(2,3) by auto
  let ?h = "h\<lparr>order_next := Some j\<rparr>"
  have "h_traverse f ?h = Some (map (h_entry ?h) zs, ?h\<lparr>order_next := None\<rparr>)"
    using Cons.prems f by (intro Cons.IH [of _ "ys @ [i]" j]) auto
  moreover have "h_entry ?h = h_entry h" by (rule ext) (simp add: h_entry_def)
  ultimately show ?case
    using Cons.prems(1,3,4) f(1) it by (simp add: h_next_def tailq_next_append)
qed

lemma h_traverse_entries:
  assumes wf: "h_wf h" and start: "order_next h = None" and fuel: "length (h_entries h) < fuel"
  shows "h_traverse fuel h = Some (h_entries h, h)"
proof (cases "order_head h")
  case Nil
  with start fuel show ?thesis by (cases fuel) (auto simp: h_next_def h_entries_def)
next
  case (Cons i zs)
  obtain f where f: "fuel = Suc f" "length zs < f"
    using fuel Cons by (cases fuel) (auto simp: h_entries_def)
  obtain it where it: "h_items h i = Some it"
    using h_wfD(4) [OF wf] Cons by auto
  let ?h = "h\<lparr>order_next := Some i\<rparr>"
  have "h_traverse f ?h = Some (map (h_entry ?h) zs, ?h\<lparr>order_next := None\<rparr>)"
    using h_wfD(3,4) [OF wf] Cons f by (intro h_traverse_from [where ys = "[]" and i = i]) auto
  moreover have "h_entry ?h = h_entry h" by (rule ext) (simp add: h_entry_def)
  moreover have "?h\<lparr>order_next := None\<rparr> = h" using start by (cases h) simp
  ultimately show ?thesis
    using start f(1) it Cons by (simp add: h_next_def h_entries_def Let_def)
qed

lemma h_free_items_all:
  "distinct is \<Longrightarrow> set is \<subseteq> dom items \<Longrightarrow> h_free_items items is = Some (items |` (- set is))"
proof (induction "is" arbitrary: items)
  case Nil
  then show ?case by (simp add: restrict_map_def)
next
  case (Cons i "is")
  then have "h_free_items (items(i := None)) is = Some ((items(i := None)) |` (- set is))"
    by (intro Cons.IH) auto
  moreover have "(items(i := None)) |` (- set is) = items |` (- set (i # is))"
    using Cons.prems(1) by (auto simp: restrict_map_def fun_eq_iff)
  ultimately show ?case using Cons.prems by auto
qed

lemma h_free_all:
  assumes "h_wf h"
  shows "h_free h = Some Map.empty"
proof -
  have "h_free_items (h_items h) (order_head h) = Some (h_items h |` (- set (order_head h)))"
    using h_wfD(3,4) [OF assms] by (intro h_free_items_all) auto
  moreover have "h_items h |` (- set (order_head h)) = Map.empty"
    using h_wfD(4) [OF assms] by (auto simp: restrict_map_def)
  ultimately show ?thesis by (simp add: h_free_def h_init_traverse_def)
qed

lemma h_insert_cursor: "h_insert ok h k v = Some (r, h') \<Longrightarrow> order_next h' = order_next h"
  by (auto simp: h_insert_def bind_eq_Some_conv split: option.splits if_splits)

text \<open>A sequence of insertions, as the callers make them.\<close>

fun h_insert_all :: "'v h_hash \<Rightarrow> (cstring \<times> 'v) list \<Rightarrow> 'v h_hash option" where
  "h_insert_all h [] = Some h"
| "h_insert_all h ((k, v) # kvs) = do { (_, h) \<leftarrow> h_insert True h k v; h_insert_all h kvs }"

lemma h_insert_all_entries:
  assumes "h_wf h" "order_next h = None" "distinct (map fst (h_entries h @ kvs))"
  shows "\<exists>h'. h_insert_all h kvs = Some h' \<and> h_wf h' \<and> order_next h' = None \<and>
           h_entries h' = h_entries h @ kvs"
  using assms
proof (induction kvs arbitrary: h)
  case Nil
  then show ?case by simp
next
  case (Cons kv kvs)
  obtain k v where kv: "kv = (k, v)" by fastforce
  have "map_of (h_entries h) k = None"
    using Cons.prems(3) kv by (auto simp: map_of_eq_None_iff)
  then obtain h1 where h1: "h_insert True h k v = Some (0, h1)" "h_wf h1"
      "h_entries h1 = h_entries h @ [(k, v)]"
    using hh.ins_new [OF Cons.prems(1)] by blast
  moreover have "order_next h1 = None"
    using h_insert_cursor [OF h1(1)] Cons.prems(2) by simp
  ultimately show ?case
    using Cons.IH [of h1] Cons.prems(3) kv by simp
qed

subsection \<open>Properties\<close>

text \<open>
  C23. An insertion of a key that the table does not hold succeeds, and from then on the table
  answers the new value for that key and its former answer for every other key.
\<close>

theorem h_get_after_insert:
  assumes "h_wf h" "h_get h k = Some None"
  shows "\<exists>h'. h_insert True h k v = Some (0, h') \<and> h_wf h' \<and>
           (\<forall>k'. h_get h' k' = (if k' = k then Some (Some v) else h_get h k'))"
  using hh.get_after_ins [OF assms(1), of k v] assms by (simp add: hh.get_entries)

text \<open>
  A removal always returns; afterwards the key is absent, and every other key keeps its
  value.
\<close>

lemma h_get_after_remove:
  assumes "h_wf h"
  shows "\<exists>r h'. h_remove h k = Some (r, h') \<and> h_wf h' \<and>
           (\<forall>k'. h_get h' k' = (if k' = k then Some None else h_get h k'))"
  using assms by (rule hh.get_after_rem)

text \<open>
  C24. The loop \<open>while ((item = h_next(h)))\<close>, started with a reset cursor, visits exactly the
  entries of the table in the order of their insertion and leaves the cursor reset, so that
  the next loop starts afresh: inserting the pairs of any list with distinct keys into a new
  table and then traversing it gives back that list.
\<close>

theorem h_traverse_roundtrip:
  fixes kvs :: "(cstring \<times> 'v) list"
  assumes "sz \<noteq> 0" "distinct (map fst kvs)" "length kvs < fuel"
  shows "\<exists>h0 h. h_init True True sz = Some h0 \<and> h_insert_all h0 kvs = Some h \<and>
           h_traverse fuel h = Some (kvs, h)"
proof -
  obtain h0 :: "'v h_hash" where h0: "h_init True True sz = Some h0" "h_wf h0"
      "h_entries h0 = []" "order_next h0 = None"
    using h_init_wf [OF assms(1)] by blast
  then obtain h where h: "h_insert_all h0 kvs = Some h" "h_wf h" "order_next h = None"
      "h_entries h = kvs"
    using h_insert_all_entries [of h0 kvs] assms(2) by auto
  moreover have "h_traverse fuel h = Some (h_entries h, h)"
    using h assms(3) by (intro h_traverse_entries) simp_all
  ultimately show ?thesis using h0 by auto
qed

theorem h_traverse_roundtrip_witness:
  "\<exists>h0 h. h_init True True 128 = Some h0 \<and>
     h_insert_all h0 [(''first_name'', 1), (''last_name'', 2), (''age'', 3::nat)] = Some h \<and>
     h_traverse 4 h = Some ([(''first_name'', 1), (''last_name'', 2), (''age'', 3)], h)"
  by (rule h_traverse_roundtrip) simp_all

text \<open>
  C25. \<open>h_free\<close> on a well-formed table touches no freed item and leaves none behind: every
  item is freed exactly once.
\<close>

theorem h_free_complete:
  assumes "h_wf h"
  shows "h_free h = Some Map.empty"
  using assms by (rule h_free_all)

text \<open>A small table for the witnesses, built by the operations themselves.\<close>

definition h_demo :: "nat h_hash" where
  "h_demo = the (h_insert_all (the (h_init True True 128)) [(''rev'', 7), (''verse'', 9)])"

lemma h_demo_ok:
  shows h_demo_wf: "h_wf h_demo" and h_demo_entries: "h_entries h_demo = [(''rev'', 7), (''verse'', 9)]"
    and h_demo_cursor: "order_next h_demo = None"
proof -
  obtain h0 where h0: "h_init True True (128 :: 32 word) = Some (h0 :: nat h_hash)" "h_wf h0"
      "h_entries h0 = []" "order_next h0 = None"
    using h_init_wf [of "128 :: 32 word"] by auto
  then show "h_wf h_demo" "h_entries h_demo = [(''rev'', 7), (''verse'', 9)]" "order_next h_demo = None"
    using h_insert_all_entries [of h0 "[(''rev'', 7), (''verse'', 9)]"] by (auto simp: h_demo_def)
qed

theorem h_get_after_insert_witness:
  "\<exists>h'. h_insert True h_demo ''latest'' 5 = Some (0, h') \<and> h_wf h' \<and>
     (\<forall>k'. h_get h' k' = (if k' = ''latest'' then Some (Some 5) else h_get h_demo k'))"
  by (rule h_get_after_insert) (simp_all add: hh.get_entries h_demo_wf h_demo_entries)

lemma h_get_after_remove_witness:
  "\<exists>r h'. h_remove h_demo ''rev'' = Some (r, h') \<and> h_wf h' \<and>
     (\<forall>k'. h_get h' k' = (if k' = ''rev'' then Some None else h_get h_demo k'))"
  by (rule h_get_after_remove [OF h_demo_wf])

theorem h_free_complete_witness: "h_free h_demo = Some Map.empty"
  by (rule h_free_complete [OF h_demo_wf])

end
