(* ===== verification/Rbtree.thy ===== *)
theory Rbtree
  imports MQ_Prelude
begin

text \<open>
  The red-black tree of \<open>src/src/rbtree.c\<close> and \<open>rbtree.h\<close>, at the level of its pointers: a
  memory maps addresses to nodes with parent, left and right pointers and a colour, and each
  C function is a partial function on the memory and the root pointer. The theory
  \<open>Rbtree_Proofs\<close> relates them to trees.
\<close>

subsection \<open>Nodes and memory\<close>

text \<open>The word \<open>rb_parent_color\<close> packs the parent pointer and the colour; here they are two fields.\<close>

datatype rb_color = RB_RED | RB_BLACK

record rb_node =
  rb_parent :: "addr option"
  rb_color :: rb_color
  rb_right :: "addr option"
  rb_left :: "addr option"

type_synonym rb_mem = "addr \<Rightarrow> rb_node option"

definition rb_is_red :: "rb_mem \<Rightarrow> addr \<Rightarrow> bool option" where
  "rb_is_red m a = do { n \<leftarrow> m a; Some (rb_color n = RB_RED) }"

definition rb_is_black :: "rb_mem \<Rightarrow> addr \<Rightarrow> bool option" where
  "rb_is_black m a = do { n \<leftarrow> m a; Some (rb_color n = RB_BLACK) }"

text \<open>The test \<open>!p || rb_is_black(p)\<close>.\<close>

definition null_or_black :: "rb_mem \<Rightarrow> addr option \<Rightarrow> bool option" where
  "null_or_black m p = (case p of None \<Rightarrow> Some True | Some a \<Rightarrow> rb_is_black m a)"

definition rb_set_parent :: "addr \<Rightarrow> addr option \<Rightarrow> rb_mem \<Rightarrow> rb_mem option" where
  "rb_set_parent a p m = do { n \<leftarrow> m a; Some (m(a \<mapsto> n\<lparr>rb_parent := p\<rparr>)) }"

definition rb_set_color :: "addr \<Rightarrow> rb_color \<Rightarrow> rb_mem \<Rightarrow> rb_mem option" where
  "rb_set_color a c m = do { n \<leftarrow> m a; Some (m(a \<mapsto> n\<lparr>rb_color := c\<rparr>)) }"

abbreviation rb_set_red :: "addr \<Rightarrow> rb_mem \<Rightarrow> rb_mem option" where
  "rb_set_red a m \<equiv> rb_set_color a RB_RED m"

abbreviation rb_set_black :: "addr \<Rightarrow> rb_mem \<Rightarrow> rb_mem option" where
  "rb_set_black a m \<equiv> rb_set_color a RB_BLACK m"

text \<open>Assignments to the fields \<open>rb_left\<close> and \<open>rb_right\<close>.\<close>

definition set_left :: "addr \<Rightarrow> addr option \<Rightarrow> rb_mem \<Rightarrow> rb_mem option" where
  "set_left a p m = do { n \<leftarrow> m a; Some (m(a \<mapsto> n\<lparr>rb_left := p\<rparr>)) }"

definition set_right :: "addr \<Rightarrow> addr option \<Rightarrow> rb_mem \<Rightarrow> rb_mem option" where
  "set_right a p m = do { n \<leftarrow> m a; Some (m(a \<mapsto> n\<lparr>rb_right := p\<rparr>)) }"

text \<open>\<open>if (p) rb_set_parent(p, q)\<close>.\<close>

definition set_parent_if :: "addr option \<Rightarrow> addr option \<Rightarrow> rb_mem \<Rightarrow> rb_mem option" where
  "set_parent_if p q m = (case p of None \<Rightarrow> Some m | Some a \<Rightarrow> rb_set_parent a q m)"

text \<open>
  \<open>rb_link_node\<close> initialises the node and stores it where \<open>rb_link\<close> points: into the root, or
  into the left or right field of the parent.
\<close>

datatype rb_link = At_Root | At_Left addr | At_Right addr

definition rb_link_node ::
  "addr \<Rightarrow> addr option \<Rightarrow> rb_link \<Rightarrow> rb_mem \<Rightarrow> addr option \<Rightarrow> (rb_mem \<times> addr option) option" where
  "rb_link_node node parent lnk m root =
     (let m = m(node \<mapsto> \<lparr>rb_parent = parent, rb_color = RB_RED, rb_right = None, rb_left = None\<rparr>)
      in case lnk of
           At_Root \<Rightarrow> Some (m, Some node)
         | At_Left p \<Rightarrow> do { m \<leftarrow> set_left p (Some node) m; Some (m, root) }
         | At_Right p \<Rightarrow> do { m \<leftarrow> set_right p (Some node) m; Some (m, root) })"

subsection \<open>Rotations\<close>

definition rb_rotate_left :: "addr \<Rightarrow> rb_mem \<Rightarrow> addr option \<Rightarrow> (rb_mem \<times> addr option) option" where
  "rb_rotate_left node m root =
     do {
       n \<leftarrow> m node;
       right \<leftarrow> rb_right n;
       let parent = rb_parent n;
       r \<leftarrow> m right;
       m \<leftarrow> set_right node (rb_left r) m;
       m \<leftarrow> set_parent_if (rb_left r) (Some node) m;
       m \<leftarrow> set_left right (Some node) m;
       m \<leftarrow> rb_set_parent right parent m;
       (m, root) \<leftarrow>
         (case parent of
            Some p \<Rightarrow>
              do {
                pn \<leftarrow> m p;
                m \<leftarrow> (if rb_left pn = Some node then set_left p (Some right) m
                      else set_right p (Some right) m);
                Some (m, root)
              }
          | None \<Rightarrow> Some (m, Some right));
       m \<leftarrow> rb_set_parent node (Some right) m;
       Some (m, root)
     }"

definition rb_rotate_right :: "addr \<Rightarrow> rb_mem \<Rightarrow> addr option \<Rightarrow> (rb_mem \<times> addr option) option" where
  "rb_rotate_right node m root =
     do {
       n \<leftarrow> m node;
       left \<leftarrow> rb_left n;
       let parent = rb_parent n;
       l \<leftarrow> m left;
       m \<leftarrow> set_left node (rb_right l) m;
       m \<leftarrow> set_parent_if (rb_right l) (Some node) m;
       m \<leftarrow> set_right left (Some node) m;
       m \<leftarrow> rb_set_parent left parent m;
       (m, root) \<leftarrow>
         (case parent of
            Some p \<Rightarrow>
              do {
                pn \<leftarrow> m p;
                m \<leftarrow> (if rb_right pn = Some node then set_right p (Some left) m
                      else set_left p (Some left) m);
                Some (m, root)
              }
          | None \<Rightarrow> Some (m, Some left));
       m \<leftarrow> rb_set_parent node (Some left) m;
       Some (m, root)
     }"

subsection \<open>Rebalancing after an insertion\<close>

text \<open>The test \<open>uncle && rb_is_red(uncle)\<close>.\<close>

definition is_red_node :: "rb_mem \<Rightarrow> addr option \<Rightarrow> bool option" where
  "is_red_node m p = (case p of None \<Rightarrow> Some False | Some a \<Rightarrow> rb_is_red m a)"

text \<open>
  One round of the loop of \<open>rb_insert_color\<close>, for a red parent: the next node and the updated
  tree. The first two cases are the branch \<open>parent == gparent->rb_left\<close>.
\<close>

definition insert_color_step ::
  "addr \<Rightarrow> addr \<Rightarrow> addr \<Rightarrow> rb_mem \<Rightarrow> addr option \<Rightarrow> (addr \<times> rb_mem \<times> addr option) option" where
  "insert_color_step node parent gparent m root =
     do {
       g \<leftarrow> m gparent;
       if rb_left g = Some parent then
         do {
           red \<leftarrow> is_red_node m (rb_right g);
           if red then
             do {
               uncle \<leftarrow> rb_right g;
               m \<leftarrow> rb_set_black uncle m;
               m \<leftarrow> rb_set_black parent m;
               m \<leftarrow> rb_set_red gparent m;
               Some (gparent, m, root)
             }
           else
             do {
               pn \<leftarrow> m parent;
               (node, parent, m, root) \<leftarrow>
                 (if rb_right pn = Some node then
                    do {
                      (m, root) \<leftarrow> rb_rotate_left parent m root;
                      Some (parent, node, m, root)
                    }
                  else Some (node, parent, m, root));
               m \<leftarrow> rb_set_black parent m;
               m \<leftarrow> rb_set_red gparent m;
               (m, root) \<leftarrow> rb_rotate_right gparent m root;
               Some (node, m, root)
             }
         }
       else
         do {
           red \<leftarrow> is_red_node m (rb_left g);
           if red then
             do {
               uncle \<leftarrow> rb_left g;
               m \<leftarrow> rb_set_black uncle m;
               m \<leftarrow> rb_set_black parent m;
               m \<leftarrow> rb_set_red gparent m;
               Some (gparent, m, root)
             }
           else
             do {
               pn \<leftarrow> m parent;
               (node, parent, m, root) \<leftarrow>
                 (if rb_left pn = Some node then
                    do {
                      (m, root) \<leftarrow> rb_rotate_right parent m root;
                      Some (parent, node, m, root)
                    }
                  else Some (node, parent, m, root));
               m \<leftarrow> rb_set_black parent m;
               m \<leftarrow> rb_set_red gparent m;
               (m, root) \<leftarrow> rb_rotate_left gparent m root;
               Some (node, m, root)
             }
         }
     }"

partial_function (option) insert_color_loop ::
  "addr \<Rightarrow> rb_mem \<Rightarrow> addr option \<Rightarrow> (rb_mem \<times> addr option) option" where
  "insert_color_loop node m root =
     do {
       n \<leftarrow> m node;
       case rb_parent n of
         None \<Rightarrow> Some (m, root)
       | Some parent \<Rightarrow>
           do {
             pn \<leftarrow> m parent;
             if rb_color pn = RB_RED then
               do {
                 gparent \<leftarrow> rb_parent pn;
                 (node, m, root) \<leftarrow> insert_color_step node parent gparent m root;
                 insert_color_loop node m root
               }
             else Some (m, root)
           }
     }"

declare insert_color_loop.simps [code]

definition rb_insert_color :: "addr \<Rightarrow> rb_mem \<Rightarrow> addr option \<Rightarrow> (rb_mem \<times> addr option) option" where
  "rb_insert_color node m root =
     do {
       (m, root) \<leftarrow> insert_color_loop node m root;
       r \<leftarrow> root;
       m \<leftarrow> rb_set_black r m;
       Some (m, root)
     }"

subsection \<open>Rebalancing after a removal\<close>

text \<open>
  One round of the loop of \<open>__rb_erase_color\<close>. The result says whether the loop goes on (the
  first component is \<open>False\<close> after \<open>break\<close>), and gives the next \<open>node\<close> and \<open>parent\<close>.
  \<open>erase_color_left\<close> is the branch \<open>parent->rb_left == node\<close>.
\<close>

type_synonym erase_state = "bool \<times> addr option \<times> addr option \<times> rb_mem \<times> addr option"

definition erase_color_left :: "addr \<Rightarrow> rb_mem \<Rightarrow> addr option \<Rightarrow> erase_state option" where
  "erase_color_left parent m root =
     do {
       pn \<leftarrow> m parent;
       other \<leftarrow> rb_right pn;
       red \<leftarrow> rb_is_red m other;
       (other, m, root) \<leftarrow>
         (if red then
            do {
              m \<leftarrow> rb_set_black other m;
              m \<leftarrow> rb_set_red parent m;
              (m, root) \<leftarrow> rb_rotate_left parent m root;
              pn \<leftarrow> m parent;
              other \<leftarrow> rb_right pn;
              Some (other, m, root)
            }
          else Some (other, m, root));
       on \<leftarrow> m other;
       lb \<leftarrow> null_or_black m (rb_left on);
       rb \<leftarrow> null_or_black m (rb_right on);
       if lb \<and> rb then
         do {
           m \<leftarrow> rb_set_red other m;
           pn \<leftarrow> m parent;
           Some (True, Some parent, rb_parent pn, m, root)
         }
       else
         do {
           (other, m, root) \<leftarrow>
             (if rb then
                do {
                  ol \<leftarrow> rb_left on;
                  m \<leftarrow> rb_set_black ol m;
                  m \<leftarrow> rb_set_red other m;
                  (m, root) \<leftarrow> rb_rotate_right other m root;
                  pn \<leftarrow> m parent;
                  other \<leftarrow> rb_right pn;
                  Some (other, m, root)
                }
              else Some (other, m, root));
           pn \<leftarrow> m parent;
           m \<leftarrow> rb_set_color other (rb_color pn) m;
           m \<leftarrow> rb_set_black parent m;
           on \<leftarrow> m other;
           or \<leftarrow> rb_right on;
           m \<leftarrow> rb_set_black or m;
           (m, root) \<leftarrow> rb_rotate_left parent m root;
           Some (False, root, Some parent, m, root)
         }
     }"

definition erase_color_right :: "addr \<Rightarrow> rb_mem \<Rightarrow> addr option \<Rightarrow> erase_state option" where
  "erase_color_right parent m root =
     do {
       pn \<leftarrow> m parent;
       other \<leftarrow> rb_left pn;
       red \<leftarrow> rb_is_red m other;
       (other, m, root) \<leftarrow>
         (if red then
            do {
              m \<leftarrow> rb_set_black other m;
              m \<leftarrow> rb_set_red parent m;
              (m, root) \<leftarrow> rb_rotate_right parent m root;
              pn \<leftarrow> m parent;
              other \<leftarrow> rb_left pn;
              Some (other, m, root)
            }
          else Some (other, m, root));
       on \<leftarrow> m other;
       lb \<leftarrow> null_or_black m (rb_left on);
       rb \<leftarrow> null_or_black m (rb_right on);
       if lb \<and> rb then
         do {
           m \<leftarrow> rb_set_red other m;
           pn \<leftarrow> m parent;
           Some (True, Some parent, rb_parent pn, m, root)
         }
       else
         do {
           (other, m, root) \<leftarrow>
             (if lb then
                do {
                  or \<leftarrow> rb_right on;
                  m \<leftarrow> rb_set_black or m;
                  m \<leftarrow> rb_set_red other m;
                  (m, root) \<leftarrow> rb_rotate_left other m root;
                  pn \<leftarrow> m parent;
                  other \<leftarrow> rb_left pn;
                  Some (other, m, root)
                }
              else Some (other, m, root));
           pn \<leftarrow> m parent;
           m \<leftarrow> rb_set_color other (rb_color pn) m;
           m \<leftarrow> rb_set_black parent m;
           on \<leftarrow> m other;
           ol \<leftarrow> rb_left on;
           m \<leftarrow> rb_set_black ol m;
           (m, root) \<leftarrow> rb_rotate_right parent m root;
           Some (False, root, Some parent, m, root)
         }
     }"

partial_function (option) erase_color_loop ::
  "addr option \<Rightarrow> addr option \<Rightarrow> rb_mem \<Rightarrow> addr option \<Rightarrow> (addr option \<times> rb_mem \<times> addr option) option"
where
  "erase_color_loop node parent m root =
     do {
       blk \<leftarrow> null_or_black m node;
       if blk \<and> node \<noteq> root then
         do {
           p \<leftarrow> parent;
           pn \<leftarrow> m p;
           (go, node, parent, m, root) \<leftarrow>
             (if rb_left pn = node then erase_color_left p m root else erase_color_right p m root);
           if go then erase_color_loop node parent m root else Some (node, m, root)
         }
       else Some (node, m, root)
     }"

declare erase_color_loop.simps [code]

definition rb_erase_color ::
  "addr option \<Rightarrow> addr option \<Rightarrow> rb_mem \<Rightarrow> addr option \<Rightarrow> (rb_mem \<times> addr option) option" where
  "rb_erase_color node parent m root =
     do {
       (node, m, root) \<leftarrow> erase_color_loop node parent m root;
       m \<leftarrow> (case node of None \<Rightarrow> Some m | Some a \<Rightarrow> rb_set_black a m);
       Some (m, root)
     }"

text \<open>\<open>while ((left = node->rb_left) != NULL) node = left;\<close>\<close>

partial_function (option) leftmost :: "addr \<Rightarrow> rb_mem \<Rightarrow> addr option" where
  "leftmost node m =
     do {
       n \<leftarrow> m node;
       case rb_left n of None \<Rightarrow> Some node | Some l \<Rightarrow> leftmost l m
     }"

declare leftmost.simps [code]

partial_function (option) rightmost :: "addr \<Rightarrow> rb_mem \<Rightarrow> addr option" where
  "rightmost node m =
     do {
       n \<leftarrow> m node;
       case rb_right n of None \<Rightarrow> Some node | Some r \<Rightarrow> rightmost r m
     }"

declare rightmost.simps [code]

text \<open>
  The statement \<open>if (parent) { if (parent->rb_left == old) parent->rb_left = new; else
  parent->rb_right = new; } else root->rb_node = new;\<close> that \<open>rb_erase\<close> and \<open>rb_replace_node\<close>
  repeat.
\<close>

definition replace_child ::
  "addr option \<Rightarrow> addr \<Rightarrow> addr option \<Rightarrow> rb_mem \<Rightarrow> addr option \<Rightarrow> (rb_mem \<times> addr option) option" where
  "replace_child parent old new m root =
     (case parent of
        Some p \<Rightarrow>
          do {
            pn \<leftarrow> m p;
            m \<leftarrow> (if rb_left pn = Some old then set_left p new m else set_right p new m);
            Some (m, root)
          }
      | None \<Rightarrow> Some (m, new))"

text \<open>
  \<open>rb_erase\<close> unlinks a node with at most one child; a node with two children is first
  replaced by its successor. Both give the child and parent at which the black height may
  have dropped, and the colour that left the tree.
\<close>

definition rb_unlink ::
  "addr \<Rightarrow> addr option \<Rightarrow> rb_mem \<Rightarrow> addr option \<Rightarrow>
   (addr option \<times> addr option \<times> rb_color \<times> rb_mem \<times> addr option) option" where
  "rb_unlink node child m root =
     do {
       n \<leftarrow> m node;
       let parent = rb_parent n;
       let color = rb_color n;
       m \<leftarrow> set_parent_if child parent m;
       (m, root) \<leftarrow> replace_child parent node child m root;
       Some (child, parent, color, m, root)
     }"

definition rb_replace_by_successor ::
  "addr \<Rightarrow> rb_mem \<Rightarrow> addr option \<Rightarrow>
   (addr option \<times> addr option \<times> rb_color \<times> rb_mem \<times> addr option) option" where
  "rb_replace_by_successor old m root =
     do {
       o1 \<leftarrow> m old;
       r \<leftarrow> rb_right o1;
       node \<leftarrow> leftmost r m;
       (m, root) \<leftarrow> replace_child (rb_parent o1) old (Some node) m root;
       n \<leftarrow> m node;
       let child = rb_right n;
       parent \<leftarrow> rb_parent n;
       let color = rb_color n;
       (parent, m) \<leftarrow>
         (if parent = old then Some (node, m)
          else
            do {
              m \<leftarrow> set_parent_if child (Some parent) m;
              m \<leftarrow> set_left parent child m;
              o2 \<leftarrow> m old;
              m \<leftarrow> set_right node (rb_right o2) m;
              r2 \<leftarrow> rb_right o2;
              m \<leftarrow> rb_set_parent r2 (Some node) m;
              Some (parent, m)
            });
       o3 \<leftarrow> m old;
       m \<leftarrow> rb_set_parent node (rb_parent o3) m;
       m \<leftarrow> rb_set_color node (rb_color o3) m;
       m \<leftarrow> set_left node (rb_left o3) m;
       l3 \<leftarrow> rb_left o3;
       m \<leftarrow> rb_set_parent l3 (Some node) m;
       Some (child, Some parent, color, m, root)
     }"

definition rb_erase :: "addr \<Rightarrow> rb_mem \<Rightarrow> addr option \<Rightarrow> (rb_mem \<times> addr option) option" where
  "rb_erase node m root =
     do {
       n \<leftarrow> m node;
       (child, parent, color, m, root) \<leftarrow>
         (if rb_left n = None then rb_unlink node (rb_right n) m root
          else if rb_right n = None then rb_unlink node (rb_left n) m root
          else rb_replace_by_successor node m root);
       if color = RB_BLACK then rb_erase_color child parent m root else Some (m, root)
     }"

subsection \<open>Walking and replacing\<close>

definition rb_last :: "rb_mem \<Rightarrow> addr option \<Rightarrow> addr option option" where
  "rb_last m root =
     (case root of None \<Rightarrow> Some None | Some n \<Rightarrow> do { a \<leftarrow> rightmost n m; Some (Some a) })"

text \<open>The loops of \<open>rb_next\<close> and \<open>rb_prev\<close> that climb towards the root.\<close>

partial_function (option) climb_from_right :: "addr \<Rightarrow> rb_mem \<Rightarrow> addr option option" where
  "climb_from_right node m =
     do {
       n \<leftarrow> m node;
       case rb_parent n of
         None \<Rightarrow> Some None
       | Some p \<Rightarrow>
           do {
             pn \<leftarrow> m p;
             if rb_right pn = Some node then climb_from_right p m else Some (Some p)
           }
     }"

declare climb_from_right.simps [code]

partial_function (option) climb_from_left :: "addr \<Rightarrow> rb_mem \<Rightarrow> addr option option" where
  "climb_from_left node m =
     do {
       n \<leftarrow> m node;
       case rb_parent n of
         None \<Rightarrow> Some None
       | Some p \<Rightarrow>
           do {
             pn \<leftarrow> m p;
             if rb_left pn = Some node then climb_from_left p m else Some (Some p)
           }
     }"

declare climb_from_left.simps [code]

definition rb_next :: "rb_mem \<Rightarrow> addr \<Rightarrow> addr option option" where
  "rb_next m node =
     do {
       n \<leftarrow> m node;
       if rb_parent n = Some node then Some None
       else case rb_right n of
              Some r \<Rightarrow> do { a \<leftarrow> leftmost r m; Some (Some a) }
            | None \<Rightarrow> climb_from_right node m
     }"

definition rb_prev :: "rb_mem \<Rightarrow> addr \<Rightarrow> addr option option" where
  "rb_prev m node =
     do {
       n \<leftarrow> m node;
       if rb_parent n = Some node then Some None
       else case rb_left n of
              Some l \<Rightarrow> do { a \<leftarrow> rightmost l m; Some (Some a) }
            | None \<Rightarrow> climb_from_left node m
     }"

definition rb_replace_node ::
  "addr \<Rightarrow> addr \<Rightarrow> rb_mem \<Rightarrow> addr option \<Rightarrow> (rb_mem \<times> addr option) option" where
  "rb_replace_node victim new m root =
     do {
       v \<leftarrow> m victim;
       (m, root) \<leftarrow> replace_child (rb_parent v) victim (Some new) m root;
       v1 \<leftarrow> m victim;
       m \<leftarrow> set_parent_if (rb_left v1) (Some new) m;
       m \<leftarrow> set_parent_if (rb_right v1) (Some new) m;
       v2 \<leftarrow> m victim;
       Some (m(new \<mapsto> v2), root)
     }"

end
