(* ===== verification/Rbtree_Proofs.thy ===== *)
theory Rbtree_Proofs
  imports Rbtree
begin

text \<open>
  The pointer programs of \<open>Rbtree\<close> refine operations on trees. A tree in memory is described
  by an algebraic tree of addresses and colours; a position in it by a subtree and the list of
  frames above it (a zipper). Each C function is shown to perform the corresponding zipper
  operation and to leave all other memory untouched; the red-black invariants and the in-order
  sequence are then properties of the zipper operations.
\<close>

subsection \<open>Trees and zippers\<close>

datatype tr = Lf | Nd tr addr rb_color tr

fun root_of :: "tr \<Rightarrow> addr option" where
  "root_of Lf = None"
| "root_of (Nd _ a _ _) = Some a"

fun inorder :: "tr \<Rightarrow> addr list" where
  "inorder Lf = []"
| "inorder (Nd l a _ r) = inorder l @ a # inorder r"

fun addrs :: "tr \<Rightarrow> addr set" where
  "addrs Lf = {}"
| "addrs (Nd l a _ r) = insert a (addrs l \<union> addrs r)"

fun wft :: "tr \<Rightarrow> bool" where
  "wft Lf = True"
| "wft (Nd l a _ r) =
     (a \<notin> addrs l \<and> a \<notin> addrs r \<and> addrs l \<inter> addrs r = {} \<and> wft l \<and> wft r)"

datatype frame = LFr addr rb_color tr | RFr tr addr rb_color

fun fill :: "tr \<Rightarrow> frame \<Rightarrow> tr" where
  "fill t (LFr a c r) = Nd t a c r"
| "fill t (RFr l a c) = Nd l a c t"

fun plug :: "tr \<Rightarrow> frame list \<Rightarrow> tr" where
  "plug t [] = t"
| "plug t (f # fs) = plug (fill t f) fs"

fun par :: "frame list \<Rightarrow> addr option" where
  "par [] = None"
| "par (LFr a _ _ # _) = Some a"
| "par (RFr _ a _ # _) = Some a"

fun fcol :: "frame list \<Rightarrow> rb_color" where
  "fcol [] = RB_BLACK"
| "fcol (LFr _ c _ # _) = c"
| "fcol (RFr _ _ c # _) = c"

fun faddrs :: "frame list \<Rightarrow> addr set" where
  "faddrs [] = {}"
| "faddrs (LFr a _ r # fs) = insert a (addrs r \<union> faddrs fs)"
| "faddrs (RFr l a _ # fs) = insert a (addrs l \<union> faddrs fs)"

fun wff :: "frame list \<Rightarrow> bool" where
  "wff [] = True"
| "wff (LFr a _ r # fs) =
     (a \<notin> addrs r \<and> a \<notin> faddrs fs \<and> addrs r \<inter> faddrs fs = {} \<and> wft r \<and> wff fs)"
| "wff (RFr l a _ # fs) =
     (a \<notin> addrs l \<and> a \<notin> faddrs fs \<and> addrs l \<inter> faddrs fs = {} \<and> wft l \<and> wff fs)"

lemma addrs_inorder: "addrs t = set (inorder t)"
  by (induction t) auto

lemma wft_distinct: "wft t = distinct (inorder t)"
  by (induction t) (auto simp: addrs_inorder)

lemma finite_addrs [simp]: "finite (addrs t)"
  by (simp add: addrs_inorder)

lemma root_of_None [simp]: "root_of t = None \<longleftrightarrow> t = Lf"
  by (cases t) auto

lemma root_of_addrs: "root_of t = Some a \<Longrightarrow> a \<in> addrs t"
  by (cases t) auto

lemma addrs_plug [simp]: "addrs (plug t fs) = addrs t \<union> faddrs fs"
  by (induction fs arbitrary: t rule: faddrs.induct) auto

lemma wft_plug [simp]: "wft (plug t fs) \<longleftrightarrow> wft t \<and> wff fs \<and> addrs t \<inter> faddrs fs = {}"
  by (induction fs arbitrary: t rule: faddrs.induct) auto

fun finorder :: "frame list \<Rightarrow> addr list \<times> addr list" where
  "finorder [] = ([], [])"
| "finorder (LFr a _ r # fs) = (let (x, y) = finorder fs in (x, a # inorder r @ y))"
| "finorder (RFr l a _ # fs) = (let (x, y) = finorder fs in (x @ inorder l @ [a], y))"

lemma inorder_plug:
  "inorder (plug t fs) = fst (finorder fs) @ inorder t @ snd (finorder fs)"
  by (induction fs arbitrary: t rule: finorder.induct) (auto split: prod.splits)

lemma inorder_plug_cong: "inorder t = inorder t' \<Longrightarrow> inorder (plug t fs) = inorder (plug t' fs)"
  by (simp add: inorder_plug)

lemma plug_append: "plug t (fs @ gs) = plug (plug t fs) gs"
  by (induction fs arbitrary: t) auto

fun rootf :: "addr option \<Rightarrow> frame list \<Rightarrow> addr option" where
  "rootf x [] = x"
| "rootf x (LFr a _ _ # fs) = rootf (Some a) fs"
| "rootf x (RFr _ a _ # fs) = rootf (Some a) fs"

lemma root_of_plug [simp]: "root_of (plug t fs) = rootf (root_of t) fs"
  by (induction fs arbitrary: t rule: faddrs.induct) auto

subsection \<open>Trees in memory\<close>

fun repr :: "rb_mem \<Rightarrow> addr option \<Rightarrow> tr \<Rightarrow> bool" where
  "repr m p Lf = True"
| "repr m p (Nd l a c r) =
     (m a = Some \<lparr>rb_parent = p, rb_color = c, rb_right = root_of r, rb_left = root_of l\<rparr> \<and>
      repr m (Some a) l \<and> repr m (Some a) r)"

fun reprf :: "rb_mem \<Rightarrow> addr option \<Rightarrow> frame list \<Rightarrow> bool" where
  "reprf m x [] = True"
| "reprf m x (LFr a c r # fs) =
     (m a = Some \<lparr>rb_parent = par fs, rb_color = c, rb_right = root_of r, rb_left = x\<rparr> \<and>
      repr m (Some a) r \<and> reprf m (Some a) fs)"
| "reprf m x (RFr l a c # fs) =
     (m a = Some \<lparr>rb_parent = par fs, rb_color = c, rb_right = x, rb_left = root_of l\<rparr> \<and>
      repr m (Some a) l \<and> reprf m (Some a) fs)"

lemma repr_plug: "repr m None (plug t fs) \<longleftrightarrow> repr m (par fs) t \<and> reprf m (root_of t) fs"
  by (induction fs arbitrary: t rule: faddrs.induct) auto

lemma repr_upd [simp, frame_simps]: "a \<notin> addrs t \<Longrightarrow> repr (m(a := v)) p t = repr m p t"
  by (induction t arbitrary: p) auto

lemma reprf_upd [simp, frame_simps]: "a \<notin> faddrs fs \<Longrightarrow> reprf (m(a := v)) x fs = reprf m x fs"
  by (induction fs arbitrary: x rule: faddrs.induct) auto

lemma repr_dom: "repr m p t \<Longrightarrow> addrs t \<subseteq> dom m"
  by (induction t arbitrary: p) fastforce+

lemma repr_cong: "(\<And>a. a \<in> addrs t \<Longrightarrow> m a = m' a) \<Longrightarrow> repr m p t = repr m' p t"
  by (induction t arbitrary: p) auto

text \<open>
  \<open>zip_at m root t fs\<close>: memory \<open>m\<close> and root pointer \<open>root\<close> hold the tree \<open>plug t fs\<close>, without
  sharing.
\<close>

definition zip_at :: "rb_mem \<Rightarrow> addr option \<Rightarrow> tr \<Rightarrow> frame list \<Rightarrow> bool" where
  "zip_at m root t fs \<longleftrightarrow>
     repr m (par fs) t \<and> reprf m (root_of t) fs \<and> wft t \<and> wff fs \<and> addrs t \<inter> faddrs fs = {} \<and>
     root = root_of (plug t fs)"

definition tree_at :: "rb_mem \<Rightarrow> addr option \<Rightarrow> tr \<Rightarrow> bool" where
  "tree_at m root t \<longleftrightarrow> repr m None t \<and> wft t \<and> root = root_of t"

text \<open>Memory outside a set of addresses is unchanged.\<close>

definition same_outside :: "addr set \<Rightarrow> rb_mem \<Rightarrow> rb_mem \<Rightarrow> bool" where
  "same_outside S m m' \<longleftrightarrow> (\<forall>a. a \<notin> S \<longrightarrow> m' a = m a)"

lemma same_outside_refl [simp]: "same_outside S m m"
  by (simp add: same_outside_def)

lemma same_outside_trans: "same_outside S m m' \<Longrightarrow> same_outside S m' m'' \<Longrightarrow> same_outside S m m''"
  by (simp add: same_outside_def)

lemma same_outside_upd [simp, intro]:
  "same_outside S m m' \<Longrightarrow> a \<in> S \<Longrightarrow> same_outside S m (m'(a := v))"
  by (simp add: same_outside_def)

lemma zip_at_tree: "zip_at m root t fs \<longleftrightarrow> tree_at m root (plug t fs)"
  by (auto simp: zip_at_def tree_at_def repr_plug)

lemma zip_at_down_left: "zip_at m root (Nd l a c r) fs = zip_at m root l (LFr a c r # fs)"
  by (simp add: zip_at_tree)

lemma zip_at_down_right: "zip_at m root (Nd l a c r) fs = zip_at m root r (RFr l a c # fs)"
  by (simp add: zip_at_tree)

subsection \<open>Primitive updates\<close>

lemmas prim_defs = rb_set_parent_def rb_set_color_def set_left_def set_right_def set_parent_if_def
  rb_is_red_def rb_is_black_def null_or_black_def is_red_node_def Let_def

lemmas disj_simps = Int_Un_distrib Int_Un_distrib2 Int_commute

fun tcol :: "tr \<Rightarrow> rb_color" where
  "tcol Lf = RB_BLACK"
| "tcol (Nd _ _ c _) = c"

fun paint :: "rb_color \<Rightarrow> tr \<Rightarrow> tr" where
  "paint c Lf = Lf"
| "paint c (Nd l a _ r) = Nd l a c r"

lemma addrs_paint [simp]: "addrs (paint c t) = addrs t"
  and root_of_paint [simp]: "root_of (paint c t) = root_of t"
  and wft_paint [simp]: "wft (paint c t) = wft t"
  and inorder_paint [simp]: "inorder (paint c t) = inorder t"
  by (cases t; simp)+

lemma is_red_node_repr: "repr m p t \<Longrightarrow> is_red_node m (root_of t) = Some (tcol t = RB_RED)"
  by (cases t) (auto simp: prim_defs)

lemma null_or_black_repr: "repr m p t \<Longrightarrow> null_or_black m (root_of t) = Some (tcol t = RB_BLACK)"
  by (cases t) (auto simp: prim_defs)

text \<open>Recolouring the root of the subtree in focus.\<close>

lemma set_color_zip:
  assumes "zip_at m root (Nd l a c r) fs"
  shows "\<exists>m'. rb_set_color a c' m = Some m' \<and> zip_at m' root (Nd l a c' r) fs \<and>
           same_outside (addrs (Nd l a c r) \<union> faddrs fs) m m'"
  using assms by (auto simp: zip_at_def prim_defs)

subsection \<open>Rotations\<close>

lemma rotate_left_zip:
  assumes z: "zip_at m root (Nd a x c (Nd b y d e)) fs"
  shows "\<exists>m' root'. rb_rotate_left x m root = Some (m', root') \<and>
           zip_at m' root' (Nd (Nd a x c b) y d e) fs \<and>
           same_outside (addrs (Nd a x c (Nd b y d e)) \<union> faddrs fs) m m'"
proof (cases fs rule: par.cases)
  case 1
  with z show ?thesis
    by (cases b) (auto simp: zip_at_def rb_rotate_left_def prim_defs disj_simps)
next
  case (2 p pc pr gs)
  with z show ?thesis
    by (cases b) (auto simp: zip_at_def rb_rotate_left_def prim_defs disj_simps)
next
  case (3 pl p pc gs)
  with z show ?thesis
    by (cases b) (auto simp: zip_at_def rb_rotate_left_def prim_defs disj_simps dest: root_of_addrs)
qed

lemma rotate_right_zip:
  assumes z: "zip_at m root (Nd (Nd a x c b) y d e) fs"
  shows "\<exists>m' root'. rb_rotate_right y m root = Some (m', root') \<and>
           zip_at m' root' (Nd a x c (Nd b y d e)) fs \<and>
           same_outside (addrs (Nd (Nd a x c b) y d e) \<union> faddrs fs) m m'"
proof (cases fs rule: par.cases)
  case 1
  with z show ?thesis
    by (cases b) (auto simp: zip_at_def rb_rotate_right_def prim_defs disj_simps)
next
  case (2 p pc pr gs)
  with z show ?thesis
    by (cases b) (auto simp: zip_at_def rb_rotate_right_def prim_defs disj_simps dest: root_of_addrs)
next
  case (3 pl p pc gs)
  with z show ?thesis
    by (cases b) (auto simp: zip_at_def rb_rotate_right_def prim_defs disj_simps)
qed

subsection \<open>Rebalancing after an insertion refines a zipper operation\<close>

lemma insert_step_red_left:
  assumes "zip_at m root (Nd (Nd pl p RB_RED pr) g gc (Nd ul u RB_RED ur)) fs"
  shows "\<exists>m'. insert_color_step n p g m root = Some (g, m', root) \<and>
     zip_at m' root (Nd (Nd pl p RB_BLACK pr) g RB_RED (Nd ul u RB_BLACK ur)) fs \<and>
     same_outside (addrs (Nd (Nd pl p RB_RED pr) g gc (Nd ul u RB_RED ur)) \<union> faddrs fs) m m'"
  using assms by (auto simp: zip_at_def insert_color_step_def prim_defs disj_simps)

lemma insert_step_red_right:
  assumes "zip_at m root (Nd (Nd ul u RB_RED ur) g gc (Nd pl p RB_RED pr)) fs"
  shows "\<exists>m'. insert_color_step n p g m root = Some (g, m', root) \<and>
     zip_at m' root (Nd (Nd ul u RB_BLACK ur) g RB_RED (Nd pl p RB_BLACK pr)) fs \<and>
     same_outside (addrs (Nd (Nd ul u RB_RED ur) g gc (Nd pl p RB_RED pr)) \<union> faddrs fs) m m'"
  using assms by (auto simp: zip_at_def insert_color_step_def prim_defs disj_simps)

text \<open>
  What the last three statements of both black-uncle branches do, with the parent on the
  outside: blacken the parent, redden the grandparent, rotate it.
\<close>

lemma insert_finish_left:
  assumes z: "zip_at m root (Nd (Nd pl p pc pr) g gc u) fs"
  shows "\<exists>m1 m2 m3 root'. rb_set_black p m = Some m1 \<and> rb_set_red g m1 = Some m2 \<and>
     rb_rotate_right g m2 root = Some (m3, root') \<and>
     zip_at m3 root' (Nd pl p RB_BLACK (Nd pr g RB_RED u)) fs \<and>
     same_outside (addrs (Nd (Nd pl p pc pr) g gc u) \<union> faddrs fs) m m3"
proof -
  let ?S = "addrs (Nd (Nd pl p pc pr) g gc u) \<union> faddrs fs"
  obtain m1 where m1: "rb_set_black p m = Some m1"
      "zip_at m1 root (Nd pl p RB_BLACK pr) (LFr g gc u # fs)" "same_outside ?S m m1"
    using set_color_zip [of m root pl p pc pr "LFr g gc u # fs" RB_BLACK] z
    by (auto simp: zip_at_down_left [symmetric] insert_commute Un_ac)
  obtain m2 where m2: "rb_set_red g m1 = Some m2"
      "zip_at m2 root (Nd (Nd pl p RB_BLACK pr) g RB_RED u) fs" "same_outside ?S m1 m2"
    using set_color_zip [of m1 root "Nd pl p RB_BLACK pr" g gc u fs RB_RED] m1(2)
    by (auto simp: zip_at_down_left [symmetric])
  obtain m3 root' where m3: "rb_rotate_right g m2 root = Some (m3, root')"
      "zip_at m3 root' (Nd pl p RB_BLACK (Nd pr g RB_RED u)) fs" "same_outside ?S m2 m3"
    using rotate_right_zip [OF m2(2)] by auto
  show ?thesis
    using m1 m2 m3 by (blast intro: same_outside_trans)
qed

lemma insert_finish_right:
  assumes z: "zip_at m root (Nd u g gc (Nd pl p pc pr)) fs"
  shows "\<exists>m1 m2 m3 root'. rb_set_black p m = Some m1 \<and> rb_set_red g m1 = Some m2 \<and>
     rb_rotate_left g m2 root = Some (m3, root') \<and>
     zip_at m3 root' (Nd (Nd u g RB_RED pl) p RB_BLACK pr) fs \<and>
     same_outside (addrs (Nd u g gc (Nd pl p pc pr)) \<union> faddrs fs) m m3"
proof -
  let ?S = "addrs (Nd u g gc (Nd pl p pc pr)) \<union> faddrs fs"
  obtain m1 where m1: "rb_set_black p m = Some m1"
      "zip_at m1 root (Nd pl p RB_BLACK pr) (RFr u g gc # fs)" "same_outside ?S m m1"
    using set_color_zip [of m root pl p pc pr "RFr u g gc # fs" RB_BLACK] z
    by (auto simp: zip_at_down_right [symmetric] insert_commute Un_ac)
  obtain m2 where m2: "rb_set_red g m1 = Some m2"
      "zip_at m2 root (Nd u g RB_RED (Nd pl p RB_BLACK pr)) fs" "same_outside ?S m1 m2"
    using set_color_zip [of m1 root u g gc "Nd pl p RB_BLACK pr" fs RB_RED] m1(2)
    by (auto simp: zip_at_down_right [symmetric])
  obtain m3 root' where m3: "rb_rotate_left g m2 root = Some (m3, root')"
      "zip_at m3 root' (Nd (Nd u g RB_RED pl) p RB_BLACK pr) fs" "same_outside ?S m2 m3"
    using rotate_left_zip [OF m2(2)] by auto
  show ?thesis
    using m1 m2 m3 by (blast intro: same_outside_trans)
qed

lemma zip_at_nodes:
  assumes "zip_at m root (Nd l a c r) fs"
  shows "m a = Some \<lparr>rb_parent = par fs, rb_color = c, rb_right = root_of r, rb_left = root_of l\<rparr>"
    and "repr m (Some a) l" and "repr m (Some a) r"
    and "a \<notin> addrs l" and "a \<notin> addrs r" and "addrs l \<inter> addrs r = {}"
  using assms by (simp_all add: zip_at_def)

lemma insert_step_LL:
  assumes z: "zip_at m root (Nd (Nd t p RB_RED r) g gc u) fs"
    and u: "tcol u = RB_BLACK" and n: "root_of t = Some n"
  shows "\<exists>m' root'. insert_color_step n p g m root = Some (n, m', root') \<and>
     zip_at m' root' (Nd t p RB_BLACK (Nd r g RB_RED u)) fs \<and>
     same_outside (addrs (Nd (Nd t p RB_RED r) g gc u) \<union> faddrs fs) m m'"
proof -
  have "root_of r \<noteq> Some n"
    using z n by (auto simp: zip_at_def dest!: root_of_addrs)
  then show ?thesis
    using insert_finish_left [OF z] zip_at_nodes(1-3) [OF z] is_red_node_repr [of m "Some g" u] u
    by (force simp: insert_color_step_def)
qed

lemma insert_step_RR:
  assumes z: "zip_at m root (Nd u g gc (Nd l p RB_RED t)) fs"
    and u: "tcol u = RB_BLACK" and n: "root_of t = Some n"
  shows "\<exists>m' root'. insert_color_step n p g m root = Some (n, m', root') \<and>
     zip_at m' root' (Nd (Nd u g RB_RED l) p RB_BLACK t) fs \<and>
     same_outside (addrs (Nd u g gc (Nd l p RB_RED t)) \<union> faddrs fs) m m'"
proof -
  have "root_of l \<noteq> Some n" "root_of u \<noteq> Some p"
    using z n by (auto simp: zip_at_def dest!: root_of_addrs)
  then show ?thesis
    using insert_finish_right [OF z] zip_at_nodes(1-3) [OF z] is_red_node_repr [of m "Some g" u] u
    by (force simp: insert_color_step_def)
qed

lemma insert_step_LR:
  assumes z: "zip_at m root (Nd (Nd l p RB_RED (Nd t1 n tc t2)) g gc u) fs"
    and u: "tcol u = RB_BLACK"
  shows "\<exists>m' root'. insert_color_step n p g m root = Some (p, m', root') \<and>
     zip_at m' root' (Nd (Nd l p RB_RED t1) n RB_BLACK (Nd t2 g RB_RED u)) fs \<and>
     same_outside (addrs (Nd (Nd l p RB_RED (Nd t1 n tc t2)) g gc u) \<union> faddrs fs) m m'"
proof -
  let ?S = "addrs (Nd (Nd l p RB_RED (Nd t1 n tc t2)) g gc u) \<union> faddrs fs"
  obtain m1 root1 where m1: "rb_rotate_left p m root = Some (m1, root1)"
      "zip_at m1 root1 (Nd (Nd (Nd l p RB_RED t1) n tc t2) g gc u) fs" "same_outside ?S m m1"
    using rotate_left_zip [of m root l p RB_RED t1 n tc t2 "LFr g gc u # fs"] z
    by (auto simp: zip_at_down_left [symmetric] insert_commute Un_ac)
  obtain m2 m3 m4 root2 where m4: "rb_set_black n m1 = Some m2" "rb_set_red g m2 = Some m3"
      "rb_rotate_right g m3 root1 = Some (m4, root2)"
      "zip_at m4 root2 (Nd (Nd l p RB_RED t1) n RB_BLACK (Nd t2 g RB_RED u)) fs"
      "same_outside ?S m1 m4"
    using insert_finish_left [OF m1(2)] by (auto simp: insert_commute Un_ac)
  show ?thesis
    using m1 m4 zip_at_nodes(1-3) [OF z] is_red_node_repr [of m "Some g" u] u
      same_outside_trans [OF m1(3) m4(5)]
    by (simp add: insert_color_step_def)
qed

lemma insert_step_RL:
  assumes z: "zip_at m root (Nd u g gc (Nd (Nd t1 n tc t2) p RB_RED r)) fs"
    and u: "tcol u = RB_BLACK"
  shows "\<exists>m' root'. insert_color_step n p g m root = Some (p, m', root') \<and>
     zip_at m' root' (Nd (Nd u g RB_RED t1) n RB_BLACK (Nd t2 p RB_RED r)) fs \<and>
     same_outside (addrs (Nd u g gc (Nd (Nd t1 n tc t2) p RB_RED r)) \<union> faddrs fs) m m'"
proof -
  let ?S = "addrs (Nd u g gc (Nd (Nd t1 n tc t2) p RB_RED r)) \<union> faddrs fs"
  have "root_of u \<noteq> Some p"
    using z by (auto simp: zip_at_def dest!: root_of_addrs)
  moreover obtain m1 root1 where m1: "rb_rotate_right p m root = Some (m1, root1)"
      "zip_at m1 root1 (Nd u g gc (Nd t1 n tc (Nd t2 p RB_RED r))) fs" "same_outside ?S m m1"
    using rotate_right_zip [of m root t1 n tc t2 p RB_RED r "RFr u g gc # fs"] z
    by (auto simp: zip_at_down_right [symmetric] insert_commute Un_ac)
  moreover obtain m2 m3 m4 root2 where m4: "rb_set_black n m1 = Some m2" "rb_set_red g m2 = Some m3"
      "rb_rotate_left g m3 root1 = Some (m4, root2)"
      "zip_at m4 root2 (Nd (Nd u g RB_RED t1) n RB_BLACK (Nd t2 p RB_RED r)) fs"
      "same_outside ?S m1 m4"
    using insert_finish_right [OF m1(2)] by (auto simp: insert_commute Un_ac)
  ultimately show ?thesis
    using zip_at_nodes(1-3) [OF z] is_red_node_repr [of m "Some g" u] u
      same_outside_trans [OF m1(3) m4(5)]
    by (simp add: insert_color_step_def)
qed

text \<open>The zipper operation: the repair starts at a red subtree below the frames.\<close>

fun ins_fix :: "tr \<Rightarrow> frame list \<Rightarrow> tr" where
  "ins_fix t (LFr p RB_RED r # LFr g gc u # fs) =
     (if tcol u = RB_RED then ins_fix (Nd (Nd t p RB_BLACK r) g RB_RED (paint RB_BLACK u)) fs
      else plug (Nd t p RB_BLACK (Nd r g RB_RED u)) fs)"
| "ins_fix (Nd t1 n tc t2) (RFr l p RB_RED # LFr g gc u # fs) =
     (if tcol u = RB_RED
      then ins_fix (Nd (Nd l p RB_BLACK (Nd t1 n tc t2)) g RB_RED (paint RB_BLACK u)) fs
      else plug (Nd (Nd l p RB_RED t1) n RB_BLACK (Nd t2 g RB_RED u)) fs)"
| "ins_fix (Nd t1 n tc t2) (LFr p RB_RED r # RFr u g gc # fs) =
     (if tcol u = RB_RED
      then ins_fix (Nd (paint RB_BLACK u) g RB_RED (Nd (Nd t1 n tc t2) p RB_BLACK r)) fs
      else plug (Nd (Nd u g RB_RED t1) n RB_BLACK (Nd t2 p RB_RED r)) fs)"
| "ins_fix t (RFr l p RB_RED # RFr u g gc # fs) =
     (if tcol u = RB_RED then ins_fix (Nd (paint RB_BLACK u) g RB_RED (Nd l p RB_BLACK t)) fs
      else plug (Nd (Nd u g RB_RED l) p RB_BLACK t) fs)"
| "ins_fix t fs = plug t fs"

definition top_black :: "frame list \<Rightarrow> bool" where
  "top_black fs \<longleftrightarrow> (fs \<noteq> [] \<longrightarrow> fcol [last fs] = RB_BLACK)"

lemma top_black_Nil [simp]: "top_black []"
  and top_black_sing [simp]: "top_black [f] \<longleftrightarrow> fcol [f] = RB_BLACK"
  and top_black_Cons [simp]: "top_black (f # g # fs) \<longleftrightarrow> top_black (g # fs)"
  by (simp_all add: top_black_def)

lemma top_black_tl: "top_black (f # fs) \<Longrightarrow> top_black fs"
  by (cases fs) auto

lemma insert_loop_stop:
  assumes "zip_at m root t fs" "root_of t = Some n" "fcol fs = RB_BLACK"
  shows "insert_color_loop n m root = Some (m, root)"
  using assms
  by (cases t; cases fs rule: par.cases; simp add: zip_at_def insert_color_loop.simps)

lemma insert_loop_red:
  assumes "zip_at m root t fs" "root_of t = Some n" "par fs = Some p" "fcol fs = RB_RED"
    "par (tl fs) = Some g" "insert_color_step n p g m root = Some (n', m', root')"
  shows "insert_color_loop n m root = insert_color_loop n' m' root'"
  using assms
  by (cases t; cases fs rule: par.cases; simp add: zip_at_def insert_color_loop.simps [of n])

text \<open>
  The four shapes of the black-uncle case end with a step after which the loop stops.
\<close>

lemma insert_loop_done:
  assumes z: "zip_at m root t fs" "root_of t = Some n" "par fs = Some p" "fcol fs = RB_RED"
    "par (tl fs) = Some g"
    and st: "insert_color_step n p g m root = Some (n', m', root')"
    and z': "zip_at m' root' t' (f # fs')" "root_of t' = Some n'" "fcol (f # fs') = RB_BLACK"
    and eq: "plug t' (f # fs') = ins_fix t fs"
    and out: "same_outside S m m'"
  shows "\<exists>m' root'. insert_color_loop n m root = Some (m', root') \<and>
           tree_at m' root' (ins_fix t fs) \<and> same_outside S m m'"
proof -
  have "insert_color_loop n m root = Some (m', root')"
    using insert_loop_red [OF z st] insert_loop_stop [OF z'] by simp
  with z'(1) out show ?thesis
    unfolding eq [symmetric] by (auto simp: zip_at_tree)
qed

fun sibling :: "frame \<Rightarrow> tr" where
  "sibling (LFr _ _ r) = r"
| "sibling (RFr l _ _) = l"

lemma tcol_RedE:
  assumes "tcol u = RB_RED" obtains ul a ur where "u = Nd ul a RB_RED ur"
  using assms by (cases u) auto

lemma insert_loop_black:
  assumes z: "zip_at m root t (f # f2 # fs)" and n: "root_of t = Some n"
    and red: "fcol (f # f2 # fs) = RB_RED" and u: "tcol (sibling f2) = RB_BLACK"
  shows "\<exists>m' root'. insert_color_loop n m root = Some (m', root') \<and>
           tree_at m' root' (ins_fix t (f # f2 # fs)) \<and>
           same_outside (addrs t \<union> faddrs (f # f2 # fs)) m m'"
proof -
  obtain t1 tc t2 where t: "t = Nd t1 n tc t2" using n by (cases t) auto
  note up = zip_at_down_left [symmetric] zip_at_down_right [symmetric]
  show ?thesis
  proof (cases f; cases f2)
    fix p c r g gc v assume f: "f = LFr p c r" "f2 = LFr g gc v"
    with red u have [simp]: "c = RB_RED" "tcol v = RB_BLACK" by simp_all
    from insert_step_LL [of m root t p r g gc v fs n] z n f
    obtain m' root' where st: "insert_color_step n p g m root = Some (n, m', root')"
      and zz: "zip_at m' root' t (LFr p RB_BLACK (Nd r g RB_RED v) # fs)"
      and out: "same_outside (addrs t \<union> faddrs (f # f2 # fs)) m m'"
      by (auto simp: up insert_commute Un_ac)
    show ?thesis
      by (rule insert_loop_done [OF z n _ _ _ st zz _ _ _ out]) (simp_all add: f n)
  next
    fix p c r g gc v assume f: "f = LFr p c r" "f2 = RFr v g gc"
    with red u have [simp]: "c = RB_RED" "tcol v = RB_BLACK" by simp_all
    from insert_step_RL [of m root v g gc t1 n tc t2 p r fs] z t f
    obtain m' root' where st: "insert_color_step n p g m root = Some (p, m', root')"
      and zz: "zip_at m' root' (Nd t2 p RB_RED r) (RFr (Nd v g RB_RED t1) n RB_BLACK # fs)"
      and out: "same_outside (addrs t \<union> faddrs (f # f2 # fs)) m m'"
      by (auto simp: up insert_commute Un_ac)
    show ?thesis
      by (rule insert_loop_done [OF z n _ _ _ st zz _ _ _ out]) (simp_all add: f t)
  next
    fix l p c g gc v assume f: "f = RFr l p c" "f2 = LFr g gc v"
    with red u have [simp]: "c = RB_RED" "tcol v = RB_BLACK" by simp_all
    from insert_step_LR [of m root l p t1 n tc t2 g gc v fs] z t f
    obtain m' root' where st: "insert_color_step n p g m root = Some (p, m', root')"
      and zz: "zip_at m' root' (Nd l p RB_RED t1) (LFr n RB_BLACK (Nd t2 g RB_RED v) # fs)"
      and out: "same_outside (addrs t \<union> faddrs (f # f2 # fs)) m m'"
      by (auto simp: up insert_commute Un_ac)
    show ?thesis
      by (rule insert_loop_done [OF z n _ _ _ st zz _ _ _ out]) (simp_all add: f t)
  next
    fix l p c g gc v assume f: "f = RFr l p c" "f2 = RFr v g gc"
    with red u have [simp]: "c = RB_RED" "tcol v = RB_BLACK" by simp_all
    from insert_step_RR [of m root v g gc l p t fs n] z n f
    obtain m' root' where st: "insert_color_step n p g m root = Some (n, m', root')"
      and zz: "zip_at m' root' t (RFr (Nd v g RB_RED l) p RB_BLACK # fs)"
      and out: "same_outside (addrs t \<union> faddrs (f # f2 # fs)) m m'"
      by (auto simp: up insert_commute Un_ac)
    show ?thesis
      by (rule insert_loop_done [OF z n _ _ _ st zz _ _ _ out]) (simp_all add: f n)
  qed
qed

lemma insert_step_red:
  assumes z: "zip_at m root t (f # f2 # fs)" and n: "root_of t = Some n"
    and red: "fcol (f # f2 # fs) = RB_RED" and u: "tcol (sibling f2) = RB_RED"
  shows "\<exists>p g m' t'. par (f # f2 # fs) = Some p \<and> par (f2 # fs) = Some g \<and>
     insert_color_step n p g m root = Some (g, m', root) \<and> zip_at m' root t' fs \<and>
     root_of t' = Some g \<and> ins_fix t (f # f2 # fs) = ins_fix t' fs \<and>
     addrs t' \<union> faddrs fs = addrs t \<union> faddrs (f # f2 # fs) \<and>
     same_outside (addrs t \<union> faddrs (f # f2 # fs)) m m'"
proof -
  obtain t1 tc t2 where t: "t = Nd t1 n tc t2" using n by (cases t) auto
  obtain ul v ur where v: "sibling f2 = Nd ul v RB_RED ur" using u by (rule tcol_RedE)
  note up = zip_at_down_left [symmetric] zip_at_down_right [symmetric]
  show ?thesis
  proof (cases f; cases f2)
    fix p c r g gc w assume f: "f = LFr p c r" "f2 = LFr g gc w"
    with red v z insert_step_red_left [of m root t p r g gc ul v ur fs n]
    obtain m' where "insert_color_step n p g m root = Some (g, m', root)"
      "zip_at m' root (Nd (Nd t p RB_BLACK r) g RB_RED (Nd ul v RB_BLACK ur)) fs"
      "same_outside (addrs t \<union> faddrs (f # f2 # fs)) m m'"
      by (auto simp: up insert_commute Un_ac)
    moreover have "ins_fix t (f # f2 # fs) =
      ins_fix (Nd (Nd t p RB_BLACK r) g RB_RED (Nd ul v RB_BLACK ur)) fs"
      using f red v t by simp
    ultimately show ?thesis using f v by (intro exI conjI) (assumption | auto)+
  next
    fix p c r g gc w assume f: "f = LFr p c r" "f2 = RFr w g gc"
    with red v z insert_step_red_right [of m root ul v ur g gc t p r fs n]
    obtain m' where "insert_color_step n p g m root = Some (g, m', root)"
      "zip_at m' root (Nd (Nd ul v RB_BLACK ur) g RB_RED (Nd t p RB_BLACK r)) fs"
      "same_outside (addrs t \<union> faddrs (f # f2 # fs)) m m'"
      by (auto simp: up insert_commute Un_ac)
    moreover have "ins_fix t (f # f2 # fs) =
      ins_fix (Nd (Nd ul v RB_BLACK ur) g RB_RED (Nd t p RB_BLACK r)) fs"
      using f red v t by simp
    ultimately show ?thesis using f v by (intro exI conjI) (assumption | auto)+
  next
    fix l p c g gc w assume f: "f = RFr l p c" "f2 = LFr g gc w"
    with red v z insert_step_red_left [of m root l p t g gc ul v ur fs n]
    obtain m' where "insert_color_step n p g m root = Some (g, m', root)"
      "zip_at m' root (Nd (Nd l p RB_BLACK t) g RB_RED (Nd ul v RB_BLACK ur)) fs"
      "same_outside (addrs t \<union> faddrs (f # f2 # fs)) m m'"
      by (auto simp: up insert_commute Un_ac)
    moreover have "ins_fix t (f # f2 # fs) =
      ins_fix (Nd (Nd l p RB_BLACK t) g RB_RED (Nd ul v RB_BLACK ur)) fs"
      using f red v t by simp
    ultimately show ?thesis using f v by (intro exI conjI) (assumption | auto)+
  next
    fix l p c g gc w assume f: "f = RFr l p c" "f2 = RFr w g gc"
    with red v z insert_step_red_right [of m root ul v ur g gc l p t fs n]
    obtain m' where "insert_color_step n p g m root = Some (g, m', root)"
      "zip_at m' root (Nd (Nd ul v RB_BLACK ur) g RB_RED (Nd l p RB_BLACK t)) fs"
      "same_outside (addrs t \<union> faddrs (f # f2 # fs)) m m'"
      by (auto simp: up insert_commute Un_ac)
    moreover have "ins_fix t (f # f2 # fs) =
      ins_fix (Nd (Nd ul v RB_BLACK ur) g RB_RED (Nd l p RB_BLACK t)) fs"
      using f red v t by simp
    ultimately show ?thesis using f v by (intro exI conjI) (assumption | auto)+
  qed
qed

lemma ins_fix_stop: "fcol fs = RB_BLACK \<Longrightarrow> ins_fix t fs = plug t fs"
  by (cases fs rule: par.cases; cases "(t, fs)" rule: ins_fix.cases; simp)

lemma insert_loop_zip:
  assumes "zip_at m root t fs" "root_of t = Some n" "top_black fs"
  shows "\<exists>m' root'. insert_color_loop n m root = Some (m', root') \<and>
           tree_at m' root' (ins_fix t fs) \<and> same_outside (addrs t \<union> faddrs fs) m m'"
  using assms
proof (induction "length fs" arbitrary: fs t n m root rule: less_induct)
  case less
  note z = less.prems(1) and n = less.prems(2) and top = less.prems(3)
  have stop: ?case if "fcol fs = RB_BLACK" "ins_fix t fs = plug t fs"
    using insert_loop_stop [OF z n that(1)] that(2) z by (auto simp: zip_at_tree)
  have red: ?case
    if "par fs = Some p" "fcol fs = RB_RED" "par (tl fs) = Some g"
      "insert_color_step n p g m root = Some (n', m', root')" "zip_at m' root' t' fs'"
      "root_of t' = Some n'" "ins_fix t fs = ins_fix t' fs'" "length fs' < length fs"
      "top_black fs'" "same_outside (addrs t \<union> faddrs fs) m m'"
      "addrs t' \<union> faddrs fs' = addrs t \<union> faddrs fs" for p g n' m' root' t' fs'
    using less.hyps [OF that(8) that(5,6,9)] insert_loop_red [OF z n that(1-4)] that(7,10,11)
    by (auto intro: same_outside_trans)
  show ?case
  proof (cases fs)
    case Nil
    then show ?thesis by (intro stop) simp_all
  next
    case (Cons f fs1)
    show ?thesis
    proof (cases "fcol fs")
      case RB_BLACK
      then show ?thesis by (intro stop ins_fix_stop)
    next
      case RB_RED
      with Cons top obtain f2 fs2 where fs1: "fs1 = f2 # fs2" by (cases fs1; cases f) auto
      show ?thesis
      proof (cases "tcol (sibling f2)")
        case RB_BLACK
        with insert_loop_black [of m root t f f2 fs2 n] z n \<open>fcol fs = RB_RED\<close> Cons fs1
        show ?thesis by simp
      next
        case RB_RED
        with insert_step_red [of m root t f f2 fs2 n] z n \<open>fcol fs = RB_RED\<close> Cons fs1
        obtain p g m' t' where "par fs = Some p" "par (tl fs) = Some g"
          "insert_color_step n p g m root = Some (g, m', root)" "zip_at m' root t' fs2"
          "root_of t' = Some g" "ins_fix t fs = ins_fix t' fs2"
          "addrs t' \<union> faddrs fs2 = addrs t \<union> faddrs fs"
          "same_outside (addrs t \<union> faddrs fs) m m'" by auto
        with Cons fs1 top \<open>fcol fs = RB_RED\<close> show ?thesis
          by (intro red [where fs' = fs2]) (auto dest: top_black_tl)
      qed
    qed
  qed
qed

lemma inorder_ins_fix: "inorder (ins_fix t fs) = inorder (plug t fs)"
  by (induction t fs rule: ins_fix.induct) (auto simp: inorder_plug)

lemma insert_color_zip:
  assumes "zip_at m root t fs" "root_of t = Some n" "top_black fs"
  shows "\<exists>m' root'. rb_insert_color n m root = Some (m', root') \<and>
           tree_at m' root' (paint RB_BLACK (ins_fix t fs)) \<and>
           same_outside (addrs t \<union> faddrs fs) m m'"
proof -
  obtain m1 root1 where m1: "insert_color_loop n m root = Some (m1, root1)"
      "tree_at m1 root1 (ins_fix t fs)" "same_outside (addrs t \<union> faddrs fs) m m1"
    using insert_loop_zip [OF assms] by blast
  have in_ins: "addrs (ins_fix t fs) = addrs t \<union> faddrs fs"
    using inorder_ins_fix [of t fs] addrs_plug [of t fs] by (simp add: addrs_inorder)
  have "ins_fix t fs \<noteq> Lf"
  proof
    assume "ins_fix t fs = Lf"
    then show False using in_ins assms(2) by (auto dest!: root_of_addrs)
  qed
  then obtain l a c r where I: "ins_fix t fs = Nd l a c r" by (cases "ins_fix t fs") auto
  obtain m2 where "rb_set_black a m1 = Some m2" "zip_at m2 root1 (Nd l a RB_BLACK r) []"
      "same_outside (addrs t \<union> faddrs fs) m1 m2"
    using set_color_zip [of m1 root1 l a c r "[]" RB_BLACK] m1(2) I in_ins by (auto simp: zip_at_tree)
  moreover have "root1 = Some a" using m1(2) I by (simp add: tree_at_def)
  ultimately show ?thesis
    using m1 I by (auto simp: rb_insert_color_def zip_at_tree intro: same_outside_trans)
qed

subsection \<open>Red-black invariants\<close>

fun invc :: "tr \<Rightarrow> bool" where
  "invc Lf = True"
| "invc (Nd l a c r) =
     ((c = RB_RED \<longrightarrow> tcol l = RB_BLACK \<and> tcol r = RB_BLACK) \<and> invc l \<and> invc r)"

fun bh :: "tr \<Rightarrow> nat" where
  "bh Lf = 0"
| "bh (Nd l a c r) = (if c = RB_BLACK then Suc (bh l) else bh l)"

fun invh :: "tr \<Rightarrow> bool" where
  "invh Lf = True"
| "invh (Nd l a c r) = (bh l = bh r \<and> invh l \<and> invh r)"

definition rbt :: "tr \<Rightarrow> bool" where
  "rbt t \<longleftrightarrow> invc t \<and> invh t \<and> tcol t = RB_BLACK"

fun col_ok :: "frame list \<Rightarrow> bool" where
  "col_ok [] = True"
| "col_ok (LFr a c r # fs) =
     (invc r \<and> (c = RB_RED \<longrightarrow> tcol r = RB_BLACK \<and> fcol fs = RB_BLACK) \<and> col_ok fs)"
| "col_ok (RFr l a c # fs) =
     (invc l \<and> (c = RB_RED \<longrightarrow> tcol l = RB_BLACK \<and> fcol fs = RB_BLACK) \<and> col_ok fs)"

fun hgt_ok :: "nat \<Rightarrow> frame list \<Rightarrow> bool" where
  "hgt_ok n [] = True"
| "hgt_ok n (LFr a c r # fs) =
     (invh r \<and> bh r = n \<and> hgt_ok (if c = RB_BLACK then Suc n else n) fs)"
| "hgt_ok n (RFr l a c # fs) =
     (invh l \<and> bh l = n \<and> hgt_ok (if c = RB_BLACK then Suc n else n) fs)"

lemma rb_not_red: "c \<noteq> RB_RED \<longleftrightarrow> c = RB_BLACK"
  and rb_not_black: "c \<noteq> RB_BLACK \<longleftrightarrow> c = RB_RED"
  by (cases c; simp)+

lemma invc_plug: "invc (plug t fs) \<longleftrightarrow> invc t \<and> col_ok fs \<and> (fcol fs = RB_RED \<longrightarrow> tcol t = RB_BLACK)"
proof (induction fs arbitrary: t rule: col_ok.induct)
  case (2 a c r fs)
  then show ?case by (cases c; cases "fcol fs") auto
next
  case (3 l a c fs)
  then show ?case by (cases c; cases "fcol fs") auto
qed simp

lemma fill_facts:
  "invc (fill t f) \<longleftrightarrow> invc t \<and> col_ok [f] \<and> (fcol [f] = RB_RED \<longrightarrow> tcol t = RB_BLACK)"
  "invh (fill t f) \<longleftrightarrow> invh t \<and> hgt_ok (bh t) [f]"
  "fill t f \<noteq> Lf"
  by (cases f; auto)+

lemma invh_plug: "invh (plug t fs) \<longleftrightarrow> invh t \<and> hgt_ok (bh t) fs"
proof (induction fs arbitrary: t rule: faddrs.induct)
  case (2 a c r fs)
  show ?case by (cases "bh r = bh t"; cases "invh r") (simp_all add: "2.IH")
next
  case (3 l a c fs)
  show ?case by (cases "bh l = bh t"; cases "invh l") (simp_all add: "3.IH")
qed simp

lemma tcol_plug: "tcol (plug t fs) = (if fs = [] then tcol t else fcol [last fs])"
proof (induction fs arbitrary: t)
  case (Cons f fs)
  then show ?case by (cases f) auto
qed simp

lemma paint_facts [simp]:
  "tcol (paint c t) = (if t = Lf then RB_BLACK else c)"
  "invc t \<Longrightarrow> invc (paint RB_BLACK t)"
  "invh (paint c t) = invh t"
  by (cases t; simp)+

lemma bh_paint_black: "tcol u = RB_RED \<Longrightarrow> bh (paint RB_BLACK u) = Suc (bh u)"
  by (cases u) auto

lemma rbt_plug:
  "rbt (plug t fs) \<longleftrightarrow> invc t \<and> invh t \<and> col_ok fs \<and> hgt_ok (bh t) fs \<and> top_black fs \<and>
     (fcol fs = RB_RED \<longrightarrow> tcol t = RB_BLACK) \<and> (fs = [] \<longrightarrow> tcol t = RB_BLACK)"
  by (auto simp: rbt_def invc_plug invh_plug tcol_plug top_black_def)

lemma inv_ins_fix:
  assumes "invc t" "invh t" "tcol t = RB_RED" "col_ok fs" "hgt_ok (bh t) fs" "top_black fs"
  shows "rbt (paint RB_BLACK (ins_fix t fs))"
  using assms
proof (induction t fs rule: ins_fix.induct)
  case (1 t p r g gc u fs)
  then show ?case by (auto simp: rbt_def invc_plug invh_plug bh_paint_black rb_not_red rb_not_black dest: top_black_tl)
next
  case (2 t1 n tc t2 l p g gc u fs)
  then show ?case by (auto simp: rbt_def invc_plug invh_plug bh_paint_black rb_not_red rb_not_black dest: top_black_tl)
next
  case (3 t1 n tc t2 p r u g gc fs)
  then show ?case by (auto simp: rbt_def invc_plug invh_plug bh_paint_black rb_not_red rb_not_black dest: top_black_tl)
next
  case (4 t l p u g gc fs)
  then show ?case by (auto simp: rbt_def invc_plug invh_plug bh_paint_black rb_not_red rb_not_black dest: top_black_tl)
qed (auto simp: rbt_def invc_plug invh_plug fill_facts rb_not_red rb_not_black)

subsection \<open>Rebalancing after a removal\<close>

text \<open>
  The rounds of \<open>__rb_erase_color\<close> with the deficient subtree \<open>t\<close> on the left of \<open>p\<close>: a red
  sibling is rotated away; a black sibling with black children is reddened and the deficit
  moves up; otherwise one or two rotations end the repair.
\<close>

lemma erase_left_red:
  assumes z: "zip_at m root (Nd t p c (Nd ol x RB_RED os)) fs"
    and ol: "ol \<noteq> Lf" "tcol ol = RB_BLACK"
  shows "\<exists>m1 root1. erase_color_left p m root = erase_color_left p m1 root1 \<and>
     zip_at m1 root1 (Nd (Nd t p RB_RED ol) x RB_BLACK os) fs \<and>
     same_outside (addrs (Nd t p c (Nd ol x RB_RED os)) \<union> faddrs fs) m m1"
proof -
  let ?S = "addrs (Nd t p c (Nd ol x RB_RED os)) \<union> faddrs fs"
  note up = zip_at_down_right [symmetric]
  obtain m1 where m1: "rb_set_black x m = Some m1"
      "zip_at m1 root (Nd t p c (Nd ol x RB_BLACK os)) fs" "same_outside ?S m m1"
    using set_color_zip [of m root ol x RB_RED os "RFr t p c # fs" RB_BLACK] z
    by (auto simp: up insert_commute Un_ac)
  obtain m2 where m2: "rb_set_red p m1 = Some m2"
      "zip_at m2 root (Nd t p RB_RED (Nd ol x RB_BLACK os)) fs" "same_outside ?S m1 m2"
    using set_color_zip [OF m1(2), of RB_RED] by auto
  obtain m3 root3 where m3: "rb_rotate_left p m2 root = Some (m3, root3)"
      "zip_at m3 root3 (Nd (Nd t p RB_RED ol) x RB_BLACK os) fs" "same_outside ?S m2 m3"
    using rotate_left_zip [OF m2(2)] by auto
  obtain l y r where y: "ol = Nd l y RB_BLACK r" using ol by (cases ol) auto
  have "erase_color_left p m root = erase_color_left p m3 root3"
    using zip_at_nodes(1-3) [OF z] m1(1) m2(1) m3(1) zip_at_nodes(1-3) [OF m3(2)] y
    by (simp add: erase_color_left_def rb_is_red_def)
  with m3(2) same_outside_trans [OF m1(3) same_outside_trans [OF m2(3) m3(3)]] show ?thesis
    by blast
qed

lemma erase_left_up:
  assumes "zip_at m root (Nd t p c (Nd ol x RB_BLACK os)) fs" "tcol ol = RB_BLACK" "tcol os = RB_BLACK"
  shows "\<exists>m'. erase_color_left p m root = Some (True, Some p, par fs, m', root) \<and>
     zip_at m' root (Nd t p c (Nd ol x RB_RED os)) fs \<and>
     same_outside (addrs (Nd t p c (Nd ol x RB_BLACK os)) \<union> faddrs fs) m m'"
  using assms null_or_black_repr [of m "Some x" ol] null_or_black_repr [of m "Some x" os]
  by (auto simp: zip_at_def erase_color_left_def rb_is_red_def rb_set_color_def disj_simps)

lemma erase_left_outer:
  assumes z: "zip_at m root (Nd t p c (Nd ol x RB_BLACK (Nd l y RB_RED r))) fs"
  shows "\<exists>m' root'. erase_color_left p m root = Some (False, root', Some p, m', root') \<and>
     zip_at m' root' (Nd (Nd t p RB_BLACK ol) x c (Nd l y RB_BLACK r)) fs \<and>
     same_outside (addrs (Nd t p c (Nd ol x RB_BLACK (Nd l y RB_RED r))) \<union> faddrs fs) m m'"
proof -
  let ?S = "addrs (Nd t p c (Nd ol x RB_BLACK (Nd l y RB_RED r))) \<union> faddrs fs"
  note up = zip_at_down_right [symmetric]
  obtain m1 where m1: "rb_set_color x c m = Some m1"
      "zip_at m1 root (Nd t p c (Nd ol x c (Nd l y RB_RED r))) fs" "same_outside ?S m m1"
    using set_color_zip [of m root ol x RB_BLACK "Nd l y RB_RED r" "RFr t p c # fs" c] z
    by (auto simp: up insert_commute Un_ac)
  obtain m2 where m2: "rb_set_black p m1 = Some m2"
      "zip_at m2 root (Nd t p RB_BLACK (Nd ol x c (Nd l y RB_RED r))) fs" "same_outside ?S m1 m2"
    using set_color_zip [OF m1(2), of RB_BLACK] by auto
  obtain m3 where m3: "rb_set_black y m2 = Some m3"
      "zip_at m3 root (Nd t p RB_BLACK (Nd ol x c (Nd l y RB_BLACK r))) fs" "same_outside ?S m2 m3"
    using set_color_zip [of m2 root l y RB_RED r "RFr ol x c # RFr t p RB_BLACK # fs" RB_BLACK] m2(2)
    by (auto simp: up insert_commute Un_ac)
  obtain m4 root4 where m4: "rb_rotate_left p m3 root = Some (m4, root4)"
      "zip_at m4 root4 (Nd (Nd t p RB_BLACK ol) x c (Nd l y RB_BLACK r)) fs" "same_outside ?S m3 m4"
    using rotate_left_zip [OF m3(2)] by auto
  have "erase_color_left p m root = Some (False, root4, Some p, m4, root4)"
    using zip_at_nodes(1-3) [OF z] m1(1) m2(1) m3(1) m4(1) zip_at_nodes(1-3) [OF m2(2)]
      null_or_black_repr [of m "Some x" ol]
    by (simp add: erase_color_left_def rb_is_red_def null_or_black_def rb_is_black_def)
  with m4(2) m1(3) m2(3) m3(3) m4(3) show ?thesis by (blast intro: same_outside_trans)
qed

lemma erase_left_inner:
  assumes z: "zip_at m root (Nd t p c (Nd (Nd l y RB_RED r) x RB_BLACK os)) fs"
    and os: "tcol os = RB_BLACK"
  shows "\<exists>m1 root1. erase_color_left p m root = erase_color_left p m1 root1 \<and>
     zip_at m1 root1 (Nd t p c (Nd l y RB_BLACK (Nd r x RB_RED os))) fs \<and>
     same_outside (addrs (Nd t p c (Nd (Nd l y RB_RED r) x RB_BLACK os)) \<union> faddrs fs) m m1"
proof -
  let ?S = "addrs (Nd t p c (Nd (Nd l y RB_RED r) x RB_BLACK os)) \<union> faddrs fs"
  note up = zip_at_down_right [symmetric] zip_at_down_left [symmetric]
  obtain m1 where m1: "rb_set_black y m = Some m1"
      "zip_at m1 root (Nd t p c (Nd (Nd l y RB_BLACK r) x RB_BLACK os)) fs" "same_outside ?S m m1"
    using set_color_zip [of m root l y RB_RED r "LFr x RB_BLACK os # RFr t p c # fs" RB_BLACK] z
    by (auto simp: up insert_commute Un_ac)
  obtain m2 where m2: "rb_set_red x m1 = Some m2"
      "zip_at m2 root (Nd t p c (Nd (Nd l y RB_BLACK r) x RB_RED os)) fs" "same_outside ?S m1 m2"
    using set_color_zip [of m1 root "Nd l y RB_BLACK r" x RB_BLACK os "RFr t p c # fs" RB_RED] m1(2)
    by (auto simp: up insert_commute Un_ac)
  obtain m3 root3 where m3: "rb_rotate_right x m2 root = Some (m3, root3)"
      "zip_at m3 root3 (Nd t p c (Nd l y RB_BLACK (Nd r x RB_RED os))) fs" "same_outside ?S m2 m3"
    using rotate_right_zip [of m2 root l y RB_BLACK r x RB_RED os "RFr t p c # fs"] m2(2)
    by (auto simp: up insert_commute Un_ac)
  have "erase_color_left p m root = erase_color_left p m3 root3"
    using zip_at_nodes(1-3) [OF z] m1(1) m2(1) m3(1) zip_at_nodes(1-3) [OF m3(2)]
      null_or_black_repr [of m "Some x" os] null_or_black_repr [of m3 "Some y" l] os
    by (simp add: erase_color_left_def rb_is_red_def null_or_black_def rb_is_black_def)
  with m3(2) same_outside_trans [OF m1(3) same_outside_trans [OF m2(3) m3(3)]] show ?thesis
    by blast
qed

text \<open>The same with the deficient subtree on the right.\<close>

lemma erase_right_red:
  assumes z: "zip_at m root (Nd (Nd os x RB_RED ol) p c t) fs"
    and ol: "ol \<noteq> Lf" "tcol ol = RB_BLACK"
  shows "\<exists>m1 root1. erase_color_right p m root = erase_color_right p m1 root1 \<and>
     zip_at m1 root1 (Nd os x RB_BLACK (Nd ol p RB_RED t)) fs \<and>
     same_outside (addrs (Nd (Nd os x RB_RED ol) p c t) \<union> faddrs fs) m m1"
proof -
  let ?S = "addrs (Nd (Nd os x RB_RED ol) p c t) \<union> faddrs fs"
  note up = zip_at_down_left [symmetric]
  obtain m1 where m1: "rb_set_black x m = Some m1"
      "zip_at m1 root (Nd (Nd os x RB_BLACK ol) p c t) fs" "same_outside ?S m m1"
    using set_color_zip [of m root os x RB_RED ol "LFr p c t # fs" RB_BLACK] z
    by (auto simp: up insert_commute Un_ac)
  obtain m2 where m2: "rb_set_red p m1 = Some m2"
      "zip_at m2 root (Nd (Nd os x RB_BLACK ol) p RB_RED t) fs" "same_outside ?S m1 m2"
    using set_color_zip [OF m1(2), of RB_RED] by auto
  obtain m3 root3 where m3: "rb_rotate_right p m2 root = Some (m3, root3)"
      "zip_at m3 root3 (Nd os x RB_BLACK (Nd ol p RB_RED t)) fs" "same_outside ?S m2 m3"
    using rotate_right_zip [OF m2(2)] by auto
  obtain l y r where y: "ol = Nd r y RB_BLACK l" using ol by (cases ol) auto
  have "erase_color_right p m root = erase_color_right p m3 root3"
    using zip_at_nodes(1-3) [OF z] m1(1) m2(1) m3(1) zip_at_nodes(1-3) [OF m3(2)] y
    by (simp add: erase_color_right_def rb_is_red_def)
  with m3(2) same_outside_trans [OF m1(3) same_outside_trans [OF m2(3) m3(3)]] show ?thesis
    by blast
qed

lemma erase_right_up:
  assumes "zip_at m root (Nd (Nd os x RB_BLACK ol) p c t) fs" "tcol ol = RB_BLACK" "tcol os = RB_BLACK"
  shows "\<exists>m'. erase_color_right p m root = Some (True, Some p, par fs, m', root) \<and>
     zip_at m' root (Nd (Nd os x RB_RED ol) p c t) fs \<and>
     same_outside (addrs (Nd (Nd os x RB_BLACK ol) p c t) \<union> faddrs fs) m m'"
  using assms null_or_black_repr [of m "Some x" ol] null_or_black_repr [of m "Some x" os]
  by (auto simp: zip_at_def erase_color_right_def rb_is_red_def rb_set_color_def disj_simps)

lemma erase_right_outer:
  assumes z: "zip_at m root (Nd (Nd (Nd r y RB_RED l) x RB_BLACK ol) p c t) fs"
  shows "\<exists>m' root'. erase_color_right p m root = Some (False, root', Some p, m', root') \<and>
     zip_at m' root' (Nd (Nd r y RB_BLACK l) x c (Nd ol p RB_BLACK t)) fs \<and>
     same_outside (addrs (Nd (Nd (Nd r y RB_RED l) x RB_BLACK ol) p c t) \<union> faddrs fs) m m'"
proof -
  let ?S = "addrs (Nd (Nd (Nd r y RB_RED l) x RB_BLACK ol) p c t) \<union> faddrs fs"
  note up = zip_at_down_left [symmetric]
  obtain m1 where m1: "rb_set_color x c m = Some m1"
      "zip_at m1 root (Nd (Nd (Nd r y RB_RED l) x c ol) p c t) fs" "same_outside ?S m m1"
    using set_color_zip [of m root "Nd r y RB_RED l" x RB_BLACK ol "LFr p c t # fs" c] z
    by (auto simp: up insert_commute Un_ac)
  obtain m2 where m2: "rb_set_black p m1 = Some m2"
      "zip_at m2 root (Nd (Nd (Nd r y RB_RED l) x c ol) p RB_BLACK t) fs" "same_outside ?S m1 m2"
    using set_color_zip [OF m1(2), of RB_BLACK] by auto
  obtain m3 where m3: "rb_set_black y m2 = Some m3"
      "zip_at m3 root (Nd (Nd (Nd r y RB_BLACK l) x c ol) p RB_BLACK t) fs" "same_outside ?S m2 m3"
    using set_color_zip [of m2 root r y RB_RED l "LFr x c ol # LFr p RB_BLACK t # fs" RB_BLACK] m2(2)
    by (auto simp: up insert_commute Un_ac)
  obtain m4 root4 where m4: "rb_rotate_right p m3 root = Some (m4, root4)"
      "zip_at m4 root4 (Nd (Nd r y RB_BLACK l) x c (Nd ol p RB_BLACK t)) fs" "same_outside ?S m3 m4"
    using rotate_right_zip [OF m3(2)] by auto
  have "erase_color_right p m root = Some (False, root4, Some p, m4, root4)"
    using zip_at_nodes(1-3) [OF z] m1(1) m2(1) m3(1) m4(1) zip_at_nodes(1-3) [OF m2(2)]
      null_or_black_repr [of m "Some x" ol]
    by (simp add: erase_color_right_def rb_is_red_def null_or_black_def rb_is_black_def)
  with m4(2) m1(3) m2(3) m3(3) m4(3) show ?thesis by (blast intro: same_outside_trans)
qed

lemma erase_right_inner:
  assumes z: "zip_at m root (Nd (Nd os x RB_BLACK (Nd r y RB_RED l)) p c t) fs"
    and os: "tcol os = RB_BLACK"
  shows "\<exists>m1 root1. erase_color_right p m root = erase_color_right p m1 root1 \<and>
     zip_at m1 root1 (Nd (Nd (Nd os x RB_RED r) y RB_BLACK l) p c t) fs \<and>
     same_outside (addrs (Nd (Nd os x RB_BLACK (Nd r y RB_RED l)) p c t) \<union> faddrs fs) m m1"
proof -
  let ?S = "addrs (Nd (Nd os x RB_BLACK (Nd r y RB_RED l)) p c t) \<union> faddrs fs"
  note up = zip_at_down_left [symmetric] zip_at_down_right [symmetric]
  obtain m1 where m1: "rb_set_black y m = Some m1"
      "zip_at m1 root (Nd (Nd os x RB_BLACK (Nd r y RB_BLACK l)) p c t) fs" "same_outside ?S m m1"
    using set_color_zip [of m root r y RB_RED l "RFr os x RB_BLACK # LFr p c t # fs" RB_BLACK] z
    by (auto simp: up insert_commute Un_ac)
  obtain m2 where m2: "rb_set_red x m1 = Some m2"
      "zip_at m2 root (Nd (Nd os x RB_RED (Nd r y RB_BLACK l)) p c t) fs" "same_outside ?S m1 m2"
    using set_color_zip [of m1 root os x RB_BLACK "Nd r y RB_BLACK l" "LFr p c t # fs" RB_RED] m1(2)
    by (auto simp: up insert_commute Un_ac)
  obtain m3 root3 where m3: "rb_rotate_left x m2 root = Some (m3, root3)"
      "zip_at m3 root3 (Nd (Nd (Nd os x RB_RED r) y RB_BLACK l) p c t) fs" "same_outside ?S m2 m3"
    using rotate_left_zip [of m2 root os x RB_RED r y RB_BLACK l "LFr p c t # fs"] m2(2)
    by (auto simp: up insert_commute Un_ac)
  have "erase_color_right p m root = erase_color_right p m3 root3"
    using zip_at_nodes(1-3) [OF z] m1(1) m2(1) m3(1) zip_at_nodes(1-3) [OF m3(2)]
      null_or_black_repr [of m "Some x" os] null_or_black_repr [of m3 "Some y" l] os
    by (simp add: erase_color_right_def rb_is_red_def null_or_black_def rb_is_black_def)
  with m3(2) same_outside_trans [OF m1(3) same_outside_trans [OF m2(3) m3(3)]] show ?thesis
    by blast
qed

text \<open>
  \<open>deficient t fs\<close>: the tree \<open>plug t fs\<close> would be a red-black tree if the black height of \<open>t\<close>
  were one more; the root of \<open>t\<close> may be red with a red child.
\<close>

definition deficient :: "tr \<Rightarrow> frame list \<Rightarrow> bool" where
  "deficient t fs \<longleftrightarrow>
     invc (paint RB_BLACK t) \<and> invh t \<and> col_ok fs \<and> hgt_ok (Suc (bh t)) fs \<and> top_black fs"

text \<open>How a round ends: with a red-black tree, or with the deficit one level higher.\<close>

definition round_ends :: "erase_state option \<Rightarrow> addr \<Rightarrow> rb_mem \<Rightarrow> tr \<Rightarrow> (tr \<Rightarrow> tr) \<Rightarrow> frame list \<Rightarrow> bool" where
  "round_ends res p m t0 up fs \<longleftrightarrow>
     (\<exists>m' root'. same_outside (addrs t0 \<union> faddrs fs) m m' \<and>
       ((\<exists>T. res = Some (False, root', Some p, m', root') \<and> tree_at m' root' T \<and> rbt T \<and>
            inorder T = inorder (plug t0 fs)) \<or>
        (\<exists>s'. res = Some (True, Some p, par fs, m', root') \<and> zip_at m' root' (up s') fs \<and>
            deficient (up s') fs \<and> inorder (up s') = inorder t0)))"

lemma rbt_plugI:
  "invc t \<Longrightarrow> invh t \<Longrightarrow> col_ok fs \<Longrightarrow> hgt_ok (bh t) fs \<Longrightarrow> top_black fs \<Longrightarrow>
   (tcol t = RB_RED \<Longrightarrow> fcol fs = RB_BLACK \<and> fs \<noteq> []) \<Longrightarrow> rbt (plug t fs)"
  by (auto simp: rbt_plug rb_not_red rb_not_black) (cases "tcol t"; simp)+

lemma erase_left_black:
  assumes z: "zip_at m root (Nd t p c s) fs"
    and s: "s \<noteq> Lf" "tcol s = RB_BLACK" "invc s" "invh s" "bh s = Suc (bh t)"
    and t: "invc t" "invh t" "tcol t = RB_BLACK"
    and fs: "col_ok fs" "hgt_ok (if c = RB_BLACK then Suc (Suc (bh t)) else Suc (bh t)) fs"
      "top_black fs" "c = RB_RED \<Longrightarrow> fcol fs = RB_BLACK \<and> fs \<noteq> []"
  shows "round_ends (erase_color_left p m root) p m (Nd t p c s) (\<lambda>s'. Nd t p c s') fs"
proof -
  obtain ol x os where sx: "s = Nd ol x RB_BLACK os" using s(1,2) by (cases s) auto
  have b: "invc ol" "invc os" "invh ol" "invh os" "bh ol = bh t" "bh os = bh t"
    using s sx by auto
  have outer: ?thesis if "erase_color_left p m root = erase_color_left p m1 root1"
    "zip_at m1 root1 (Nd t p c (Nd o2 x2 RB_BLACK (Nd l y RB_RED r))) fs"
    "same_outside (addrs (Nd t p c s) \<union> faddrs fs) m m1"
    "invc o2" "invh o2" "bh o2 = bh t" "invc l" "invc r" "invh l" "invh r" "bh l = bh t" "bh r = bh t"
    "inorder (Nd o2 x2 RB_BLACK (Nd l y RB_RED r)) = inorder s" for m1 root1 o2 x2 l y r
  proof -
    note H = that
    have eq: "addrs (Nd t p c (Nd o2 x2 RB_BLACK (Nd l y RB_RED r))) = addrs (Nd t p c s)"
      unfolding addrs_inorder inorder.simps(2) [of t p] H(13) ..
    obtain m' root' where m': "erase_color_left p m1 root1 = Some (False, root', Some p, m', root')"
      "zip_at m' root' (Nd (Nd t p RB_BLACK o2) x2 c (Nd l y RB_BLACK r)) fs"
      "same_outside (addrs (Nd t p c s) \<union> faddrs fs) m1 m'"
      using erase_left_outer [OF H(2)] unfolding eq by blast
    moreover have "rbt (plug (Nd (Nd t p RB_BLACK o2) x2 c (Nd l y RB_BLACK r)) fs)"
      using H t fs by (intro rbt_plugI) auto
    moreover have "inorder (plug (Nd (Nd t p RB_BLACK o2) x2 c (Nd l y RB_BLACK r)) fs) =
      inorder (plug (Nd t p c s) fs)"
      using H(13) by (simp add: inorder_plug)
    ultimately show ?thesis
      using H(1) same_outside_trans [OF H(3) m'(3)]
      unfolding round_ends_def zip_at_tree by metis
  qed
  show ?thesis
  proof (cases "tcol os"; cases "tcol ol")
    assume c: "tcol os = RB_BLACK" "tcol ol = RB_BLACK"
    then obtain m' where "erase_color_left p m root = Some (True, Some p, par fs, m', root)"
      "zip_at m' root (Nd t p c (Nd ol x RB_RED os)) fs"
      "same_outside (addrs (Nd t p c s) \<union> faddrs fs) m m'"
      using erase_left_up [OF z [unfolded sx] c(2,1)] sx by auto
    moreover have "deficient (Nd t p c (Nd ol x RB_RED os)) fs"
      using b t fs c by (auto simp: deficient_def)
    moreover have "inorder (Nd t p c (Nd ol x RB_RED os)) = inorder (Nd t p c s)" using sx by simp
    ultimately show ?thesis unfolding round_ends_def by blast
  next
    assume c: "tcol os = RB_BLACK" "tcol ol = RB_RED"
    then obtain l y r where ol: "ol = Nd l y RB_RED r" by (cases ol) auto
    obtain m1 root1 where "erase_color_left p m root = erase_color_left p m1 root1"
      "zip_at m1 root1 (Nd t p c (Nd l y RB_BLACK (Nd r x RB_RED os))) fs"
      "same_outside (addrs (Nd t p c s) \<union> faddrs fs) m m1"
      using erase_left_inner [OF z [unfolded sx ol] c(1)] sx ol by auto
    then show ?thesis by (rule outer) (use b ol sx in auto)
  next
    assume "tcol os = RB_RED" "tcol ol = RB_RED"
    then obtain l y r where os: "os = Nd l y RB_RED r" by (cases os) auto
    show ?thesis
      by (rule outer [OF refl z [unfolded sx os] same_outside_refl]) (use b os sx in auto)
  next
    assume "tcol os = RB_RED" "tcol ol = RB_BLACK"
    then obtain l y r where os: "os = Nd l y RB_RED r" by (cases os) auto
    show ?thesis
      by (rule outer [OF refl z [unfolded sx os] same_outside_refl]) (use b os sx in auto)
  qed
qed

lemma erase_right_black:
  assumes z: "zip_at m root (Nd s p c t) fs"
    and s: "s \<noteq> Lf" "tcol s = RB_BLACK" "invc s" "invh s" "bh s = Suc (bh t)"
    and t: "invc t" "invh t" "tcol t = RB_BLACK"
    and fs: "col_ok fs" "hgt_ok (if c = RB_BLACK then Suc (Suc (bh t)) else Suc (bh t)) fs"
      "top_black fs" "c = RB_RED \<Longrightarrow> fcol fs = RB_BLACK \<and> fs \<noteq> []"
  shows "round_ends (erase_color_right p m root) p m (Nd s p c t) (\<lambda>s'. Nd s' p c t) fs"
proof -
  obtain ol x os where sx: "s = Nd os x RB_BLACK ol" using s(1,2) by (cases s) auto
  have b: "invc ol" "invc os" "invh ol" "invh os" "bh ol = bh t" "bh os = bh t"
    using s sx by auto
  have outer: ?thesis if "erase_color_right p m root = erase_color_right p m1 root1"
    "zip_at m1 root1 (Nd (Nd (Nd r y RB_RED l) x2 RB_BLACK o2) p c t) fs"
    "same_outside (addrs (Nd s p c t) \<union> faddrs fs) m m1"
    "invc o2" "invh o2" "bh o2 = bh t" "invc l" "invc r" "invh l" "invh r" "bh l = bh t" "bh r = bh t"
    "inorder (Nd (Nd r y RB_RED l) x2 RB_BLACK o2) = inorder s" for m1 root1 o2 x2 l y r
  proof -
    note H = that
    have eq: "addrs (Nd (Nd (Nd r y RB_RED l) x2 RB_BLACK o2) p c t) = addrs (Nd s p c t)"
      unfolding addrs_inorder inorder.simps(2) [of _ p _ t] H(13) ..
    obtain m' root' where m': "erase_color_right p m1 root1 = Some (False, root', Some p, m', root')"
      "zip_at m' root' (Nd (Nd r y RB_BLACK l) x2 c (Nd o2 p RB_BLACK t)) fs"
      "same_outside (addrs (Nd s p c t) \<union> faddrs fs) m1 m'"
      using erase_right_outer [OF H(2)] unfolding eq by blast
    moreover have "rbt (plug (Nd (Nd r y RB_BLACK l) x2 c (Nd o2 p RB_BLACK t)) fs)"
      using H t fs by (intro rbt_plugI) auto
    moreover have "inorder (plug (Nd (Nd r y RB_BLACK l) x2 c (Nd o2 p RB_BLACK t)) fs) =
      inorder (plug (Nd s p c t) fs)"
      using H(13) by (simp add: inorder_plug)
    ultimately show ?thesis
      using H(1) same_outside_trans [OF H(3) m'(3)]
      unfolding round_ends_def zip_at_tree by metis
  qed
  show ?thesis
  proof (cases "tcol os"; cases "tcol ol")
    assume c: "tcol os = RB_BLACK" "tcol ol = RB_BLACK"
    then obtain m' where "erase_color_right p m root = Some (True, Some p, par fs, m', root)"
      "zip_at m' root (Nd (Nd os x RB_RED ol) p c t) fs"
      "same_outside (addrs (Nd s p c t) \<union> faddrs fs) m m'"
      using erase_right_up [OF z [unfolded sx] c(2,1)] sx by auto
    moreover have "deficient (Nd (Nd os x RB_RED ol) p c t) fs"
      using b t fs c by (auto simp: deficient_def)
    moreover have "inorder (Nd (Nd os x RB_RED ol) p c t) = inorder (Nd s p c t)" using sx by simp
    ultimately show ?thesis unfolding round_ends_def by blast
  next
    assume c: "tcol os = RB_BLACK" "tcol ol = RB_RED"
    then obtain l y r where ol: "ol = Nd r y RB_RED l" by (cases ol) auto
    obtain m1 root1 where "erase_color_right p m root = erase_color_right p m1 root1"
      "zip_at m1 root1 (Nd (Nd (Nd os x RB_RED r) y RB_BLACK l) p c t) fs"
      "same_outside (addrs (Nd s p c t) \<union> faddrs fs) m m1"
      using erase_right_inner [OF z [unfolded sx ol] c(1)] sx ol by auto
    then show ?thesis by (rule outer) (use b ol sx in auto)
  next
    assume "tcol os = RB_RED" "tcol ol = RB_RED"
    then obtain l y r where os: "os = Nd r y RB_RED l" by (cases os) auto
    show ?thesis
      by (rule outer [OF refl z [unfolded sx os] same_outside_refl]) (use b os sx in auto)
  next
    assume "tcol os = RB_RED" "tcol ol = RB_BLACK"
    then obtain l y r where os: "os = Nd r y RB_RED l" by (cases os) auto
    show ?thesis
      by (rule outer [OF refl z [unfolded sx os] same_outside_refl]) (use b os sx in auto)
  qed
qed

text \<open>A round at a red sibling is a rotation followed by a round at a black one.\<close>

lemma round_ends_inner:
  assumes r: "round_ends res p m1 t1 up (f # fs)" and o: "same_outside (addrs t0 \<union> faddrs fs) m m1"
    and a: "addrs t1 \<union> faddrs (f # fs) = addrs t0 \<union> faddrs fs"
    and i: "inorder (plug t1 (f # fs)) = inorder (plug t0 fs)"
  shows "\<exists>m' root'. same_outside (addrs t0 \<union> faddrs fs) m m' \<and>
       ((\<exists>T. res = Some (False, root', Some p, m', root') \<and> tree_at m' root' T \<and> rbt T \<and>
            inorder T = inorder (plug t0 fs)) \<or>
        (\<exists>s'. res = Some (True, Some p, par (f # fs), m', root') \<and> zip_at m' root' (up s') (f # fs) \<and>
            deficient (up s') (f # fs) \<and> inorder (plug (up s') (f # fs)) = inorder (plug t0 fs)))"
proof -
  from r obtain m' root' where m': "same_outside (addrs t1 \<union> faddrs (f # fs)) m1 m'"
    and c: "(\<exists>T. res = Some (False, root', Some p, m', root') \<and> tree_at m' root' T \<and> rbt T \<and>
            inorder T = inorder (plug t1 (f # fs))) \<or>
        (\<exists>s'. res = Some (True, Some p, par (f # fs), m', root') \<and> zip_at m' root' (up s') (f # fs) \<and>
            deficient (up s') (f # fs) \<and> inorder (up s') = inorder t1)"
    unfolding round_ends_def by blast
  have "same_outside (addrs t0 \<union> faddrs fs) m m'"
    using same_outside_trans [OF o] m' unfolding a by blast
  moreover have "inorder x = inorder t1 \<Longrightarrow> inorder (plug x (f # fs)) = inorder (plug t0 fs)" for x
    using i inorder_plug_cong [of x t1 "f # fs"] by simp
  ultimately show ?thesis using c unfolding i by blast
qed

lemma rootf_faddrs: "fs \<noteq> [] \<Longrightarrow> \<exists>a \<in> faddrs fs. rootf x fs = Some a"
proof (induction fs arbitrary: x rule: faddrs.induct)
  case (2 a c r fs)
  then show ?case by (cases fs) auto
next
  case (3 l a c fs)
  then show ?case by (cases fs) auto
qed simp

lemma zip_at_not_root: "zip_at m root t (f # fs) \<Longrightarrow> root_of t \<noteq> root"
  using rootf_faddrs [of "f # fs" "root_of t"] root_of_addrs [of t] root_of_plug [of t "f # fs"]
  unfolding zip_at_def by (metis disjoint_iff list.distinct(1))

lemma erase_color_stop:
  assumes z: "zip_at m root t fs" and s: "tcol t = RB_RED \<or> fs = []"
  shows "rb_erase_color (root_of t) (par fs) m root =
     (case root_of t of None \<Rightarrow> Some (m, root) | Some a \<Rightarrow> do { m \<leftarrow> rb_set_black a m; Some (m, root) })"
proof -
  have "null_or_black m (root_of t) = Some (tcol t = RB_BLACK)"
    using z by (intro null_or_black_repr [of m "par fs"]) (simp add: zip_at_def)
  moreover have "fs = [] \<Longrightarrow> root_of t = root" using z by (simp add: zip_at_def)
  ultimately have "erase_color_loop (root_of t) (par fs) m root = Some (root_of t, m, root)"
    using s by (auto simp: erase_color_loop.simps)
  then show ?thesis by (simp add: rb_erase_color_def split: option.splits)
qed

lemma frame_round:
  assumes z: "zip_at m root t (f # fs)" and t: "tcol t = RB_BLACK" and s: "sibling f \<noteq> Lf"
    and p: "par (f # fs) = Some p"
    and res: "(case f of LFr _ _ _ \<Rightarrow> erase_color_left p m root | RFr _ _ _ \<Rightarrow> erase_color_right p m root)
      = Some (go, node', parent', m', root')"
  shows "go \<Longrightarrow> rb_erase_color (root_of t) (par (f # fs)) m root = rb_erase_color node' parent' m' root'"
    and "\<not> go \<Longrightarrow> rb_erase_color (root_of t) (par (f # fs)) m root =
      (case node' of None \<Rightarrow> Some (m', root') | Some a \<Rightarrow> do { m \<leftarrow> rb_set_black a m'; Some (m, root') })"
proof -
  have nb: "null_or_black m (root_of t) = Some True"
    using z t null_or_black_repr [of m "par (f # fs)" t] by (simp add: zip_at_def)
  have "erase_color_loop (root_of t) (par (f # fs)) m root =
      (if go then erase_color_loop node' parent' m' root' else Some (node', m', root'))"
  proof (cases f)
    case (LFr q c r)
    then have "m p = Some \<lparr>rb_parent = par fs, rb_color = c, rb_right = root_of r, rb_left = root_of t\<rparr>"
      using z p by (simp add: zip_at_def)
    with LFr p nb zip_at_not_root [OF z] res show ?thesis
      by (subst erase_color_loop.simps) simp
  next
    case (RFr l q c)
    then have "m p = Some \<lparr>rb_parent = par fs, rb_color = c, rb_right = root_of t, rb_left = root_of l\<rparr>"
      using z p by (simp add: zip_at_def)
    moreover have "root_of l \<noteq> root_of t"
      using z s RFr by (cases l; cases t) (auto simp: zip_at_def)
    ultimately show ?thesis
      using RFr p nb zip_at_not_root [OF z] res by (subst erase_color_loop.simps) simp
  qed
  then show "go \<Longrightarrow> rb_erase_color (root_of t) (par (f # fs)) m root = rb_erase_color node' parent' m' root'"
    and "\<not> go \<Longrightarrow> rb_erase_color (root_of t) (par (f # fs)) m root =
      (case node' of None \<Rightarrow> Some (m', root') | Some a \<Rightarrow> do { m \<leftarrow> rb_set_black a m'; Some (m, root') })"
    by (simp_all add: rb_erase_color_def split: option.splits)
qed

text \<open>Blackening the root of the subtree in focus, if there is one.\<close>

lemma blacken_zip:
  assumes "zip_at m root t fs"
  shows "\<exists>m'. (case root_of t of None \<Rightarrow> Some (m, root) | Some a \<Rightarrow> do { m \<leftarrow> rb_set_black a m; Some (m, root) })
      = Some (m', root) \<and> zip_at m' root (paint RB_BLACK t) fs \<and> same_outside (addrs t \<union> faddrs fs) m m'"
proof (cases t)
  case Lf
  with assms show ?thesis by simp
next
  case (Nd l a c r)
  with set_color_zip [of m root l a c r fs RB_BLACK] assms show ?thesis by auto
qed

text \<open>What one round does, for either colour of the sibling.\<close>

definition round_result :: "rb_mem \<Rightarrow> tr \<Rightarrow> frame list \<Rightarrow> erase_state option \<Rightarrow> bool" where
  "round_result m t fs res \<longleftrightarrow>
     (\<exists>m' root' T. same_outside (addrs t \<union> faddrs fs) m m' \<and> inorder T = inorder (plug t fs) \<and>
       ((\<exists>q. res = Some (False, root', q, m', root') \<and> tree_at m' root' T \<and> rbt T) \<or>
        (\<exists>t' fs'. res = Some (True, root_of t', par fs', m', root') \<and> zip_at m' root' t' fs' \<and>
           deficient t' fs' \<and> T = plug t' fs' \<and>
           (length fs' < length fs \<or> length fs' = length fs \<and> tcol t' = RB_RED))))"

lemma paint_black_id: "tcol t = RB_BLACK \<Longrightarrow> paint RB_BLACK t = t"
  by (cases t) auto

lemma bh_Suc_not_Lf: "bh s = Suc n \<Longrightarrow> s \<noteq> Lf"
  by auto

lemma erase_left_round:
  assumes z: "zip_at m root t (LFr p c s # fs)" and d: "deficient t (LFr p c s # fs)"
    and t: "tcol t = RB_BLACK"
  shows "round_result m t (LFr p c s # fs) (erase_color_left p m root)"
proof -
  have z': "zip_at m root (Nd t p c s) fs" using z by (simp add: zip_at_down_left)
  have I: "invc t" "invh t" "invc s" "invh s" "bh s = Suc (bh t)" "col_ok fs" "top_black fs"
      "hgt_ok (if c = RB_BLACK then Suc (Suc (bh t)) else Suc (bh t)) fs"
      "c = RB_RED \<longrightarrow> tcol s = RB_BLACK \<and> fcol fs = RB_BLACK \<and> fs \<noteq> []"
    using d t top_black_tl [of _ fs] by (auto simp: deficient_def paint_black_id)
  have S: "addrs (Nd t p c s) \<union> faddrs fs = addrs t \<union> faddrs (LFr p c s # fs)" by auto
  show ?thesis
  proof (cases "tcol s")
    case RB_BLACK
    then have "round_ends (erase_color_left p m root) p m (Nd t p c s) (\<lambda>s'. Nd t p c s') fs"
      using z' I t by (intro erase_left_black) (auto dest: bh_Suc_not_Lf)
    then obtain m' root' where o: "same_outside (addrs t \<union> faddrs (LFr p c s # fs)) m m'"
      and e: "(\<exists>T. erase_color_left p m root = Some (False, root', Some p, m', root') \<and>
            tree_at m' root' T \<and> rbt T \<and> inorder T = inorder (plug (Nd t p c s) fs)) \<or>
        (\<exists>s'. erase_color_left p m root = Some (True, Some p, par fs, m', root') \<and>
            zip_at m' root' (Nd t p c s') fs \<and> deficient (Nd t p c s') fs \<and>
            inorder (Nd t p c s') = inorder (Nd t p c s))"
      unfolding round_ends_def S by blast
    from e show ?thesis
    proof (elim disjE exE conjE)
      fix s' assume "erase_color_left p m root = Some (True, Some p, par fs, m', root')"
        "zip_at m' root' (Nd t p c s') fs" "deficient (Nd t p c s') fs"
        "inorder (Nd t p c s') = inorder (Nd t p c s)"
      with o inorder_plug_cong [OF this(4), of fs] show ?thesis
        unfolding round_result_def
        by (intro exI [of _ m'] exI [of _ root'] exI [of _ "plug (Nd t p c s') fs"]) force
    qed (use o in \<open>auto simp: round_result_def\<close>)
  next
    case RB_RED
    then obtain ol x os where s: "s = Nd ol x RB_RED os" by (cases s) auto
    then have J: "c = RB_BLACK" "tcol ol = RB_BLACK" "invc ol" "invh ol" "bh ol = Suc (bh t)" "ol \<noteq> Lf"
        "invc os" "invh os" "bh os = Suc (bh t)"
      using I RB_RED by (auto simp: rb_not_red)
    let ?fs = "LFr x RB_BLACK os # fs"
    obtain m1 root1 where m1: "erase_color_left p m root = erase_color_left p m1 root1"
        "zip_at m1 root1 (Nd t p RB_RED ol) ?fs" "same_outside (addrs (Nd t p c s) \<union> faddrs fs) m m1"
      using erase_left_red [OF z' [unfolded s] J(6,2)] s by (auto simp: zip_at_down_left)
    have r: "round_ends (erase_color_left p m1 root1) p m1 (Nd t p RB_RED ol) (\<lambda>s'. Nd t p RB_RED s') ?fs"
      using m1(2) I J t by (intro erase_left_black) (auto simp: top_black_def split: if_splits)
    have "addrs (Nd t p RB_RED ol) \<union> faddrs ?fs = addrs (Nd t p c s) \<union> faddrs fs"
      "inorder (plug (Nd t p RB_RED ol) ?fs) = inorder (plug (Nd t p c s) fs)"
      using s by (auto simp: inorder_plug)
    from round_ends_inner [OF r m1(3) this]
    obtain m' root' where o: "same_outside (addrs t \<union> faddrs (LFr p c s # fs)) m m'"
      and e: "(\<exists>T. erase_color_left p m1 root1 = Some (False, root', Some p, m', root') \<and>
            tree_at m' root' T \<and> rbt T \<and> inorder T = inorder (plug (Nd t p c s) fs)) \<or>
        (\<exists>s'. erase_color_left p m1 root1 = Some (True, Some p, par ?fs, m', root') \<and>
            zip_at m' root' (Nd t p RB_RED s') ?fs \<and> deficient (Nd t p RB_RED s') ?fs \<and>
            inorder (plug (Nd t p RB_RED s') ?fs) = inorder (plug (Nd t p c s) fs))"
      unfolding S by blast
    from e show ?thesis
    proof (elim disjE exE conjE)
      fix s' assume "erase_color_left p m1 root1 = Some (True, Some p, par ?fs, m', root')"
        "zip_at m' root' (Nd t p RB_RED s') ?fs" "deficient (Nd t p RB_RED s') ?fs"
        "inorder (plug (Nd t p RB_RED s') ?fs) = inorder (plug (Nd t p c s) fs)"
      with o m1(1) show ?thesis
        unfolding round_result_def
        by (intro exI [of _ m'] exI [of _ root'] exI [of _ "plug (Nd t p RB_RED s') ?fs"]) force
    qed (use o m1(1) in \<open>auto simp: round_result_def\<close>)
  qed
qed

lemma erase_right_round:
  assumes z: "zip_at m root t (RFr s p c # fs)" and d: "deficient t (RFr s p c # fs)"
    and t: "tcol t = RB_BLACK"
  shows "round_result m t (RFr s p c # fs) (erase_color_right p m root)"
proof -
  have z': "zip_at m root (Nd s p c t) fs" using z by (simp add: zip_at_down_right)
  have I: "invc t" "invh t" "invc s" "invh s" "bh s = Suc (bh t)" "col_ok fs" "top_black fs"
      "hgt_ok (if c = RB_BLACK then Suc (Suc (bh t)) else Suc (bh t)) fs"
      "c = RB_RED \<longrightarrow> tcol s = RB_BLACK \<and> fcol fs = RB_BLACK \<and> fs \<noteq> []"
    using d t top_black_tl [of _ fs] by (auto simp: deficient_def paint_black_id)
  have S: "addrs (Nd s p c t) \<union> faddrs fs = addrs t \<union> faddrs (RFr s p c # fs)" by auto
  show ?thesis
  proof (cases "tcol s")
    case RB_BLACK
    then have "round_ends (erase_color_right p m root) p m (Nd s p c t) (\<lambda>s'. Nd s' p c t) fs"
      using z' I t by (intro erase_right_black) (auto dest: bh_Suc_not_Lf)
    then obtain m' root' where o: "same_outside (addrs t \<union> faddrs (RFr s p c # fs)) m m'"
      and e: "(\<exists>T. erase_color_right p m root = Some (False, root', Some p, m', root') \<and>
            tree_at m' root' T \<and> rbt T \<and> inorder T = inorder (plug (Nd s p c t) fs)) \<or>
        (\<exists>s'. erase_color_right p m root = Some (True, Some p, par fs, m', root') \<and>
            zip_at m' root' (Nd s' p c t) fs \<and> deficient (Nd s' p c t) fs \<and>
            inorder (Nd s' p c t) = inorder (Nd s p c t))"
      unfolding round_ends_def S by blast
    from e show ?thesis
    proof (elim disjE exE conjE)
      fix s' assume "erase_color_right p m root = Some (True, Some p, par fs, m', root')"
        "zip_at m' root' (Nd s' p c t) fs" "deficient (Nd s' p c t) fs"
        "inorder (Nd s' p c t) = inorder (Nd s p c t)"
      with o inorder_plug_cong [OF this(4), of fs] show ?thesis
        unfolding round_result_def
        by (intro exI [of _ m'] exI [of _ root'] exI [of _ "plug (Nd s' p c t) fs"]) force
    qed (use o in \<open>auto simp: round_result_def\<close>)
  next
    case RB_RED
    then obtain ol x os where s: "s = Nd os x RB_RED ol" by (cases s) auto
    then have J: "c = RB_BLACK" "tcol ol = RB_BLACK" "invc ol" "invh ol" "bh ol = Suc (bh t)" "ol \<noteq> Lf"
        "invc os" "invh os" "bh os = Suc (bh t)"
      using I RB_RED by (auto simp: rb_not_red)
    let ?fs = "RFr os x RB_BLACK # fs"
    obtain m1 root1 where m1: "erase_color_right p m root = erase_color_right p m1 root1"
        "zip_at m1 root1 (Nd ol p RB_RED t) ?fs" "same_outside (addrs (Nd s p c t) \<union> faddrs fs) m m1"
      using erase_right_red [OF z' [unfolded s] J(6,2)] s by (auto simp: zip_at_down_right)
    have r: "round_ends (erase_color_right p m1 root1) p m1 (Nd ol p RB_RED t) (\<lambda>s'. Nd s' p RB_RED t) ?fs"
      using m1(2) I J t by (intro erase_right_black) (auto simp: top_black_def split: if_splits)
    have "addrs (Nd ol p RB_RED t) \<union> faddrs ?fs = addrs (Nd s p c t) \<union> faddrs fs"
      "inorder (plug (Nd ol p RB_RED t) ?fs) = inorder (plug (Nd s p c t) fs)"
      using s by (auto simp: inorder_plug)
    from round_ends_inner [OF r m1(3) this]
    obtain m' root' where o: "same_outside (addrs t \<union> faddrs (RFr s p c # fs)) m m'"
      and e: "(\<exists>T. erase_color_right p m1 root1 = Some (False, root', Some p, m', root') \<and>
            tree_at m' root' T \<and> rbt T \<and> inorder T = inorder (plug (Nd s p c t) fs)) \<or>
        (\<exists>s'. erase_color_right p m1 root1 = Some (True, Some p, par ?fs, m', root') \<and>
            zip_at m' root' (Nd s' p RB_RED t) ?fs \<and> deficient (Nd s' p RB_RED t) ?fs \<and>
            inorder (plug (Nd s' p RB_RED t) ?fs) = inorder (plug (Nd s p c t) fs))"
      unfolding S by blast
    from e show ?thesis
    proof (elim disjE exE conjE)
      fix s' assume "erase_color_right p m1 root1 = Some (True, Some p, par ?fs, m', root')"
        "zip_at m' root' (Nd s' p RB_RED t) ?fs" "deficient (Nd s' p RB_RED t) ?fs"
        "inorder (plug (Nd s' p RB_RED t) ?fs) = inorder (plug (Nd s p c t) fs)"
      with o m1(1) show ?thesis
        unfolding round_result_def
        by (intro exI [of _ m'] exI [of _ root'] exI [of _ "plug (Nd s' p RB_RED t) ?fs"]) force
    qed (use o m1(1) in \<open>auto simp: round_result_def\<close>)
  qed
qed

lemma blacken_tree:
  assumes "tree_at m root t" "rbt t"
  shows "\<exists>m'. (case root of None \<Rightarrow> Some (m, root) | Some a \<Rightarrow> do { m \<leftarrow> rb_set_black a m; Some (m, root) })
      = Some (m', root) \<and> tree_at m' root t \<and> same_outside (addrs t) m m'"
proof -
  have "root = root_of t" "paint RB_BLACK t = t"
    using assms by (auto simp: tree_at_def rbt_def paint_black_id)
  then show ?thesis using blacken_zip [of m root t "[]"] assms(1) by (simp add: zip_at_tree)
qed

lemma erase_color_zip:
  assumes "zip_at m root t fs" "deficient t fs"
  shows "\<exists>m' root' T. rb_erase_color (root_of t) (par fs) m root = Some (m', root') \<and>
     tree_at m' root' T \<and> rbt T \<and> inorder T = inorder (plug t fs) \<and>
     same_outside (addrs t \<union> faddrs fs) m m'"
  using assms
proof (induction "2 * length fs + (if tcol t = RB_RED then 0 else 1)" arbitrary: t fs m root
    rule: less_induct)
  case less
  note z = less.prems(1) and d = less.prems(2)
  show ?case
  proof (cases "tcol t = RB_RED \<or> fs = []")
    case True
    then have "rbt (plug (paint RB_BLACK t) fs)"
      using d by (auto simp: deficient_def bh_paint_black intro!: rbt_plugI)
    moreover have "inorder (plug (paint RB_BLACK t) fs) = inorder (plug t fs)"
      by (rule inorder_plug_cong) simp
    ultimately show ?thesis
      using blacken_zip [OF z] erase_color_stop [OF z True] unfolding zip_at_tree by metis
  next
    case False
    then obtain f fs1 where fs: "fs = f # fs1" and t: "tcol t = RB_BLACK"
      by (cases fs; cases "tcol t") auto
    obtain p where p: "par fs = Some p" using fs by (cases f) auto
    let ?res = "case f of LFr _ _ _ \<Rightarrow> erase_color_left p m root | RFr _ _ _ \<Rightarrow> erase_color_right p m root"
    have sib: "sibling f \<noteq> Lf" using d fs by (cases f) (auto simp: deficient_def)
    have "round_result m t fs ?res"
      using erase_left_round erase_right_round z d t fs p by (cases f) auto
    then obtain m' root' T where T: "same_outside (addrs t \<union> faddrs fs) m m'"
        "inorder T = inorder (plug t fs)"
      and cases: "(\<exists>q. ?res = Some (False, root', q, m', root') \<and> tree_at m' root' T \<and> rbt T) \<or>
        (\<exists>t' fs'. ?res = Some (True, root_of t', par fs', m', root') \<and> zip_at m' root' t' fs' \<and>
           deficient t' fs' \<and> T = plug t' fs' \<and>
           (length fs' < length fs \<or> length fs' = length fs \<and> tcol t' = RB_RED))"
      unfolding round_result_def by blast
    have at: "addrs T = addrs t \<union> faddrs fs"
      using T(2) addrs_plug [of t fs] by (simp add: addrs_inorder)
    note fr = frame_round [OF z [unfolded fs] t sib p [unfolded fs]]
    from cases consider
        (stop) q where "?res = Some (False, root', q, m', root')" "tree_at m' root' T" "rbt T"
      | (go) t' fs' where "?res = Some (True, root_of t', par fs', m', root')" "zip_at m' root' t' fs'"
          "deficient t' fs'" "T = plug t' fs'"
          "length fs' < length fs \<or> length fs' = length fs \<and> tcol t' = RB_RED"
      by blast
    then show ?thesis
    proof cases
      case stop
      with fr(2) [OF this(1)] blacken_tree [OF this(2,3)] T at fs show ?thesis
        by (auto intro: same_outside_trans)
    next
      case go
      have "2 * length fs' + (if tcol t' = RB_RED then 0 else 1) < 2 * length fs + (if tcol t = RB_RED then 0 else 1)"
        using go(5) t by auto
      from less.hyps [OF this go(2,3)] go(4) fr(1) [OF go(1)] T at fs show ?thesis
        by (auto intro: same_outside_trans)
    qed
  qed
qed

subsection \<open>Unlinking a node\<close>

lemma replace_child_repr:
  assumes "reprf m (Some a) fs" "wff fs" "a \<notin> faddrs fs"
  shows "\<exists>m'. replace_child (par fs) a x m (rootf (Some a) fs) = Some (m', rootf x fs) \<and>
           reprf m' x fs \<and> same_outside (faddrs fs) m m'"
  using assms
  by (cases fs rule: par.cases)
    (auto simp: replace_child_def set_left_def set_right_def dest: root_of_addrs)

text \<open>Frames with an outer parent.\<close>

fun reprg :: "rb_mem \<Rightarrow> addr option \<Rightarrow> frame list \<Rightarrow> addr option \<Rightarrow> bool" where
  "reprg m x [] p = True"
| "reprg m x (LFr a c r # gs) p =
     (m a = Some \<lparr>rb_parent = (if gs = [] then p else par gs), rb_color = c, rb_right = root_of r,
        rb_left = x\<rparr> \<and> repr m (Some a) r \<and> reprg m (Some a) gs p)"
| "reprg m x (RFr l a c # gs) p =
     (m a = Some \<lparr>rb_parent = (if gs = [] then p else par gs), rb_color = c, rb_right = x,
        rb_left = root_of l\<rparr> \<and> repr m (Some a) l \<and> reprg m (Some a) gs p)"

lemma par_append: "par (gs @ fs) = (if gs = [] then par fs else par gs)"
  by (cases gs rule: par.cases) auto

lemma reprf_append: "reprf m x (gs @ fs) \<longleftrightarrow> reprg m x gs (par fs) \<and> reprf m (rootf x gs) fs"
  by (induction gs arbitrary: x rule: faddrs.induct) (auto simp: par_append)

lemma reprg_upd [simp, frame_simps]: "a \<notin> faddrs gs \<Longrightarrow> reprg (m(a := v)) x gs p = reprg m x gs p"
  by (induction gs arbitrary: x rule: faddrs.induct) auto

lemma faddrs_append [simp]: "faddrs (gs @ fs) = faddrs gs \<union> faddrs fs"
  by (induction gs rule: faddrs.induct) auto

lemma wff_append: "wff (gs @ fs) \<longleftrightarrow> wff gs \<and> wff fs \<and> faddrs gs \<inter> faddrs fs = {}"
  by (induction gs rule: faddrs.induct) auto

lemma rootf_append [simp]: "rootf x (gs @ fs) = rootf (rootf x gs) fs"
  by (induction gs arbitrary: x rule: faddrs.induct) auto

lemma reprg_reparent:
  assumes "reprg m x gs p" "wff gs" "gs \<noteq> []" "rootf x gs = Some t"
  shows "\<exists>n. m t = Some n \<and> reprg (m(t \<mapsto> n\<lparr>rb_parent := q\<rparr>)) x gs q"
  using assms
proof (induction gs arbitrary: x rule: faddrs.induct)
  case (2 a c r gs)
  show ?case
  proof (cases "gs = []")
    case True
    with "2.prems" show ?thesis by (auto simp: frame_simps simp del: fun_upd_apply) simp_all
  next
    case False
    have pr: "reprg m (Some a) gs p" "wff gs" "rootf (Some a) gs = Some t"
      using "2.prems" by simp_all
    obtain n where n: "m t = Some n" "reprg (m(t \<mapsto> n\<lparr>rb_parent := q\<rparr>)) (Some a) gs q"
      using "2.IH" [OF pr(1,2) False pr(3)] by blast
    moreover have "t \<in> faddrs gs" using pr(3) False rootf_faddrs [of gs "Some a"] by auto
    moreover from this have "a \<noteq> t" "t \<notin> addrs r" using "2.prems" by auto
    ultimately show ?thesis
      using "2.prems" False by (intro exI [of _ n]) (simp del: fun_upd_apply add: fun_upd_other)
  qed
next
  case (3 l a c gs)
  show ?case
  proof (cases "gs = []")
    case True
    with "3.prems" show ?thesis by (auto simp: frame_simps simp del: fun_upd_apply) simp_all
  next
    case False
    have pr: "reprg m (Some a) gs p" "wff gs" "rootf (Some a) gs = Some t"
      using "3.prems" by simp_all
    obtain n where n: "m t = Some n" "reprg (m(t \<mapsto> n\<lparr>rb_parent := q\<rparr>)) (Some a) gs q"
      using "3.IH" [OF pr(1,2) False pr(3)] by blast
    moreover have "t \<in> faddrs gs" using pr(3) False rootf_faddrs [of gs "Some a"] by auto
    moreover from this have "a \<noteq> t" "t \<notin> addrs l" using "3.prems" by auto
    ultimately show ?thesis
      using "3.prems" False by (intro exI [of _ n]) (simp del: fun_upd_apply add: fun_upd_other)
  qed
qed simp

lemma repr_reparent:
  assumes "repr m p (Nd l a c r)" "wft (Nd l a c r)"
  shows "repr (m(a \<mapsto> \<lparr>rb_parent = q, rb_color = c, rb_right = root_of r, rb_left = root_of l\<rparr>)) q (Nd l a c r)"
  using assms by auto

lemma unlink_zip:
  assumes z: "zip_at m root (Nd l a c r) fs" and s: "l = Lf \<and> t = r \<or> r = Lf \<and> t = l"
  shows "\<exists>m' root'. rb_unlink a (root_of t) m root = Some (root_of t, par fs, c, m', root') \<and>
     zip_at m' root' t fs \<and> same_outside (addrs t \<union> faddrs fs) m m'"
proof -
  have Z: "repr m (Some a) t" "wft t" "a \<notin> addrs t" "addrs t \<inter> faddrs fs = {}" "wff fs" "a \<notin> faddrs fs"
      "reprf m (Some a) fs" "root = rootf (Some a) fs"
      "m a = Some \<lparr>rb_parent = par fs, rb_color = c, rb_right = root_of r, rb_left = root_of l\<rparr>"
    using z s by (auto simp: zip_at_def)
  obtain m1 where m1: "set_parent_if (root_of t) (par fs) m = Some m1" "repr m1 (par fs) t"
      "reprf m1 (Some a) fs" "same_outside (addrs t) m m1"
  proof (cases t)
    case (Nd tl x tc tr)
    with Z show ?thesis
      by (intro that [of "m(x \<mapsto> \<lparr>rb_parent = par fs, rb_color = tc, rb_right = root_of tr, rb_left = root_of tl\<rparr>)"])
        (auto simp: set_parent_if_def rb_set_parent_def)
  qed (use Z that in \<open>auto simp: set_parent_if_def\<close>)
  obtain m2 where m2: "replace_child (par fs) a (root_of t) m1 root = Some (m2, rootf (root_of t) fs)"
      "reprf m2 (root_of t) fs" "same_outside (faddrs fs) m1 m2"
    using replace_child_repr [OF m1(3) Z(5,6)] Z(8) by blast
  have "repr m2 (par fs) t = repr m1 (par fs) t"
    using m2(3) Z(4) by (intro repr_cong) (auto simp: same_outside_def)
  then show ?thesis
    using Z m1 m2 by (auto simp: rb_unlink_def zip_at_def same_outside_def)
qed

lemma same_outside_cong:
  assumes "same_outside F m m'"
  shows "addrs t \<inter> F = {} \<Longrightarrow> repr m' p t = repr m p t"
    and "faddrs gs \<inter> F = {} \<Longrightarrow> reprg m' x gs p = reprg m x gs p"
    and "faddrs gs \<inter> F = {} \<Longrightarrow> reprf m' x gs = reprf m x gs"
proof -
  have r: "addrs t \<inter> F = {} \<Longrightarrow> repr m' p t = repr m p t" for t p
    using assms by (intro repr_cong) (auto simp: same_outside_def)
  then show "addrs t \<inter> F = {} \<Longrightarrow> repr m' p t = repr m p t" .
  show "faddrs gs \<inter> F = {} \<Longrightarrow> reprg m' x gs p = reprg m x gs p"
    using assms by (induction gs arbitrary: x rule: faddrs.induct) (auto simp: r same_outside_def Int_Un_distrib2)
  show "faddrs gs \<inter> F = {} \<Longrightarrow> reprf m' x gs = reprf m x gs"
    using assms by (induction gs arbitrary: x rule: faddrs.induct) (auto simp: r same_outside_def Int_Un_distrib2)
qed

lemma repr_plug_outer:
  "repr m p (plug t gs) \<longleftrightarrow> repr m (if gs = [] then p else par gs) t \<and> reprg m (root_of t) gs p"
  by (induction gs arbitrary: t rule: faddrs.induct) auto

text \<open>A non-empty tree splits at its leftmost node, which the loop of \<open>rb_erase\<close> finds.\<close>

lemma leftmost_repr:
  "r \<noteq> Lf \<Longrightarrow> repr m p r \<Longrightarrow>
   \<exists>s c sr gs. r = plug (Nd Lf s c sr) gs \<and> leftmost (the (root_of r)) m = Some s \<and>
     (\<forall>f \<in> set gs. \<exists>b d u. f = LFr b d u)"
proof (induction r arbitrary: p)
  case (Nd l a c r)
  show ?case
  proof (cases l)
    case Lf
    with Nd.prems show ?thesis
      by (intro exI [of _ a] exI [of _ c] exI [of _ r] exI [of _ "[]"]) (simp add: leftmost.simps)
  next
    case (Nd l1 b d l2)
    with Nd.IH(1) [of "Some a"] Nd.prems obtain s sc sr gs where
      "l = plug (Nd Lf s sc sr) gs" "leftmost b m = Some s" "\<forall>f \<in> set gs. \<exists>b d u. f = LFr b d u"
      by auto
    moreover have "leftmost a m = leftmost b m"
      using Nd.prems Nd by (simp add: leftmost.simps [of a])
    ultimately show ?thesis
      by (intro exI [of _ s] exI [of _ sc] exI [of _ sr] exI [of _ "gs @ [LFr a c r]"])
        (auto simp: plug_append)
  qed
qed simp

lemma detach_min:
  assumes gs: "gs = LFr b bc br # gs'" "reprg m (Some s) gs p" "wff gs" "rootf (Some s) gs = Some t"
    and sr: "repr m (Some s) sr" "wft sr" "addrs sr \<inter> faddrs gs = {}"
    and s: "s \<notin> faddrs gs" "s \<notin> addrs sr" "m s = Some n"
  shows "\<exists>m2 m3 m4 m5. set_parent_if (root_of sr) (Some b) m = Some m2 \<and>
     set_left b (root_of sr) m2 = Some m3 \<and> set_right s (Some t) m3 = Some m4 \<and>
     rb_set_parent t (Some s) m4 = Some m5 \<and> reprg m5 (root_of sr) gs (Some s) \<and>
     repr m5 (Some b) sr \<and> m5 s = Some (n\<lparr>rb_right := Some t\<rparr>) \<and>
     same_outside (addrs sr \<union> faddrs gs) m m3 \<and> same_outside (insert s (addrs sr \<union> faddrs gs)) m m5"
proof -
  have b: "b \<notin> addrs sr" "b \<noteq> s" using gs sr s by auto
  obtain m2 where m2: "set_parent_if (root_of sr) (Some b) m = Some m2" "repr m2 (Some b) sr"
      "same_outside (addrs sr) m m2"
  proof (cases sr)
    case (Nd sl x xc sr')
    with sr show ?thesis
      by (intro that [of "m(x \<mapsto> \<lparr>rb_parent = Some b, rb_color = xc, rb_right = root_of sr', rb_left = root_of sl\<rparr>)"])
        (auto simp: set_parent_if_def rb_set_parent_def)
  qed (use sr that in \<open>auto simp: set_parent_if_def\<close>)
  have "reprg m2 (Some s) gs p"
    using same_outside_cong(2) [OF m2(3)] gs(2) sr(3) by (auto simp: Int_commute)
  then obtain m3 where m3: "set_left b (root_of sr) m2 = Some m3" "reprg m3 (root_of sr) gs p"
      "same_outside {b} m2 m3"
    using gs(1,3) by (auto simp: set_left_def)
  have m3s: "m3 s = Some n" "repr m3 (Some b) sr"
    using m2 m3(3) s b same_outside_cong(1) [OF m3(3), of sr] by (auto simp: same_outside_def)
  define m4 where "m4 = m3(s \<mapsto> n\<lparr>rb_right := Some t\<rparr>)"
  have m4: "set_right s (Some t) m3 = Some m4" using m3s by (simp add: set_right_def m4_def)
  have "reprg m4 (root_of sr) gs p" using m3(2) s(1) by (simp add: m4_def del: fun_upd_apply)
  moreover have "rootf (root_of sr) gs = Some t" using gs(1,4) by simp
  ultimately obtain k where k: "m4 t = Some k" "reprg (m4(t \<mapsto> k\<lparr>rb_parent := Some s\<rparr>)) (root_of sr) gs (Some s)"
    using reprg_reparent [of m4 "root_of sr" gs p t "Some s"] gs(1,3) by auto
  have t: "t \<in> faddrs gs" using gs(1,4) rootf_faddrs [of gs "Some s"] by auto
  let ?m5 = "m4(t \<mapsto> k\<lparr>rb_parent := Some s\<rparr>)"
  have "rb_set_parent t (Some s) m4 = Some ?m5" using k(1) by (simp add: rb_set_parent_def)
  moreover have "repr ?m5 (Some b) sr"
    using m3s(2) s(2) t sr(3) by (subst repr_upd; force simp: m4_def)
  moreover have "?m5 s = Some (n\<lparr>rb_right := Some t\<rparr>)" using t s(1) by (auto simp: m4_def)
  moreover have o3: "same_outside (addrs sr \<union> faddrs gs) m m3"
    using m2(3) m3(3) gs(1) by (auto simp: same_outside_def)
  moreover have "same_outside (insert s (addrs sr \<union> faddrs gs)) m ?m5"
    using o3 t by (auto simp: same_outside_def m4_def)
  ultimately show ?thesis using m2(1) m3(1) m4 k(2) by blast
qed

text \<open>The last statements of the replacement: the successor takes the place of the old node.\<close>

lemma take_place:
  assumes "m s = Some n" "repr m q l" "wft l" "root_of l = Some x" "s \<notin> addrs l"
  shows "\<exists>m1 m2 m3 m4. rb_set_parent s p m = Some m1 \<and> rb_set_color s c m1 = Some m2 \<and>
     set_left s (Some x) m2 = Some m3 \<and> rb_set_parent x (Some s) m3 = Some m4 \<and>
     m4 s = Some \<lparr>rb_parent = p, rb_color = c, rb_right = rb_right n, rb_left = Some x\<rparr> \<and>
     repr m4 (Some s) l \<and> same_outside (insert s (addrs l)) m m4"
  using assms
  by (cases l; cases n)
    (auto simp: rb_set_parent_def rb_set_color_def set_left_def same_outside_def)

lemma successor_zip:
  assumes z: "zip_at m root (Nd l a c r) fs" and l: "root_of l = Some x"
    and r: "r = plug (Nd Lf s sc sr) gs" "leftmost (the (root_of r)) m = Some s"
    and g: "\<forall>f \<in> set gs. \<exists>b d u. f = LFr b d u"
  shows "\<exists>m' root'. rb_replace_by_successor a m root =
       Some (root_of sr, par (gs @ RFr l s c # fs), sc, m', root') \<and>
     zip_at m' root' sr (gs @ RFr l s c # fs) \<and>
     same_outside (addrs (Nd l a c r) \<union> faddrs fs) m m'"
proof -
  define t where "t = the (root_of r)"
  have t: "root_of r = Some t" "rootf (Some s) gs = Some t"
  proof -
    show "root_of r = Some t" using r(1) rootf_faddrs [of gs "Some s"] by (cases "gs = []") (auto simp: t_def)
    then show "rootf (Some s) gs = Some t" using r(1) by simp
  qed
  have M: "m a = Some \<lparr>rb_parent = par fs, rb_color = c, rb_right = Some t, rb_left = Some x\<rparr>"
      "m s = Some \<lparr>rb_parent = (if gs = [] then Some a else par gs), rb_color = sc,
                   rb_right = root_of sr, rb_left = None\<rparr>"
      "repr m (Some a) l" "repr m (Some s) sr" "reprg m (Some s) gs (Some a)" "reprf m (Some a) fs"
    using z t l r(1) by (simp_all add: zip_at_def repr_plug_outer)
  have W: "wft l" "wft sr" "wff gs" "wff fs" "s \<notin> addrs sr" "s \<notin> faddrs gs" "s \<notin> addrs l"
      "s \<notin> faddrs fs" "a \<notin> faddrs fs" "a \<notin> addrs l" "a \<noteq> s" "a \<notin> addrs sr" "a \<notin> faddrs gs"
      "addrs sr \<inter> faddrs gs = {}" "addrs sr \<inter> faddrs fs = {}" "addrs l \<inter> faddrs fs = {}"
      "addrs l \<inter> addrs sr = {}" "addrs l \<inter> faddrs gs = {}" "faddrs gs \<inter> faddrs fs = {}"
    using z r(1) by (auto simp: zip_at_def Int_Un_distrib Int_Un_distrib2 Int_commute)
  obtain m1 where m1: "replace_child (par fs) a (Some s) m root = Some (m1, rootf (Some s) fs)"
      "reprf m1 (Some s) fs" "same_outside (faddrs fs) m m1"
    using replace_child_repr [OF M(6) W(4,9), of "Some s"] z by (auto simp: zip_at_def)
  have N: "m1 a = m a" "m1 s = m s" "repr m1 (Some a) l" "repr m1 (Some s) sr"
      "reprg m1 (Some s) gs (Some a)"
    using m1(3) M W same_outside_cong [OF m1(3)] by (auto simp: same_outside_def)
  have fin: ?thesis
    if m5: "m5 s = Some n" "repr m5 (Some a) l" "reprf m5 (Some s) fs" "reprg m5 (root_of sr) gs (Some s)"
      "repr m5 (par (gs @ RFr l s c # fs)) sr" "rb_right n = rootf (root_of sr) gs"
      "same_outside (insert s (addrs sr \<union> faddrs gs \<union> faddrs fs)) m m5"
    and eq: "\<And>m6 m7 m8 m9. rb_set_parent s (par fs) m5 = Some m6 \<Longrightarrow> rb_set_color s c m6 = Some m7 \<Longrightarrow>
       set_left s (Some x) m7 = Some m8 \<Longrightarrow> rb_set_parent x (Some s) m8 = Some m9 \<Longrightarrow>
       rb_replace_by_successor a m root = Some (root_of sr, par (gs @ RFr l s c # fs), sc, m9, rootf (Some s) fs)"
    for m5 n
  proof -
    obtain m6 m7 m8 m9 where m9: "rb_set_parent s (par fs) m5 = Some m6" "rb_set_color s c m6 = Some m7"
        "set_left s (Some x) m7 = Some m8" "rb_set_parent x (Some s) m8 = Some m9"
        "m9 s = Some \<lparr>rb_parent = par fs, rb_color = c, rb_right = rb_right n, rb_left = Some x\<rparr>"
        "repr m9 (Some s) l" "same_outside (insert s (addrs l)) m5 m9"
      using take_place [OF m5(1,2) W(1) l W(7)] by blast
    have "repr m9 (par (gs @ RFr l s c # fs)) sr" "reprg m9 (root_of sr) gs (Some s)" "reprf m9 (Some s) fs"
      using same_outside_cong [OF m9(7)] m5 W by (auto simp: Int_commute)
    moreover have "same_outside (addrs (Nd l a c r) \<union> faddrs fs) m m9"
      using m5(7) m9(7) r(1) by (auto simp: same_outside_def)
    ultimately show ?thesis
      using eq [OF m9(1-4)] m9(5,6) m5(6) W l
      by (auto simp: zip_at_def reprf_append wff_append Int_Un_distrib Int_commute)
  qed
  show ?thesis
  proof (cases gs)
    case Nil
    show ?thesis
    proof (rule fin [of m1])
      show "m1 s = Some \<lparr>rb_parent = Some a, rb_color = sc, rb_right = root_of sr, rb_left = None\<rparr>"
        using N M Nil by simp
    qed (use N M m1 Nil t r(2) W in \<open>auto simp: rb_replace_by_successor_def same_outside_def\<close>)
  next
    case (Cons f gs')
    then obtain b bc br where gs: "gs = LFr b bc br # gs'" using g by auto
    obtain m2 m3 m4 m5 where m5: "set_parent_if (root_of sr) (Some b) m1 = Some m2"
        "set_left b (root_of sr) m2 = Some m3" "set_right s (Some t) m3 = Some m4"
        "rb_set_parent t (Some s) m4 = Some m5" "reprg m5 (root_of sr) gs (Some s)" "repr m5 (Some b) sr"
        "m5 s = Some \<lparr>rb_parent = Some b, rb_color = sc, rb_right = Some t, rb_left = None\<rparr>"
        "same_outside (addrs sr \<union> faddrs gs) m1 m3" "same_outside (insert s (addrs sr \<union> faddrs gs)) m1 m5"
      using detach_min [OF gs N(5) W(3) t(2) N(4) W(2,14,6,5), of "the (m1 s)"] N(2) M(2) gs by auto
    have A: "m3 a = m a" "m5 a = m a" "b \<noteq> a"
      using m5(8,9) N(1) W gs by (auto simp: same_outside_def)
    have L5: "repr m5 (Some a) l" "reprf m5 (Some s) fs"
      using same_outside_cong(1) [OF m5(9), of l "Some a"] same_outside_cong(3) [OF m5(9), of fs "Some s"]
        W N(3) m1(2) by (simp_all add: Int_Un_distrib Int_commute)
    have O5: "same_outside (insert s (addrs sr \<union> faddrs gs \<union> faddrs fs)) m m5"
      using m1(3) m5(9) by (auto simp: same_outside_def)
    show ?thesis
    proof (rule fin [of m5, OF m5(7)])
      fix m6 m7 m8 m9
      assume "rb_set_parent s (par fs) m5 = Some m6" "rb_set_color s c m6 = Some m7"
        "set_left s (Some x) m7 = Some m8" "rb_set_parent x (Some s) m8 = Some m9"
      then show "rb_replace_by_successor a m root =
          Some (root_of sr, par (gs @ RFr l s c # fs), sc, m9, rootf (Some s) fs)"
        using M(1,2) N(2) m1(1) m5(1-4) A t r(2) gs by (simp add: rb_replace_by_successor_def)
    qed (use L5 O5 m5(5,6) gs t(2) in auto)
  qed
qed

subsection \<open>Removal\<close>

text \<open>Taking out a node with at most one child leaves a red-black tree or a deficient one.\<close>

lemma unlink_inv:
  assumes "rbt (plug (Nd l a c r) fs)" "l = Lf \<and> t = r \<or> r = Lf \<and> t = l"
  shows "c = RB_RED \<Longrightarrow> rbt (plug t fs)" and "c = RB_BLACK \<Longrightarrow> deficient t fs"
  using assms by (auto simp: rbt_plug deficient_def rb_not_red rb_not_black)

lemma finorder_left: "\<forall>f \<in> set gs. \<exists>b d u. f = LFr b d u \<Longrightarrow> fst (finorder gs) = []"
  by (induction gs rule: faddrs.induct) (auto split: prod.splits)

text \<open>The invariants of a context do not depend on the addresses of its nodes.\<close>

lemma frame_addr_irrelevant:
  "col_ok (gs @ RFr l a c # fs) = col_ok (gs @ RFr l b c # fs)"
  "hgt_ok n (gs @ RFr l a c # fs) = hgt_ok n (gs @ RFr l b c # fs)"
  "fcol (gs @ RFr l a c # fs) = fcol (gs @ RFr l b c # fs)"
  "top_black (gs @ RFr l a c # fs) = top_black (gs @ RFr l b c # fs)"
proof -
  show f: "fcol (gs @ RFr l a c # fs) = fcol (gs @ RFr l b c # fs)" for gs
    by (cases gs rule: par.cases) auto
  show "col_ok (gs @ RFr l a c # fs) = col_ok (gs @ RFr l b c # fs)"
    by (induction gs rule: faddrs.induct) (auto simp: f)
  show "hgt_ok n (gs @ RFr l a c # fs) = hgt_ok n (gs @ RFr l b c # fs)"
    by (induction gs arbitrary: n rule: faddrs.induct) auto
  show "top_black (gs @ RFr l a c # fs) = top_black (gs @ RFr l b c # fs)"
    by (cases fs) (auto simp: top_black_def)
qed

lemma erase_zip:
  assumes z: "zip_at m root (Nd l a c r) fs" and rb: "rbt (plug (Nd l a c r) fs)"
  shows "\<exists>m' root' T. rb_erase a m root = Some (m', root') \<and> tree_at m' root' T \<and> rbt T \<and>
     inorder T = fst (finorder fs) @ inorder l @ inorder r @ snd (finorder fs) \<and>
     same_outside (addrs (Nd l a c r) \<union> faddrs fs) m m'"
proof -
  have ma: "m a = Some \<lparr>rb_parent = par fs, rb_color = c, rb_right = root_of r, rb_left = root_of l\<rparr>"
    using zip_at_nodes(1) [OF z] .
  text \<open>Once the node is unlinked, the rest is the same for all shapes.\<close>
  have fin: ?thesis
    if u: "(if root_of l = None then rb_unlink a (root_of r) m root
        else if root_of r = None then rb_unlink a (root_of l) m root
        else rb_replace_by_successor a m root) = Some (root_of t, par gs, d, m1, root1)"
      and z1: "zip_at m1 root1 t gs" and o1: "same_outside (addrs (Nd l a c r) \<union> faddrs fs) m m1"
      and i: "inorder (plug t gs) = fst (finorder fs) @ inorder l @ inorder r @ snd (finorder fs)"
      and red: "d = RB_RED \<Longrightarrow> rbt (plug t gs)" and black: "d = RB_BLACK \<Longrightarrow> deficient t gs"
    for t gs d m1 root1
  proof -
    have sub: "addrs t \<union> faddrs gs \<subseteq> addrs (Nd l a c r) \<union> faddrs fs"
    proof -
      have "addrs (plug t gs) \<subseteq> addrs (plug (Nd l a c r) fs)"
        unfolding addrs_inorder i by (auto simp: inorder_plug)
      then show ?thesis by simp
    qed
    show ?thesis
    proof (cases d)
      case RB_RED
      with u z1 o1 i red ma show ?thesis by (auto simp: rb_erase_def zip_at_tree)
    next
      case RB_BLACK
      from erase_color_zip [OF z1 black [OF RB_BLACK]] obtain m' root' T where
        T: "rb_erase_color (root_of t) (par gs) m1 root1 = Some (m', root')" "tree_at m' root' T"
          "rbt T" "inorder T = inorder (plug t gs)" "same_outside (addrs t \<union> faddrs gs) m1 m'" by blast
      have "same_outside (addrs (Nd l a c r) \<union> faddrs fs) m m'"
        using o1 T(5) sub by (auto simp: same_outside_def)
      with u ma i T RB_BLACK show ?thesis by (auto simp: rb_erase_def)
    qed
  qed
  consider (one) t where "l = Lf \<and> t = r \<or> r = Lf \<and> t = l" | (two) "l \<noteq> Lf" "r \<noteq> Lf" by auto
  then show ?thesis
  proof cases
    case one
    from unlink_zip [OF z one] obtain m1 root1 where
      "rb_unlink a (root_of t) m root = Some (root_of t, par fs, c, m1, root1)" "zip_at m1 root1 t fs"
      "same_outside (addrs t \<union> faddrs fs) m m1" by blast
    with one show ?thesis
      by (intro fin [of t fs c m1 root1] unlink_inv [OF rb one])
        (auto simp: same_outside_def inorder_plug split: if_splits)
  next
    case two
    obtain s sc sr gs where r: "r = plug (Nd Lf s sc sr) gs" "leftmost (the (root_of r)) m = Some s"
        "\<forall>f \<in> set gs. \<exists>b d u. f = LFr b d u"
      using leftmost_repr [OF two(2) zip_at_nodes(3) [OF z]] by blast
    obtain x y where x: "root_of l = Some x" "root_of r = Some y" using two by (cases l; cases r) auto
    let ?gs = "gs @ RFr l s c # fs"
    obtain m1 root1 where m1: "rb_replace_by_successor a m root = Some (root_of sr, par ?gs, sc, m1, root1)"
      "zip_at m1 root1 sr ?gs" "same_outside (addrs (Nd l a c r) \<union> faddrs fs) m m1"
      using successor_zip [OF z x(1) r] by blast
    have "rbt (plug (Nd Lf s sc sr) (gs @ RFr l a c # fs))" using rb r(1) by (simp add: plug_append)
    then have rb': "rbt (plug (Nd Lf s sc sr) ?gs)"
      by (simp add: rbt_plug frame_addr_irrelevant [where a = a and b = s])
    have "inorder (plug sr ?gs) = fst (finorder fs) @ inorder l @ inorder r @ snd (finorder fs)"
      by (simp add: r(1) plug_append inorder_plug finorder_left [OF r(3)])
    with m1 x show ?thesis
      by (intro fin [of sr ?gs sc m1 root1] unlink_inv [OF rb']) simp_all
  qed
qed

subsection \<open>The operations on whole trees\<close>

lemma split_at_node: "a \<in> addrs t \<Longrightarrow> \<exists>l c r fs. t = plug (Nd l a c r) fs"
proof (induction t)
  case (Nd l b d r)
  consider "a = b" | "a \<in> addrs l" | "a \<in> addrs r" using Nd.prems by auto
  then show ?case
  proof cases
    case 1
    then have "Nd l b d r = plug (Nd l a d r) []" by simp
    then show ?thesis by blast
  next
    case 2
    with Nd.IH(1) obtain l' c r' fs where "l = plug (Nd l' a c r') fs" by blast
    then have "Nd l b d r = plug (Nd l' a c r') (fs @ [LFr b d r])" by (simp add: plug_append)
    then show ?thesis by blast
  next
    case 3
    with Nd.IH(2) obtain l' c r' fs where "r = plug (Nd l' a c r') fs" by blast
    then have "Nd l b d r = plug (Nd l' a c r') (fs @ [RFr l b d])" by (simp add: plug_append)
    then show ?thesis by blast
  qed
qed simp

lemma erase_tree:
  assumes "tree_at m root t" "rbt t" "a \<in> set (inorder t)"
  shows "\<exists>m' root' t'. rb_erase a m root = Some (m', root') \<and> tree_at m' root' t' \<and> rbt t' \<and>
     inorder t' = remove1 a (inorder t) \<and> same_outside (addrs t) m m'"
proof -
  obtain l c r fs where t: "t = plug (Nd l a c r) fs"
    using split_at_node assms(3) by (metis addrs_inorder)
  have "distinct (inorder t)" using assms(1) by (simp add: tree_at_def wft_distinct)
  then have "remove1 a (inorder t) = fst (finorder fs) @ inorder l @ inorder r @ snd (finorder fs)"
    by (simp add: t inorder_plug remove1_append)
  then show ?thesis
    using erase_zip [of m root l a c r fs] assms(1,2) t by (auto simp: zip_at_tree)
qed

text \<open>Where a new leaf goes, as the pointer to the link that \<open>rb_link_node\<close> receives.\<close>

fun link_of :: "frame list \<Rightarrow> rb_link" where
  "link_of [] = At_Root"
| "link_of (LFr a _ _ # _) = At_Left a"
| "link_of (RFr _ a _ # _) = At_Right a"

lemma link_insert_tree:
  assumes t: "tree_at m root (plug Lf fs)" "rbt (plug Lf fs)" and a: "a \<notin> faddrs fs"
  shows "\<exists>m1 root1 m' root' t'. rb_link_node a (par fs) (link_of fs) m root = Some (m1, root1) \<and>
     rb_insert_color a m1 root1 = Some (m', root') \<and> tree_at m' root' t' \<and> rbt t' \<and>
     inorder t' = fst (finorder fs) @ a # snd (finorder fs) \<and>
     same_outside (insert a (faddrs fs)) m m'"
proof -
  let ?t = "Nd Lf a RB_RED Lf"
  obtain m1 root1 where m1: "rb_link_node a (par fs) (link_of fs) m root = Some (m1, root1)"
      "zip_at m1 root1 ?t fs" "same_outside (insert a (faddrs fs)) m m1"
  proof (cases fs rule: par.cases)
    case 1
    with t that show ?thesis by (auto simp: rb_link_node_def zip_at_def same_outside_def)
  next
    case (2 p c r gs)
    with t a that show ?thesis
      by (auto simp: rb_link_node_def tree_at_def repr_plug zip_at_def same_outside_def set_left_def)
  next
    case (3 l p c gs)
    with t a that show ?thesis
      by (auto simp: rb_link_node_def tree_at_def repr_plug zip_at_def same_outside_def set_right_def)
  qed
  obtain m' root' where m': "rb_insert_color a m1 root1 = Some (m', root')"
      "tree_at m' root' (paint RB_BLACK (ins_fix ?t fs))" "same_outside (insert a (faddrs fs)) m1 m'"
    using insert_color_zip [OF m1(2), of a] t(2) by (auto simp: rbt_plug)
  moreover have "rbt (paint RB_BLACK (ins_fix ?t fs))"
    using t(2) by (intro inv_ins_fix) (auto simp: rbt_plug)
  moreover have "inorder (paint RB_BLACK (ins_fix ?t fs)) = fst (finorder fs) @ a # snd (finorder fs)"
    by (simp add: inorder_ins_fix inorder_plug)
  ultimately show ?thesis using m1(1,3) same_outside_trans [OF m1(3) m'(3)] by blast
qed

subsection \<open>Walking the tree in order\<close>

definition hd_opt :: "'a list \<Rightarrow> 'a option" where
  "hd_opt xs = (case xs of [] \<Rightarrow> None | x # _ \<Rightarrow> Some x)"

lemma hd_opt_simps [simp]: "hd_opt [] = None" "hd_opt (x # xs) = Some x"
  by (simp_all add: hd_opt_def)

lemma hd_opt_append: "hd_opt (xs @ ys) = (if xs = [] then hd_opt ys else hd_opt xs)"
  by (cases xs) auto

lemma hd_opt_Some: "xs \<noteq> [] \<Longrightarrow> \<exists>x. hd_opt xs = Some x"
  by (cases xs) auto

lemma climb_from_right_zip:
  "zip_at m root t fs \<Longrightarrow> root_of t = Some a \<Longrightarrow>
   climb_from_right a m = Some (hd_opt (snd (finorder fs)))"
proof (induction fs arbitrary: t a rule: faddrs.induct)
  case 1
  then show ?case by (cases t) (auto simp: zip_at_def climb_from_right.simps)
next
  case (2 p c r fs)
  then show ?case
    by (cases t) (auto simp: zip_at_def climb_from_right.simps split: prod.splits dest: root_of_addrs)
next
  case (3 l p c fs)
  have "zip_at m root (Nd l p c t) fs" using "3.prems"(1) by (simp add: zip_at_down_right)
  from "3.IH" [OF this, of p] "3.prems" show ?case
    by (cases t) (auto simp: zip_at_def climb_from_right.simps [of a] split: prod.splits)
qed

lemma climb_from_left_zip:
  "zip_at m root t fs \<Longrightarrow> root_of t = Some a \<Longrightarrow>
   climb_from_left a m = Some (hd_opt (rev (fst (finorder fs))))"
proof (induction fs arbitrary: t a rule: faddrs.induct)
  case 1
  then show ?case by (cases t) (auto simp: zip_at_def climb_from_left.simps)
next
  case (2 p c r fs)
  have "zip_at m root (Nd t p c r) fs" using "2.prems"(1) by (simp add: zip_at_down_left)
  from "2.IH" [OF this, of p] "2.prems" show ?case
    by (cases t) (auto simp: zip_at_def climb_from_left.simps [of a] split: prod.splits)
next
  case (3 l p c fs)
  then show ?case
    by (cases t) (auto simp: zip_at_def climb_from_left.simps split: prod.splits dest: root_of_addrs)
qed

lemma leftmost_inorder:
  "r \<noteq> Lf \<Longrightarrow> repr m p r \<Longrightarrow> leftmost (the (root_of r)) m = hd_opt (inorder r)"
  using leftmost_repr [of r m p] by (auto simp: inorder_plug finorder_left)

lemma rightmost_inorder:
  "r \<noteq> Lf \<Longrightarrow> repr m p r \<Longrightarrow> rightmost (the (root_of r)) m = hd_opt (rev (inorder r))"
proof (induction r arbitrary: p)
  case (Nd l a c r)
  show ?case
  proof (cases r)
    case Lf
    with Nd.prems show ?thesis by (simp add: rightmost.simps)
  next
    case (Nd r1 b d r2)
    with Nd.IH(2) [of "Some a"] Nd.prems show ?thesis
      by (simp add: rightmost.simps [of a] hd_opt_append)
  qed
qed simp

lemma rb_next_zip:
  assumes z: "zip_at m root (Nd l a c r) fs"
  shows "rb_next m a = Some (hd_opt (inorder r @ snd (finorder fs)))"
proof -
  have "par fs \<noteq> Some a"
    using z by (cases fs rule: par.cases) (auto simp: zip_at_def)
  then show ?thesis
    using zip_at_nodes [OF z] leftmost_inorder [of r m "Some a"] climb_from_right_zip [OF z]
      hd_opt_Some [of "inorder r"]
    by (cases r) (auto simp: rb_next_def hd_opt_append)
qed

lemma rb_prev_zip:
  assumes z: "zip_at m root (Nd l a c r) fs"
  shows "rb_prev m a = Some (hd_opt (rev (fst (finorder fs) @ inorder l)))"
proof -
  have "par fs \<noteq> Some a"
    using z by (cases fs rule: par.cases) (auto simp: zip_at_def)
  then show ?thesis
    using zip_at_nodes [OF z] rightmost_inorder [of l m "Some a"] climb_from_left_zip [OF z]
      hd_opt_Some [of "rev (inorder l)"]
    by (cases l) (auto simp: rb_prev_def hd_opt_append)
qed

lemma replace_node_zip:
  assumes z: "zip_at m root (Nd l a c r) fs" and b: "b \<notin> addrs (Nd l a c r) \<union> faddrs fs"
  shows "\<exists>m' root'. rb_replace_node a b m root = Some (m', root') \<and> zip_at m' root' (Nd l b c r) fs \<and>
     same_outside (insert b (addrs (Nd l a c r) \<union> faddrs fs)) m m'"
proof -
  have Z: "reprf m (Some a) fs" "wff fs" "a \<notin> faddrs fs" "root = rootf (Some a) fs"
    using z by (auto simp: zip_at_def)
  obtain m1 where m1: "replace_child (par fs) a (Some b) m root = Some (m1, rootf (Some b) fs)"
      "reprf m1 (Some b) fs" "same_outside (faddrs fs) m m1"
    using replace_child_repr [OF Z(1-3), of "Some b"] Z(4) by auto
  have N: "m1 a = m a" "repr m1 (Some a) l" "repr m1 (Some a) r"
    using z m1(3) same_outside_cong(1) [OF m1(3), of l "Some a"] same_outside_cong(1) [OF m1(3), of r "Some a"]
    by (auto simp: zip_at_def same_outside_def Int_Un_distrib Int_Un_distrib2)
  show ?thesis
    using z b m1 N
    by (cases l; cases r)
      (auto simp: rb_replace_node_def zip_at_def set_parent_if_def rb_set_parent_def same_outside_def
        disj_simps)
qed

lemma rb_last_tree: "tree_at m root t \<Longrightarrow> rb_last m root = Some (hd_opt (rev (inorder t)))"
  using rightmost_inorder [of t m None] hd_opt_Some [of "rev (inorder t)"]
  by (cases t) (auto simp: rb_last_def tree_at_def)

subsection \<open>The interface for clients\<close>

text \<open>
  \<open>rb_holds m root xs\<close>: the memory holds, at \<open>root\<close>, a red-black tree whose nodes in order are
  \<open>xs\<close>. A client needs no more than the following laws, in particular that the operations of
  one tree do not disturb another tree in the same memory.
\<close>

definition rb_holds :: "rb_mem \<Rightarrow> addr option \<Rightarrow> addr list \<Rightarrow> bool" where
  "rb_holds m root xs \<longleftrightarrow> (\<exists>t. tree_at m root t \<and> rbt t \<and> inorder t = xs)"

locale node_sequence =
  fixes holds :: "(addr \<Rightarrow> 'n) \<Rightarrow> 'r \<Rightarrow> addr list \<Rightarrow> bool"
    and erase :: "addr \<Rightarrow> (addr \<Rightarrow> 'n) \<Rightarrow> 'r \<Rightarrow> ((addr \<Rightarrow> 'n) \<times> 'r) option"
  assumes holds_distinct: "holds m root xs \<Longrightarrow> distinct xs"
    and holds_frame: "holds m root xs \<Longrightarrow> (\<And>a. a \<in> set xs \<Longrightarrow> m' a = m a) \<Longrightarrow> holds m' root xs"
    and erase_holds: "holds m root xs \<Longrightarrow> a \<in> set xs \<Longrightarrow>
      \<exists>m' root'. erase a m root = Some (m', root') \<and> holds m' root' (remove1 a xs) \<and>
        (\<forall>b. b \<notin> set xs \<longrightarrow> m' b = m b)"
begin

lemma erase_other:
  assumes "holds m r1 xs" "holds m r2 ys" "set xs \<inter> set ys = {}" "a \<in> set xs"
  shows "\<exists>m' r1'. erase a m r1 = Some (m', r1') \<and> holds m' r1' (remove1 a xs) \<and> holds m' r2 ys"
proof -
  obtain m' r1' where m': "erase a m r1 = Some (m', r1')" "holds m' r1' (remove1 a xs)"
      "\<forall>b. b \<notin> set xs \<longrightarrow> m' b = m b"
    using erase_holds [OF assms(1,4)] by blast
  have "holds m' r2 ys"
    using assms(3) m'(3) by (intro holds_frame [OF assms(2)]) auto
  with m' show ?thesis by blast
qed

fun erase_seq :: "addr list \<Rightarrow> (addr \<Rightarrow> 'n) \<Rightarrow> 'r \<Rightarrow> ((addr \<Rightarrow> 'n) \<times> 'r) option" where
  "erase_seq [] m root = Some (m, root)"
| "erase_seq (a # as) m root = do { (m, root) \<leftarrow> erase a m root; erase_seq as m root }"

lemma erase_seq_holds:
  assumes "holds m root xs" "distinct as" "set as \<subseteq> set xs"
  shows "\<exists>m' root'. erase_seq as m root = Some (m', root') \<and>
           holds m' root' (filter (\<lambda>x. x \<notin> set as) xs)"
  using assms
proof (induction as arbitrary: m root xs)
  case Nil
  then show ?case by simp
next
  case (Cons a as)
  obtain m1 root1 where m1: "erase a m root = Some (m1, root1)" "holds m1 root1 (remove1 a xs)"
    using erase_holds [OF Cons.prems(1), of a] Cons.prems(3) by auto
  have dx: "distinct xs" using holds_distinct [OF Cons.prems(1)] .
  have "set as \<subseteq> set (remove1 a xs)"
    using Cons.prems(2,3) dx by auto
  from Cons.IH [OF m1(2) _ this] Cons.prems(2) m1(1)
  show ?case by (auto simp: remove1_filter [OF dx] intro: arg_cong [where f = "holds _ _"])
qed

end

interpretation rbs: node_sequence rb_holds rb_erase
proof
  fix m root xs
  assume h: "rb_holds m root xs"
  then show "distinct xs" by (auto simp: rb_holds_def tree_at_def wft_distinct)
  show "rb_holds m' root xs" if "\<And>a. a \<in> set xs \<Longrightarrow> m' a = m a" for m'
  proof -
    obtain t where t: "tree_at m root t" "rbt t" "inorder t = xs" using h by (auto simp: rb_holds_def)
    have "repr m' None t = repr m None t"
      using that t(3) by (intro repr_cong) (auto simp: addrs_inorder)
    with t show ?thesis by (auto simp: rb_holds_def tree_at_def)
  qed
  show "\<exists>m' root'. rb_erase a m root = Some (m', root') \<and> rb_holds m' root' (remove1 a xs) \<and>
        (\<forall>b. b \<notin> set xs \<longrightarrow> m' b = m b)" if "a \<in> set xs" for a
  proof -
    obtain t where t: "tree_at m root t" "rbt t" "inorder t = xs" using h by (auto simp: rb_holds_def)
    from erase_tree [OF t(1,2), of a] t(3) that show ?thesis
      by (fastforce simp: rb_holds_def same_outside_def addrs_inorder)
  qed
qed

end
