(* ===== verification/Rbtree_Props.thy ===== *)
theory Rbtree_Props
  imports Rbtree_Proofs
begin

text \<open>
  The properties of the red-black tree of \<open>src/src/rbtree.c\<close>: removal, walking in both
  directions, replacement of a node, the logarithmic depth, and the packing of parent pointer
  and colour into one machine word by the macros of \<open>rbtree.h\<close>.
\<close>

subsection \<open>The word that holds parent and colour\<close>

unbundle bit_operations_syntax

text \<open>The macros \<open>rb_parent\<close>, \<open>rb_color\<close>, \<open>rb_set_parent\<close>, \<open>rb_set_color\<close> on the word itself.\<close>

definition rb_parent_w :: "64 word \<Rightarrow> 64 word" where
  "rb_parent_w w = w AND NOT 3"

definition rb_color_w :: "64 word \<Rightarrow> 64 word" where
  "rb_color_w w = w AND 1"

definition rb_set_red_w :: "64 word \<Rightarrow> 64 word" where
  "rb_set_red_w w = w AND NOT 1"

definition rb_set_black_w :: "64 word \<Rightarrow> 64 word" where
  "rb_set_black_w w = w OR 1"

definition rb_set_parent_w :: "64 word \<Rightarrow> 64 word \<Rightarrow> 64 word" where
  "rb_set_parent_w w p = (w AND 3) OR p"

definition rb_set_color_w :: "64 word \<Rightarrow> 64 word \<Rightarrow> 64 word" where
  "rb_set_color_w w c = (w AND NOT 1) OR c"

text \<open>A node is aligned to \<open>sizeof(long)\<close>, so the two low bits of its address are zero.\<close>

definition node_aligned :: "64 word \<Rightarrow> bool" where
  "node_aligned p \<longleftrightarrow> p AND 7 = 0"

text \<open>What the proofs about trees rely on: two independent fields.\<close>

locale two_fields =
  fixes get_p :: "'w \<Rightarrow> 'p" and get_c :: "'w \<Rightarrow> 'c"
    and put_p :: "'w \<Rightarrow> 'p \<Rightarrow> 'w" and put_c :: "'w \<Rightarrow> 'c \<Rightarrow> 'w"
    and ok_p :: "'p \<Rightarrow> bool" and ok_c :: "'c \<Rightarrow> bool"
  assumes get_put_p: "ok_p p \<Longrightarrow> get_p (put_p w p) = p"
    and get_put_c: "ok_c c \<Longrightarrow> get_c (put_c w c) = c"
    and p_keeps_c: "ok_p p \<Longrightarrow> get_c (put_p w p) = get_c w"
    and c_keeps_p: "ok_c c \<Longrightarrow> get_p (put_c w c) = get_p w"
begin

definition fields :: "'w \<Rightarrow> 'p \<times> 'c" where
  "fields w = (get_p w, get_c w)"

lemma fields_put_p: "ok_p p \<Longrightarrow> fields (put_p w p) = (p, snd (fields w))"
  by (simp add: fields_def get_put_p p_keeps_c)

lemma fields_put_c: "ok_c c \<Longrightarrow> fields (put_c w c) = (fst (fields w), c)"
  by (simp add: fields_def get_put_c c_keeps_p)

lemma fields_put_both: "ok_p p \<Longrightarrow> ok_c c \<Longrightarrow> fields (put_c (put_p w p) c) = (p, c)"
  by (simp add: fields_put_p fields_put_c)

end

lemma low_masks: "(3 :: 64 word) = mask 2" "(7 :: 64 word) = mask 3"
  by (simp_all add: mask_eq_exp_minus_1)

lemma aligned_bits: "node_aligned p \<Longrightarrow> n < 3 \<Longrightarrow> \<not> bit p n"
  using bit_and_iff [of p 7 n] unfolding node_aligned_def low_masks(2) by (simp add: bit_mask_iff)

lemmas packed_defs = rb_parent_w_def rb_color_w_def rb_set_red_w_def rb_set_black_w_def
  rb_set_parent_w_def rb_set_color_w_def

interpretation packed: two_fields rb_parent_w rb_color_w rb_set_parent_w rb_set_color_w
  node_aligned "\<lambda>c. c \<in> {0, 1}"
proof
  show "rb_parent_w (rb_set_parent_w w p) = p" if "node_aligned p" for w p
    by (rule bit_word_eqI) (use aligned_bits [OF that] in \<open>auto simp: bit_simps packed_defs low_masks\<close>)
  show "rb_color_w (rb_set_parent_w w p) = rb_color_w w" if "node_aligned p" for w p
    by (rule bit_word_eqI)
      (use aligned_bits [OF that, of 0] in \<open>auto simp: bit_simps packed_defs low_masks(1)\<close>)
qed (auto intro!: bit_word_eqI simp: bit_simps packed_defs low_masks(1))

text \<open>The two fields of the record that the model of the tree uses keep the same laws.\<close>

interpretation unpacked: two_fields rb_parent rb_color
  "\<lambda>n p. n\<lparr>rb_parent := p\<rparr>" "\<lambda>n c. n\<lparr>rb_color := c\<rparr>" "\<lambda>_. True" "\<lambda>_. True"
  by unfold_locales simp_all

definition color_bit :: "rb_color \<Rightarrow> 64 word" where
  "color_bit c = (case c of RB_RED \<Rightarrow> 0 | RB_BLACK \<Rightarrow> 1)"

text \<open>A packed word and a record agree on a placement \<open>loc\<close> of the nodes in memory.\<close>

definition packs :: "(addr \<Rightarrow> 64 word) \<Rightarrow> 64 word \<Rightarrow> rb_node \<Rightarrow> bool" where
  "packs loc w n \<longleftrightarrow>
     rb_parent_w w = (case rb_parent n of None \<Rightarrow> 0 | Some p \<Rightarrow> loc p) \<and>
     rb_color_w w = color_bit (rb_color n)"

lemma color_bit_range: "color_bit c \<in> {0, 1}"
  by (cases c) (auto simp: color_bit_def)

lemma set_red_black_w:
  "rb_set_red_w w = rb_set_color_w w (color_bit RB_RED)"
  "rb_set_black_w w = rb_set_color_w w (color_bit RB_BLACK)"
  by (auto intro!: bit_word_eqI simp: bit_simps packed_defs color_bit_def)

lemma packs_set_parent:
  assumes "packs loc w n" "\<forall>a. node_aligned (loc a)"
  shows "packs loc (rb_set_parent_w w (case p of None \<Rightarrow> 0 | Some a \<Rightarrow> loc a)) (n\<lparr>rb_parent := p\<rparr>)"
proof -
  have "node_aligned (case p of None \<Rightarrow> 0 | Some a \<Rightarrow> loc a)"
    using assms(2) by (simp add: node_aligned_def split: option.split)
  with assms(1) show ?thesis by (simp add: packs_def packed.get_put_p packed.p_keeps_c)
qed

lemma packs_set_color: "packs loc w n \<Longrightarrow> packs loc (rb_set_color_w w (color_bit c)) (n\<lparr>rb_color := c\<rparr>)"
  using color_bit_range [of c] by (simp only: packs_def packed.get_put_c packed.c_keeps_p) simp

subsection \<open>Depth\<close>

fun hgt :: "tr \<Rightarrow> nat" where
  "hgt Lf = 0"
| "hgt (Nd l a c r) = Suc (max (hgt l) (hgt r))"

lemma hgt_bh: "invc t \<Longrightarrow> invh t \<Longrightarrow> hgt t \<le> 2 * bh t + (if tcol t = RB_RED then 1 else 0)"
proof (induction t)
  case (Nd l a c r)
  then show ?case by (cases c) (auto split: if_splits)
qed simp

lemma bh_size: "invh t \<Longrightarrow> 2 ^ bh t \<le> Suc (length (inorder t))"
proof (induction t)
  case (Nd l a c r)
  then have "2 ^ bh l \<le> Suc (length (inorder l))" "2 ^ bh l \<le> Suc (length (inorder r))" by auto
  then show ?case by simp
qed simp

lemma rbt_hgt: "rbt t \<Longrightarrow> 2 ^ hgt t \<le> (Suc (length (inorder t))) ^ 2"
proof -
  assume t: "rbt t"
  then have "hgt t \<le> 2 * bh t" using hgt_bh [of t] by (auto simp: rbt_def)
  then have "(2::nat) ^ hgt t \<le> 2 ^ (2 * bh t)" by (rule power_increasing) simp
  also have "\<dots> = (2 ^ bh t) ^ 2" by (simp add: power_mult [symmetric] mult.commute)
  also have "\<dots> \<le> (Suc (length (inorder t))) ^ 2"
    using t by (intro power_mono bh_size) (auto simp: rbt_def)
  finally show ?thesis .
qed

text \<open>The number of steps from a node up to the root along the parent pointers.\<close>

partial_function (option) rb_depth :: "rb_mem \<Rightarrow> addr \<Rightarrow> nat option" where
  "rb_depth m a =
     do {
       n \<leftarrow> m a;
       case rb_parent n of
         None \<Rightarrow> Some 0
       | Some p \<Rightarrow> do { d \<leftarrow> rb_depth m p; Some (Suc d) }
     }"

declare rb_depth.simps [code]

lemma rb_depth_zip: "zip_at m root (Nd l a c r) fs \<Longrightarrow> rb_depth m a = Some (length fs)"
proof (induction fs arbitrary: l a c r)
  case Nil
  then show ?case using zip_at_nodes [OF Nil] by (simp add: rb_depth.simps)
next
  case (Cons f fs)
  have "par (f # fs) = Some b \<Longrightarrow> rb_depth m b = Some (length fs)" for b
    using Cons.prems Cons.IH by (cases f) (auto simp: zip_at_tree)
  moreover have "\<exists>b. par (f # fs) = Some b" by (cases f) auto
  ultimately show ?case using zip_at_nodes [OF Cons.prems] by (auto simp: rb_depth.simps [of m a])
qed

lemma hgt_plug: "hgt t + length fs \<le> hgt (plug t fs)"
proof (induction fs arbitrary: t)
  case (Cons f fs)
  from Cons.IH [of "fill t f"] show ?case by (cases f) auto
qed simp

subsection \<open>Properties\<close>

lemma rb_holds_zip:
  assumes "rb_holds m root xs" "a \<in> set xs"
  obtains l c r fs where "zip_at m root (Nd l a c r) fs" "rbt (plug (Nd l a c r) fs)"
    "xs = (fst (finorder fs) @ inorder l) @ a # (inorder r @ snd (finorder fs))"
proof -
  obtain t where t: "tree_at m root t" "rbt t" "inorder t = xs"
    using assms(1) by (auto simp: rb_holds_def)
  then obtain l c r fs where z: "t = plug (Nd l a c r) fs"
    using split_at_node [of a t] assms(2) by (auto simp: addrs_inorder)
  show thesis using that [of l c r fs] t z by (simp add: zip_at_tree inorder_plug)
qed

lemma distinct_split_unique:
  "distinct (ys @ a # zs) \<Longrightarrow> ys @ a # zs = ys' @ a # zs' \<Longrightarrow> ys = ys' \<and> zs = zs'"
  by (metis append_Cons_eq_iff distinct.simps(2) distinct_append not_distinct_conv_prefix
      disjoint_iff list.set_intros(1))

text \<open>
  C10. \<open>rb_erase\<close> of a node of a red-black tree returns; the nodes of the result are the others
  in the same order, the result is again a red-black tree (so the rebalancing is right), and
  no object outside the tree is written.
\<close>

theorem rb_erase_correct:
  assumes "rb_holds m root xs" "a \<in> set xs"
  shows "\<exists>m' root'. rb_erase a m root = Some (m', root') \<and> rb_holds m' root' (remove1 a xs) \<and>
           (\<forall>b. b \<notin> set xs \<longrightarrow> m' b = m b)"
  using assms by (rule rbs.erase_holds)

text \<open>
  Walking: \<open>rb_next\<close> and \<open>rb_prev\<close> return the in-order neighbours of a node, \<open>NULL\<close> at the
  ends, and \<open>rb_last\<close> returns the last node.
\<close>

lemma rb_walk:
  assumes "rb_holds m root (ys @ a # zs)"
  shows "rb_next m a = Some (hd_opt zs) \<and> rb_prev m a = Some (hd_opt (rev ys)) \<and>
    rb_last m root = Some (hd_opt (rev (ys @ a # zs)))"
proof (intro conjI)
  obtain l c r fs where z: "zip_at m root (Nd l a c r) fs"
      "ys @ a # zs = (fst (finorder fs) @ inorder l) @ a # (inorder r @ snd (finorder fs))"
    by (rule rb_holds_zip [OF assms, of a]) auto
  from distinct_split_unique [OF rbs.holds_distinct [OF assms] z(2)]
  have s: "ys = fst (finorder fs) @ inorder l" "zs = inorder r @ snd (finorder fs)" by auto
  show "rb_next m a = Some (hd_opt zs)" using rb_next_zip [OF z(1)] s by simp
  show "rb_prev m a = Some (hd_opt (rev ys))" using rb_prev_zip [OF z(1)] s by simp
  show "rb_last m root = Some (hd_opt (rev (ys @ a # zs)))"
    using rb_last_tree assms unfolding rb_holds_def by metis
qed

text \<open>
  \<open>rb_replace_node\<close> puts a new node into the exact place of another one: same order, still
  a red-black tree, nothing else written.
\<close>

lemma rb_replace_node_correct:
  assumes "rb_holds m root (ys @ a # zs)" "b \<notin> set (ys @ a # zs)"
  shows "\<exists>m' root'. rb_replace_node a b m root = Some (m', root') \<and> rb_holds m' root' (ys @ b # zs) \<and>
           (\<forall>d. d \<notin> insert b (set (ys @ a # zs)) \<longrightarrow> m' d = m d)"
proof -
  obtain l c r fs where z: "zip_at m root (Nd l a c r) fs" "rbt (plug (Nd l a c r) fs)"
      "ys @ a # zs = (fst (finorder fs) @ inorder l) @ a # (inorder r @ snd (finorder fs))"
    by (rule rb_holds_zip [OF assms(1), of a]) auto
  have e: "set (ys @ a # zs) = addrs (plug (Nd l a c r) fs)"
    using z(3) by (simp add: addrs_inorder inorder_plug del: addrs_plug)
  from distinct_split_unique [OF rbs.holds_distinct [OF assms(1)] z(3)]
  have s: "ys = fst (finorder fs) @ inorder l" "zs = inorder r @ snd (finorder fs)" by auto
  obtain m' root' where m': "rb_replace_node a b m root = Some (m', root')"
      "zip_at m' root' (Nd l b c r) fs" "same_outside (insert b (set (ys @ a # zs))) m m'"
    using replace_node_zip [OF z(1), of b] assms(2) unfolding e addrs_plug by blast
  have "rbt (plug (Nd l b c r) fs)"
    using z(2) by (simp add: rbt_plug)
  then have "rb_holds m' root' (ys @ b # zs)"
    using m'(2) s unfolding rb_holds_def zip_at_tree by (intro exI conjI) (auto simp: inorder_plug)
  with m' show ?thesis by (auto simp: same_outside_def)
qed


text \<open>
  The macros that pack the parent pointer and the colour of a node into the word
  \<open>rb_parent_color\<close> implement two independent fields, for every placement of the nodes at
  addresses aligned to \<open>sizeof(long)\<close>: each macro keeps the packed word in step with the record
  of the model.
\<close>

lemma rb_parent_color_packs:
  assumes "packs loc w n" "\<forall>a. node_aligned (loc a)"
  shows "packs loc (rb_set_parent_w w (case p of None \<Rightarrow> 0 | Some a \<Rightarrow> loc a)) (n\<lparr>rb_parent := p\<rparr>) \<and>
    packs loc (rb_set_color_w w (color_bit c)) (n\<lparr>rb_color := c\<rparr>) \<and>
    packs loc (rb_set_red_w w) (n\<lparr>rb_color := RB_RED\<rparr>) \<and>
    packs loc (rb_set_black_w w) (n\<lparr>rb_color := RB_BLACK\<rparr>)"
  unfolding set_red_black_w
  using packs_set_parent [OF assms] packs_set_color [OF assms(1)] by blast

subsection \<open>Witnesses\<close>

text \<open>A tree of three nodes, as two insertions below a root build it.\<close>

definition rb_demo :: rb_mem where
  "rb_demo = [1 \<mapsto> \<lparr>rb_parent = None, rb_color = RB_BLACK, rb_right = Some 3, rb_left = Some 2\<rparr>,
              2 \<mapsto> \<lparr>rb_parent = Some 1, rb_color = RB_RED, rb_right = None, rb_left = None\<rparr>,
              3 \<mapsto> \<lparr>rb_parent = Some 1, rb_color = RB_RED, rb_right = None, rb_left = None\<rparr>]"

lemma rb_demo_holds: "rb_holds rb_demo (Some 1) ([2] @ 1 # [3])"
  unfolding rb_holds_def
  by (rule exI [of _ "Nd (Nd Lf 2 RB_RED Lf) 1 RB_BLACK (Nd Lf 3 RB_RED Lf)"])
    (simp add: tree_at_def rbt_def rb_demo_def)

theorem rb_erase_correct_witness:
  "\<exists>m' root'. rb_erase 1 rb_demo (Some 1) = Some (m', root') \<and>
     rb_holds m' root' (remove1 1 ([2] @ 1 # [3])) \<and>
     (\<forall>b. b \<notin> set ([2] @ 1 # [3]) \<longrightarrow> m' b = rb_demo b)"
  by (rule rb_erase_correct [OF rb_demo_holds]) simp

lemma rb_walk_witness:
  "rb_next rb_demo 1 = Some (Some 3) \<and> rb_prev rb_demo 1 = Some (Some 2) \<and>
   rb_last rb_demo (Some 1) = Some (Some 3)"
  using rb_walk [OF rb_demo_holds] by simp

lemma rb_replace_node_correct_witness:
  "\<exists>m' root'. rb_replace_node 1 7 rb_demo (Some 1) = Some (m', root') \<and>
     rb_holds m' root' ([2] @ 7 # [3]) \<and>
     (\<forall>d. d \<notin> insert 7 (set ([2] @ 1 # [3])) \<longrightarrow> m' d = rb_demo d)"
  by (rule rb_replace_node_correct [OF rb_demo_holds]) simp


lemma rb_parent_color_packs_witness:
  "packs (\<lambda>a. push_bit 3 (of_nat a)) (rb_set_parent_w 1 (push_bit 3 5))
     \<lparr>rb_parent = Some 5, rb_color = RB_BLACK, rb_right = None, rb_left = None\<rparr>"
proof -
  let ?loc = "\<lambda>a. push_bit 3 (of_nat a) :: 64 word"
  let ?n = "\<lparr>rb_parent = None, rb_color = RB_BLACK, rb_right = None, rb_left = None\<rparr>"
  have "packs ?loc 1 ?n" by (simp add: packs_def rb_parent_w_def rb_color_w_def color_bit_def)
  moreover have "\<forall>a. node_aligned (?loc a)"
    unfolding node_aligned_def low_masks(2)
    by (auto intro!: bit_word_eqI simp: bit_simps)
  ultimately show ?thesis using rb_parent_color_packs [of ?loc 1 ?n "Some 5"] by simp
qed

end
