(* ===== verification/Ticks.thy ===== *)
theory Ticks
  imports MQ_Prelude Complex_Main "HOL-Library.Log_Nat"
begin

text \<open>
  The clock of \<open>src/src/time.c\<close>: conversions of a difference of time stamp counters into
  micro-, milli- and seconds. The C code computes with \<open>long double\<close>, which on the target is
  the 80-bit format with a 64-bit significand; a value is modelled by the rational number it
  stands for, and each operation rounds its exact result to the nearest representable one, ties
  to even. No operation here comes near the ends of the exponent range.
\<close>

subsection \<open>The arithmetic of \<open>long double\<close>\<close>

text \<open>The exponent \<open>e\<close> of a positive number, with \<open>2^e \<le> q < 2^(e+1)\<close>.\<close>

definition ld_exp :: "rat \<Rightarrow> int" where
  "ld_exp q =
     (let (a, b) = quotient_of q; k = bitlen a - bitlen b
      in if 2 powi k \<le> q then k else k - 1)"

definition round_half_even :: "rat \<Rightarrow> int" where
  "round_half_even x =
     (let f = \<lfloor>x\<rfloor>; d = x - of_int f
      in if d < 1 / 2 then f else if d > 1 / 2 then f + 1 else if even f then f else f + 1)"

definition ld_round :: "rat \<Rightarrow> rat" where
  "ld_round q =
     (if q = 0 then 0
      else let ulp = 2 powi (ld_exp q - 63) in of_int (round_half_even (q / ulp)) * ulp)"

definition ld_div :: "rat \<Rightarrow> rat \<Rightarrow> rat" where
  "ld_div x y = ld_round (x / y)"

definition ld_mult :: "rat \<Rightarrow> rat \<Rightarrow> rat" where
  "ld_mult x y = ld_round (x * y)"

text \<open>Conversion to \<open>uint64_t\<close> truncates; out of range it is undefined.\<close>

definition ld_to_u64 :: "rat \<Rightarrow> 64 word option" where
  "ld_to_u64 x = (if 0 \<le> x \<and> x < 2 ^ 64 then Some (word_of_int \<lfloor>x\<rfloor>) else None)"

subsection \<open>Operations\<close>

definition tick_diff_usecs :: "64 word \<Rightarrow> 64 word \<Rightarrow> 64 word option" where
  "tick_diff_usecs t1 t2 =
     ld_to_u64 (ld_mult (ld_div (of_int (uint (t2 - t1))) 2793008320) 1000000)"

definition tick_diff_msecs :: "64 word \<Rightarrow> 64 word \<Rightarrow> 64 word option" where
  "tick_diff_msecs t1 t2 =
     do {
       t3 \<leftarrow> ld_to_u64 (ld_mult (ld_div (of_int (uint (t2 - t1))) 2793008320) 1000000);
       Some (t3 div 1000)
     }"

definition tick_diff_secs :: "64 word \<Rightarrow> 64 word \<Rightarrow> 64 word option" where
  "tick_diff_secs t1 t2 =
     do {
       t3 \<leftarrow> ld_to_u64 (ld_mult (ld_div (of_int (uint (t2 - t1))) 2793008320) 1000000);
       Some (t3 div 1000000)
     }"

text \<open>The instruction leaves the low and the high half of the counter in two registers.\<close>

unbundle bit_operations_syntax

definition rdtsc :: "32 word \<Rightarrow> 32 word \<Rightarrow> 64 word" where
  "rdtsc a d = push_bit 32 (ucast d) OR ucast a"

subsection \<open>Rounding error\<close>

lemma round_half_even_error: "\<bar>of_int (round_half_even x) - x\<bar> \<le> 1 / 2"
proof -
  have "of_int \<lfloor>x\<rfloor> \<le> x" "x < of_int \<lfloor>x\<rfloor> + 1" by linarith+
  then show ?thesis by (auto simp: round_half_even_def Let_def abs_le_iff field_simps)
qed

lemma bitlen_rat:
  assumes "0 < a"
  shows "2 powi (bitlen a - 1) \<le> (of_int a :: rat)" "(of_int a :: rat) < 2 powi bitlen a"
proof -
  have b: "1 \<le> bitlen a" using assms by (simp add: bitlen_ge_iff_power)
  have "2 ^ nat (bitlen a - 1) \<le> a" "a < 2 ^ nat (bitlen a)" using bitlen_bounds [OF assms] by auto
  then have "(of_int (2 ^ nat (bitlen a - 1)) :: rat) \<le> of_int a" "(of_int a :: rat) < of_int (2 ^ nat (bitlen a))"
    by (simp_all only: of_int_le_iff of_int_less_iff)
  then show "2 powi (bitlen a - 1) \<le> (of_int a :: rat)" "(of_int a :: rat) < 2 powi bitlen a"
    using b by (simp_all add: power_int_def)
qed

lemma ld_exp_bounds:
  assumes "0 < q"
  shows "2 powi ld_exp q \<le> q" "q < 2 * 2 powi ld_exp q"
proof -
  obtain a b where ab: "quotient_of q = (a, b)" by fastforce
  then have q: "q = of_int a / of_int b" and b: "0 < b"
    using quotient_of_div quotient_of_denom_pos by auto
  then have a: "0 < a" using assms by (simp add: zero_less_divide_iff)
  note A = bitlen_rat [OF a] and B = bitlen_rat [OF b]
  let ?k = "bitlen a - bitlen b"
  have B0: "(0::rat) < of_int b" using b by simp
  have "q < 2 powi bitlen a / 2 powi (bitlen b - 1)"
    unfolding q using A(2) B(1) a b by (intro frac_less) (auto)
  also have "\<dots> = 2 * 2 powi ?k" by (simp add: power_int_diff)
  finally have u: "q < 2 * 2 powi ?k" .
  have "2 powi (bitlen a - 1) / 2 powi bitlen b \<le> q"
    unfolding q using A(1) B(2) B0 a by (intro frac_le) auto
  then have l: "2 powi (?k - 1) \<le> q" by (simp add: power_int_diff)
  show "2 powi ld_exp q \<le> q" "q < 2 * 2 powi ld_exp q"
    using u l by (auto simp: ld_exp_def ab Let_def power_int_diff)
qed

lemma ld_round_error: "0 \<le> q \<Longrightarrow> \<bar>ld_round q - q\<bar> \<le> q / 2 ^ 64"
proof (cases "q = 0")
  case False
  assume "0 \<le> q"
  with False have q: "0 < q" by simp
  define u :: rat where "u = 2 powi (ld_exp q - 63)"
  have u: "0 < u" by (simp add: u_def)
  have "ld_round q - q = (of_int (round_half_even (q / u)) - q / u) * u"
    using False u by (simp add: ld_round_def u_def [symmetric] Let_def algebra_simps)
  then have "\<bar>ld_round q - q\<bar> = \<bar>of_int (round_half_even (q / u)) - q / u\<bar> * u"
    using u by (simp add: abs_mult)
  also have "\<dots> \<le> 1 / 2 * u"
    using u round_half_even_error by (intro mult_right_mono) auto
  also have "\<dots> = 2 powi ld_exp q / 2 ^ 64" by (simp add: u_def power_int_diff)
  also have "\<dots> \<le> q / 2 ^ 64" using ld_exp_bounds(1) [OF q] by (intro divide_right_mono) auto
  finally show ?thesis .
qed (simp add: ld_round_def)

lemma ld_round_nonneg: "0 \<le> q \<Longrightarrow> 0 \<le> ld_round q"
proof -
  assume "0 \<le> q"
  then have "\<bar>ld_round q - q\<bar> \<le> q / 2 ^ 64" "q / 2 ^ 64 \<le> q"
    by (rule ld_round_error) (use \<open>0 \<le> q\<close> in simp)
  then show ?thesis by linarith
qed

text \<open>The exact number of microseconds for a difference of \<open>d\<close> ticks.\<close>

definition exact_usecs :: "64 word \<Rightarrow> rat" where
  "exact_usecs d = of_int (uint d) * 1000000 / 2793008320"

lemma uint_64_bound:
  "0 \<le> (unsigned (d :: 64 word) :: rat)" "(unsigned (d :: 64 word) :: rat) \<le> 2 ^ 64"
proof -
  have "uint d < 2 ^ 64" "0 \<le> uint d" using uint_lt2p [of d] by simp_all
  then have "(of_int (uint d) :: rat) \<le> of_int (2 ^ 64)" "(0::rat) \<le> of_int (uint d)"
    by (simp_all only: of_int_le_iff of_int_0_le_iff)
  then show "0 \<le> (unsigned d :: rat)" "(unsigned d :: rat) \<le> 2 ^ 64" by simp_all
qed

lemma usecs_error:
  fixes d :: "64 word"
  defines "r \<equiv> ld_mult (ld_div (of_int (uint d)) 2793008320) 1000000"
  shows "0 \<le> r" "\<bar>r - exact_usecs d\<bar> < 1 / 1000"
proof -
  let ?q = "of_int (uint d) / 2793008320 :: rat"
  have q: "0 \<le> ?q" "?q \<le> 2 ^ 64 / 2793008320" using uint_64_bound [of d] by (auto intro: divide_right_mono)
  define x where "x = ld_round ?q"
  have x: "\<bar>x - ?q\<bar> \<le> ?q / 2 ^ 64" "0 \<le> x"
    unfolding x_def using q(1) by (rule ld_round_error, rule ld_round_nonneg)
  then have x': "\<bar>x - ?q\<bar> \<le> 1 / 2793008320" using q(2) by (simp add: field_simps)
  have y: "\<bar>ld_round (x * 1000000) - x * 1000000\<bar> \<le> x * 1000000 / 2 ^ 64"
    using x(2) by (intro ld_round_error) simp
  have r: "r = ld_round (x * 1000000)" by (simp add: r_def x_def ld_mult_def ld_div_def)
  show "0 \<le> r" unfolding r using x(2) by (intro ld_round_nonneg) simp
  have "x \<le> 2 ^ 64 / 2793008320 + 1 / 2793008320" using x' q(2) by (simp only: abs_le_iff) linarith
  then have "x * 1000000 / 2 ^ 64 \<le> 4 / 10000" by simp
  moreover have "\<bar>x * 1000000 - exact_usecs d\<bar> \<le> 4 / 10000"
    using x' unfolding exact_usecs_def by (simp only: abs_le_iff) (simp add: field_simps)
  ultimately show "\<bar>r - exact_usecs d\<bar> < 1 / 1000"
    using y unfolding r by (simp only: abs_le_iff abs_less_iff) linarith
qed

lemma exact_usecs_bound: "0 \<le> exact_usecs d" "exact_usecs d < 2 ^ 60"
  using uint_64_bound [of d] by (auto simp: exact_usecs_def field_simps)

lemma usecs_word:
  obtains w where
    "ld_to_u64 (ld_mult (ld_div (of_int (uint (d :: 64 word))) 2793008320) 1000000) = Some w"
    "\<bar>of_int (uint w) - exact_usecs d\<bar> \<le> 1 + 1 / 1000"
proof -
  let ?r = "ld_mult (ld_div (of_int (uint d)) 2793008320) 1000000"
  note e = usecs_error [of d] and b = exact_usecs_bound [of d]
  have r: "0 \<le> ?r" using e(1) .
  have r2: "?r < 2 ^ 64" using e(2) b unfolding abs_less_iff by simp
  have "0 \<le> \<lfloor>?r\<rfloor>" "\<lfloor>?r\<rfloor> < 2 ^ 64" using r r2 by (auto simp: floor_less_iff)
  then have u: "uint (word_of_int \<lfloor>?r\<rfloor> :: 64 word) = \<lfloor>?r\<rfloor>"
    by (simp add: uint_word_of_int_eq take_bit_int_eq_self_iff)
  have "of_int \<lfloor>?r\<rfloor> \<le> ?r" "?r < of_int \<lfloor>?r\<rfloor> + 1" by linarith+
  then have "\<bar>of_int (uint (word_of_int \<lfloor>?r\<rfloor> :: 64 word)) - exact_usecs d\<bar> \<le> 1 + 1 / 1000"
    using e(2) unfolding u by linarith
  then show thesis
    by (rule that [rotated]) (simp only: ld_to_u64_def r r2 simp_thms if_True)
qed

lemma tick_diff_msecs_total: "\<exists>t. tick_diff_msecs t1 t2 = Some t"
  by (rule usecs_word [of "t2 - t1"]) (simp add: tick_diff_msecs_def)

text \<open>
  C32. The conversions from clock ticks never leave the range of \<open>uint64_t\<close>, and despite the two
  roundings of the \<open>long double\<close> arithmetic the microseconds are within 1.001 of the exact
  quotient; the milliseconds and seconds are those microseconds divided with truncation. The
  difference of the counters is taken modulo \<open>2^64\<close>, so a wrap of the counter is harmless.
\<close>

theorem tick_diff_accurate:
  "\<exists>u. tick_diff_usecs t1 t2 = Some u \<and> \<bar>of_int (uint u) - exact_usecs (t2 - t1)\<bar> \<le> 1 + 1 / 1000 \<and>
     tick_diff_msecs t1 t2 = Some (u div 1000) \<and> tick_diff_secs t1 t2 = Some (u div 1000000)"
  by (rule usecs_word [of "t2 - t1"])
    (simp add: tick_diff_usecs_def tick_diff_msecs_def tick_diff_secs_def)

end
