(* ===== verification/MQ_State.thy ===== *)
theory MQ_State
  imports Hash Rbtree_Props Ticks
begin

text \<open>
  The data of the queue server, from \<open>src/src/memqueue_impl.h\<close>: expiry nodes, messages, queues,
  consumers, bindings of pollers to queues, and the instance \<open>memqueue_ins\<close>, which here also
  carries the memory. Every heap object has an address; a list or tail queue of objects is the
  list of their addresses, and a link field \<open>expiry_next\<close> names the expiry node whose list holds
  the object.
\<close>

subsection \<open>Objects\<close>

datatype obj_type = MSG_TYPE | MEMQUEUE_TYPE | CONSUMER_TYPE

datatype memqueue_ret =
    MEMQUEUE_NOT_FOUND | MEMQUEUE_CREATED | MEMQUEUE_EXISTS | MEMQUEUE_MSG_ADDED | MEMQUEUE_MSGS
  | MEMQUEUE_QUEUE_INFO | MEMQUEUE_TIMEOUT | MEMQUEUE_DELETED | MEMQUEUE_FULL | MEMQUEUE_OK

text \<open>The \<open>struct rb_node\<close> of an expiry node is kept in the memory of the trees, at the same
  address; \<open>container_of\<close> is the identity on addresses.\<close>

record expiry_node =
  en_msecs :: "32 word"
  en_memqueue_objs :: "addr list"
  en_consumer_objs :: "addr list"
  en_msg_objs :: "addr list"

record memqueue_binder =
  b_rev :: int
  b_memqueue :: addr
  b_cli_binder :: addr
  b_include_consumers :: int

text \<open>A \<open>pending_msg\<close> carries only its message, so the tail queue is a list of messages.\<close>

record cli_binder =
  cb_timeout :: "32 word"
  cb_memqueues :: "addr list"
  cb_pending_msgs :: "addr list"

record msg =
  m_data :: string
  m_data_len :: "64 word"
  m_ref_count :: int
  m_rev :: int
  m_new :: int
  m_memqueue :: addr
  m_expiry_next :: "addr option"
  m_expiry :: int
  m_expiry_node :: "addr option"
  m_msg_id :: "64 word"

record memqueue =
  q_rev :: int
  q_ref_count :: int
  q_max_size :: int
  q_drop_from_head :: int
  q_q_id :: cstring
  q_msg_queue :: "addr list"
  q_memqueue_binders :: "addr list"
  q_expiry_next :: "addr option"
  q_expiry :: "32 word"
  q_consumer_expiry :: "32 word"
  q_consumers :: "addr h_hash"
  q_expiry_node :: "addr option"
  q_msgs_in_queue :: int

record consumer =
  c_consumer_id :: cstring
  c_expiry :: "32 word"
  c_expiry_node :: "addr option"
  c_memqueue :: addr
  c_expiry_next :: "addr option"

subsection \<open>The instance\<close>

text \<open>
  Beside the fields of the C structure the instance holds the heap, one map per type of object,
  and what the code sees of its environment: the time stamp counter \<open>now\<close> (constant while one
  lightweight thread runs), the fate of the coming allocations (\<open>oom\<close>: the head says whether the
  next one fails, an empty list stands for enough memory), the condition variables signalled
  (\<open>None\<close> for that of the cleaner, \<open>Some b\<close> for that of the poller \<open>b\<close>), and the writes to objects
  that were already freed (\<open>freed_writes\<close>), which change no live object.
\<close>

record memqueue_ins =
  queue_store :: "addr h_hash"
  birth :: "64 word"
  memqueue_expiry :: "addr option"
  msg_expiry :: "addr option"
  consumer_expiry :: "addr option"
  unique_msg_id :: "64 word"
  rb :: rb_mem
  enodes :: "addr \<Rightarrow> expiry_node option"
  queues :: "addr \<Rightarrow> memqueue option"
  msgs :: "addr \<Rightarrow> msg option"
  consumers :: "addr \<Rightarrow> consumer option"
  binders :: "addr \<Rightarrow> memqueue_binder option"
  cli_binders :: "addr \<Rightarrow> cli_binder option"
  next_addr :: addr
  now :: "64 word"
  oom :: "bool list"
  signals :: "addr option list"
  freed_writes :: "addr list"

definition calloc :: "memqueue_ins \<Rightarrow> addr option \<times> memqueue_ins" where
  "calloc ins =
     (if oom ins \<noteq> [] \<and> hd (oom ins) then (None, ins\<lparr>oom := tl (oom ins)\<rparr>)
      else (Some (next_addr ins), ins\<lparr>next_addr := Suc (next_addr ins), oom := tl (oom ins)\<rparr>))"

definition cond_signal :: "addr option \<Rightarrow> memqueue_ins \<Rightarrow> memqueue_ins" where
  "cond_signal c ins = ins\<lparr>signals := signals ins @ [c]\<rparr>"

text \<open>Updates of one object through its pointer; undefined when it is not live.\<close>

definition upd_queue :: "addr \<Rightarrow> (memqueue \<Rightarrow> memqueue) \<Rightarrow> memqueue_ins \<Rightarrow> memqueue_ins option" where
  "upd_queue a f ins = do { q \<leftarrow> queues ins a; Some (ins\<lparr>queues := (queues ins)(a \<mapsto> f q)\<rparr>) }"

definition upd_msg :: "addr \<Rightarrow> (msg \<Rightarrow> msg) \<Rightarrow> memqueue_ins \<Rightarrow> memqueue_ins option" where
  "upd_msg a f ins = do { x \<leftarrow> msgs ins a; Some (ins\<lparr>msgs := (msgs ins)(a \<mapsto> f x)\<rparr>) }"

definition upd_consumer :: "addr \<Rightarrow> (consumer \<Rightarrow> consumer) \<Rightarrow> memqueue_ins \<Rightarrow> memqueue_ins option" where
  "upd_consumer a f ins = do { c \<leftarrow> consumers ins a; Some (ins\<lparr>consumers := (consumers ins)(a \<mapsto> f c)\<rparr>) }"

definition upd_enode :: "addr \<Rightarrow> (expiry_node \<Rightarrow> expiry_node) \<Rightarrow> memqueue_ins \<Rightarrow> memqueue_ins option" where
  "upd_enode a f ins = do { e \<leftarrow> enodes ins a; Some (ins\<lparr>enodes := (enodes ins)(a \<mapsto> f e)\<rparr>) }"

definition upd_cli :: "addr \<Rightarrow> (cli_binder \<Rightarrow> cli_binder) \<Rightarrow> memqueue_ins \<Rightarrow> memqueue_ins option" where
  "upd_cli a f ins = do { b \<leftarrow> cli_binders ins a; Some (ins\<lparr>cli_binders := (cli_binders ins)(a \<mapsto> f b)\<rparr>) }"

text \<open>\<open>++\<close> on a C \<open>int\<close>: signed overflow is undefined.\<close>

definition int_incr :: "int \<Rightarrow> int option" where
  "int_incr n = (if n < 2 ^ 31 - 1 then Some (n + 1) else None)"

text \<open>The instance before \<open>memqueue_init\<close>: \<open>static memqueue_ins_t memqueue_ins = {0}\<close>.\<close>

definition no_hash :: "addr h_hash" where
  "no_hash = \<lparr>buckets = [], order_head = [], h_size = 0, order_next = None, h_items = Map.empty,
     h_fresh = 0\<rparr>"

definition memqueue_ins0 :: memqueue_ins where
  "memqueue_ins0 =
     \<lparr>queue_store = no_hash, birth = 0, memqueue_expiry = None, msg_expiry = None,
      consumer_expiry = None, unique_msg_id = 0, rb = Map.empty, enodes = Map.empty,
      queues = Map.empty, msgs = Map.empty, consumers = Map.empty, binders = Map.empty,
      cli_binders = Map.empty, next_addr = 0, now = 0, oom = [], signals = [], freed_writes = []\<rparr>"

end
