(* ===== verification/Expiry.thy ===== *)
theory Expiry
  imports MQ_State
begin

text \<open>
  The scheduler of expirations, \<open>src/src/memqueue_expiry.c\<close>: three red-black trees of expiry
  nodes, one per type of object, ordered by a deadline in milliseconds since the start.
\<close>

subsection \<open>Search and insertion\<close>

partial_function (option) rb_search ::
  "rb_mem \<Rightarrow> (addr \<Rightarrow> expiry_node option) \<Rightarrow> addr option \<Rightarrow> 32 word \<Rightarrow> addr option option" where
  "rb_search m en node msecs =
     (case node of
        None \<Rightarrow> Some None
      | Some a \<Rightarrow>
          do {
            n \<leftarrow> m a;
            data \<leftarrow> en a;
            if msecs < en_msecs data then rb_search m en (rb_left n) msecs
            else if msecs > en_msecs data then rb_search m en (rb_right n) msecs
            else Some (Some a)
          })"

declare rb_search.simps [code]

text \<open>
  The loop of \<open>rb_insert\<close>, with the current node and the link that leads to it. A node with an
  equal key fails the assertion.
\<close>

partial_function (option) rb_find_link ::
  "rb_mem \<Rightarrow> (addr \<Rightarrow> expiry_node option) \<Rightarrow> 32 word \<Rightarrow> addr option \<Rightarrow> addr option \<Rightarrow> rb_link \<Rightarrow>
   (addr option \<times> rb_link) option" where
  "rb_find_link m en key cur parent lnk =
     (case cur of
        None \<Rightarrow> Some (parent, lnk)
      | Some a \<Rightarrow>
          do {
            n \<leftarrow> m a;
            this \<leftarrow> en a;
            if en_msecs this > key then rb_find_link m en key (rb_left n) (Some a) (At_Left a)
            else if en_msecs this < key then rb_find_link m en key (rb_right n) (Some a) (At_Right a)
            else None
          })"

declare rb_find_link.simps [code]

definition rb_insert ::
  "addr \<Rightarrow> (addr \<Rightarrow> expiry_node option) \<Rightarrow> rb_mem \<Rightarrow> addr option \<Rightarrow> (rb_mem \<times> addr option) option" where
  "rb_insert data en m rt =
     do {
       d \<leftarrow> en data;
       (parent, lnk) \<leftarrow> rb_find_link m en (en_msecs d) rt None At_Root;
       (m, rt) \<leftarrow> rb_link_node data parent lnk m rt;
       rb_insert_color data m rt
     }"

subsection \<open>The three trees\<close>

definition exp_root :: "obj_type \<Rightarrow> memqueue_ins \<Rightarrow> addr option" where
  "exp_root type ins =
     (case type of
        MSG_TYPE \<Rightarrow> msg_expiry ins
      | MEMQUEUE_TYPE \<Rightarrow> memqueue_expiry ins
      | CONSUMER_TYPE \<Rightarrow> consumer_expiry ins)"

definition set_exp_root :: "obj_type \<Rightarrow> addr option \<Rightarrow> memqueue_ins \<Rightarrow> memqueue_ins" where
  "set_exp_root type rt ins =
     (case type of
        MSG_TYPE \<Rightarrow> ins\<lparr>msg_expiry := rt\<rparr>
      | MEMQUEUE_TYPE \<Rightarrow> ins\<lparr>memqueue_expiry := rt\<rparr>
      | CONSUMER_TYPE \<Rightarrow> ins\<lparr>consumer_expiry := rt\<rparr>)"

text \<open>The list of an expiry node for a type of object.\<close>

definition en_objs :: "obj_type \<Rightarrow> expiry_node \<Rightarrow> addr list" where
  "en_objs type e =
     (case type of
        MSG_TYPE \<Rightarrow> en_msg_objs e
      | MEMQUEUE_TYPE \<Rightarrow> en_memqueue_objs e
      | CONSUMER_TYPE \<Rightarrow> en_consumer_objs e)"

definition en_objs_update :: "obj_type \<Rightarrow> (addr list \<Rightarrow> addr list) \<Rightarrow> expiry_node \<Rightarrow> expiry_node" where
  "en_objs_update type f e =
     (case type of
        MSG_TYPE \<Rightarrow> e\<lparr>en_msg_objs := f (en_msg_objs e)\<rparr>
      | MEMQUEUE_TYPE \<Rightarrow> e\<lparr>en_memqueue_objs := f (en_memqueue_objs e)\<rparr>
      | CONSUMER_TYPE \<Rightarrow> e\<lparr>en_consumer_objs := f (en_consumer_objs e)\<rparr>)"

text \<open>The fields \<open>expiry_next\<close> and \<open>expiry_node\<close> of an object of a type.\<close>

definition get_expiry_next :: "obj_type \<Rightarrow> addr \<Rightarrow> memqueue_ins \<Rightarrow> addr option option" where
  "get_expiry_next type obj ins =
     (case type of
        MSG_TYPE \<Rightarrow> map_option m_expiry_next (msgs ins obj)
      | MEMQUEUE_TYPE \<Rightarrow> map_option q_expiry_next (queues ins obj)
      | CONSUMER_TYPE \<Rightarrow> map_option c_expiry_next (consumers ins obj))"

definition set_expiry_next :: "obj_type \<Rightarrow> addr \<Rightarrow> addr option \<Rightarrow> memqueue_ins \<Rightarrow> memqueue_ins option" where
  "set_expiry_next type obj n ins =
     (case type of
        MSG_TYPE \<Rightarrow> upd_msg obj (m_expiry_next_update (\<lambda>_. n)) ins
      | MEMQUEUE_TYPE \<Rightarrow> upd_queue obj (q_expiry_next_update (\<lambda>_. n)) ins
      | CONSUMER_TYPE \<Rightarrow> upd_consumer obj (c_expiry_next_update (\<lambda>_. n)) ins)"

definition set_expiry_node :: "obj_type \<Rightarrow> addr \<Rightarrow> addr option \<Rightarrow> memqueue_ins \<Rightarrow> memqueue_ins option" where
  "set_expiry_node type obj n ins =
     (case type of
        MSG_TYPE \<Rightarrow> upd_msg obj (m_expiry_node_update (\<lambda>_. n)) ins
      | MEMQUEUE_TYPE \<Rightarrow> upd_queue obj (q_expiry_node_update (\<lambda>_. n)) ins
      | CONSUMER_TYPE \<Rightarrow> upd_consumer obj (c_expiry_node_update (\<lambda>_. n)) ins)"

text \<open>\<open>LIST_INSERT_HEAD\<close> and \<open>LIST_REMOVE\<close> on the field \<open>expiry_next\<close>.\<close>

definition expiry_link :: "obj_type \<Rightarrow> addr \<Rightarrow> addr \<Rightarrow> memqueue_ins \<Rightarrow> memqueue_ins option" where
  "expiry_link type node obj ins =
     do {
       ins \<leftarrow> upd_enode node (en_objs_update type (\<lambda>xs. obj # xs)) ins;
       set_expiry_next type obj (Some node) ins
     }"

definition expiry_unlink :: "obj_type \<Rightarrow> addr \<Rightarrow> memqueue_ins \<Rightarrow> memqueue_ins option" where
  "expiry_unlink type obj ins =
     do {
       l \<leftarrow> get_expiry_next type obj ins;
       node \<leftarrow> l;
       ins \<leftarrow> upd_enode node (en_objs_update type (remove1 obj)) ins;
       set_expiry_next type obj None ins
     }"

subsection \<open>Scheduling\<close>

text \<open>The walk down the left spine: the key of its last node.\<close>

partial_function (option) left_spine_msecs ::
  "rb_mem \<Rightarrow> (addr \<Rightarrow> expiry_node option) \<Rightarrow> addr option \<Rightarrow> 32 word option \<Rightarrow> 32 word option option"
where
  "left_spine_msecs m en node found =
     (case node of
        None \<Rightarrow> Some found
      | Some a \<Rightarrow>
          do {
            n \<leftarrow> m a;
            data \<leftarrow> en a;
            left_spine_msecs m en (rb_left n) (Some (en_msecs data))
          })"

declare left_spine_msecs.simps [code]

fun min_timeout_loop ::
  "memqueue_ins \<Rightarrow> 32 word \<Rightarrow> 32 word \<Rightarrow> addr option list \<Rightarrow> 32 word option" where
  "min_timeout_loop ins t_diff_msecs mn [] = Some mn"
| "min_timeout_loop ins t_diff_msecs mn (rt # rts) =
     do {
       found \<leftarrow> left_spine_msecs (rb ins) (enodes ins) rt None;
       case found of
         None \<Rightarrow> min_timeout_loop ins t_diff_msecs mn rts
       | Some msecs \<Rightarrow>
           if msecs > t_diff_msecs then
             min_timeout_loop ins t_diff_msecs
               (if mn > msecs - t_diff_msecs \<or> mn = 0 then msecs - t_diff_msecs else mn) rts
           else Some 1
     }"

definition sched_get_min_timeout :: "memqueue_ins \<Rightarrow> 32 word option" where
  "sched_get_min_timeout ins =
     do {
       t \<leftarrow> tick_diff_msecs (birth ins) (now ins);
       min_timeout_loop ins (ucast t) 0 [msg_expiry ins, memqueue_expiry ins, consumer_expiry ins]
     }"

text \<open>
  A new expiry node, with its lists initialised by \<open>calloc\<close> and \<open>LIST_INIT\<close>; \<open>sched_new_node\<close> puts
  it into the tree and the object into its list.
\<close>

definition new_expiry_node :: "addr \<Rightarrow> 32 word \<Rightarrow> memqueue_ins \<Rightarrow> memqueue_ins" where
  "new_expiry_node a ms ins =
     ins\<lparr>enodes := (enodes ins)(a \<mapsto> \<lparr>en_msecs = ms, en_memqueue_objs = [], en_consumer_objs = [],
                                       en_msg_objs = []\<rparr>)\<rparr>"

definition sched_new_node ::
  "addr \<Rightarrow> 32 word \<Rightarrow> addr \<Rightarrow> obj_type \<Rightarrow> memqueue_ins \<Rightarrow> memqueue_ins option" where
  "sched_new_node node ms obj type ins =
     do {
       let ins = new_expiry_node node ms ins;
       (m, rt) \<leftarrow> rb_insert node (enodes ins) (rb ins) (exp_root type ins);
       let ins = set_exp_root type rt (ins\<lparr>rb := m\<rparr>);
       ins \<leftarrow> expiry_link type node obj ins;
       set_expiry_node type obj (Some node) ins
     }"

definition obj_sched_expire ::
  "memqueue_ins \<Rightarrow> addr \<Rightarrow> 32 word \<Rightarrow> obj_type \<Rightarrow> memqueue_ins option" where
  "obj_sched_expire ins obj msecs type =
     do {
       min_timeout \<leftarrow> sched_get_min_timeout ins;
       t \<leftarrow> tick_diff_msecs (birth ins) (now ins);
       let t_diff_msecs = ucast (t + ucast msecs);
       tmp \<leftarrow> rb_search (rb ins) (enodes ins) (exp_root type ins) t_diff_msecs;
       let ins = (if min_timeout = 0 \<or> min_timeout > msecs then cond_signal None ins else ins);
       case tmp of
         Some node \<Rightarrow> expiry_link type node obj ins
       | None \<Rightarrow>
           (case calloc ins of
              (None, ins) \<Rightarrow> None
            | (Some node, ins) \<Rightarrow> sched_new_node node t_diff_msecs obj type ins)
     }"

text \<open>The result is the new value of the pointer \<open>*data\<close>.\<close>

definition possibly_node_free ::
  "addr \<Rightarrow> obj_type \<Rightarrow> memqueue_ins \<Rightarrow> (addr option \<times> memqueue_ins) option" where
  "possibly_node_free data type ins =
     do {
       e \<leftarrow> enodes ins data;
       if en_memqueue_objs e = [] \<and> en_msg_objs e = [] \<and> en_consumer_objs e = [] then
         do {
           (m, rt) \<leftarrow> rb_erase data (rb ins) (exp_root type ins);
           Some (None, set_exp_root type rt
                         (ins\<lparr>rb := m(data := None), enodes := (enodes ins)(data := None)\<rparr>))
         }
       else Some (Some data, ins)
     }"

definition memqueue_resched :: "memqueue_ins \<Rightarrow> addr \<Rightarrow> memqueue_ins option" where
  "memqueue_resched ins q =
     do {
       mq \<leftarrow> queues ins q;
       case q_expiry_node mq of
         None \<Rightarrow> Some ins
       | Some node \<Rightarrow>
           do {
             ins \<leftarrow> expiry_unlink MEMQUEUE_TYPE q ins;
             (node, ins) \<leftarrow> possibly_node_free node MEMQUEUE_TYPE ins;
             ins \<leftarrow> set_expiry_node MEMQUEUE_TYPE q node ins;
             obj_sched_expire ins q (q_expiry mq) MEMQUEUE_TYPE
           }
     }"

definition consumer_resched :: "memqueue_ins \<Rightarrow> addr \<Rightarrow> memqueue_ins option" where
  "consumer_resched ins c =
     do {
       cn \<leftarrow> consumers ins c;
       case c_expiry_node cn of
         None \<Rightarrow> Some ins
       | Some node \<Rightarrow>
           do {
             ins \<leftarrow> expiry_unlink CONSUMER_TYPE c ins;
             (node, ins) \<leftarrow> possibly_node_free node CONSUMER_TYPE ins;
             ins \<leftarrow> set_expiry_node CONSUMER_TYPE c node ins;
             obj_sched_expire ins c (c_expiry cn) CONSUMER_TYPE
           }
     }"

end
