(* ===== verification/Expiry_Proofs.thy ===== *)
theory Expiry_Proofs
  imports Expiry
begin

text \<open>
  Correctness of the scheduler of expirations: search and insertion in the ordered trees, the
  invariant \<open>sched_inv\<close> that ties the trees to the objects linked in them, and the abstract view
  of the scheduler as a map from objects to deadlines.
\<close>

subsection \<open>Ordered trees\<close>

definition ekey :: "(addr \<Rightarrow> expiry_node option) \<Rightarrow> addr \<Rightarrow> 32 word" where
  "ekey en a = (case en a of Some e \<Rightarrow> en_msecs e | None \<Rightarrow> 0)"

definition exp_list ::
  "rb_mem \<Rightarrow> (addr \<Rightarrow> expiry_node option) \<Rightarrow> addr option \<Rightarrow> addr list \<Rightarrow> bool" where
  "exp_list m en rt xs \<longleftrightarrow>
     rb_holds m rt xs \<and> set xs \<subseteq> dom en \<and> sorted_wrt (<) (map (ekey en) xs)"

lemma ekey_Some [simp]: "en a = Some e \<Longrightarrow> ekey en a = en_msecs e"
  by (simp add: ekey_def)

lemma sorted_keys_split:
  "sorted_wrt (<) (map k (xs @ a # ys)) \<longleftrightarrow>
     sorted_wrt (<) (map k xs) \<and> sorted_wrt (<) (map k ys) \<and>
     (\<forall>x \<in> set xs. k x < k a) \<and> (\<forall>y \<in> set ys. k a < k y) \<and>
     (\<forall>x \<in> set xs. \<forall>y \<in> set ys. k x < (k y :: 32 word))"
  by (auto simp: sorted_wrt_append)

lemma find_None_set: "(\<And>x. x \<in> set xs \<Longrightarrow> \<not> P x) \<Longrightarrow> find P xs = None"
  by (simp add: find_None_iff)

lemma find_append: "find P (xs @ ys) = (case find P xs of None \<Rightarrow> find P ys | Some x \<Rightarrow> Some x)"
  by (induction xs) auto

lemma rb_search_repr:
  assumes "repr m p t" "addrs t \<subseteq> dom en" "sorted_wrt (<) (map (ekey en) (inorder t))"
  shows "rb_search m en (root_of t) k = Some (find (\<lambda>a. ekey en a = k) (inorder t))"
  using assms
proof (induction t arbitrary: p)
  case Lf
  then show ?case by (simp add: rb_search.simps)
next
  case (Nd l a c r)
  obtain e where e: "en a = Some e" using Nd.prems(2) by auto
  have s: "\<And>x. x \<in> set (inorder l) \<Longrightarrow> ekey en x < ekey en a"
    "\<And>x. x \<in> set (inorder r) \<Longrightarrow> ekey en a < ekey en x"
    using Nd.prems(3) by (auto simp: sorted_wrt_append)
  have L: "find (\<lambda>a. ekey en a = k) (inorder l) = None" if "\<not> k < ekey en a"
    using s(1) that by (intro find_None_set) force
  have R: "find (\<lambda>a. ekey en a = k) (inorder r) = None" if "\<not> k > ekey en a"
    using s(2) that by (intro find_None_set) force
  have IH: "rb_search m en (root_of l) k = Some (find (\<lambda>a. ekey en a = k) (inorder l))"
    "rb_search m en (root_of r) k = Some (find (\<lambda>a. ekey en a = k) (inorder r))"
    using Nd.IH(1) [of "Some a"] Nd.IH(2) [of "Some a"] Nd.prems by (auto simp: sorted_wrt_append)
  consider "k < ekey en a" | "k > ekey en a" | "k = ekey en a" by fastforce
  then show ?case
  proof cases
    case 1
    then show ?thesis using Nd.prems(1) e IH R
      by (auto simp: rb_search.simps [of m en "Some a"] find_append split: option.split)
  next
    case 2
    then show ?thesis using Nd.prems(1) e IH L
      by (auto simp: rb_search.simps [of m en "Some a"] find_append)
  next
    case 3
    then show ?thesis using Nd.prems(1) e L
      by (auto simp: rb_search.simps [of m en "Some a"] find_append)
  qed
qed

lemma rb_search_list:
  "exp_list m en rt xs \<Longrightarrow> rb_search m en rt k = Some (find (\<lambda>a. ekey en a = k) xs)"
  unfolding exp_list_def rb_holds_def tree_at_def
  using rb_search_repr by (metis addrs_inorder)

lemma rb_find_link_zip:
  assumes "zip_at m rt t fs" "addrs t \<subseteq> dom en" "\<And>a. a \<in> addrs t \<Longrightarrow> ekey en a \<noteq> k"
    "sorted_wrt (<) (map (ekey en) (inorder t))"
    "\<And>a. a \<in> set (fst (finorder fs)) \<Longrightarrow> ekey en a < k" "\<And>a. a \<in> set (snd (finorder fs)) \<Longrightarrow> k < ekey en a"
  shows "\<exists>gs. rb_find_link m en k (root_of t) (par fs) (link_of fs) = Some (par gs, link_of gs) \<and>
    plug Lf gs = plug t fs \<and> (\<forall>a \<in> set (fst (finorder gs)). ekey en a < k) \<and>
    (\<forall>a \<in> set (snd (finorder gs)). k < ekey en a)"
  using assms
proof (induction t arbitrary: fs)
  case Lf
  then show ?case by (intro exI [of _ fs]) (simp add: rb_find_link.simps)
next
  case (Nd l a c r)
  obtain e where e: "en a = Some e" "ekey en a \<noteq> k" using Nd.prems(2) Nd.prems(3) [of a] by auto
  have s: "\<And>x. x \<in> set (inorder l) \<Longrightarrow> ekey en x < ekey en a"
    "\<And>x. x \<in> set (inorder r) \<Longrightarrow> ekey en a < ekey en x"
    "sorted_wrt (<) (map (ekey en) (inorder l))" "sorted_wrt (<) (map (ekey en) (inorder r))"
    using Nd.prems(4) by (auto simp: sorted_wrt_append)
  note n = zip_at_nodes(1) [OF Nd.prems(1)]
  consider "k < ekey en a" | "k > ekey en a" using e(2) by fastforce
  then show ?case
  proof cases
    case 1
    have "\<And>x. x \<in> set (inorder r) \<Longrightarrow> k < ekey en x" using s(2) 1 by (blast intro: less_trans)
    then have "\<exists>gs. rb_find_link m en k (root_of l) (par (LFr a c r # fs)) (link_of (LFr a c r # fs)) =
      Some (par gs, link_of gs) \<and> plug Lf gs = plug l (LFr a c r # fs) \<and>
      (\<forall>a \<in> set (fst (finorder gs)). ekey en a < k) \<and> (\<forall>a \<in> set (snd (finorder gs)). k < ekey en a)"
      using Nd.prems s 1 by (intro Nd.IH(1)) (auto simp: zip_at_down_left split_beta)
    then show ?thesis
      using 1 e n by (auto simp: rb_find_link.simps [of m en k "Some a"])
  next
    case 2
    have "\<And>x. x \<in> set (inorder l) \<Longrightarrow> ekey en x < k" using s(1) 2 by (blast intro: less_trans)
    then have "\<exists>gs. rb_find_link m en k (root_of r) (par (RFr l a c # fs)) (link_of (RFr l a c # fs)) =
      Some (par gs, link_of gs) \<and> plug Lf gs = plug r (RFr l a c # fs) \<and>
      (\<forall>a \<in> set (fst (finorder gs)). ekey en a < k) \<and> (\<forall>a \<in> set (snd (finorder gs)). k < ekey en a)"
      using Nd.prems s 2 by (intro Nd.IH(2)) (auto simp: zip_at_down_right split_beta)
    then show ?thesis
      using 2 e n by (auto simp: rb_find_link.simps [of m en k "Some a"])
  qed
qed

lemma rb_insert_list:
  assumes x: "exp_list m en rt xs" and a: "en a = Some d" "a \<notin> set xs"
    and k: "\<And>b. b \<in> set xs \<Longrightarrow> ekey en b \<noteq> en_msecs d"
  shows "\<exists>m' rt' ys zs. rb_insert a en m rt = Some (m', rt') \<and> xs = ys @ zs \<and>
    exp_list m' en rt' (ys @ a # zs) \<and> (\<forall>b. b \<notin> insert a (set xs) \<longrightarrow> m' b = m b)"
proof -
  obtain t where t: "tree_at m rt t" "rbt t" "inorder t = xs"
    using x by (auto simp: exp_list_def rb_holds_def)
  have z: "zip_at m rt t []" using t(1) by (simp add: zip_at_tree)
  obtain gs where g: "rb_find_link m en (en_msecs d) (root_of t) None At_Root = Some (par gs, link_of gs)"
      "plug Lf gs = t" "\<forall>b \<in> set (fst (finorder gs)). ekey en b < en_msecs d"
      "\<forall>b \<in> set (snd (finorder gs)). en_msecs d < ekey en b"
    using rb_find_link_zip [OF z, of en "en_msecs d"] x k t(3)
    by (fastforce simp: exp_list_def addrs_inorder)
  have split: "xs = fst (finorder gs) @ snd (finorder gs)"
    using g(2) t(3) inorder_plug [of Lf gs] by simp
  have rt: "root_of t = rt" using t(1) by (auto simp: tree_at_def)
  have fa: "a \<notin> faddrs gs" using a(2) g(2) t(3) addrs_plug [of Lf gs] by (auto simp: addrs_inorder)
  obtain m1 rt1 m' rt' t' where i: "rb_link_node a (par gs) (link_of gs) m rt = Some (m1, rt1)"
      "rb_insert_color a m1 rt1 = Some (m', rt')" "tree_at m' rt' t'" "rbt t'"
      "inorder t' = fst (finorder gs) @ a # snd (finorder gs)"
      "same_outside (insert a (faddrs gs)) m m'"
    using link_insert_tree [of m rt gs a] t(1,2) g(2) fa by auto
  have "rb_insert a en m rt = Some (m', rt')"
    using g(1) i(1,2) a(1) rt by (simp add: rb_insert_def)
  moreover have "exp_list m' en rt' (fst (finorder gs) @ a # snd (finorder gs))"
  proof -
    have "rb_holds m' rt' (fst (finorder gs) @ a # snd (finorder gs))"
      using i(3-5) by (auto simp: rb_holds_def)
    moreover have "sorted_wrt (<) (map (ekey en) (fst (finorder gs) @ a # snd (finorder gs)))"
      using x g(3,4) a(1) unfolding split exp_list_def sorted_keys_split
      by (auto simp: sorted_wrt_append)
    ultimately show ?thesis using x a(1) unfolding exp_list_def split by auto
  qed
  moreover have "faddrs gs = set xs"
    using g(2) t(3) addrs_plug [of Lf gs] by (auto simp: addrs_inorder)
  ultimately show ?thesis using split i(6) unfolding same_outside_def by blast
qed

lemma left_spine_repr:
  "repr m p t \<Longrightarrow> addrs t \<subseteq> dom en \<Longrightarrow>
   left_spine_msecs m en (root_of t) f =
     Some (case inorder t of [] \<Rightarrow> f | a # _ \<Rightarrow> Some (ekey en a))"
proof (induction t arbitrary: p f)
  case Lf
  then show ?case by (simp add: left_spine_msecs.simps)
next
  case (Nd l a c r)
  obtain e where e: "en a = Some e" using Nd.prems(2) by auto
  show ?case
    using Nd.prems e Nd.IH(1) [of "Some a" "Some (en_msecs e)"]
    by (auto simp: left_spine_msecs.simps [of m en "Some a"] split: list.split)
qed

lemma left_spine_list:
  "exp_list m en rt xs \<Longrightarrow>
   left_spine_msecs m en rt None = Some (map_option (ekey en) (hd_opt xs))"
  unfolding exp_list_def rb_holds_def tree_at_def
  using left_spine_repr [of m None _ en None] addrs_inorder
  by (fastforce split: list.splits)

lemma rb_erase_list:
  assumes "exp_list m en rt xs" "a \<in> set xs"
  shows "\<exists>m' rt'. rb_erase a m rt = Some (m', rt') \<and> exp_list m' en rt' (remove1 a xs) \<and>
     (\<forall>b. b \<notin> set xs \<longrightarrow> m' b = m b)"
proof -
  obtain m' rt' where e: "rb_erase a m rt = Some (m', rt')" "rb_holds m' rt' (remove1 a xs)"
      "\<forall>b. b \<notin> set xs \<longrightarrow> m' b = m b"
    using rbs.erase_holds assms unfolding exp_list_def by blast
  obtain ys zs where s: "xs = ys @ a # zs" "a \<notin> set ys" using assms(2) by (meson split_list_first)
  then have r: "remove1 a xs = ys @ zs" by (simp add: remove1_append)
  have "exp_list m' en rt' (ys @ zs)"
    using assms(1) e(2) s(1) unfolding exp_list_def r by (auto simp: sorted_wrt_append)
  with e r show ?thesis by auto
qed

lemma exp_list_frame:
  assumes "exp_list m en rt xs" "\<And>a. a \<in> set xs \<Longrightarrow> m' a = m a"
    "\<And>a. a \<in> set xs \<Longrightarrow> map_option en_msecs (en' a) = map_option en_msecs (en a)"
  shows "exp_list m' en' rt xs"
proof -
  have k: "ekey en' a = ekey en a" "a \<in> dom en'" if "a \<in> set xs" for a
    using assms(1) assms(3) [OF that] that
    by (cases "en a"; cases "en' a"; force simp: exp_list_def ekey_def)+
  have "map (ekey en') xs = map (ekey en) xs" using k(1) by simp
  then show ?thesis
    using assms(1,2) k(2) unfolding exp_list_def
    by (simp del: map_eq_conv) (blast intro: rbs.holds_frame)
qed

subsection \<open>What scheduling leaves alone\<close>

text \<open>
  The scheduler touches the trees and, of the objects, only \<open>expiry_next\<close> and \<open>expiry_node\<close>. The
  functions \<open>q_core\<close>, \<open>m_core\<close> and \<open>c_core\<close> give the rest of an object.
\<close>

definition q_core :: "memqueue \<Rightarrow> memqueue" where
  "q_core q = q\<lparr>q_expiry_next := None, q_expiry_node := None\<rparr>"

definition m_core :: "msg \<Rightarrow> msg" where
  "m_core x = x\<lparr>m_expiry_next := None, m_expiry_node := None\<rparr>"

definition c_core :: "consumer \<Rightarrow> consumer" where
  "c_core c = c\<lparr>c_expiry_next := None, c_expiry_node := None\<rparr>"

definition sched_frame :: "memqueue_ins \<Rightarrow> memqueue_ins \<Rightarrow> bool" where
  "sched_frame ins ins' \<longleftrightarrow>
     queue_store ins' = queue_store ins \<and> birth ins' = birth ins \<and> now ins' = now ins \<and>
     unique_msg_id ins' = unique_msg_id ins \<and> binders ins' = binders ins \<and>
     cli_binders ins' = cli_binders ins \<and> freed_writes ins' = freed_writes ins \<and>
     (\<forall>a. map_option q_core (queues ins' a) = map_option q_core (queues ins a)) \<and>
     (\<forall>a. map_option m_core (msgs ins' a) = map_option m_core (msgs ins a)) \<and>
     (\<forall>a. map_option c_core (consumers ins' a) = map_option c_core (consumers ins a)) \<and>
     next_addr ins \<le> next_addr ins'"

lemma sched_frame_refl [simp]: "sched_frame ins ins"
  by (simp add: sched_frame_def)

lemma sched_frame_trans: "sched_frame ins ins' \<Longrightarrow> sched_frame ins' ins'' \<Longrightarrow> sched_frame ins ins''"
  by (auto simp: sched_frame_def)

lemma sched_frameI:
  "sched_frame ins (cond_signal c ins)" "sched_frame ins (new_expiry_node a ms ins)"
  "sched_frame ins (set_exp_root ty rt ins)" "sched_frame ins (ins\<lparr>rb := m\<rparr>)"
  "sched_frame ins (ins\<lparr>rb := m, enodes := en\<rparr>)" "calloc ins = (r, ins') \<Longrightarrow> sched_frame ins ins'"
  by (auto simp: sched_frame_def cond_signal_def new_expiry_node_def set_exp_root_def calloc_def
      split: obj_type.splits if_splits)

lemmas sched_prims = upd_queue_def upd_msg_def upd_consumer_def upd_enode_def
  set_expiry_next_def set_expiry_node_def get_expiry_next_def

lemma sched_frame_prims:
  "set_expiry_next ty obj n ins = Some ins' \<Longrightarrow> sched_frame ins ins'"
  "set_expiry_node ty obj n ins = Some ins' \<Longrightarrow> sched_frame ins ins'"
  "upd_enode a f ins = Some ins' \<Longrightarrow> sched_frame ins ins'"
  by (auto simp: sched_frame_def sched_prims q_core_def m_core_def c_core_def bind_eq_Some_conv
      split: obj_type.splits)

lemmas sched_fwd = sched_frameI [THEN sched_frame_trans [rotated]]
  sched_frame_prims [THEN sched_frame_trans [rotated]]

lemma sched_frame_link:
  "expiry_link ty node obj ins = Some ins' \<Longrightarrow> sched_frame ins ins'"
  "expiry_unlink ty obj ins = Some ins' \<Longrightarrow> sched_frame ins ins'"
  unfolding expiry_link_def expiry_unlink_def bind_eq_Some_conv
  by (blast intro: sched_fwd sched_frame_refl)+

lemma sched_frame_free:
  "possibly_node_free a ty ins = Some (n, ins') \<Longrightarrow> sched_frame ins ins'"
  by (auto simp: possibly_node_free_def bind_eq_Some_conv split: if_splits
      intro: sched_fwd sched_frame_refl)

lemmas sched_fwd2 = sched_fwd sched_frame_link [THEN sched_frame_trans [rotated]]
  sched_frame_free [THEN sched_frame_trans [rotated]]

lemma sched_frame_new:
  "sched_new_node node k obj ty ins = Some ins' \<Longrightarrow> sched_frame ins ins'"
  by (auto simp: sched_new_node_def Let_def bind_eq_Some_conv)
    ((rule sched_fwd2, assumption)+, rule sched_fwd(3), rule sched_fwd(4), rule sched_fwd(2),
      rule sched_frame_refl)

lemma sched_frame_expire:
  assumes "obj_sched_expire ins obj ms ty = Some ins'"
  shows "sched_frame ins ins'"
proof -
  obtain mt t tmp where t: "rb_search (rb ins) (enodes ins) (exp_root ty ins) t = Some tmp"
      "(let ins = if mt = 0 \<or> mt > ms then cond_signal None ins else ins
        in case tmp of Some node \<Rightarrow> expiry_link ty node obj ins
           | None \<Rightarrow> (case calloc ins of (None, ins) \<Rightarrow> None
                       | (Some node, ins) \<Rightarrow> sched_new_node node t obj ty ins)) = Some ins'"
    using assms by (auto simp: obj_sched_expire_def Let_def bind_eq_Some_conv)
  define i where "i = (if mt = 0 \<or> mt > ms then cond_signal None ins else ins)"
  have "sched_frame ins i" by (simp add: i_def sched_frameI)
  moreover have "sched_frame i ins'"
    using t(2) unfolding i_def [symmetric] Let_def
    by (auto split: option.splits prod.splits intro: sched_frame_link sched_frame_trans sched_frameI
        sched_frame_new)
  ultimately show ?thesis by (rule sched_frame_trans)
qed

lemma sched_frame_resched:
  "memqueue_resched ins q = Some ins' \<Longrightarrow> sched_frame ins ins'"
  "consumer_resched ins q = Some ins' \<Longrightarrow> sched_frame ins ins'"
  by (auto simp: memqueue_resched_def consumer_resched_def bind_eq_Some_conv split: option.splits)
    ((rule sched_frame_expire [THEN sched_frame_trans [rotated]] sched_fwd2, assumption)+,
      rule sched_frame_refl)+

subsection \<open>The invariant\<close>

text \<open>
  \<open>sched_pre xs ins\<close>: the nodes of the tree for a type \<open>ty\<close> are \<open>xs ty\<close>, in the order of their
  deadlines; the three trees share no node; the list of a node of the tree for \<open>ty\<close> holds exactly
  the objects of type \<open>ty\<close> linked to it, once each. In \<open>sched_with\<close> no node is left without
  objects, as it is between two operations.
\<close>

definition sched_pre :: "(obj_type \<Rightarrow> addr list) \<Rightarrow> memqueue_ins \<Rightarrow> bool" where
  "sched_pre xs ins \<longleftrightarrow>
     (\<forall>ty. exp_list (rb ins) (enodes ins) (exp_root ty ins) (xs ty)) \<and>
     (\<forall>ty ty'. ty \<noteq> ty' \<longrightarrow> set (xs ty) \<inter> set (xs ty') = {}) \<and>
     (\<forall>ty a e. a \<in> set (xs ty) \<longrightarrow> enodes ins a = Some e \<longrightarrow>
        distinct (en_objs ty e) \<and> (\<forall>ty'. ty' \<noteq> ty \<longrightarrow> en_objs ty' e = []) \<and>
        (\<forall>obj. obj \<in> set (en_objs ty e) \<longleftrightarrow> get_expiry_next ty obj ins = Some (Some a))) \<and>
     (\<forall>ty obj a. get_expiry_next ty obj ins = Some (Some a) \<longrightarrow> a \<in> set (xs ty)) \<and>
     (\<forall>a \<in> dom (enodes ins). a < next_addr ins)"

definition sched_with :: "(obj_type \<Rightarrow> addr list) \<Rightarrow> memqueue_ins \<Rightarrow> bool" where
  "sched_with xs ins \<longleftrightarrow> sched_pre xs ins \<and>
     (\<forall>ty a e. a \<in> set (xs ty) \<longrightarrow> enodes ins a = Some e \<longrightarrow> en_objs ty e \<noteq> [])"

definition sched_inv :: "memqueue_ins \<Rightarrow> bool" where
  "sched_inv ins \<longleftrightarrow> (\<exists>xs. sched_with xs ins)"

text \<open>The abstract view: the deadline of an object, if it is scheduled.\<close>

definition deadline :: "memqueue_ins \<Rightarrow> obj_type \<Rightarrow> addr \<Rightarrow> 32 word option" where
  "deadline ins ty obj =
     (case get_expiry_next ty obj ins of
        Some (Some a) \<Rightarrow> map_option en_msecs (enodes ins a)
      | _ \<Rightarrow> None)"

lemma deadline_Some:
  "deadline ins ty obj = Some d \<longleftrightarrow>
   (\<exists>a e. get_expiry_next ty obj ins = Some (Some a) \<and> enodes ins a = Some e \<and> d = en_msecs e)"
  by (cases "get_expiry_next ty obj ins"; cases "the (get_expiry_next ty obj ins)")
    (auto simp: deadline_def)

definition deadlines :: "memqueue_ins \<Rightarrow> 32 word set" where
  "deadlines ins = {d. \<exists>ty obj. deadline ins ty obj = Some d}"

definition is_sched :: "memqueue_ins \<Rightarrow> obj_type \<Rightarrow> addr \<Rightarrow> bool" where
  "is_sched ins ty obj \<longleftrightarrow> (\<exists>a. get_expiry_next ty obj ins = Some (Some a))"

text \<open>An object that is live and not scheduled.\<close>

definition is_idle :: "memqueue_ins \<Rightarrow> obj_type \<Rightarrow> addr \<Rightarrow> bool" where
  "is_idle ins ty obj \<longleftrightarrow> get_expiry_next ty obj ins = Some None"

definition now_ms :: "memqueue_ins \<Rightarrow> 32 word" where
  "now_ms ins = ucast (the (tick_diff_msecs (birth ins) (now ins)))"

subsection \<open>The part of the state that the scheduler works on\<close>

definition same_sched :: "memqueue_ins \<Rightarrow> memqueue_ins \<Rightarrow> bool" where
  "same_sched ins ins' \<longleftrightarrow>
     rb ins' = rb ins \<and> enodes ins' = enodes ins \<and> (\<forall>ty. exp_root ty ins' = exp_root ty ins) \<and>
     (\<forall>ty obj. get_expiry_next ty obj ins' = get_expiry_next ty obj ins) \<and>
     next_addr ins \<le> next_addr ins' \<and> birth ins' = birth ins \<and> now ins' = now ins"

lemma same_sched_pre: "same_sched ins ins' \<Longrightarrow> sched_pre xs ins \<Longrightarrow> sched_pre xs ins'"
  unfolding same_sched_def sched_pre_def by (auto intro: less_le_trans)

lemma same_sched_with: "same_sched ins ins' \<Longrightarrow> sched_with xs ins \<Longrightarrow> sched_with xs ins'"
  using same_sched_pre unfolding sched_with_def by (auto simp: same_sched_def)

lemma same_sched_deadline: "same_sched ins ins' \<Longrightarrow> deadline ins' = deadline ins"
  by (intro ext) (auto simp: deadline_def same_sched_def split: option.split)

lemma same_sched_now: "same_sched ins ins' \<Longrightarrow> now_ms ins' = now_ms ins"
  by (simp add: same_sched_def now_ms_def)

lemma same_sched_trans: "same_sched ins ins' \<Longrightarrow> same_sched ins' ins'' \<Longrightarrow> same_sched ins ins''"
  by (auto simp: same_sched_def)

lemma same_sched_refl [simp]: "same_sched ins ins"
  by (simp add: same_sched_def)

lemma exp_root_simps [simp]:
  "exp_root ty (set_exp_root ty' rt ins) = (if ty = ty' then rt else exp_root ty ins)"
  "exp_root ty (ins\<lparr>rb := m\<rparr>) = exp_root ty ins"
  "exp_root ty (ins\<lparr>enodes := en\<rparr>) = exp_root ty ins"
  "rb (set_exp_root ty' rt ins) = rb ins" "enodes (set_exp_root ty' rt ins) = enodes ins"
  "next_addr (set_exp_root ty' rt ins) = next_addr ins"
  "now (set_exp_root ty' rt ins) = now ins" "birth (set_exp_root ty' rt ins) = birth ins"
  "get_expiry_next t obj (set_exp_root ty' rt ins) = get_expiry_next t obj ins"
  "get_expiry_next t obj (ins\<lparr>rb := m\<rparr>) = get_expiry_next t obj ins"
  "get_expiry_next t obj (ins\<lparr>enodes := en\<rparr>) = get_expiry_next t obj ins"
  by (auto simp: exp_root_def set_exp_root_def get_expiry_next_def split: obj_type.splits)

lemma en_objs_simps [simp]:
  "en_objs ty (en_objs_update ty' f e) = (if ty = ty' then f (en_objs ty e) else en_objs ty e)"
  "en_msecs (en_objs_update ty' f e) = en_msecs e"
  by (auto simp: en_objs_def en_objs_update_def split: obj_type.splits)

lemma same_sched_signal [simp]: "same_sched ins (cond_signal c ins)"
  by (auto simp: same_sched_def cond_signal_def exp_root_def get_expiry_next_def split: obj_type.split)

lemma same_sched_calloc: "calloc ins = (r, ins') \<Longrightarrow> same_sched ins ins'"
  by (auto simp: same_sched_def calloc_def exp_root_def get_expiry_next_def
      split: obj_type.split if_splits)

lemma set_expiry_node_ok:
  "get_expiry_next ty obj ins = Some l \<Longrightarrow>
   \<exists>ins'. set_expiry_node ty obj n ins = Some ins' \<and> same_sched ins ins'"
  by (auto simp: same_sched_def sched_prims exp_root_def split: obj_type.splits)

lemma set_expiry_next_ok:
  "get_expiry_next ty obj ins = Some l \<Longrightarrow>
   \<exists>ins'. set_expiry_next ty obj n ins = Some ins' \<and>
     rb ins' = rb ins \<and> enodes ins' = enodes ins \<and> (\<forall>t. exp_root t ins' = exp_root t ins) \<and>
     next_addr ins' = next_addr ins \<and> birth ins' = birth ins \<and> now ins' = now ins \<and>
     (\<forall>t b. get_expiry_next t b ins' = (if t = ty \<and> b = obj then Some n else get_expiry_next t b ins))"
  by (auto simp: sched_prims exp_root_def split: obj_type.splits)

lemma expiry_link_ok:
  assumes "enodes ins node = Some e" "get_expiry_next ty obj ins = Some l"
  shows "\<exists>ins'. expiry_link ty node obj ins = Some ins' \<and>
     rb ins' = rb ins \<and> enodes ins' = (enodes ins)(node \<mapsto> en_objs_update ty (\<lambda>xs. obj # xs) e) \<and>
     (\<forall>t. exp_root t ins' = exp_root t ins) \<and>
     next_addr ins' = next_addr ins \<and> birth ins' = birth ins \<and> now ins' = now ins \<and>
     (\<forall>t b. get_expiry_next t b ins' =
        (if t = ty \<and> b = obj then Some (Some node) else get_expiry_next t b ins))"
  using assms set_expiry_next_ok
    [of ty obj "ins\<lparr>enodes := (enodes ins)(node \<mapsto> en_objs_update ty (\<lambda>xs. obj # xs) e)\<rparr>" l "Some node"]
  by (auto simp: expiry_link_def upd_enode_def)

lemma expiry_unlink_ok:
  assumes "enodes ins node = Some e" "get_expiry_next ty obj ins = Some (Some node)"
  shows "\<exists>ins'. expiry_unlink ty obj ins = Some ins' \<and>
     rb ins' = rb ins \<and> enodes ins' = (enodes ins)(node \<mapsto> en_objs_update ty (remove1 obj) e) \<and>
     (\<forall>t. exp_root t ins' = exp_root t ins) \<and>
     next_addr ins' = next_addr ins \<and> birth ins' = birth ins \<and> now ins' = now ins \<and>
     (\<forall>t b. get_expiry_next t b ins' =
        (if t = ty \<and> b = obj then Some None else get_expiry_next t b ins))"
  using assms set_expiry_next_ok
    [of ty obj "ins\<lparr>enodes := (enodes ins)(node \<mapsto> en_objs_update ty (remove1 obj) e)\<rparr>" "Some node" None]
  by (auto simp: expiry_unlink_def upd_enode_def)

subsection \<open>Preservation\<close>

lemma sched_preD:
  assumes "sched_pre xs ins"
  shows "exp_list (rb ins) (enodes ins) (exp_root ty ins) (xs ty)"
    "ty \<noteq> ty' \<Longrightarrow> set (xs ty) \<inter> set (xs ty') = {}"
    "a \<in> set (xs ty) \<Longrightarrow> enodes ins a = Some e \<Longrightarrow> distinct (en_objs ty e)"
    "a \<in> set (xs ty) \<Longrightarrow> enodes ins a = Some e \<Longrightarrow> ty' \<noteq> ty \<Longrightarrow> en_objs ty' e = []"
    "a \<in> set (xs ty) \<Longrightarrow> enodes ins a = Some e \<Longrightarrow>
       obj \<in> set (en_objs ty e) \<longleftrightarrow> get_expiry_next ty obj ins = Some (Some a)"
    "get_expiry_next ty obj ins = Some (Some a) \<Longrightarrow> a \<in> set (xs ty)"
    "enodes ins a = Some e \<Longrightarrow> a < next_addr ins"
  using assms unfolding sched_pre_def by (blast | force)+

lemma sched_pre_node: "sched_pre xs ins \<Longrightarrow> a \<in> set (xs ty) \<Longrightarrow> \<exists>e. enodes ins a = Some e"
  using sched_preD(1) [of xs ins ty] unfolding exp_list_def by blast

text \<open>One list changes, at one node, by one object.\<close>

lemma sched_pre_step:
  assumes pre: "sched_pre xs ins" and node: "node \<in> set (xs ty)" "enodes ins node = Some e"
    and rb: "rb ins' = rb ins" "\<forall>t. exp_root t ins' = exp_root t ins" "next_addr ins' = next_addr ins"
    and en: "enodes ins' = (enodes ins)(node \<mapsto> en_objs_update ty f e)"
    and nx: "\<forall>t b. get_expiry_next t b ins' = (if t = ty \<and> b = obj then Some n else get_expiry_next t b ins)"
    and f: "distinct (f (en_objs ty e))"
      "\<And>b. b \<in> set (f (en_objs ty e)) \<longleftrightarrow> (if b = obj then n = Some node else b \<in> set (en_objs ty e))"
    and old: "get_expiry_next ty obj ins \<in> {Some None, Some (Some node)}" and n: "n \<in> {None, Some node}"
  shows "sched_pre xs ins'"
  unfolding sched_pre_def
proof (intro conjI allI impI ballI)
  note D = sched_preD [OF pre]
  show "exp_list (rb ins') (enodes ins') (exp_root t ins') (xs t)" for t
    unfolding rb(1) rb(2) [rule_format] using node(2) en by (intro exp_list_frame [OF D(1)]) auto
  show "set (xs t) \<inter> set (xs t') = {}" if "t \<noteq> t'" for t t' using D(2) that by blast
  fix t a e' assume a: "a \<in> set (xs t)" "enodes ins' a = Some e'"
  have same: "t = ty" if "a = node" using D(2) [of t ty] a(1) node(1) that by blast
  show "distinct (en_objs t e')"
    using a D(3) [of a t] node(2) en f(1) same by (auto split: if_splits)
  show "en_objs t' e' = []" if "t' \<noteq> t" for t'
    using a D(4) [of a t _ t'] node(2) en same that by (auto split: if_splits)
  show "b \<in> set (en_objs t e') \<longleftrightarrow> get_expiry_next t b ins' = Some (Some a)" for b
    using a D(5) [of a t _ b] node en nx f(2) same old n by (auto split: if_splits)
next
  fix t b a assume "get_expiry_next t b ins' = Some (Some a)"
  then show "a \<in> set (xs t)"
    using nx sched_preD(6) [OF pre] node(1) n by (auto split: if_splits)
next
  fix a assume "a \<in> dom (enodes ins')"
  then show "a < next_addr ins'"
    using en rb(3) node(2) sched_preD(7) [OF pre] by (auto split: if_splits)
qed

lemma sched_pre_link:
  assumes pre: "sched_pre xs ins" and node: "node \<in> set (xs ty)" and idle: "is_idle ins ty obj"
  shows "\<exists>ins' e. expiry_link ty node obj ins = Some ins' \<and> sched_pre xs ins' \<and>
    enodes ins node = Some e \<and> enodes ins' = (enodes ins)(node \<mapsto> en_objs_update ty (\<lambda>xs. obj # xs) e) \<and>
    now_ms ins' = now_ms ins \<and> get_expiry_next ty obj ins' = Some (Some node) \<and>
    deadline ins' = (deadline ins)(ty := (deadline ins ty)(obj \<mapsto> en_msecs e))"
proof -
  obtain e where e: "enodes ins node = Some e" using sched_pre_node [OF pre node] by blast
  obtain ins' where i: "expiry_link ty node obj ins = Some ins'" "rb ins' = rb ins"
      "enodes ins' = (enodes ins)(node \<mapsto> en_objs_update ty (\<lambda>xs. obj # xs) e)"
      "\<forall>t. exp_root t ins' = exp_root t ins" "next_addr ins' = next_addr ins"
      "birth ins' = birth ins" "now ins' = now ins"
      "\<forall>t b. get_expiry_next t b ins' =
        (if t = ty \<and> b = obj then Some (Some node) else get_expiry_next t b ins)"
    using expiry_link_ok [OF e] idle unfolding is_idle_def by blast
  have notin: "obj \<notin> set (en_objs ty e)"
    using sched_preD(5) [OF pre node e, of obj] idle by (simp add: is_idle_def)
  have "sched_pre xs ins'"
    using sched_preD(3) [OF pre node e] notin idle
    by (intro sched_pre_step [OF pre node e i(2,4,5,3,8)]) (auto simp: is_idle_def)
  moreover have "deadline ins' = (deadline ins)(ty := (deadline ins ty)(obj \<mapsto> en_msecs e))"
    using i(3,8) e by (auto simp: deadline_def fun_eq_iff split: option.splits)
  ultimately show ?thesis using i e by (auto simp: now_ms_def)
qed

lemma sched_pre_unlink:
  assumes pre: "sched_pre xs ins" and nx: "get_expiry_next ty obj ins = Some (Some node)"
  shows "\<exists>ins' e. expiry_unlink ty obj ins = Some ins' \<and> sched_pre xs ins' \<and>
    enodes ins node = Some e \<and> enodes ins' = (enodes ins)(node \<mapsto> en_objs_update ty (remove1 obj) e) \<and>
    now_ms ins' = now_ms ins \<and> is_idle ins' ty obj \<and>
    deadline ins' = (deadline ins)(ty := (deadline ins ty)(obj := None))"
proof -
  have node: "node \<in> set (xs ty)" using sched_preD(6) [OF pre nx] .
  obtain e where e: "enodes ins node = Some e" using sched_pre_node [OF pre node] by blast
  obtain ins' where i: "expiry_unlink ty obj ins = Some ins'" "rb ins' = rb ins"
      "enodes ins' = (enodes ins)(node \<mapsto> en_objs_update ty (remove1 obj) e)"
      "\<forall>t. exp_root t ins' = exp_root t ins" "next_addr ins' = next_addr ins"
      "birth ins' = birth ins" "now ins' = now ins"
      "\<forall>t b. get_expiry_next t b ins' =
        (if t = ty \<and> b = obj then Some None else get_expiry_next t b ins)"
    using expiry_unlink_ok [OF e nx] by blast
  have "sched_pre xs ins'"
    using sched_preD(3) [OF pre node e] nx
    by (intro sched_pre_step [OF pre node e i(2,4,5,3,8)]) auto
  moreover have "deadline ins' = (deadline ins)(ty := (deadline ins ty)(obj := None))"
    using i(3,8) e by (auto simp: deadline_def fun_eq_iff split: option.splits)
  ultimately show ?thesis using i e by (auto simp: now_ms_def is_idle_def)
qed

text \<open>The node of an object that was unlinked is freed when it was its last object.\<close>

lemma sched_free_node:
  assumes pre: "sched_pre xs ins" and node: "node \<in> set (xs ty)"
    and full: "\<And>t a e. a \<in> set (xs t) \<Longrightarrow> a \<noteq> node \<Longrightarrow> enodes ins a = Some e \<Longrightarrow> en_objs t e \<noteq> []"
  shows "\<exists>r ins' xs'. possibly_node_free node ty ins = Some (r, ins') \<and> sched_with xs' ins' \<and>
    deadline ins' = deadline ins \<and> now_ms ins' = now_ms ins \<and>
    (\<forall>t b. get_expiry_next t b ins' = get_expiry_next t b ins) \<and>
    (\<forall>e. enodes ins node = Some e \<and> en_objs ty e = [] \<longrightarrow> xs' = xs(ty := remove1 node (xs ty)))"
proof -
  note D = sched_preD [OF pre]
  obtain e where e: "enodes ins node = Some e" using sched_pre_node [OF pre node] by blast
  have empty: "en_memqueue_objs e = [] \<and> en_msg_objs e = [] \<and> en_consumer_objs e = [] \<longleftrightarrow> en_objs ty e = []"
    using D(4) [OF node e, of MSG_TYPE] D(4) [OF node e, of MEMQUEUE_TYPE] D(4) [OF node e, of CONSUMER_TYPE]
    by (cases ty) (auto simp: en_objs_def)
  show ?thesis
  proof (cases "en_objs ty e = []")
    case False
    have "sched_with xs ins"
      unfolding sched_with_def
    proof (intro conjI allI impI pre)
      fix t a e' assume a: "a \<in> set (xs t)" "enodes ins a = Some e'"
      show "en_objs t e' \<noteq> []"
        using full [OF a(1) _ a(2)] False a node e D(2) [of t ty] by (cases "a = node"; cases "t = ty") auto
    qed
    then show ?thesis using False e empty by (auto simp: possibly_node_free_def)
  next
    case True
    obtain m rt where er: "rb_erase node (rb ins) (exp_root ty ins) = Some (m, rt)"
        "exp_list m (enodes ins) rt (remove1 node (xs ty))" "\<forall>b. b \<notin> set (xs ty) \<longrightarrow> m b = rb ins b"
      using rb_erase_list [OF D(1) node] by blast
    define ins' where "ins' = set_exp_root ty rt
      (ins\<lparr>rb := m(node := None), enodes := (enodes ins)(node := None)\<rparr>)"
    define xs' where "xs' = xs(ty := remove1 node (xs ty))"
    have dx: "distinct (xs ty)" using D(1) [of ty] by (auto simp: exp_list_def intro: rbs.holds_distinct)
    have sub: "set (xs' t) = set (xs t) - {node}" for t
      using dx D(2) [of t ty] node by (cases "t = ty") (auto simp: xs'_def)
    have nonx: "get_expiry_next t b ins \<noteq> Some (Some node)" for t b
      using D(5) [OF node e, of b] D(6) [of t b node] D(2) [of t ty] node True by (cases "t = ty") auto
    have nx: "get_expiry_next t b ins' = get_expiry_next t b ins" for t b
      by (simp add: ins'_def)
    have "exp_list (rb ins') (enodes ins') (exp_root t ins') (xs' t)" for t
    proof (cases "t = ty")
      case True
      have n: "node \<notin> set (remove1 node (xs ty))" using dx by simp
      then show ?thesis using True
        by (auto simp: ins'_def xs'_def intro!: exp_list_frame [OF er(2)])
    next
      case False
      then have "node \<notin> set (xs t)" "set (xs t) \<inter> set (xs ty) = {}" using D(2) [of t ty] node by auto
      then show ?thesis using False er(3)
        by (auto simp: ins'_def xs'_def intro!: exp_list_frame [OF D(1)])
    qed
    moreover have "sched_pre xs' ins' \<and> (\<forall>t a e. a \<in> set (xs' t) \<longrightarrow> enodes ins' a = Some e \<longrightarrow> en_objs t e \<noteq> [])"
      if "\<forall>t. exp_list (rb ins') (enodes ins') (exp_root t ins') (xs' t)"
      unfolding sched_pre_def sub nx
    proof (intro conjI allI impI ballI)
      fix t a e' assume a: "a \<in> set (xs t) - {node}" "enodes ins' a = Some e'"
      then have a': "a \<in> set (xs t)" "enodes ins a = Some e'" "a \<noteq> node" by (auto simp: ins'_def)
      show "distinct (en_objs t e')" "\<And>t'. t' \<noteq> t \<Longrightarrow> en_objs t' e' = []"
        "\<And>b. b \<in> set (en_objs t e') \<longleftrightarrow> get_expiry_next t b ins = Some (Some a)"
        "en_objs t e' \<noteq> []"
        using D(3-5) [OF a'(1,2)] full [OF a'(1,3,2)] by auto
    qed (use that D(2,6,7) nonx in \<open>auto simp: ins'_def split: if_splits\<close>)
    ultimately have "sched_with xs' ins'" by (auto simp: sched_with_def)
    moreover have "deadline ins' = deadline ins"
      using nx nonx by (auto simp: deadline_def fun_eq_iff ins'_def split: option.splits)
    moreover have "possibly_node_free node ty ins = Some (None, ins')"
      using e True empty er(1) by (simp add: possibly_node_free_def ins'_def)
    moreover have "now_ms ins' = now_ms ins" by (simp add: now_ms_def ins'_def)
    ultimately show ?thesis using nx xs'_def by blast
  qed
qed

text \<open>A new node enters the tree of its type; it has no objects yet.\<close>

lemma sched_pre_insert:
  assumes pre: "sched_pre xs ins" and fresh: "node \<notin> dom (enodes ins)" "node < next_addr ins"
    and k: "\<And>b. b \<in> set (xs ty) \<Longrightarrow> ekey (enodes ins) b \<noteq> k"
  defines "i1 \<equiv> new_expiry_node node k ins"
  shows "\<exists>m rt ys zs. rb_insert node (enodes i1) (rb i1) (exp_root ty i1) = Some (m, rt) \<and>
    xs ty = ys @ zs \<and> sched_pre (xs(ty := ys @ node # zs)) (set_exp_root ty rt (i1\<lparr>rb := m\<rparr>))"
proof -
  note D = sched_preD [OF pre]
  let ?d = "\<lparr>en_msecs = k, en_memqueue_objs = [], en_consumer_objs = [], en_msg_objs = []\<rparr>"
  have en: "enodes i1 = (enodes ins)(node \<mapsto> ?d)" and i1: "rb i1 = rb ins"
    "exp_root t i1 = exp_root t ins" "next_addr i1 = next_addr ins"
    "get_expiry_next t b i1 = get_expiry_next t b ins" for t b
    by (simp_all add: i1_def new_expiry_node_def)
  have nin: "node \<notin> set (xs t)" for t
    using sched_pre_node [OF pre, of node t] fresh(1) by blast
  have xl: "exp_list (rb i1) (enodes i1) (exp_root t i1) (xs t)" for t
    unfolding i1 using nin [of t] en by (intro exp_list_frame [OF D(1)]) auto
  have "\<And>b. b \<in> set (xs ty) \<Longrightarrow> ekey (enodes i1) b \<noteq> en_msecs ?d"
    using k nin [of ty] en by (auto simp: ekey_def)
  then obtain m rt ys zs where r: "rb_insert node (enodes i1) (rb i1) (exp_root ty i1) = Some (m, rt)"
      "xs ty = ys @ zs" "exp_list m (enodes i1) rt (ys @ node # zs)"
      "\<forall>b. b \<notin> insert node (set (xs ty)) \<longrightarrow> m b = rb i1 b"
    using rb_insert_list [OF xl, of node ?d ty] nin en by auto
  define xs' where "xs' = xs(ty := ys @ node # zs)"
  have sx: "set (xs' t) = (if t = ty then insert node (set (xs t)) else set (xs t))" for t
    using r(2) by (auto simp: xs'_def)
  let ?i = "set_exp_root ty rt (i1\<lparr>rb := m\<rparr>)"
  have nonx: "get_expiry_next t b ins \<noteq> Some (Some node)" for t b
    using D(6) [of t b node] nin by blast
  have "exp_list (rb ?i) (enodes ?i) (exp_root t ?i) (xs' t)" for t
  proof (cases "t = ty")
    case False
    then show ?thesis
      using r(4) nin [of t] D(2) [of t ty] by (auto simp: xs'_def intro!: exp_list_frame [OF xl])
  qed (use r(3) xs'_def in simp)
  moreover have "set (xs' t) \<inter> set (xs' t') = {}" if "t \<noteq> t'" for t t'
    using D(2) [OF that] nin that by (auto simp: sx)
  moreover have "distinct (en_objs t e) \<and> (\<forall>t'. t' \<noteq> t \<longrightarrow> en_objs t' e = []) \<and>
      (\<forall>b. b \<in> set (en_objs t e) \<longleftrightarrow> get_expiry_next t b ?i = Some (Some a))"
    if "a \<in> set (xs' t)" "enodes ?i a = Some e" for t a e
  proof (cases "a = node")
    case True
    with that(2) have "en_objs u e = []" for u by (cases u) (auto simp: en en_objs_def)
    then show ?thesis using nonx True by (simp add: i1)
  next
    case False
    with that show ?thesis using D(3-5) [of a t e] by (auto simp: sx en i1 split: if_splits)
  qed
  ultimately have "sched_pre xs' ?i"
    unfolding sched_pre_def using D(6,7) fresh(2) by (auto simp: sx en i1 split: if_splits)
  then show ?thesis using r(1,2) unfolding xs'_def by blast
qed

lemma sched_new_node_ok:
  assumes w: "sched_with xs ins" and fresh: "node \<notin> dom (enodes ins)" "node < next_addr ins"
    and k: "\<And>b. b \<in> set (xs ty) \<Longrightarrow> ekey (enodes ins) b \<noteq> k" and idle: "is_idle ins ty obj"
  shows "\<exists>ins' xs'. sched_new_node node k obj ty ins = Some ins' \<and> sched_with xs' ins' \<and>
    deadline ins' = (deadline ins)(ty := (deadline ins ty)(obj \<mapsto> k)) \<and> now_ms ins' = now_ms ins"
proof -
  have pre: "sched_pre xs ins" and full: "\<And>t a e. a \<in> set (xs t) \<Longrightarrow> enodes ins a = Some e \<Longrightarrow> en_objs t e \<noteq> []"
    using w by (auto simp: sched_with_def)
  define i1 where "i1 = new_expiry_node node k ins"
  obtain m rt ys zs where r: "rb_insert node (enodes i1) (rb i1) (exp_root ty i1) = Some (m, rt)"
      "xs ty = ys @ zs" "sched_pre (xs(ty := ys @ node # zs)) (set_exp_root ty rt (i1\<lparr>rb := m\<rparr>))"
    using sched_pre_insert [OF pre fresh k] unfolding i1_def by blast
  define i2 where "i2 = set_exp_root ty rt (i1\<lparr>rb := m\<rparr>)"
  let ?xs = "xs(ty := ys @ node # zs)"
  have i2: "is_idle i2 ty obj" "enodes i2 = enodes i1" "now_ms i2 = now_ms ins"
      "get_expiry_next t b i2 = get_expiry_next t b ins" for t b
    using idle by (simp_all add: i2_def i1_def new_expiry_node_def is_idle_def now_ms_def)
  obtain i3 e where i3: "expiry_link ty node obj i2 = Some i3" "sched_pre ?xs i3"
      "enodes i2 node = Some e" "enodes i3 = (enodes i2)(node \<mapsto> en_objs_update ty (\<lambda>xs. obj # xs) e)"
      "now_ms i3 = now_ms i2" "get_expiry_next ty obj i3 = Some (Some node)"
      "deadline i3 = (deadline i2)(ty := (deadline i2 ty)(obj \<mapsto> en_msecs e))"
    using sched_pre_link [OF r(3) [folded i2_def] _ i2(1), of node] by auto
  obtain i4 where i4: "set_expiry_node ty obj (Some node) i3 = Some i4" "same_sched i3 i4"
    using set_expiry_node_ok [OF i3(6)] by blast
  have k': "en_msecs e = k" using i3(3) by (auto simp: i2(2) i1_def new_expiry_node_def)
  have d2: "deadline i2 = deadline ins"
  proof (intro ext)
    fix t b
    have "get_expiry_next t b ins \<noteq> Some (Some node)"
      using sched_preD(6) [OF pre, of t b node] sched_pre_node [OF pre, of node t] fresh(1) by blast
    then show "deadline i2 t b = deadline ins t b"
      by (auto simp: deadline_def i2 i1_def new_expiry_node_def split: option.splits)
  qed
  have "en_objs t e' \<noteq> []" if "a \<in> set (?xs t)" "enodes i3 a = Some e'" for t a e'
  proof (cases "a = node")
    case True
    have "t = ty" using that(1) True sched_pre_node [OF pre, of node t] fresh(1) by (auto split: if_splits)
    then show ?thesis using that True i3(4) by auto
  next
    case False
    then show ?thesis using full [of a t e'] that i3(4) r(2)
      by (auto simp: i2(2) i1_def new_expiry_node_def split: if_splits)
  qed
  then have "sched_with ?xs i3" using i3(2) unfolding sched_with_def by blast
  then have "sched_with ?xs i4" by (rule same_sched_with [OF i4(2)])
  moreover have "sched_new_node node k obj ty ins = Some i4"
    using r(1) i3(1) i4(1) by (simp add: sched_new_node_def i1_def i2_def Let_def)
  moreover have "deadline i4 = (deadline ins)(ty := (deadline ins ty)(obj \<mapsto> k))"
    using i3(7) d2 k' same_sched_deadline [OF i4(2)] by simp
  ultimately show ?thesis using i3(5) i2(3) same_sched_now [OF i4(2)] by auto
qed

subsection \<open>The minimal timeout\<close>

text \<open>What \<open>sched_get_min_timeout\<close> promises, for a set of deadlines and the current time.\<close>

definition timeout_spec :: "32 word set \<Rightarrow> 32 word \<Rightarrow> 32 word" where
  "timeout_spec ds t = (if ds = {} then 0 else if Min ds \<le> t then 1 else Min ds - t)"

lemma min_timeout_loop_spec:
  assumes "\<And>rt. rt \<in> set rts \<Longrightarrow> left_spine_msecs (rb ins) (enodes ins) rt None = Some (k rt)"
    "finite ds" "\<And>d. d \<in> ds \<Longrightarrow> t < d" "mn = (if ds = {} then 0 else Min ds - t)"
  shows "min_timeout_loop ins t mn rts = Some (timeout_spec (ds \<union> {d. \<exists>rt \<in> set rts. k rt = Some d}) t)"
  using assms
proof (induction rts arbitrary: mn ds)
  case Nil
  then have "ds \<noteq> {} \<Longrightarrow> \<not> Min ds \<le> t" by (simp add: not_le)
  then show ?case using Nil by (auto simp: timeout_spec_def)
next
  case (Cons rt rts)
  let ?D = "\<lambda>rts. {d. \<exists>rt \<in> set rts. k rt = Some d}"
  have fin: "finite (?D rts)" for rts
    by (rule finite_subset [of _ "the ` k ` set rts"]) force+
  have "left_spine_msecs (rb ins) (enodes ins) rt None = Some (k rt)" using Cons.prems(1) by simp
  show ?case
  proof (cases "k rt")
    case None
    have "min_timeout_loop ins t mn rts = Some (timeout_spec (ds \<union> ?D rts) t)"
      using Cons.prems by (intro Cons.IH) auto
    then show ?thesis using None Cons.prems(1) [of rt] by simp
  next
    case (Some d)
    have un: "ds \<union> ?D (rt # rts) = insert d ds \<union> ?D rts" using Some by auto
    show ?thesis
    proof (cases "t < d")
      case True
      have upd: "(if mn > d - t \<or> mn = 0 then d - t else mn) = Min (insert d ds) - t"
      proof (cases "ds = {}")
        case False
        then have M: "t < Min ds" using Cons.prems(2,3) by simp
        have mn: "mn = Min ds - t" using False Cons.prems(4) by simp
        then have "mn \<noteq> 0" using M by auto
        moreover have "d - t < mn \<longleftrightarrow> d < Min ds"
          using True M unfolding mn by (simp add: word_less_nat_alt unat_sub word_le_nat_alt less_diff_conv2)
        moreover have "Min (insert d ds) = min d (Min ds)" using False Cons.prems(2) by simp
        ultimately show ?thesis using mn by (auto simp: min_def)
      qed (use Cons.prems(4) in simp)
      have "min_timeout_loop ins t (Min (insert d ds) - t) rts = Some (timeout_spec (insert d ds \<union> ?D rts) t)"
        using Cons.prems True by (intro Cons.IH) auto
      then show ?thesis unfolding un using True Some Cons.prems(1) [of rt] upd by (simp del: Un_insert_left)
    next
      case False
      have "Min (insert d ds \<union> ?D rts) \<le> d" using Cons.prems(2) fin [of rts] by (intro Min_le) auto
      then have "Min (insert d ds \<union> ?D rts) \<le> t" using False by (meson not_less order.trans)
      then have "timeout_spec (insert d ds \<union> ?D rts) t = 1" by (simp add: timeout_spec_def)
      then show ?thesis unfolding un using False Some Cons.prems(1) [of rt] by simp
    qed
  qed
qed

lemma sched_deadlines:
  assumes "sched_with xs ins"
  shows "deadlines ins = (\<Union>ty. ekey (enodes ins) ` set (xs ty))"
proof -
  have pre: "sched_pre xs ins" using assms by (simp add: sched_with_def)
  have "d \<in> deadlines ins" if a: "a \<in> set (xs ty)" and d: "d = ekey (enodes ins) a" for d ty a
  proof -
    obtain e where e: "enodes ins a = Some e" using sched_pre_node [OF pre a] by blast
    then obtain obj where "obj \<in> set (en_objs ty e)"
      using assms a unfolding sched_with_def by (metis list.set_sel(1))
    then have "get_expiry_next ty obj ins = Some (Some a)" using sched_preD(5) [OF pre a e] by blast
    then have "deadline ins ty obj = Some d" using e d by (simp add: deadline_def)
    then show ?thesis unfolding deadlines_def by blast
  qed
  moreover have "\<exists>ty. d \<in> ekey (enodes ins) ` set (xs ty)" if d: "d \<in> deadlines ins" for d
  proof -
    obtain ty obj a e where "get_expiry_next ty obj ins = Some (Some a)" "enodes ins a = Some e"
        "d = en_msecs e"
      using d by (auto simp: deadlines_def deadline_Some)
    then show ?thesis using sched_preD(6) [OF pre, of ty obj a] by force
  qed
  ultimately show ?thesis by (intro set_eqI iffI) (auto simp only: UN_iff image_iff bex_UNIV)
qed

lemma hd_opt_SomeD: "hd_opt xs = Some x \<Longrightarrow> x \<in> set xs"
  by (cases xs) auto

lemma ucast_down_add: "ucast (t + ucast ms :: 64 word) = (ucast t + ms :: 32 word)"
proof -
  have "take_bit 32 (take_bit 64 x + take_bit 64 y) = take_bit 32 (x + y)" for x y :: int
    using take_bit_add [of 32 "take_bit 64 x" "take_bit 64 y"] take_bit_add [of 32 x y] by simp
  then have "(ucast (t + s) :: 32 word) = ucast t + ucast s" for s :: "64 word"
    by transfer simp
  moreover have "(ucast (ucast ms :: 64 word) :: 32 word) = ms" by transfer simp
  ultimately show ?thesis by simp
qed

text \<open>The minimum of a union is decided by the minima of its parts.\<close>

lemma timeout_spec_minima:
  assumes "finite ds" "ds' \<subseteq> ds" "\<And>d. d \<in> ds \<Longrightarrow> \<exists>d' \<in> ds'. d' \<le> d"
  shows "timeout_spec ds' t = timeout_spec ds t"
proof (cases "ds = {}")
  case False
  then have ne: "ds' \<noteq> {}" using assms(3) by auto
  have fin: "finite ds'" using assms(1,2) finite_subset by blast
  have "Min ds' = Min ds"
  proof (rule order_antisym)
    obtain d' where "d' \<in> ds'" "d' \<le> Min ds" using assms(3) [OF Min_in [OF assms(1) False]] by blast
    then show "Min ds' \<le> Min ds" using Min_le [OF fin, of d'] by (meson order.trans)
    show "Min ds \<le> Min ds'" using Min_antimono [OF assms(2) ne assms(1)] .
  qed
  then show ?thesis using False ne by (simp add: timeout_spec_def)
qed (use assms(2) in simp)

lemma sched_min_timeout:
  assumes w: "sched_with xs ins"
  shows "sched_get_min_timeout ins = Some (timeout_spec (deadlines ins) (now_ms ins))"
proof -
  have pre: "sched_pre xs ins" using w by (simp add: sched_with_def)
  define k where "k rt = (THE r. left_spine_msecs (rb ins) (enodes ins) rt None = Some r)" for rt
  have kt: "left_spine_msecs (rb ins) (enodes ins) (exp_root ty ins) None =
      Some (map_option (ekey (enodes ins)) (hd_opt (xs ty)))" for ty
    using left_spine_list [OF sched_preD(1) [OF pre]] .
  then have k: "k (exp_root ty ins) = map_option (ekey (enodes ins)) (hd_opt (xs ty))" for ty
    by (simp add: k_def)
  let ?rts = "[exp_root MSG_TYPE ins, exp_root MEMQUEUE_TYPE ins, exp_root CONSUMER_TYPE ins]"
  let ?D = "{d. \<exists>rt \<in> set ?rts. k rt = Some d}"
  have D: "?D = {d. \<exists>ty. map_option (ekey (enodes ins)) (hd_opt (xs ty)) = Some d}"
    using k by (auto) (metis (full_types) obj_type.exhaust)
  obtain t where t: "tick_diff_msecs (birth ins) (now ins) = Some t"
    using tick_diff_msecs_total by blast
  have "min_timeout_loop ins (now_ms ins) 0 ?rts = Some (timeout_spec ({} \<union> ?D) (now_ms ins))"
    by (rule min_timeout_loop_spec) (use kt k in auto)
  moreover have "timeout_spec ?D (now_ms ins) = timeout_spec (deadlines ins) (now_ms ins)"
  proof (rule timeout_spec_minima)
    have "finite (UNIV :: obj_type set)"
      by (rule finite_subset [of _ "{MSG_TYPE, MEMQUEUE_TYPE, CONSUMER_TYPE}"])
        (auto intro: obj_type.exhaust)
    then show "finite (deadlines ins)" unfolding sched_deadlines [OF w] by blast
    show "?D \<subseteq> deadlines ins"
      unfolding D sched_deadlines [OF w] using hd_opt_SomeD by fastforce
    fix d assume "d \<in> deadlines ins"
    then obtain ty a where a: "a \<in> set (xs ty)" "d = ekey (enodes ins) a"
      unfolding sched_deadlines [OF w] by blast
    then obtain b ys where ys: "xs ty = b # ys" by (cases "xs ty") auto
    have "sorted_wrt (<) (map (ekey (enodes ins)) (xs ty))"
      using sched_preD(1) [OF pre, of ty] by (simp add: exp_list_def)
    then have "ekey (enodes ins) b \<le> d" using a ys by (auto intro: less_imp_le)
    moreover have "ekey (enodes ins) b \<in> ?D" unfolding D using ys by (auto intro!: exI [of _ ty])
    ultimately show "\<exists>d' \<in> ?D. d' \<le> d" by blast
  qed
  ultimately show ?thesis
    using t by (simp add: sched_get_min_timeout_def now_ms_def exp_root_def)
qed

lemma obj_sched_expire_ok:
  assumes w: "sched_with xs ins" and idle: "is_idle ins ty obj" and mem: "oom ins = []"
  shows "\<exists>ins' xs'. obj_sched_expire ins obj ms ty = Some ins' \<and> sched_with xs' ins' \<and>
    deadline ins' = (deadline ins)(ty := (deadline ins ty)(obj \<mapsto> now_ms ins + ms)) \<and>
    now_ms ins' = now_ms ins"
proof -
  let ?mt = "timeout_spec (deadlines ins) (now_ms ins)"
  let ?k = "now_ms ins + ms"
  define i where "i = (if ?mt = 0 \<or> ?mt > ms then cond_signal None ins else ins)"
  have si: "same_sched ins i" by (simp add: i_def)
  have w': "sched_with xs i" and pre: "sched_pre xs i"
    using same_sched_with [OF si w] by (auto simp: sched_with_def)
  have idle': "is_idle i ty obj" using si idle by (simp add: is_idle_def same_sched_def)
  note dl = same_sched_deadline [OF si] same_sched_now [OF si]
  obtain t where t: "tick_diff_msecs (birth ins) (now ins) = Some t" using tick_diff_msecs_total by blast
  then have k: "ucast (t + ucast ms) = ?k" by (simp add: now_ms_def ucast_down_add)
  let ?f = "find (\<lambda>a. ekey (enodes ins) a = ?k) (xs ty)"
  have sr: "rb_search (rb ins) (enodes ins) (exp_root ty ins) ?k = Some ?f"
    using w by (intro rb_search_list) (simp add: sched_with_def sched_pre_def)
  have eq: "obj_sched_expire ins obj ms ty =
    (case ?f of Some node \<Rightarrow> expiry_link ty node obj i
     | None \<Rightarrow> (case calloc i of (None, ins) \<Rightarrow> None | (Some node, ins) \<Rightarrow> sched_new_node node ?k obj ty ins))"
    by (simp only: obj_sched_expire_def sched_min_timeout [OF w] t k sr i_def Option.bind.bind_lunit Let_def)
  show ?thesis
  proof (cases ?f)
    case (Some node)
    then have n: "node \<in> set (xs ty)" "ekey (enodes ins) node = ?k" by (auto simp: find_Some_iff)
    obtain ins' e where l: "expiry_link ty node obj i = Some ins'" "sched_pre xs ins'"
        "enodes i node = Some e" "enodes ins' = (enodes i)(node \<mapsto> en_objs_update ty (\<lambda>xs. obj # xs) e)"
        "now_ms ins' = now_ms i" "deadline ins' = (deadline i)(ty := (deadline i ty)(obj \<mapsto> en_msecs e))"
      using sched_pre_link [OF pre n(1) idle'] by blast
    have "sched_with xs ins'"
      using l(2-4) w' unfolding sched_with_def
      by (auto split: if_splits)
    moreover have "en_msecs e = ?k" using l(3) n(2) si by (simp add: same_sched_def ekey_def)
    ultimately show ?thesis using eq Some l dl by auto
  next
    case None
    have c: "calloc i = (Some (next_addr i), i\<lparr>next_addr := Suc (next_addr i), oom := tl (oom i)\<rparr>)"
      using mem by (simp add: calloc_def i_def cond_signal_def)
    let ?i = "i\<lparr>next_addr := Suc (next_addr i), oom := tl (oom i)\<rparr>"
    have s2: "same_sched i ?i" using same_sched_calloc [OF c] .
    have "\<exists>ins' xs'. sched_new_node (next_addr i) ?k obj ty ?i = Some ins' \<and> sched_with xs' ins' \<and>
      deadline ins' = (deadline ?i)(ty := (deadline ?i ty)(obj \<mapsto> ?k)) \<and> now_ms ins' = now_ms ?i"
    proof (rule sched_new_node_ok [OF same_sched_with [OF s2 w']])
      show "next_addr i \<notin> dom (enodes ?i)" using sched_preD(7) [OF pre] by auto
      show "ekey (enodes ?i) b \<noteq> ?k" if "b \<in> set (xs ty)" for b
        using None that si by (auto simp: find_None_iff same_sched_def)
      show "is_idle ?i ty obj" using idle' s2 by (simp add: is_idle_def same_sched_def)
    qed simp
    then show ?thesis
      using eq None c dl same_sched_deadline [OF s2] same_sched_now [OF s2] by auto
  qed
qed

end
