(* ===== verification/Expiry_Props.thy ===== *)
theory Expiry_Props
  imports Expiry_Proofs
begin

text \<open>
  The scheduler as a service with deadlines (locale \<open>timer_service\<close>, interpreted on the code's
  own operations), the properties of \<open>memqueue_expiry.c\<close>, and what happens when two objects get
  the same deadline.
\<close>

subsection \<open>Memory\<close>

lemma oom_prims:
  "set_expiry_next ty obj n ins = Some ins' \<Longrightarrow> oom ins' = oom ins"
  "set_expiry_node ty obj n ins = Some ins' \<Longrightarrow> oom ins' = oom ins"
  "upd_enode a f ins = Some ins' \<Longrightarrow> oom ins' = oom ins"
  "oom (set_exp_root ty rt ins) = oom ins" "oom (new_expiry_node a k ins) = oom ins"
  "oom (cond_signal c ins) = oom ins"
  by (auto simp: sched_prims bind_eq_Some_conv set_exp_root_def new_expiry_node_def cond_signal_def
      split: obj_type.splits)

lemma oom_unlink: "expiry_unlink ty obj ins = Some ins' \<Longrightarrow> oom ins' = oom ins"
  by (auto simp: expiry_unlink_def bind_eq_Some_conv oom_prims)

lemma oom_free: "possibly_node_free a ty ins = Some (r, ins') \<Longrightarrow> oom ins' = oom ins"
  by (auto simp: possibly_node_free_def bind_eq_Some_conv oom_prims split: if_splits)

lemma oom_expire: "obj_sched_expire ins obj ms ty = Some ins' \<Longrightarrow> oom ins = [] \<Longrightarrow> oom ins' = []"
  by (auto simp: obj_sched_expire_def sched_new_node_def expiry_link_def calloc_def Let_def
      bind_eq_Some_conv oom_prims split: option.splits prod.splits if_splits)

subsection \<open>Rescheduling\<close>

definition live_obj :: "memqueue_ins \<Rightarrow> obj_type \<Rightarrow> addr \<Rightarrow> bool" where
  "live_obj ins ty obj \<longleftrightarrow> get_expiry_next ty obj ins \<noteq> None"

text \<open>
  The common part of \<open>memqueue_resched\<close> and \<open>consumer_resched\<close>, for an object whose pointer
  \<open>expiry_node\<close> names the node it is linked to.
\<close>

lemma resched_core:
  assumes w: "sched_with xs ins" and nx: "get_expiry_next ty obj ins = Some (Some node)"
    and mem: "oom ins = []"
  shows "\<exists>i1 r i2 i3 ins' xs'. expiry_unlink ty obj ins = Some i1 \<and>
    possibly_node_free node ty i1 = Some (r, i2) \<and> set_expiry_node ty obj r i2 = Some i3 \<and>
    obj_sched_expire i3 obj ms ty = Some ins' \<and> sched_with xs' ins' \<and>
    deadline ins' = (deadline ins)(ty := (deadline ins ty)(obj \<mapsto> now_ms ins + ms)) \<and>
    now_ms ins' = now_ms ins \<and> oom ins' = []"
proof -
  have pre: "sched_pre xs ins" using w by (simp add: sched_with_def)
  have node: "node \<in> set (xs ty)" using sched_preD(6) [OF pre nx] .
  obtain i1 e where i1: "expiry_unlink ty obj ins = Some i1" "sched_pre xs i1"
      "enodes ins node = Some e" "enodes i1 = (enodes ins)(node \<mapsto> en_objs_update ty (remove1 obj) e)"
      "now_ms i1 = now_ms ins" "is_idle i1 ty obj"
      "deadline i1 = (deadline ins)(ty := (deadline ins ty)(obj := None))"
    using sched_pre_unlink [OF pre nx] by blast
  have "en_objs t e' \<noteq> []" if "a \<in> set (xs t)" "a \<noteq> node" "enodes i1 a = Some e'" for t a e'
    using w that i1(4) unfolding sched_with_def by auto
  then obtain r i2 xs2 where i2: "possibly_node_free node ty i1 = Some (r, i2)" "sched_with xs2 i2"
      "deadline i2 = deadline i1" "now_ms i2 = now_ms i1"
      "\<forall>t b. get_expiry_next t b i2 = get_expiry_next t b i1"
    using sched_free_node [OF i1(2) node] by blast
  have "get_expiry_next ty obj i2 = Some None" using i1(6) i2(5) by (simp add: is_idle_def)
  then obtain i3 where i3: "set_expiry_node ty obj r i2 = Some i3" "same_sched i2 i3" "is_idle i3 ty obj"
    using set_expiry_node_ok by (fastforce simp: is_idle_def same_sched_def)
  have m3: "oom i3 = []"
    using mem oom_unlink [OF i1(1)] oom_free [OF i2(1)] oom_prims(2) [OF i3(1)] by simp
  obtain ins' xs' where i4: "obj_sched_expire i3 obj ms ty = Some ins'" "sched_with xs' ins'"
      "deadline ins' = (deadline i3)(ty := (deadline i3 ty)(obj \<mapsto> now_ms i3 + ms))"
      "now_ms ins' = now_ms i3"
    using obj_sched_expire_ok [OF same_sched_with [OF i3(2) i2(2)] i3(3) m3] by blast
  note eqs = same_sched_deadline [OF i3(2)] same_sched_now [OF i3(2)] i1(5,7) i2(3,4)
  show ?thesis
    using i1(1) i2(1) i3(1) i4 oom_expire [OF i4(1) m3] by (simp add: eqs) blast
qed

lemma memqueue_resched_ok:
  assumes "sched_with xs ins" "queues ins q = Some mq" "q_expiry_node mq = Some node"
    "q_expiry_next mq = Some node" "oom ins = []"
  shows "\<exists>ins' xs'. memqueue_resched ins q = Some ins' \<and> sched_with xs' ins' \<and>
    deadline ins' = (deadline ins)(MEMQUEUE_TYPE :=
       (deadline ins MEMQUEUE_TYPE)(q \<mapsto> now_ms ins + q_expiry mq)) \<and>
    now_ms ins' = now_ms ins \<and> oom ins' = []"
  using resched_core [OF assms(1), of MEMQUEUE_TYPE q node "q_expiry mq"] assms(2-5)
  by (fastforce simp: memqueue_resched_def get_expiry_next_def)

lemma consumer_resched_ok:
  assumes "sched_with xs ins" "consumers ins c = Some cn" "c_expiry_node cn = Some node"
    "c_expiry_next cn = Some node" "oom ins = []"
  shows "\<exists>ins' xs'. consumer_resched ins c = Some ins' \<and> sched_with xs' ins' \<and>
    deadline ins' = (deadline ins)(CONSUMER_TYPE :=
       (deadline ins CONSUMER_TYPE)(c \<mapsto> now_ms ins + c_expiry cn)) \<and>
    now_ms ins' = now_ms ins \<and> oom ins' = []"
  using resched_core [OF assms(1), of CONSUMER_TYPE c node "c_expiry cn"] assms(2-5)
  by (fastforce simp: consumer_resched_def get_expiry_next_def)

subsection \<open>The scheduler as a timer service\<close>

text \<open>
  A service keeps deadlines for objects of several kinds; \<open>timeout\<close> tells a thread that serves it
  how long it may sleep (zero: for ever).
\<close>

locale timer_service =
  fixes inv :: "'s \<Rightarrow> bool" and due :: "'s \<Rightarrow> 'k \<Rightarrow> 'o \<Rightarrow> 32 word option"
    and clock :: "'s \<Rightarrow> 32 word" and idle :: "'s \<Rightarrow> 'k \<Rightarrow> 'o \<Rightarrow> bool"
    and sched :: "'s \<Rightarrow> 'o \<Rightarrow> 32 word \<Rightarrow> 'k \<Rightarrow> 's option" and timeout :: "'s \<Rightarrow> 32 word option"
  assumes sched_law: "inv s \<Longrightarrow> idle s k x \<Longrightarrow>
      \<exists>s'. sched s x ms k = Some s' \<and> inv s' \<and>
        due s' = (due s)(k := (due s k)(x \<mapsto> clock s + ms)) \<and> clock s' = clock s"
    and finite_law: "inv s \<Longrightarrow> finite {d. \<exists>k x. due s k x = Some d}"
    and timeout_law: "inv s \<Longrightarrow> timeout s = Some (timeout_spec {d. \<exists>k x. due s k x = Some d} (clock s))"
begin

lemma never_late:
  assumes "inv s" "due s k x = Some d" "clock s < d"
  shows "\<exists>r. timeout s = Some r \<and> r \<noteq> 0 \<and> r \<le> d - clock s"
proof -
  let ?D = "{d. \<exists>k x. due s k x = Some d}"
  have d: "d \<in> ?D" using assms(2) by blast
  have m: "Min ?D \<le> d" using finite_law [OF assms(1)] d by (rule Min_le)
  have pos: "1 \<le> d - clock s" using assms(3) by (auto simp: word_le_nat_alt word_less_nat_alt unat_sub)
  show ?thesis
  proof (cases "Min ?D \<le> clock s")
    case True
    then show ?thesis using d pos timeout_law [OF assms(1)] by (auto simp: timeout_spec_def)
  next
    case False
    then have "Min ?D - clock s \<le> d - clock s" "Min ?D - clock s \<noteq> 0"
      using m by (auto simp: word_le_nat_alt unat_sub)
    then show ?thesis using False d timeout_law [OF assms(1)] by (auto simp: timeout_spec_def)
  qed
qed

lemma sched_then_wakes:
  assumes "inv s" "idle s k x" "clock s < clock s + ms"
  shows "\<exists>s' r. sched s x ms k = Some s' \<and> inv s' \<and> timeout s' = Some r \<and> r \<noteq> 0 \<and> r \<le> ms"
proof -
  obtain s' where s': "sched s x ms k = Some s'" "inv s'"
      "due s' = (due s)(k := (due s k)(x \<mapsto> clock s + ms))" "clock s' = clock s"
    using sched_law [OF assms(1,2)] by blast
  then have "due s' k x = Some (clock s + ms)" "clock s' < clock s + ms" using assms(3) by auto
  from never_late [OF s'(2) this] s' show ?thesis by auto
qed

end

lemma sched_finite: "sched_inv ins \<Longrightarrow> finite (deadlines ins)"
proof -
  assume "sched_inv ins"
  then obtain xs where "sched_with xs ins" by (auto simp: sched_inv_def)
  moreover have "finite (UNIV :: obj_type set)"
    by (rule finite_subset [of _ "{MSG_TYPE, MEMQUEUE_TYPE, CONSUMER_TYPE}"])
      (auto intro: obj_type.exhaust)
  ultimately show ?thesis by (simp add: sched_deadlines)
qed

interpretation exp: timer_service "\<lambda>ins. sched_inv ins \<and> oom ins = []" deadline now_ms is_idle
  obj_sched_expire sched_get_min_timeout
proof
  fix ins ty obj ms
  assume "sched_inv ins \<and> oom ins = []" "is_idle ins ty obj"
  then show "\<exists>ins'. obj_sched_expire ins obj ms ty = Some ins' \<and> (sched_inv ins' \<and> oom ins' = []) \<and>
      deadline ins' = (deadline ins)(ty := (deadline ins ty)(obj \<mapsto> now_ms ins + ms)) \<and>
      now_ms ins' = now_ms ins"
    using obj_sched_expire_ok oom_expire unfolding sched_inv_def by blast
qed (use sched_finite sched_min_timeout in \<open>auto simp: deadlines_def sched_inv_def\<close>)

subsection \<open>Properties\<close>

text \<open>
  C11. \<open>rb_insert\<close> of a node with a new deadline returns; the nodes are then those of before and the new
  one, in the order of their deadlines and again in a red-black tree, so that \<open>rb_search\<close> finds the
  new node under its deadline and under every other one what it found before; no other object is
  written.
\<close>

theorem rb_insert_search:
  assumes "exp_list m en rt xs" "en a = Some d" "a \<notin> set xs" "\<forall>b \<in> set xs. ekey en b \<noteq> en_msecs d"
  shows "\<exists>m' rt' ys zs. rb_insert a en m rt = Some (m', rt') \<and> xs = ys @ zs \<and> exp_list m' en rt' (ys @ a # zs) \<and>
    (\<forall>k. rb_search m' en rt' k = (if k = en_msecs d then Some (Some a) else rb_search m en rt k)) \<and>
    (\<forall>b. b \<notin> insert a (set xs) \<longrightarrow> m' b = m b)"
proof -
  obtain m' rt' ys zs where i: "rb_insert a en m rt = Some (m', rt')" "xs = ys @ zs" "exp_list m' en rt' (ys @ a # zs)"
      "\<forall>b. b \<notin> insert a (set xs) \<longrightarrow> m' b = m b"
    using rb_insert_list [OF assms(1-3)] assms(4) by blast
  have ka: "ekey en a = en_msecs d" using assms(2) by (simp add: ekey_def)
  have n: "find (\<lambda>b. ekey en b = en_msecs d) ys = None" using assms(4) i(2) by (intro find_None_set) auto
  have "rb_search m' en rt' k = (if k = en_msecs d then Some (Some a) else rb_search m en rt k)" for k
    using rb_search_list [OF i(3), of k] rb_search_list [OF assms(1), of k] i(2) ka n
    by (auto simp: find_append split: option.split)
  then show ?thesis using i by blast
qed

text \<open>
  C21. \<open>sched_get_min_timeout\<close> returns 0 when nothing is scheduled, 1 when a deadline has passed, and
  otherwise the time to the earliest deadline of all messages, queues and consumers.
\<close>

theorem sched_get_min_timeout_exact:
  assumes "sched_inv ins"
  shows "sched_get_min_timeout ins =
    Some (if deadlines ins = {} then 0
          else if Min (deadlines ins) \<le> now_ms ins then 1 else Min (deadlines ins) - now_ms ins)"
  using assms sched_min_timeout unfolding sched_inv_def timeout_spec_def by blast

text \<open>
  C9. Scheduling an object that is not scheduled returns, keeps the invariant, gives the object the
  deadline \<open>now + msecs\<close> (modulo \<open>2^32\<close>), leaves every other deadline as it was, and changes
  nothing but the scheduling data of the instance.
\<close>

theorem obj_sched_expire_correct:
  assumes "sched_inv ins" "oom ins = []" "is_idle ins ty obj"
  shows "\<exists>ins'. obj_sched_expire ins obj ms ty = Some ins' \<and> sched_inv ins' \<and> sched_frame ins ins' \<and>
    (\<forall>ty' obj'. deadline ins' ty' obj' =
       (if ty' = ty \<and> obj' = obj then Some (now_ms ins + ms) else deadline ins ty' obj'))"
proof -
  obtain ins' where i: "obj_sched_expire ins obj ms ty = Some ins'" "sched_inv ins'"
      "deadline ins' = (deadline ins)(ty := (deadline ins ty)(obj \<mapsto> now_ms ins + ms))"
    using exp.sched_law [of ins ty obj ms] assms by blast
  then show ?thesis using sched_frame_expire [OF i(1)] by auto
qed

text \<open>
  After an object is scheduled \<open>msecs\<close> ahead, the cleaner is told to sleep for at most \<open>msecs\<close>:
  no deadline is slept through.
\<close>

lemma sched_wakes_in_time:
  assumes "sched_inv ins" "oom ins = []" "is_idle ins ty obj" "now_ms ins < now_ms ins + ms"
  shows "\<exists>ins' r. obj_sched_expire ins obj ms ty = Some ins' \<and>
    sched_get_min_timeout ins' = Some r \<and> r \<noteq> 0 \<and> r \<le> ms"
  using exp.sched_then_wakes [of ins ty obj ms] assms by blast

text \<open>
  C22. \<open>memqueue_resched\<close> of a queue that is linked at its \<open>expiry_node\<close> returns and moves the
  deadline of the queue to \<open>now + expiry\<close>; every other deadline stays, and the node that loses its
  last object leaves the tree and is freed.
\<close>

theorem memqueue_resched_correct:
  assumes "sched_inv ins" "oom ins = []" "queues ins q = Some mq"
    "q_expiry_node mq = Some node" "q_expiry_next mq = Some node"
  shows "\<exists>ins'. memqueue_resched ins q = Some ins' \<and> sched_inv ins' \<and> sched_frame ins ins' \<and>
    (\<forall>ty obj. deadline ins' ty obj =
       (if ty = MEMQUEUE_TYPE \<and> obj = q then Some (now_ms ins + q_expiry mq) else deadline ins ty obj))"
proof -
  obtain ins' where i: "memqueue_resched ins q = Some ins'" "sched_inv ins'"
      "deadline ins' = (deadline ins)(MEMQUEUE_TYPE :=
         (deadline ins MEMQUEUE_TYPE)(q \<mapsto> now_ms ins + q_expiry mq))"
    using memqueue_resched_ok assms unfolding sched_inv_def by metis
  then show ?thesis using sched_frame_resched(1) [OF i(1)] by auto
qed

subsection \<open>Two objects with one deadline\<close>

text \<open>Two queues, at addresses 1 and 2, that expire after a minute; nothing is scheduled yet.\<close>

definition demo_queue :: memqueue where
  "demo_queue = \<lparr>q_rev = 0, q_ref_count = 1, q_max_size = 0, q_drop_from_head = 0, q_q_id = ''q'',
     q_msg_queue = [], q_memqueue_binders = [], q_expiry_next = None, q_expiry = 60000,
     q_consumer_expiry = 0, q_consumers = no_hash, q_expiry_node = None, q_msgs_in_queue = 0\<rparr>"

definition two_queues :: memqueue_ins where
  "two_queues = memqueue_ins0\<lparr>queues := [1 \<mapsto> demo_queue, 2 \<mapsto> demo_queue], next_addr := 3\<rparr>"

text \<open>Both are scheduled within one millisecond; three seconds later the second is rescheduled.\<close>

definition same_ms_run :: "memqueue_ins option" where
  "same_ms_run =
     do {
       ins \<leftarrow> obj_sched_expire two_queues 1 60000 MEMQUEUE_TYPE;
       ins \<leftarrow> obj_sched_expire ins 2 60000 MEMQUEUE_TYPE;
       memqueue_resched (ins\<lparr>now := 8379024960\<rparr>) 2
     }"

lemma tick_examples:
  "tick_diff_msecs 0 0 = Some 0" "tick_diff_msecs 0 8379024960 = Some 3000"
  by code_simp+

lemmas sched_run_defs = obj_sched_expire_def sched_get_min_timeout_def sched_new_node_def
  new_expiry_node_def rb_insert_def rb_link_node_def rb_insert_color_def rb_set_color_def
  exp_root_def set_exp_root_def calloc_def cond_signal_def expiry_link_def expiry_unlink_def
  sched_prims en_objs_update_def memqueue_resched_def possibly_node_free_def
  rb_search.simps rb_find_link.simps insert_color_loop.simps left_spine_msecs.simps

lemma same_ms_frozen:
  "map_option (\<lambda>ins. (now_ms ins, deadline ins MEMQUEUE_TYPE 2)) same_ms_run = Some (3000, Some 60000)"
  by (simp add: same_ms_run_def two_queues_def memqueue_ins0_def demo_queue_def tick_examples
      sched_run_defs now_ms_def deadline_def Let_def)

subsection \<open>Witnesses\<close>

lemma rb_holds_empty: "rb_holds m None []"
  by (auto simp: rb_holds_def tree_at_def rbt_def intro!: exI [of _ Lf])

text \<open>An instance with empty trees and no scheduled object.\<close>

lemma sched_inv_empty:
  assumes "memqueue_expiry ins = None" "msg_expiry ins = None" "consumer_expiry ins = None"
    "enodes ins = Map.empty" "\<And>ty obj a. get_expiry_next ty obj ins \<noteq> Some (Some a)"
  shows "sched_inv ins"
proof -
  have "exp_root ty ins = None" for ty using assms by (cases ty) (auto simp: exp_root_def)
  then have "sched_with (\<lambda>_. []) ins"
    using assms by (auto simp: sched_with_def sched_pre_def exp_list_def rb_holds_empty)
  then show ?thesis by (auto simp: sched_inv_def)
qed

lemma two_queues_inv: "sched_inv two_queues" "oom two_queues = []" "is_idle two_queues MEMQUEUE_TYPE 1"
    "now_ms two_queues = 0"
proof -
  have "get_expiry_next ty obj two_queues \<noteq> Some (Some a)" for ty obj a
    by (auto simp: two_queues_def memqueue_ins0_def demo_queue_def get_expiry_next_def
        split: obj_type.splits if_splits)
  then show "sched_inv two_queues"
    by (intro sched_inv_empty) (auto simp: two_queues_def memqueue_ins0_def)
qed (simp_all add: two_queues_def memqueue_ins0_def is_idle_def get_expiry_next_def demo_queue_def
    now_ms_def tick_examples)

theorem sched_get_min_timeout_exact_witness:
  "sched_get_min_timeout two_queues =
    Some (if deadlines two_queues = {} then 0
          else if Min (deadlines two_queues) \<le> now_ms two_queues then 1
          else Min (deadlines two_queues) - now_ms two_queues)"
  by (rule sched_get_min_timeout_exact [OF two_queues_inv(1)])

theorem obj_sched_expire_correct_witness:
  "\<exists>ins'. obj_sched_expire two_queues 1 60000 MEMQUEUE_TYPE = Some ins' \<and> sched_inv ins' \<and>
    sched_frame two_queues ins' \<and>
    (\<forall>ty' obj'. deadline ins' ty' obj' =
       (if ty' = MEMQUEUE_TYPE \<and> obj' = 1 then Some (now_ms two_queues + 60000)
        else deadline two_queues ty' obj'))"
  by (rule obj_sched_expire_correct [OF two_queues_inv(1-3)])

lemma sched_wakes_in_time_witness:
  "\<exists>ins' r. obj_sched_expire two_queues 1 60000 MEMQUEUE_TYPE = Some ins' \<and>
    sched_get_min_timeout ins' = Some r \<and> r \<noteq> 0 \<and> r \<le> 60000"
  by (rule sched_wakes_in_time [OF two_queues_inv(1-3)]) (simp add: two_queues_inv(4))

definition linked_queue :: memqueue_ins where
  "linked_queue = the (obj_sched_expire two_queues 1 60000 MEMQUEUE_TYPE)"

lemma linked_queue_facts:
  "sched_inv linked_queue" "oom linked_queue = []" "now_ms linked_queue = 0"
  "queues linked_queue 1 = Some (demo_queue\<lparr>q_expiry_next := Some 3, q_expiry_node := Some 3\<rparr>)"
proof -
  obtain ins' where "obj_sched_expire two_queues 1 60000 MEMQUEUE_TYPE = Some ins'"
      "sched_inv ins'" "oom ins' = []" "now_ms ins' = now_ms two_queues"
    using exp.sched_law [of two_queues MEMQUEUE_TYPE 1 60000] two_queues_inv by blast
  then show "sched_inv linked_queue" "oom linked_queue = []" "now_ms linked_queue = 0"
    by (simp_all add: linked_queue_def two_queues_inv)
  show "queues linked_queue 1 = Some (demo_queue\<lparr>q_expiry_next := Some 3, q_expiry_node := Some 3\<rparr>)"
    by (simp add: linked_queue_def two_queues_def memqueue_ins0_def demo_queue_def tick_examples
        sched_run_defs Let_def)
qed

theorem memqueue_resched_correct_witness:
  "\<exists>ins'. memqueue_resched linked_queue 1 = Some ins' \<and> sched_inv ins' \<and> sched_frame linked_queue ins' \<and>
    (\<forall>ty obj. deadline ins' ty obj =
       (if ty = MEMQUEUE_TYPE \<and> obj = 1 then Some (now_ms linked_queue + 60000)
        else deadline linked_queue ty obj))"
proof -
  have e: "q_expiry (demo_queue\<lparr>q_expiry_next := Some 3, q_expiry_node := Some 3\<rparr>) = 60000"
    by (simp add: demo_queue_def)
  show ?thesis
    by (rule memqueue_resched_correct [OF linked_queue_facts(1,2,4), unfolded e])
      (simp_all add: demo_queue_def)
qed

definition three_nodes :: "addr \<Rightarrow> expiry_node option" where
  "three_nodes = map_of (map (\<lambda>(a, t). (a, \<lparr>en_msecs = t, en_memqueue_objs = [], en_consumer_objs = [], en_msg_objs = []\<rparr>))
     [(2, 100), (1, 200), (3, 300), (7, 250)])"

theorem rb_insert_search_witness:
  "\<exists>m' rt'. rb_insert 7 three_nodes rb_demo (Some 1) = Some (m', rt') \<and> rb_search m' three_nodes rt' 250 = Some (Some 7) \<and>
    rb_search m' three_nodes rt' 300 = rb_search rb_demo three_nodes (Some 1) 300"
proof -
  have "exp_list rb_demo three_nodes (Some 1) [2, 1, 3]"
    using rb_demo_holds by (auto simp: exp_list_def three_nodes_def ekey_def)
  moreover obtain d where "three_nodes 7 = Some d" "en_msecs d = 250" by (simp add: three_nodes_def)
  ultimately show ?thesis
    using rb_insert_search [of rb_demo three_nodes "Some 1" "[2, 1, 3]" 7 d] by (force simp: three_nodes_def ekey_def)
qed

end
