(* ===== verification/Args.thy ===== *)
theory Args
  imports Hash
begin

text \<open>
  The arguments of the requests, \<open>src/src/args_parser.c\<close>: the fields of the query string (a
  parameter \<open>qs\<close> of the model, the function \<open>http_get_querystring\<close>) and of the path, converted
  with \<open>atoi\<close>. The theory also has the conversions of the C library that this uses.
\<close>

subsection \<open>Decimal numbers\<close>

definition digit_char :: "nat \<Rightarrow> char" where
  "digit_char d = char_of (48 + d)"

fun nat_dec :: "nat \<Rightarrow> string" where
  "nat_dec n = (if n < 10 then [digit_char n] else nat_dec (n div 10) @ [digit_char (n mod 10)])"

declare nat_dec.simps [simp del]

text \<open>\<open>%d\<close>\<close>

definition int_dec :: "int \<Rightarrow> string" where
  "int_dec i = (if i < 0 then CHR ''-'' # nat_dec (nat (- i)) else nat_dec (nat i))"

definition isspace :: "char \<Rightarrow> bool" where
  "isspace c \<longleftrightarrow> of_char c \<in> {9, 10, 11, 12, 13, 32 :: nat}"

definition isdigit :: "char \<Rightarrow> bool" where
  "isdigit c \<longleftrightarrow> 48 \<le> (of_char c :: nat) \<and> of_char c \<le> (57 :: nat)"

definition digits_val :: "string \<Rightarrow> nat" where
  "digits_val s = foldl (\<lambda>n c. 10 * n + (of_char c - 48)) 0 s"

text \<open>
  \<open>atoi\<close> is \<open>(int) strtol(s, NULL, 10)\<close>: leading white space and a sign are skipped, the value is
  clamped to the range of a 64-bit \<open>long\<close>, and its low 32 bits are the result.
\<close>

definition strtol10 :: "cstring \<Rightarrow> int" where
  "strtol10 s =
     (let s = dropWhile isspace s;
          neg = (case s of c # _ \<Rightarrow> c = CHR ''-'' | [] \<Rightarrow> False);
          s = (case s of c # t \<Rightarrow> if c = CHR ''-'' \<or> c = CHR ''+'' then t else s | [] \<Rightarrow> s);
          v = int (digits_val (takeWhile isdigit s))
      in max (- (2 ^ 63)) (min (2 ^ 63 - 1) (if neg then - v else v)))"

definition atoi :: "cstring \<Rightarrow> int" where
  "atoi s = signed_take_bit 31 (strtol10 s)"

subsection \<open>Arguments\<close>

record queue_arg =
  qa_rev :: int
  qa_latest :: int
  qa_consumer_id :: "cstring option"
  qa_q_id :: "cstring option"
  qa_include_consumers :: int

record poll_args =
  queue_args :: "queue_arg list"
  pa_timeout :: int
  pa_total :: int

record memqueue_create_args =
  ca_expiry :: "32 word"
  ca_max_size :: int
  ca_consumer_expiry :: "32 word"
  ca_drop_from_head :: int
  ca_q_id :: "cstring option"

definition queue_arg0 :: queue_arg where
  "queue_arg0 = \<lparr>qa_rev = 0, qa_latest = 0, qa_consumer_id = None, qa_q_id = None,
     qa_include_consumers = 0\<rparr>"

text \<open>The \<open>switch\<close> of the poll arguments.\<close>

definition poll_field :: "nat \<Rightarrow> cstring \<Rightarrow> queue_arg \<Rightarrow> queue_arg" where
  "poll_field j v a =
     (if j = 0 then a\<lparr>qa_q_id := Some v\<rparr>
      else if j = 1 then a\<lparr>qa_rev := atoi v\<rparr>
      else if j = 2 then a\<lparr>qa_latest := atoi v\<rparr>
      else if j = 3 then a\<lparr>qa_consumer_id := Some v\<rparr>
      else if j = 4 then a\<lparr>qa_include_consumers := atoi v\<rparr>
      else a)"

definition poll_fields :: "cstring list" where
  "poll_fields = [''q_id'', ''rev'', ''latest'', ''consumer_id'', ''include_consumers'', ''timeout'']"

text \<open>
  One round of the inner loop, for queue \<open>i\<close> and field \<open>j\<close>. Without path arguments the field is
  looked up as \<open>name-i\<close>. A queue number beyond the array of 32 is undefined behaviour.
\<close>

definition poll_round ::
  "(cstring \<Rightarrow> cstring option) \<Rightarrow> cstring h_hash option \<Rightarrow> nat \<Rightarrow> nat \<Rightarrow> queue_arg list \<Rightarrow>
   queue_arg list option" where
  "poll_round qs args i j as =
     do {
       fieldvalue \<leftarrow>
         (case args of
            None \<Rightarrow> Some (qs (poll_fields ! j @ ''-'' @ nat_dec i))
          | Some h \<Rightarrow> if j = 0 then h_get h (poll_fields ! i) else Some (qs (poll_fields ! j)));
       (case fieldvalue of
          None \<Rightarrow> Some as
        | Some v \<Rightarrow>
            if j = 5 then Some as
            else if i < length as then Some (as[i := poll_field j v (as ! i)])
            else None)
     }"

fun poll_field_loop ::
  "(cstring \<Rightarrow> cstring option) \<Rightarrow> cstring h_hash option \<Rightarrow> nat \<Rightarrow> nat list \<Rightarrow> queue_arg list \<Rightarrow>
   queue_arg list option" where
  "poll_field_loop qs args i [] as = Some as"
| "poll_field_loop qs args i (j # js) as =
     do { as \<leftarrow> poll_round qs args i j as; poll_field_loop qs args i js as }"

fun poll_queue_loop ::
  "(cstring \<Rightarrow> cstring option) \<Rightarrow> cstring h_hash option \<Rightarrow> nat list \<Rightarrow> queue_arg list \<Rightarrow>
   queue_arg list option" where
  "poll_queue_loop qs args [] as = Some as"
| "poll_queue_loop qs args (i # is) as =
     do { as \<leftarrow> poll_field_loop qs args i [0..<6] as; poll_queue_loop qs args is as }"

definition args_memqueue_poll_populate ::
  "(cstring \<Rightarrow> cstring option) \<Rightarrow> cstring h_hash option \<Rightarrow> poll_args option" where
  "args_memqueue_poll_populate qs args =
     do {
       let total_queues =
         (case (qs ''total_queues'', args) of
            (Some s, None) \<Rightarrow> atoi s
          | (_, Some _) \<Rightarrow> 1
          | (None, None) \<Rightarrow> 0);
       as \<leftarrow> poll_queue_loop qs args [0..<nat total_queues] (replicate 32 queue_arg0);
       Some \<lparr>queue_args = as,
             pa_timeout = (case qs ''timeout'' of Some v \<Rightarrow> atoi v | None \<Rightarrow> - 1),
             pa_total = total_queues\<rparr>
     }"

definition create_field :: "nat \<Rightarrow> cstring \<Rightarrow> memqueue_create_args \<Rightarrow> memqueue_create_args" where
  "create_field j v a =
     (if j = 0 then a\<lparr>ca_q_id := Some v\<rparr>
      else if j = 1 then a\<lparr>ca_max_size := atoi v\<rparr>
      else if j = 2 then a\<lparr>ca_consumer_expiry := word_of_int (atoi v)\<rparr>
      else if j = 3 then a\<lparr>ca_expiry := word_of_int (atoi v)\<rparr>
      else if j = 4 then a\<lparr>ca_drop_from_head := atoi v\<rparr>
      else a)"

definition create_fields :: "cstring list" where
  "create_fields = [''q_id'', ''max_size'', ''consumer_expiry'', ''expiry'', ''drop_from_head'']"

fun create_loop ::
  "(cstring \<Rightarrow> cstring option) \<Rightarrow> cstring h_hash option \<Rightarrow> nat list \<Rightarrow> memqueue_create_args \<Rightarrow>
   memqueue_create_args option" where
  "create_loop qs args [] a = Some a"
| "create_loop qs args (j # js) a =
     do {
       fieldvalue \<leftarrow>
         (case args of
            Some h \<Rightarrow> if j = 0 then h_get h (create_fields ! j) else Some (qs (create_fields ! j))
          | None \<Rightarrow> Some (qs (create_fields ! j)));
       create_loop qs args js (case fieldvalue of None \<Rightarrow> a | Some v \<Rightarrow> create_field j v a)
     }"

definition args_memqueue_create_populate ::
  "(cstring \<Rightarrow> cstring option) \<Rightarrow> cstring h_hash option \<Rightarrow> memqueue_create_args option" where
  "args_memqueue_create_populate qs args =
     create_loop qs args [0..<5]
       \<lparr>ca_expiry = 0, ca_max_size = 0, ca_consumer_expiry = 0, ca_drop_from_head = 0, ca_q_id = None\<rparr>"

subsection \<open>Decimal round trip\<close>

lemma digit_char_facts:
  "d < 10 \<Longrightarrow> isdigit (digit_char d)" "d < 10 \<Longrightarrow> of_char (digit_char d) = 48 + d"
  by (auto simp: digit_char_def isdigit_def)

lemma nat_dec_digits: "c \<in> set (nat_dec n) \<Longrightarrow> isdigit c"
proof (induction n rule: nat_dec.induct)
  case (1 n)
  then show ?case using nat_dec.simps [of n] by (auto simp: digit_char_facts split: if_splits)
qed

lemma digits_val_snoc: "digits_val (s @ [c]) = 10 * digits_val s + (of_char c - 48)"
  by (simp add: digits_val_def)

lemma digits_val_dec: "digits_val (nat_dec n) = n"
proof (induction n rule: nat_dec.induct)
  case (1 n)
  then show ?case
    by (subst nat_dec.simps) (auto simp: digits_val_snoc digit_char_facts, auto simp: digits_val_def digit_char_facts)
qed

lemma nat_dec_hd: "\<exists>c cs. nat_dec n = c # cs \<and> isdigit c"
proof -
  have "nat_dec n \<noteq> []" by (subst nat_dec.simps) simp
  then show ?thesis using nat_dec_digits [of "hd (nat_dec n)" n] by (cases "nat_dec n") auto
qed

lemma digit_not_special: "isdigit c \<Longrightarrow> \<not> isspace c \<and> c \<noteq> CHR ''-'' \<and> c \<noteq> CHR ''+''"
  by (auto simp: isdigit_def isspace_def)

lemma takeWhile_nat_dec: "takeWhile isdigit (nat_dec n) = nat_dec n"
  using nat_dec_digits [of _ n] takeWhile_eq_all_conv by blast

lemma strtol10_nat: "strtol10 (nat_dec n) = min (2 ^ 63 - 1) (int n)"
proof -
  obtain c cs where n: "nat_dec n = c # cs" "isdigit c" using nat_dec_hd by blast
  have "dropWhile isspace (nat_dec n) = nat_dec n" "(case nat_dec n of c # _ \<Rightarrow> c = CHR ''-'' | [] \<Rightarrow> False) = False"
    "(case nat_dec n of c # t \<Rightarrow> if c = CHR ''-'' \<or> c = CHR ''+'' then t else nat_dec n | [] \<Rightarrow> nat_dec n) = nat_dec n"
    using n digit_not_special [OF n(2)] by simp_all
  then show ?thesis unfolding strtol10_def Let_def by (simp only: takeWhile_nat_dec digits_val_dec) simp
qed

lemma strtol10_neg: "strtol10 (CHR ''-'' # nat_dec n) = max (- (2 ^ 63)) (- int n)"
proof -
  have "\<not> isspace (CHR ''-'')" by (simp add: isspace_def)
  then show ?thesis by (simp add: strtol10_def Let_def takeWhile_nat_dec digits_val_dec)
qed

text \<open>
  Printing a C \<open>int\<close> with \<open>%d\<close> and reading it back with \<open>atoi\<close> gives the number.
\<close>

lemma atoi_int_dec:
  assumes "- (2 ^ 31) \<le> i" "i < 2 ^ 31"
  shows "atoi (int_dec i) = i"
proof -
  have "strtol10 (int_dec i) = i"
    using assms strtol10_nat [of "nat i"] strtol10_neg [of "nat (- i)"] by (auto simp: int_dec_def)
  then show ?thesis using assms by (simp add: atoi_def signed_take_bit_int_eq_self)
qed

lemma atoi_int_dec_witness: "atoi (int_dec (- 42)) = - 42"
  by (rule atoi_int_dec) simp_all

subsection \<open>The arguments of the creation of a queue\<close>

text \<open>A query string that gives the numbers of a set of arguments in decimal.\<close>

definition create_query :: "int \<Rightarrow> int \<Rightarrow> int \<Rightarrow> int \<Rightarrow> cstring \<Rightarrow> cstring option" where
  "create_query sz cexp ex dropf =
     [''max_size'' \<mapsto> int_dec sz, ''consumer_expiry'' \<mapsto> int_dec cexp, ''expiry'' \<mapsto> int_dec ex,
      ''drop_from_head'' \<mapsto> int_dec dropf]"

text \<open>
  C30. The arguments of the creation of a queue are read back as they are written: the name from the
  path, and the four numbers from their decimal text in the query string; without a query string
  they are zero.
\<close>

theorem create_args_roundtrip:
  assumes "h_get h ''q_id'' = Some (Some qid)" "\<forall>i \<in> {sz, cexp, ex, dropf}. - (2 ^ 31) \<le> i \<and> i < 2 ^ 31"
  shows "args_memqueue_create_populate (create_query sz cexp ex dropf) (Some h) =
      Some \<lparr>ca_expiry = word_of_int ex, ca_max_size = sz, ca_consumer_expiry = word_of_int cexp,
        ca_drop_from_head = dropf, ca_q_id = Some qid\<rparr> \<and>
    args_memqueue_create_populate Map.empty (Some h) =
      Some \<lparr>ca_expiry = 0, ca_max_size = 0, ca_consumer_expiry = 0, ca_drop_from_head = 0, ca_q_id = Some qid\<rparr>"
proof -
  have "atoi (int_dec i) = i" if "i \<in> {sz, cexp, ex, dropf}" for i using assms(2) that by (auto intro: atoi_int_dec)
  then show ?thesis
    using assms(1)
    by (simp add: args_memqueue_create_populate_def upt_rec create_field_def create_fields_def create_query_def)
qed

theorem create_args_roundtrip_witness:
  "\<exists>h. h_get h ''q_id'' = Some (Some ''jobs'') \<and>
    args_memqueue_create_populate (create_query 10 0 60000 1) (Some h) =
      Some \<lparr>ca_expiry = 60000, ca_max_size = 10, ca_consumer_expiry = 0, ca_drop_from_head = 1, ca_q_id = Some ''jobs''\<rparr>"
proof -
  obtain h :: "cstring h_hash" where h: "h_wf h" "h_entries h = []" using h_init_wf [of 128] by auto
  obtain h' where h': "h_wf h'" "h_entries h' = [(''q_id'', ''jobs'')]"
    using hh.ins_new [OF h(1), of "''q_id''" "''jobs''"] h(2) by auto
  then have "h_get h' ''q_id'' = Some (Some ''jobs'')" by (simp add: hh.get_entries)
  with create_args_roundtrip [OF this, of 10 0 60000 1] show ?thesis by auto
qed

end
