(* ===== verification/C_String.thy ===== *)
theory C_String
  imports Args
begin

text \<open>
  Memory blocks of characters and the functions of the C library that the HTTP layer calls on
  them. A block is a list; a read or write outside of it is undefined.
\<close>

abbreviation NUL :: char where "NUL \<equiv> CHR 0x00"
abbreviation CR :: char where "CR \<equiv> CHR 0x0D"
abbreviation LF :: char where "LF \<equiv> CHR 0x0A"

subsection \<open>Blocks\<close>

definition rd :: "'a list \<Rightarrow> nat \<Rightarrow> 'a option" where
  "rd b i = (if i < length b then Some (b ! i) else None)"

definition wr :: "'a list \<Rightarrow> nat \<Rightarrow> 'a \<Rightarrow> 'a list option" where
  "wr b i c = (if i < length b then Some (b[i := c]) else None)"

lemma rd_Some [simp]: "i < length b \<Longrightarrow> rd b i = Some (b ! i)"
  by (simp add: rd_def)

lemma rd_None [simp]: "length b \<le> i \<Longrightarrow> rd b i = None"
  by (simp add: rd_def)

lemma rd_append [simp]: "rd (a @ b) (length a + i) = rd b i" "rd (a @ x # b) (length a) = Some x"
  by (auto simp: rd_def nth_append)

lemma rd_append_left [simp]: "i < length a \<Longrightarrow> rd (a @ b) i = Some (a ! i)"
  by (simp add: rd_def nth_append)

lemma rd_zero [simp]: "rd (x # b) 0 = Some x" "rd [] i = None" "rd (x # b) (Suc i) = rd b i"
  by (auto simp: rd_def)

lemma wr_Some [simp]: "i < length b \<Longrightarrow> wr b i c = Some (b[i := c])"
  by (simp add: wr_def)

lemma wr_None [simp]: "length b \<le> i \<Longrightarrow> wr b i c = None"
  by (simp add: wr_def)

text \<open>\<open>while (p < len && P(b[p])) p++\<close>\<close>

function skip_while :: "(char \<Rightarrow> bool) \<Rightarrow> char list \<Rightarrow> nat \<Rightarrow> nat \<Rightarrow> nat option" where
  "skip_while P b p len =
     (if p < len then do { c \<leftarrow> rd b p; if P c then skip_while P b (Suc p) len else Some p } else Some p)"
  by pat_completeness auto
termination by (relation "measure (\<lambda>(P, b, p, len). len - p)") auto

declare skip_while.simps [simp del]

text \<open>It stops at the first character that fails the test.\<close>

lemma skip_while_append:
  assumes "\<forall>c \<in> set ys. P c" "rest = [] \<or> \<not> P (hd rest)" "length (xs @ ys) \<le> len" "len \<le> length (xs @ ys @ rest)"
  shows "skip_while P (xs @ ys @ rest) (length xs) len = Some (length (xs @ ys))"
  using assms
proof (induction ys arbitrary: xs)
  case Nil
  then show ?case by (subst skip_while.simps) (cases rest; auto)
next
  case (Cons y ys)
  from Cons.prems have "skip_while P ((xs @ [y]) @ ys @ rest) (length (xs @ [y])) len = Some (length ((xs @ [y]) @ ys))"
    by (intro Cons.IH) auto
  then show ?case
    using Cons.prems by (subst skip_while.simps) simp
qed

lemma skip_while_total:
  "p \<le> len \<Longrightarrow> len \<le> length b \<Longrightarrow>
   \<exists>k. skip_while P b p len = Some k \<and> p \<le> k \<and> k \<le> len \<and> (\<forall>i. p \<le> i \<and> i < k \<longrightarrow> P (b ! i)) \<and>
     (k < len \<longrightarrow> \<not> P (b ! k))"
proof (induction "len - p" arbitrary: p)
  case 0
  then show ?case by (auto simp: skip_while.simps)
next
  case (Suc n)
  show ?case
  proof (cases "P (b ! p)")
    case True
    have e: "n = len - Suc p" "Suc p \<le> len" using Suc.hyps(2) by arith+
    obtain k where "skip_while P b (Suc p) len = Some k" "Suc p \<le> k" "k \<le> len"
        "\<forall>i. Suc p \<le> i \<and> i < k \<longrightarrow> P (b ! i)" "k < len \<longrightarrow> \<not> P (b ! k)"
      using Suc.hyps(1) [OF e Suc.prems(2)] by blast
    moreover have "skip_while P b p len = skip_while P b (Suc p) len"
      using True e Suc.prems by (subst skip_while.simps) simp
    moreover have "P (b ! i)" if "p \<le> i" "i < k" for i
      using that True calculation(4) by (cases "i = p") auto
    ultimately show ?thesis by (auto simp: Suc_le_eq)
  next
    case False
    then show ?thesis using Suc.hyps(2) Suc.prems by (subst skip_while.simps) auto
  qed
qed

subsection \<open>Strings\<close>

text \<open>The C string at the start of a block; there must be a terminator.\<close>

definition c_string :: "char list \<Rightarrow> cstring option" where
  "c_string b = (if NUL \<in> set b then Some (takeWhile (\<lambda>c. c \<noteq> NUL) b) else None)"

lemma c_string_append [simp]: "NUL \<notin> set s \<Longrightarrow> c_string (s @ NUL # rest) = Some s"
  by (simp add: c_string_def takeWhile_append)

text \<open>\<open>strndup(s, n)\<close> of a block that holds at least \<open>n\<close> characters.\<close>

definition strndup :: "char list \<Rightarrow> nat \<Rightarrow> cstring" where
  "strndup b n = takeWhile (\<lambda>c. c \<noteq> NUL) (take n b)"

lemma strndup_append [simp]: "NUL \<notin> set s \<Longrightarrow> strndup (s @ rest) (length s) = s"
proof -
  assume "NUL \<notin> set s"
  then have "\<forall>c \<in> set s. c \<noteq> NUL" by blast
  then show ?thesis by (simp add: strndup_def takeWhile_eq_all_conv)
qed

definition tolower :: "char \<Rightarrow> char" where
  "tolower c = (if 65 \<le> (of_char c :: nat) \<and> of_char c \<le> (90 :: nat) then char_of (of_char c + 32 :: nat) else c)"

lemma of_char_tolower:
  "(of_char (tolower c) :: nat) = (if 65 \<le> (of_char c :: nat) \<and> of_char c \<le> (90 :: nat) then of_char c + 32 else of_char c)"
  by (simp add: tolower_def)

lemma tolower_NUL: "tolower c = NUL \<longleftrightarrow> c = NUL"
proof -
  have "tolower c = NUL \<longleftrightarrow> (of_char (tolower c) :: nat) = of_char NUL" by (simp only: of_char_eq_iff)
  also have "\<dots> \<longleftrightarrow> (of_char c :: nat) = of_char NUL" by (simp add: of_char_tolower)
  finally show ?thesis by (simp only: of_char_eq_iff)
qed

text \<open>\<open>strncasecmp(a, b, n) == 0\<close>\<close>

fun strncasecmp0 :: "char list \<Rightarrow> char list \<Rightarrow> nat \<Rightarrow> bool option" where
  "strncasecmp0 a b 0 = Some True"
| "strncasecmp0 (x # a) (y # b) (Suc n) =
     (if tolower x \<noteq> tolower y then Some False else if x = NUL then Some True else strncasecmp0 a b n)"
| "strncasecmp0 _ _ (Suc n) = None"

lemma strncasecmp0_eq:
  "NUL \<notin> set b \<Longrightarrow> length b \<le> length a \<Longrightarrow>
   strncasecmp0 a (b @ [NUL]) (length b) = Some (map tolower (take (length b) a) = map tolower b)"
proof (induction b arbitrary: a)
  case (Cons y b)
  then obtain x a' where a: "a = x # a'" by (cases a) auto
  have "tolower x = tolower y \<Longrightarrow> x \<noteq> NUL" using Cons.prems tolower_NUL [of x] tolower_NUL [of y] by auto
  with Cons a show ?case by auto
qed simp

text \<open>\<open>strchr\<close>: the index of the first occurrence in a C string.\<close>

fun index_of :: "(char \<Rightarrow> bool) \<Rightarrow> char list \<Rightarrow> nat option" where
  "index_of P [] = None"
| "index_of P (c # cs) = (if P c then Some 0 else map_option Suc (index_of P cs))"

definition strchr :: "cstring \<Rightarrow> char \<Rightarrow> nat option" where
  "strchr s c = index_of (\<lambda>x. x = c) s"

lemma index_of_None: "index_of P s = None \<longleftrightarrow> (\<forall>c \<in> set s. \<not> P c)"
  by (induction s) auto

lemma index_of_Some:
  "index_of P s = Some k \<longleftrightarrow> (\<exists>xs c ys. s = xs @ c # ys \<and> P c \<and> (\<forall>x \<in> set xs. \<not> P x) \<and> k = length xs)"
proof (induction s arbitrary: k)
  case (Cons c s)
  show ?case
  proof (cases "P c")
    case True
    then show ?thesis by (auto simp: Cons_eq_append_conv intro: exI [of _ "[]"])
  next
    case False
    then show ?thesis
      by (auto simp: Cons_eq_append_conv Cons.IH) (metis length_Cons list.set_intros(1) set_ConsD)+
  qed
qed simp

lemma strchr_append [simp]: "c \<notin> set s \<Longrightarrow> strchr (s @ c # t) c = Some (length s)"
  unfolding strchr_def index_of_Some by auto

text \<open>\<open>strstr\<close>: the index of the first occurrence of a string.\<close>

fun strstr :: "cstring \<Rightarrow> cstring \<Rightarrow> nat option" where
  "strstr [] pat = (if pat = [] then Some 0 else None)"
| "strstr (c # cs) pat =
     (if take (length pat) (c # cs) = pat then Some 0 else map_option Suc (strstr cs pat))"

end
