(* ===== verification/Http_Str.thy ===== *)
theory Http_Str
  imports C_String
begin

text \<open>
  The string functions of \<open>src/src/http_str.c\<close>: the character tables, the searches and comparisons
  that ignore case, and the conversions of numbers. A pointer argument is the block that starts at
  it; lengths are non-negative.
\<close>

subsection \<open>Tables\<close>

definition in_range :: "char \<Rightarrow> nat \<Rightarrow> nat \<Rightarrow> bool" where
  "in_range c a b \<longleftrightarrow> a \<le> of_char c \<and> of_char c \<le> b"

definition is_host_terminator :: "char \<Rightarrow> bool" where
  "is_host_terminator c \<longleftrightarrow> c \<in> {CHR '':'', CHR ''/'', CHR '' ''}"

definition is_cr_or_lf :: "char \<Rightarrow> bool" where
  "is_cr_or_lf c \<longleftrightarrow> c = LF \<or> c = CR"

definition is_digit :: "char \<Rightarrow> bool" where
  "is_digit c \<longleftrightarrow> in_range c 48 57"

definition is_sep :: "char \<Rightarrow> bool" where
  "is_sep c \<longleftrightarrow> c = CHR '' '' \<or> c = CHR 0x09"

definition is_al :: "char \<Rightarrow> bool" where
  "is_al c \<longleftrightarrow> in_range c 97 122"

definition is_al_cap :: "char \<Rightarrow> bool" where
  "is_al_cap c \<longleftrightarrow> in_range c 65 90"

definition is_host_token :: "char \<Rightarrow> bool" where
  "is_host_token c \<longleftrightarrow> is_digit c \<or> is_al_cap c \<or> is_al c \<or> c = CHR ''.'' \<or> c = CHR ''-''"

definition is_hex :: "char \<Rightarrow> bool" where
  "is_hex c \<longleftrightarrow> c = CHR ''x'' \<or> c = CHR ''X'' \<or> is_digit c \<or> in_range c 97 102 \<or> in_range c 65 70"

definition is_space :: "char \<Rightarrow> bool" where
  "is_space c \<longleftrightarrow> c = CHR '' ''"

text \<open>The table \<open>upper\<close>: letters to capitals, the other printable characters, tab and line ends to
  themselves, everything else to NUL.\<close>

definition upper :: "char \<Rightarrow> char" where
  "upper c = (if is_al c then char_of (of_char c - 32 :: nat)
              else if of_char c \<in> {9, 10, 13 :: nat} \<or> in_range c 32 126 then c else NUL)"

subsection \<open>Comparison and search\<close>

record http_str =
  hs_str :: "char list"
  hs_len :: nat

text \<open>The loop compares the indices down to 1; the character at index 0 is never looked at.\<close>

fun strcasecmp_loop :: "char list \<Rightarrow> char list \<Rightarrow> nat \<Rightarrow> int option" where
  "strcasecmp_loop a b 0 = Some 0"
| "strcasecmp_loop a b (Suc i) =
     do {
       x \<leftarrow> rd a (Suc i);
       y \<leftarrow> rd b (Suc i);
       if x \<noteq> y \<and> schar x - 32 \<noteq> schar y then Some (- 1) else strcasecmp_loop a b i
     }"

text \<open>With the length 0 the loop starts at index -1 and leaves the strings.\<close>

definition http_strcasecmp :: "http_str \<Rightarrow> http_str \<Rightarrow> int option" where
  "http_strcasecmp s1 s2 =
     (if hs_len s1 \<noteq> hs_len s2 then Some (- 1)
      else if hs_len s1 = 0 then None
      else strcasecmp_loop (hs_str s1) (hs_str s2) (hs_len s1 - 1))"

text \<open>\<open>while (to_upper(s1[i]) != to_upper(s2[0]) && i++ <= len);\<close>\<close>

function casestr_first :: "char list \<Rightarrow> char \<Rightarrow> nat \<Rightarrow> nat \<Rightarrow> nat option" where
  "casestr_first s1 c len i =
     do {
       x \<leftarrow> rd s1 i;
       if upper x \<noteq> upper c then (if i \<le> len then casestr_first s1 c len (Suc i) else Some (Suc i))
       else Some i
     }"
  by pat_completeness auto
termination by (relation "measure (\<lambda>(s1, c, len, i). Suc len - i)") auto

text \<open>\<open>while (to_upper(s1[i + j]) == to_upper(s2[j]) && j < len2) j++;\<close>\<close>

function casestr_match :: "char list \<Rightarrow> char list \<Rightarrow> nat \<Rightarrow> nat \<Rightarrow> nat \<Rightarrow> nat option" where
  "casestr_match s1 s2 len2 i j =
     do {
       x \<leftarrow> rd s1 (i + j);
       y \<leftarrow> rd s2 j;
       if upper x = upper y \<and> j < len2 then casestr_match s1 s2 len2 i (Suc j) else Some j
     }"
  by pat_completeness auto
termination by (relation "measure (\<lambda>(s1, s2, len2, i, j). len2 - j)") auto

declare casestr_first.simps [simp del] casestr_match.simps [simp del]

partial_function (option) casestr_loop ::
  "char list \<Rightarrow> char list \<Rightarrow> nat \<Rightarrow> nat \<Rightarrow> nat \<Rightarrow> nat option option" where
  "casestr_loop s1 s2 len len2 i =
     do {
       c \<leftarrow> rd s2 0;
       i \<leftarrow> casestr_first s1 c len i;
       if int len - int i < int len2 then Some None
       else
         do {
           j \<leftarrow> casestr_match s1 s2 len2 i 0;
           if j = len2 then Some (Some i) else casestr_loop s1 s2 len len2 (i + j)
         }
     }"

declare casestr_loop.simps [code]

declare casestr_loop.simps [code]

definition http_strcasestr :: "char list \<Rightarrow> char list \<Rightarrow> nat \<Rightarrow> nat \<Rightarrow> nat option option" where
  "http_strcasestr s1 s2 len len2 = casestr_loop s1 s2 len len2 0"

definition http_strcasechr :: "char list \<Rightarrow> char \<Rightarrow> nat \<Rightarrow> nat option option" where
  "http_strcasechr s1 c2 len =
     do {
       i \<leftarrow> skip_while (\<lambda>c. c \<noteq> c2) s1 0 len;
       Some (if i = len then None else Some i)
     }"

subsection \<open>Numbers\<close>

abbreviation LONG_MAX :: int where "LONG_MAX \<equiv> 2 ^ 63 - 1"
abbreviation LONG_MIN :: int where "LONG_MIN \<equiv> - (2 ^ 63)"

datatype errno = NO_ERR | ERANGE | EINVAL

text \<open>
  \<open>do { c = *s++; } while (HTTP_IS_SPACE(c) && &s1[len] > (s + 1));\<close>; the index is that of \<open>s\<close>
  after the increment.
\<close>

function strtol_skip :: "char list \<Rightarrow> nat \<Rightarrow> nat \<Rightarrow> (char \<times> nat) option" where
  "strtol_skip s1 len s =
     do {
       c \<leftarrow> rd s1 s;
       if is_space c \<and> Suc s + 1 < len then strtol_skip s1 len (Suc s) else Some (c, Suc s)
     }"
  by pat_completeness auto
termination by (relation "measure (\<lambda>(s1, len, s). len - s)") auto

declare strtol_skip.simps [simp del]

text \<open>The value of a digit or letter, if the character is one.\<close>

definition digit_val :: "char \<Rightarrow> int option" where
  "digit_val c =
     (if is_digit c then Some (schar c - 48)
      else if is_al_cap c then Some (schar c - 55)
      else if is_al c then Some (schar c - 87)
      else None)"

text \<open>
  The conversion loop \<open>for ( ; &s1[len] >= s; c = *s++)\<close>: the result is \<open>any\<close> and \<open>acc\<close>.
\<close>

function strtol_loop ::
  "char list \<Rightarrow> nat \<Rightarrow> int \<Rightarrow> int \<Rightarrow> int \<Rightarrow> char \<Rightarrow> nat \<Rightarrow> int \<Rightarrow> int \<Rightarrow> (int \<times> int) option" where
  "strtol_loop s1 len base cutoff cutlim c s any acc =
     (if len < s then Some (any, acc)
      else
        case digit_val c of
          None \<Rightarrow> Some (any, acc)
        | Some d \<Rightarrow>
            if base \<le> d then Some (any, acc)
            else
              do {
                let (any, acc) = (if any < 0 \<or> cutoff < acc \<or> (acc = cutoff \<and> cutlim < d) then (- 1, acc)
                                  else (1, acc * base + d));
                c \<leftarrow> rd s1 s;
                strtol_loop s1 len base cutoff cutlim c (Suc s) any acc
              })"
  by pat_completeness auto
termination by (relation "measure (\<lambda>(s1, len, base, cutoff, cutlim, c, s, any, acc). Suc len - s)") auto

declare strtol_loop.simps [simp del]

text \<open>
  From the character \<open>c\<close> and the pointer \<open>s\<close> on. For a negative number the cutoff
  \<open>(unsigned long)-(LONG_MIN + LONG_MAX) + LONG_MAX\<close> is \<open>2^63\<close>, which the \<open>long\<close> variable holds as
  \<open>LONG_MIN\<close>; division and remainder truncate towards zero.
\<close>

definition strtol_conv :: "char list \<Rightarrow> nat \<Rightarrow> int \<Rightarrow> bool \<Rightarrow> char \<Rightarrow> nat \<Rightarrow> (int \<times> errno) option" where
  "strtol_conv s1 len base neg c s =
     (let base = (if base = 0 then (if c = CHR ''0'' then 8 else 10) else base) in
      if base < 2 \<or> 36 < base then Some (0, EINVAL)
      else
        do {
          let cutoff = (if neg then - (2 ^ 63 div base) else LONG_MAX div base);
          let cutlim = (if neg then - (2 ^ 63 mod base) else LONG_MAX mod base);
          (any, acc) \<leftarrow> strtol_loop s1 len base cutoff cutlim c s 0 0;
          Some (if any < 0 then (if neg then LONG_MIN else LONG_MAX, ERANGE)
                else if any = 0 then (acc, EINVAL)
                else (if neg then - acc else acc, NO_ERR))
        })"

definition http_strtol :: "char list \<Rightarrow> nat \<Rightarrow> int \<Rightarrow> (int \<times> errno) option" where
  "http_strtol s1 len base =
     do {
       (c, s) \<leftarrow> strtol_skip s1 len 0;
       let neg = (c = CHR ''-'');
       (c, s) \<leftarrow> (if neg \<or> c = CHR ''+'' then do { c \<leftarrow> rd s1 s; Some (c, Suc s) } else Some (c, s));
       x \<leftarrow> (if base = 0 \<or> base = 16 then rd s1 s else Some NUL);
       if (base = 0 \<or> base = 16) \<and> is_hex x \<and> c = CHR ''0'' then
         (if s + 2 \<le> len then Some (0, EINVAL)
          else do { c \<leftarrow> rd s1 (Suc s); strtol_conv s1 len 16 neg c (s + 2) })
       else strtol_conv s1 len base neg c s
     }"

text \<open>A C \<open>int\<close> computation that must not overflow.\<close>

definition c_int :: "int \<Rightarrow> int option" where
  "c_int n = (if - (2 ^ 31) \<le> n \<and> n < 2 ^ 31 then Some n else None)"

fun strtol2_loop :: "char list \<Rightarrow> nat \<Rightarrow> int \<Rightarrow> int \<Rightarrow> int option" where
  "strtol2_loop s 0 sg i = Some i"
| "strtol2_loop s (Suc len) sg i =
     do {
       x \<leftarrow> rd s 0;
       let j = schar x - 48;
       k \<leftarrow> c_int (i * 10);
       if 9 < j then Some i else do { i \<leftarrow> c_int (k + sg * j); strtol2_loop (tl s) len sg i }
     }"

definition http_strtol2 :: "char list \<Rightarrow> nat \<Rightarrow> int option" where
  "http_strtol2 s len =
     (if 0 < len then
        do {
          x \<leftarrow> rd s 0;
          if x \<noteq> CHR ''-'' then strtol2_loop s len 1 0 else strtol2_loop (tl s) (len - 1) (- 1) 0
        }
      else Some 0)"

definition hash_str :: "cstring \<Rightarrow> int \<Rightarrow> 32 word option" where
  "hash_str s hash_length =
     (let h = foldl (\<lambda>hashval c. word_of_int (schar c) + 31 * hashval) 0 s;
          n = word_of_int hash_length :: 32 word
      in if n = 0 then None else Some (h mod n))"

text \<open>What \<open>http_print_exact\<close> prints.\<close>

definition exact_char :: "char \<Rightarrow> string" where
  "exact_char c =
     (if c = NUL then [CHR 0x5C, CHR ''0'']
      else if c = CR then [CHR 0x5C, CHR ''r'']
      else if c = CHR '' '' \<or> c = CHR 0x09 then ''.''
      else if c = LF then [CHR 0x5C, CHR ''n'', LF]
      else [c])"

definition http_print_exact :: "char list \<Rightarrow> nat \<Rightarrow> string option" where
  "http_print_exact s len =
     (if len \<le> length s then Some (concat (map exact_char (take len s)) @ ''END'' @ [LF]) else None)"

end
