(* ===== verification/Http_Str_Props.thy ===== *)
theory Http_Str_Props
  imports Http_Str
begin

text \<open>
  What the string functions of the HTTP layer compute: the conversion of decimal numbers agrees
  with \<open>strtol\<close>, the searches return and find what they look for.
\<close>

subsection \<open>Decimal numbers\<close>

definition dec_step :: "int \<times> int \<Rightarrow> char \<Rightarrow> int \<times> int" where
  "dec_step r c =
     (let d = schar c - 48 in
      if fst r < 0 \<or> LONG_MAX div 10 < snd r \<or> (snd r = LONG_MAX div 10 \<and> LONG_MAX mod 10 < d)
      then (- 1, snd r) else (1, snd r * 10 + d))"

lemma digit_val_digit:
  "isdigit c \<Longrightarrow> digit_val c = Some (schar c - 48) \<and> 0 \<le> schar c - 48 \<and> schar c - 48 < 10 \<and>
     schar c - 48 = int (of_char c - 48)"
proof -
  assume d: "isdigit c"
  define n where "n = (of_char c :: nat)"
  have n: "48 \<le> n" "n \<le> 57" using d by (auto simp: isdigit_def n_def)
  have i: "(of_char c :: int) = int n" unfolding n_def by (rule of_nat_of_char [symmetric])
  have "schar c = int n" using n unfolding schar_def i Let_def by simp
  then show ?thesis using n by (simp add: digit_val_def is_digit_def in_range_def flip: n_def)
qed

lemma strtol_loop_step:
  assumes "isdigit c" "s \<le> len" "rd b s = Some e"
  shows "strtol_loop b len 10 (LONG_MAX div 10) (LONG_MAX mod 10) c s any acc =
    strtol_loop b len 10 (LONG_MAX div 10) (LONG_MAX mod 10) e (Suc s)
      (fst (dec_step (any, acc) c)) (snd (dec_step (any, acc) c))"
proof -
  have d: "digit_val c = Some (schar c - 48)" "\<not> 10 \<le> schar c - 48" using digit_val_digit [OF assms(1)] by auto
  have "(if any < 0 \<or> LONG_MAX div 10 < acc \<or> acc = LONG_MAX div 10 \<and> LONG_MAX mod 10 < schar c - 48
      then (- 1, acc) else (1, acc * 10 + (schar c - 48))) = dec_step (any, acc) c"
    by (simp add: dec_step_def Let_def)
  then show ?thesis
    using assms(2,3) d by (subst strtol_loop.simps) (simp only: option.case Let_def not_less split: prod.split if_split, auto)
qed

lemma strtol_loop_digits:
  assumes "\<forall>c \<in> set (c # ds). isdigit c"
  shows "strtol_loop (pre @ c # ds @ x # rest) (length pre + Suc (length ds)) 10 (LONG_MAX div 10)
      (LONG_MAX mod 10) c (Suc (length pre)) any acc = Some (foldl dec_step (any, acc) (c # ds))"
  using assms
proof (induction ds arbitrary: pre c any acc)
  case Nil
  have "rd (pre @ c # x # rest) (Suc (length pre)) = Some x" by (simp add: rd_def nth_append)
  then show ?case
    using Nil by (simp add: strtol_loop_step del: power_numeral) (subst strtol_loop.simps, simp)
next
  case (Cons e ds)
  have "rd (pre @ c # e # ds @ x # rest) (Suc (length pre)) = Some e" by (simp add: rd_def nth_append)
  then have "strtol_loop (pre @ c # (e # ds) @ x # rest) (length pre + Suc (length (e # ds))) 10 (LONG_MAX div 10)
      (LONG_MAX mod 10) c (Suc (length pre)) any acc =
    strtol_loop ((pre @ [c]) @ e # ds @ x # rest) (length (pre @ [c]) + Suc (length ds)) 10 (LONG_MAX div 10)
      (LONG_MAX mod 10) e (Suc (length (pre @ [c]))) (fst (dec_step (any, acc) c)) (snd (dec_step (any, acc) c))"
    using Cons.prems by (subst strtol_loop_step) auto
  also have "\<dots> = Some (foldl dec_step (dec_step (any, acc) c) (e # ds))"
    using Cons.IH [of e "pre @ [c]"] Cons.prems by simp
  finally show ?case by simp
qed

lemma dec_step_val:
  "\<forall>c \<in> set ds. isdigit c \<Longrightarrow> ds \<noteq> [] \<Longrightarrow>
   (let r = foldl dec_step (0, 0) ds; v = int (digits_val ds) in
    if v \<le> LONG_MAX then r = (1, v) else fst r = - 1)"
proof (induction ds rule: rev_induct)
  case (snoc c ds)
  have d: "schar c - 48 = int (of_char c - 48)" "0 \<le> schar c - 48" "schar c - 48 < 10"
    using digit_val_digit [of c] snoc.prems by auto
  have v: "int (digits_val (ds @ [c])) = 10 * int (digits_val ds) + (schar c - 48)"
    using d(1) by (simp add: digits_val_snoc)
  show ?case
  proof (cases "ds = []")
    case True
    then show ?thesis using d v by (simp add: dec_step_def Let_def digits_val_def)
  next
    case False
    obtain a b where r: "foldl dec_step (0, 0) ds = (a, b)" by fastforce
    have ih: "if int (digits_val ds) \<le> LONG_MAX then (a, b) = (1, int (digits_val ds)) else a = - 1"
      using snoc.IH snoc.prems False r by (auto simp: Let_def split: if_splits)
    have "foldl dec_step (0, 0) (ds @ [c]) = dec_step (a, b) c" using r by simp
    then show ?thesis
      using v d(2,3) ih unfolding Let_def by (auto simp: dec_step_def Let_def split: if_splits)
  qed
qed simp

lemma http_strtol_digits:
  assumes "ds \<noteq> []" "\<forall>c \<in> set ds. isdigit c"
  shows "http_strtol (ds @ x # rest) (length ds) 10 =
    Some (if int (digits_val ds) \<le> LONG_MAX then (int (digits_val ds), NO_ERR) else (LONG_MAX, ERANGE))"
proof -
  obtain c cs where ds: "ds = c # cs" using assms(1) by (cases ds) auto
  have c: "\<not> is_space c" "c \<noteq> CHR ''-''" "c \<noteq> CHR ''+''"
    using assms(2) digit_not_special [of c] by (auto simp: ds is_space_def isspace_def)
  have "http_strtol (ds @ x # rest) (length ds) 10 = strtol_conv (ds @ x # rest) (length ds) 10 False c 1"
    using c by (simp add: http_strtol_def ds strtol_skip.simps [of _ _ 0] Let_def)
  also obtain a b where r: "foldl dec_step (0, 0) ds = (a, b)" by fastforce
  have "strtol_conv (ds @ x # rest) (length ds) 10 False c 1 = Some (if int (digits_val ds) \<le> LONG_MAX then (int (digits_val ds), NO_ERR) else (LONG_MAX, ERANGE))"
    using strtol_loop_digits [of c cs "[]" x rest 0 0] dec_step_val [OF assms(2,1)] assms r
    by (auto simp: strtol_conv_def ds Let_def split: if_splits)
  finally show ?thesis .
qed

text \<open>
  C33. On a non-empty run of decimal digits \<open>http_strtol\<close> with base 10 returns, reads at most the
  one character after the run, and gives what \<open>strtol\<close> of the C library gives for the run: its
  value, or \<open>LONG_MAX\<close> with \<open>ERANGE\<close> when the value does not fit a \<open>long\<close>.
\<close>

theorem http_strtol_strtol:
  assumes "ds \<noteq> []" "\<forall>c \<in> set ds. isdigit c"
  shows "http_strtol (ds @ x # rest) (length ds) 10 =
    Some (strtol10 ds, if int (digits_val ds) \<le> LONG_MAX then NO_ERR else ERANGE)"
proof -
  obtain c cs where ds: "ds = c # cs" using assms(1) by (cases ds) auto
  have "takeWhile isdigit ds = ds" using assms(2) by (simp add: takeWhile_eq_all_conv)
  moreover have "dropWhile isspace ds = ds" "c \<noteq> CHR ''-''" "c \<noteq> CHR ''+''"
    using digit_not_special [of c] assms(2) by (auto simp: ds)
  ultimately have "strtol10 ds = min LONG_MAX (int (digits_val ds))"
    by (simp add: strtol10_def Let_def ds)
  then show ?thesis using http_strtol_digits [OF assms] by simp
qed

theorem http_strtol_strtol_witness:
  "http_strtol (''8080'' @ CHR '' '' # ''HTTP'') (length ''8080'') 10 = Some (8080, NO_ERR)"
proof -
  have "\<forall>c \<in> set ''8080''. isdigit c" by (simp add: isdigit_def)
  moreover have "strtol10 ''8080'' = 8080"
    by (simp add: strtol10_def isspace_def isdigit_def digits_val_def Let_def)
  ultimately show ?thesis
    using http_strtol_strtol [of "''8080''" "CHR '' ''" "''HTTP''"] by (simp add: digits_val_def)
qed

text \<open>
  \<open>http_strtol\<close> of a negative decimal number is \<open>LONG_MIN\<close> with \<open>ERANGE\<close>, whatever the number:
  the cutoff wraps to a negative value, so that the first digit already counts as an overflow.
\<close>

lemma http_strtol_negative:
  assumes "isdigit d"
  shows "http_strtol ([CHR ''-'', d] @ x # rest) 2 10 = Some (LONG_MIN, ERANGE)"
  using assms digit_val_digit [of d]
  by (simp add: http_strtol_def strtol_skip.simps [of _ _ 0] is_space_def strtol_conv_def Let_def
      strtol_loop.simps [of _ _ _ _ _ d] strtol_loop.simps [of _ _ _ _ _ x])

lemma http_strtol_negative_witness: "http_strtol [CHR ''-'', CHR ''5'', NUL] 2 10 = Some (LONG_MIN, ERANGE)"
  using http_strtol_negative [of "CHR ''5''" NUL "[]"] by (simp add: isdigit_def)

subsection \<open>Searches\<close>

lemma casestr_first_ok:
  assumes "len + 2 \<le> length s1" "i \<le> len + 1"
  shows "\<exists>k. casestr_first s1 c len i = Some k \<and> i \<le> k \<and> (k \<le> len + 1 \<longrightarrow> upper (s1 ! k) = upper c)"
  using assms(2)
proof (induction "len + 1 - i" arbitrary: i)
  case 0
  then show ?case using assms(1) by (subst casestr_first.simps) auto
next
  case (Suc n)
  show ?case
  proof (cases "upper (s1 ! i) = upper c")
    case True
    then show ?thesis using assms(1) Suc.prems by (subst casestr_first.simps) auto
  next
    case False
    have "n = len + 1 - Suc i" "Suc i \<le> len + 1" using Suc.hyps(2) by arith+
    then obtain k where "casestr_first s1 c len (Suc i) = Some k" "Suc i \<le> k"
        "k \<le> len + 1 \<longrightarrow> upper (s1 ! k) = upper c"
      using Suc.hyps(1) by blast
    moreover have "casestr_first s1 c len i = casestr_first s1 c len (Suc i)"
      using False assms(1) \<open>Suc i \<le> len + 1\<close> by (subst casestr_first.simps) simp
    ultimately show ?thesis by auto
  qed
qed

lemma casestr_match_ok:
  assumes "i + len2 < length s1" "len2 < length s2" "j \<le> len2"
    "\<forall>l < j. upper (s1 ! (i + l)) = upper (s2 ! l)"
  shows "\<exists>k. casestr_match s1 s2 len2 i j = Some k \<and> j \<le> k \<and> k \<le> len2 \<and>
    (\<forall>l < k. upper (s1 ! (i + l)) = upper (s2 ! l)) \<and> (upper (s1 ! (i + j)) = upper (s2 ! j) \<and> j < len2 \<longrightarrow> j < k)"
  using assms(3,4)
proof (induction "len2 - j" arbitrary: j)
  case 0
  then show ?case using assms(1,2) by (subst casestr_match.simps) auto
next
  case (Suc n)
  show ?case
  proof (cases "upper (s1 ! (i + j)) = upper (s2 ! j)")
    case False
    then show ?thesis using assms(1,2) Suc.prems by (subst casestr_match.simps) auto
  next
    case True
    have n: "n = len2 - Suc j" "Suc j \<le> len2" using Suc.hyps(2) by arith+
    moreover have "\<forall>l < Suc j. upper (s1 ! (i + l)) = upper (s2 ! l)" using Suc.prems(2) True by (simp add: less_Suc_eq)
    ultimately obtain k where "casestr_match s1 s2 len2 i (Suc j) = Some k" "Suc j \<le> k" "k \<le> len2"
        "\<forall>l < k. upper (s1 ! (i + l)) = upper (s2 ! l)"
      using Suc.hyps(1) by blast
    moreover have "casestr_match s1 s2 len2 i j = casestr_match s1 s2 len2 i (Suc j)"
      using True n assms(1,2) by (subst casestr_match.simps) simp
    ultimately show ?thesis by auto
  qed
qed

lemma casestr_loop_ok:
  assumes s1: "len + 2 \<le> length s1" and s2: "0 < len2" "len2 < length s2" and "i \<le> len + 1"
  shows "\<exists>r. casestr_loop s1 s2 len len2 i = Some r \<and>
    (\<forall>k. r = Some k \<longrightarrow> k + len2 \<le> len \<and> (\<forall>l < len2. upper (s1 ! (k + l)) = upper (s2 ! l)))"
  using assms(4)
proof (induction "len + 1 - i" arbitrary: i rule: less_induct)
  case less
  have c: "rd s2 0 = Some (s2 ! 0)" using s2 by (cases s2) auto
  obtain k where k: "casestr_first s1 (s2 ! 0) len i = Some k" "i \<le> k" "k \<le> len + 1 \<longrightarrow> upper (s1 ! k) = upper (s2 ! 0)"
    using casestr_first_ok [OF s1 less.prems] by blast
  show ?case
  proof (cases "int len - int k < int len2")
    case True
    then show ?thesis using c k by (subst casestr_loop.simps) simp
  next
    case False
    then have fit: "k + len2 \<le> len" by linarith
    obtain j where j: "casestr_match s1 s2 len2 k 0 = Some j" "j \<le> len2" "\<forall>l < j. upper (s1 ! (k + l)) = upper (s2 ! l)"
        "upper (s1 ! k) = upper (s2 ! 0) \<longrightarrow> 0 < j"
      using casestr_match_ok [of k len2 s1 s2 0] s1 s2 fit by auto
    have "casestr_loop s1 s2 len len2 i =
        (if j = len2 then Some (Some k) else casestr_loop s1 s2 len len2 (k + j))"
      using c k j False by (subst casestr_loop.simps) simp
    moreover have "0 < j" "k + j \<le> len + 1" using j k(3) fit s2 by auto
    moreover have "\<exists>r. casestr_loop s1 s2 len len2 (k + j) = Some r \<and>
        (\<forall>k. r = Some k \<longrightarrow> k + len2 \<le> len \<and> (\<forall>l < len2. upper (s1 ! (k + l)) = upper (s2 ! l)))"
      using less.hyps [of "k + j"] calculation(2,3) k(2) by auto
    ultimately show ?thesis using fit j(3) by auto
  qed
qed

text \<open>
  \<open>http_strcasestr\<close> returns for every non-empty pattern, provided that two characters past the
  end of the text may be read, and an index it returns is a place inside the text where the
  pattern occurs up to the case of letters.
\<close>

lemma http_strcasestr_sound:
  assumes "len + 2 \<le> length s1" "0 < len2" "len2 < length s2"
  shows "\<exists>r. http_strcasestr s1 s2 len len2 = Some r \<and>
    (\<forall>k. r = Some k \<longrightarrow> k + len2 \<le> len \<and> (\<forall>l < len2. upper (s1 ! (k + l)) = upper (s2 ! l)))"
  unfolding http_strcasestr_def using assms by (intro casestr_loop_ok) auto

lemma http_strcasestr_sound_witness:
  "\<exists>r. http_strcasestr (''Content-Length: 1'' @ [NUL, NUL]) (''LENGTH'' @ [NUL]) 17 6 = Some r \<and>
    (\<forall>k. r = Some k \<longrightarrow> k + 6 \<le> 17 \<and>
      (\<forall>l < 6. upper ((''Content-Length: 1'' @ [NUL, NUL]) ! (k + l)) = upper ((''LENGTH'' @ [NUL]) ! l)))"
  by (rule http_strcasestr_sound) simp_all

text \<open>It goes on after a partial match, so that it misses the occurrence of \<open>aab\<close> in \<open>aaab\<close>.\<close>

lemma http_strcasestr_misses: "http_strcasestr (''aaab'' @ [NUL, NUL]) (''aab'' @ [NUL]) 4 3 = Some None"
  by code_simp

text \<open>The first occurrence of a character, within the given length.\<close>

lemma http_strcasechr_first:
  assumes "len \<le> length s1"
  shows "http_strcasechr s1 c len = Some (index_of (\<lambda>x. x = c) (take len s1))"
proof (cases "index_of (\<lambda>x. x = c) (take len s1)")
  case None
  then have no: "\<forall>x \<in> set (take len s1). x \<noteq> c" by (simp add: index_of_None)
  obtain k where k: "skip_while (\<lambda>x. x \<noteq> c) s1 0 len = Some k" "k \<le> len" "k < len \<longrightarrow> \<not> s1 ! k \<noteq> c"
    using skip_while_total [OF le0 assms, of "\<lambda>x. x \<noteq> c"] by blast
  have "k = len"
  proof (rule ccontr)
    assume "k \<noteq> len"
    then have "c \<in> set (take len s1)"
      using k assms by (auto simp: in_set_conv_nth intro!: exI [of _ k])
    then show False using no by blast
  qed
  then show ?thesis using k None by (simp add: http_strcasechr_def)
next
  case (Some i)
  then obtain xs ys where t: "take len s1 = xs @ c # ys" "\<forall>x \<in> set xs. x \<noteq> c" "i = length xs"
    by (auto simp: index_of_Some)
  have s: "s1 = [] @ xs @ (c # ys @ drop len s1)" using t(1) by (metis append.assoc append_Cons append_Nil append_take_drop_id)
  have len: "len = length xs + Suc (length ys)" using arg_cong [OF t(1), of length] assms by simp
  have "skip_while (\<lambda>x. x \<noteq> c) s1 0 len = Some i"
    using skip_while_append [of xs "\<lambda>x. x \<noteq> c" "c # ys @ drop len s1" "[]" len] s t(2,3) len by simp
  then show ?thesis using Some len t(3) by (simp add: http_strcasechr_def)
qed

text \<open>
  \<open>http_strcasecmp\<close> of two strings of the same positive length returns 0 exactly when, at every
  index but the first, the characters agree or the second is the first less 32.
\<close>

lemma http_strcasecmp_zero:
  assumes "0 < hs_len s1" "hs_len s1 \<le> length (hs_str s1)" "hs_len s1 \<le> length (hs_str s2)" "hs_len s2 = hs_len s1"
  shows "http_strcasecmp s1 s2 = Some 0 \<longleftrightarrow>
    (\<forall>i. 0 < i \<and> i < hs_len s1 \<longrightarrow>
       hs_str s1 ! i = hs_str s2 ! i \<or> schar (hs_str s1 ! i) - 32 = schar (hs_str s2 ! i))"
proof -
  have "strcasecmp_loop a b n = Some 0 \<longleftrightarrow> (\<forall>i. 0 < i \<and> i \<le> n \<longrightarrow> a ! i = b ! i \<or> schar (a ! i) - 32 = schar (b ! i))"
    if "n < length a" "n < length b" for a b n
    using that by (induction n) (auto simp: le_Suc_eq)
  from this [of "hs_len s1 - 1" "hs_str s1" "hs_str s2"] show ?thesis
    using assms by (simp add: http_strcasecmp_def) (metis Suc_pred less_Suc_eq_le)
qed

lemma http_strcasecmp_zero_witness:
  "http_strcasecmp \<lparr>hs_str = ''XeY'', hs_len = 3\<rparr> \<lparr>hs_str = ''?EY'', hs_len = 3\<rparr> = Some 0"
proof -
  have "0 < i \<and> i < 3 \<longrightarrow> ''XeY'' ! i = ''?EY'' ! i \<or> schar (''XeY'' ! i) - 32 = schar (''?EY'' ! i)" for i :: nat
    by (cases "i = 1"; cases "i = 2") (auto simp: schar_def Let_def)
  then show ?thesis
    using http_strcasecmp_zero [of "\<lparr>hs_str = ''XeY'', hs_len = 3\<rparr>" "\<lparr>hs_str = ''?EY'', hs_len = 3\<rparr>"] by simp
qed

end
