(* ===== verification/Http_Data.thy ===== *)
theory Http_Data
  imports Http_Str
begin

text \<open>
  The data of the HTTP layer, \<open>src/src/http_impl.h\<close>. Beside the fields of the C structures a client
  has the environment its thread sees: the bytes that arrive (\<open>incoming\<close>, one entry per packet or
  event), the bytes written to the socket (\<open>sent\<close>), whether the socket was closed, and the fate of
  the coming allocations (\<open>http_oom\<close>: the head says whether the next one fails; an empty list stands
  for enough memory). Headers of a request are kept as offsets into the buffer.
\<close>

datatype http_method = HTTP_GET | HTTP_POST | HTTP_PUT | HTTP_HEAD | HTTP_DELETE

datatype http_req_err =
  HTTP_FAIL | HTTP_ERR_UNKNOWN_HOST | HTTP_ERR_NO_CNT_LEN | HTTP_ERR_MAX_HDR_EXC | HTTP_ERR_CLI_CLOSED |
  HTTP_ERR_INV_REQ_LINE | HTTP_ERR_INV_METHOD | HTTP_ERR_INV_HOST | HTTP_ERR_INV_PORT | HTTP_ERR_INV_PROTO |
  HTTP_ERR_TIMEOUT_EXC | HTTP_ERR_INV_HDR

text \<open>The values of the enumeration; that of \<open>HTTP_ERR_UNKNOWN_HOST\<close> is the code of success.\<close>

fun err_code :: "http_req_err \<Rightarrow> int" where
  "err_code HTTP_FAIL = - 1"
| "err_code HTTP_ERR_UNKNOWN_HOST = 0"
| "err_code HTTP_ERR_NO_CNT_LEN = 1"
| "err_code HTTP_ERR_MAX_HDR_EXC = 2"
| "err_code HTTP_ERR_CLI_CLOSED = 3"
| "err_code HTTP_ERR_INV_REQ_LINE = 4"
| "err_code HTTP_ERR_INV_METHOD = 5"
| "err_code HTTP_ERR_INV_HOST = 6"
| "err_code HTTP_ERR_INV_PORT = 7"
| "err_code HTTP_ERR_INV_PROTO = 8"
| "err_code HTTP_ERR_TIMEOUT_EXC = 9"
| "err_code HTTP_ERR_INV_HDR = 10"

abbreviation HTTP_MAX_HDR_LEN :: nat where "HTTP_MAX_HDR_LEN \<equiv> 8192"
abbreviation HTTP_MAX_HOST_LEN :: nat where "HTTP_MAX_HOST_LEN \<equiv> 255"
abbreviation TCP_BUF_SIZE :: nat where "TCP_BUF_SIZE \<equiv> 32 * 1024"

record http_hdr =
  hdr :: "char list"
  hdr_start :: nat
  hdr_len :: nat
  cnt_len :: "64 word"
  chunked :: bool
  nolen :: bool
  http11 :: bool
  hdrs :: "nat h_hash option"

record http_req =
  req_host :: "cstring option"
  req_method :: "http_method option"
  req_uri :: "cstring option"
  req_port :: "16 word"
  req_hdr :: http_hdr
  req_body :: "char list option"
  req_body_len :: "64 word"
  req_path :: "cstring option"
  req_query_string :: "cstring option"
  query_string_args :: "cstring h_hash option"

datatype resp_state = HTTP_HDR_BEGIN | HTTP_HDR_SENT | HTTP_BODY_SENT

record http_resp =
  respcode :: int
  respcode_int :: cstring
  respcode_str :: cstring
  resp_hdrs :: "cstring h_hash option"
  resp_body :: "char list option"
  resp_body_len :: "64 word"
  resp_state :: resp_state

text \<open>What a \<open>recv\<close> may see: data, a timeout, an error; the end of the list is the end of the stream.\<close>

datatype packet = Data "char list" | Timeout | Failure

record http_cli =
  req :: http_req
  resp :: http_resp
  incoming :: "packet list"
  sent :: "char list"
  closed :: bool
  http_oom :: "bool list"

abbreviation upd_req :: "(http_req \<Rightarrow> http_req) \<Rightarrow> http_cli \<Rightarrow> http_cli" where
  "upd_req \<equiv> req_update"

abbreviation upd_hdr :: "(http_hdr \<Rightarrow> http_hdr) \<Rightarrow> http_cli \<Rightarrow> http_cli" where
  "upd_hdr f \<equiv> req_update (req_hdr_update f)"

abbreviation cli_hdr :: "http_cli \<Rightarrow> http_hdr" where
  "cli_hdr c \<equiv> req_hdr (req c)"

text \<open>The next allocation: whether it succeeds.\<close>

definition http_alloc :: "http_cli \<Rightarrow> bool \<times> http_cli" where
  "http_alloc c = (\<not> (http_oom c \<noteq> [] \<and> hd (http_oom c)), c\<lparr>http_oom := tl (http_oom c)\<rparr>)"

lemma http_alloc_ok: "http_oom c = [] \<Longrightarrow> http_alloc c = (True, c)"
  by (simp add: http_alloc_def)

text \<open>\<open>h_insert\<close>, with the next allocation for the item of a new key.\<close>

definition http_h_insert ::
  "'v h_hash \<Rightarrow> cstring \<Rightarrow> 'v \<Rightarrow> http_cli \<Rightarrow> ('v h_hash \<times> http_cli) option" where
  "http_h_insert h key v c =
     do {
       present \<leftarrow> h_get h key;
       (case present of
          Some _ \<Rightarrow> Some (h, c)
        | None \<Rightarrow> (case http_alloc c of (ok, c) \<Rightarrow> do { (_, h) \<leftarrow> h_insert ok h key v; Some (h, c) }))
     }"

end
