(* ===== verification/Http_Parser.thy ===== *)
theory Http_Parser
  imports Http_Data
begin

text \<open>
  The parser of request headers, \<open>src/src/http_parser.c\<close>. The functions return a code, 0 for success,
  and the client with the fields they set; the buffer of the header is modified in place.
\<close>

subsection \<open>Request line\<close>

definition method_name :: "http_method \<Rightarrow> cstring" where
  "method_name m =
     (case m of HTTP_GET \<Rightarrow> ''GET'' | HTTP_POST \<Rightarrow> ''POST'' | HTTP_PUT \<Rightarrow> ''PUT'' | HTTP_HEAD \<Rightarrow> ''HEAD''
      | HTTP_DELETE \<Rightarrow> ''DELETE'')"

text \<open>The chain of \<open>strncasecmp\<close> calls, in the order of the source.\<close>

fun find_method :: "char list \<Rightarrow> http_method list \<Rightarrow> http_method option option" where
  "find_method b [] = Some None"
| "find_method b (m # ms) =
     do {
       eq \<leftarrow> strncasecmp0 b (method_name m @ [NUL]) (length (method_name m));
       if eq then Some (Some m) else find_method b ms
     }"

definition http_methods :: "http_method list" where
  "http_methods = [HTTP_GET, HTTP_PUT, HTTP_DELETE, HTTP_POST, HTTP_HEAD]"

datatype st_state = st_host | st_uri | st_proto | st_port

definition parse_proto :: "nat \<Rightarrow> http_cli \<Rightarrow> (int \<times> http_cli) option" where
  "parse_proto proto_start c =
     (let b = hdr (cli_hdr c); len = hdr_len (cli_hdr c) in
      do {
        p \<leftarrow> skip_while (\<lambda>x. \<not> is_cr_or_lf x) b proto_start len;
        if p = len then Some (err_code HTTP_ERR_INV_REQ_LINE, c)
        else if p - proto_start \<noteq> 8 then Some (err_code HTTP_ERR_INV_PROTO, c)
        else
          do {
            v11 \<leftarrow> strncasecmp0 (drop proto_start b) (''HTTP/1.1'' @ [NUL]) 8;
            v10 \<leftarrow> strncasecmp0 (drop proto_start b) (''HTTP/1.0'' @ [NUL]) 8;
            if v11 \<or> v10 then
              do {
                p \<leftarrow> skip_while (\<lambda>x. x = NUL) b p len;
                b \<leftarrow> wr b (p - 1) NUL;
                Some (0, upd_hdr (\<lambda>h. h\<lparr>http11 := v11, hdr := b, hdr_start := p\<rparr>) c)
              }
            else Some (err_code HTTP_ERR_INV_PROTO, c)
          }
      })"

text \<open>A failing copy of the URI ends the process.\<close>

definition parse_uri :: "nat \<Rightarrow> http_cli \<Rightarrow> (int \<times> http_cli) option" where
  "parse_uri uri_start c =
     (let b = hdr (cli_hdr c); len = hdr_len (cli_hdr c) in
      do {
        p \<leftarrow> skip_while (\<lambda>x. \<not> isspace x) b uri_start len;
        if p = len then Some (err_code HTTP_ERR_INV_REQ_LINE, c)
        else
          (case http_alloc c of
             (ok, c) \<Rightarrow>
               if \<not> ok then None
               else
                 do {
                   let c = upd_req (req_uri_update (\<lambda>_. Some (strndup (drop uri_start b) (p - uri_start)))) c;
                   p \<leftarrow> skip_while isspace b p len;
                   parse_proto p c
                 })
      })"

definition parse_port :: "nat \<Rightarrow> http_cli \<Rightarrow> (int \<times> http_cli) option" where
  "parse_port port_start c =
     (let b = hdr (cli_hdr c); len = hdr_len (cli_hdr c) in
      do {
        p \<leftarrow> skip_while is_digit b port_start len;
        if port_start = p then Some (err_code HTTP_ERR_INV_PORT, c)
        else
          do {
            (v, _) \<leftarrow> http_strtol (drop port_start b) (p - port_start) 10;
            let port = word_of_int v;
            let c = upd_req (req_port_update (\<lambda>_. port)) c;
            if port > 65534 \<or> port < 1 then Some (err_code HTTP_ERR_INV_PORT, c) else parse_uri p c
          }
      })"

text \<open>The rounds of the loop in the state \<open>st_host\<close>, from \<open>host_start = 0\<close>.\<close>

function parse_host :: "nat \<Rightarrow> http_cli \<Rightarrow> (int \<times> http_cli) option" where
  "parse_host p c =
     (if p < hdr_len (cli_hdr c) then
        do {
          x \<leftarrow> rd (hdr (cli_hdr c)) p;
          if is_host_terminator x then
            (if p = 0 then Some (err_code HTTP_ERR_INV_HOST, c)
             else if HTTP_MAX_HOST_LEN < p then Some (err_code HTTP_ERR_INV_HOST, c)
             else
               (case http_alloc c of
                  (ok, c) \<Rightarrow>
                    if \<not> ok then Some (err_code HTTP_FAIL, upd_req (req_host_update (\<lambda>_. None)) c)
                    else
                      let c = upd_req (req_host_update (\<lambda>_. Some (strndup (hdr (cli_hdr c)) p))) c
                      in if x = CHR '':'' then parse_port (Suc p) c else parse_uri p c))
          else if \<not> is_host_token x then Some (err_code HTTP_ERR_INV_HOST, c)
          else parse_host (Suc p) c
        }
      else Some (err_code HTTP_ERR_INV_REQ_LINE, c))"
  by pat_completeness auto
termination by (relation "measure (\<lambda>(p, c). hdr_len (cli_hdr c) - p)") auto

declare parse_host.simps [simp del]

text \<open>The loop \<open>while (p < len) switch (state)\<close>.\<close>

definition parse_states :: "st_state \<Rightarrow> nat \<Rightarrow> http_cli \<Rightarrow> (int \<times> http_cli) option" where
  "parse_states state p c =
     (if p < hdr_len (cli_hdr c) then
        (case state of
           st_host \<Rightarrow> parse_host p c
         | st_port \<Rightarrow> parse_port p c
         | st_uri \<Rightarrow> parse_uri p c
         | st_proto \<Rightarrow> parse_proto p c)
      else Some (err_code HTTP_ERR_INV_REQ_LINE, c))"

definition http_parse_req_line :: "http_cli \<Rightarrow> (int \<times> http_cli) option" where
  "http_parse_req_line c =
     (let c = upd_req (req_port_update (\<lambda>_. 80)) c; b = hdr (cli_hdr c); len = hdr_len (cli_hdr c) in
      if len < 7 then Some (err_code HTTP_ERR_INV_REQ_LINE, c)
      else
        do {
          found \<leftarrow> find_method b http_methods;
          (case found of
             None \<Rightarrow> Some (err_code HTTP_ERR_INV_METHOD, c)
           | Some m \<Rightarrow>
               do {
                 let c = upd_req (req_method_update (\<lambda>_. Some m)) c;
                 p \<leftarrow> skip_while isspace b (length (method_name m)) len;
                 if p = len then Some (err_code HTTP_ERR_INV_REQ_LINE, c)
                 else parse_states st_uri p c
               })
        })"

subsection \<open>Headers\<close>

text \<open>
  A header line that ends at the line feed at \<open>i\<close>: the line is terminated, the name is cut off at
  the colon and put into lower case, and the value starts after the first white space behind the
  colon.
\<close>

definition lower_range :: "nat \<Rightarrow> nat \<Rightarrow> char list \<Rightarrow> char list" where
  "lower_range i k b = take i b @ map tolower (take k (drop i b)) @ drop (i + k) b"

definition hdr_line :: "nat \<Rightarrow> nat \<Rightarrow> http_cli \<Rightarrow> http_cli option" where
  "hdr_line start i c =
     do {
       b \<leftarrow> wr (hdr (cli_hdr c)) i NUL;
       b \<leftarrow> (if i \<noteq> 0 \<and> b ! (i - 1) = CR then wr b (i - 1) NUL else Some b);
       s \<leftarrow> c_string (drop start b);
       (case strchr s (CHR '':'') of
          None \<Rightarrow> Some (upd_hdr (hdr_update (\<lambda>_. b)) c)
        | Some k \<Rightarrow>
            do {
              b \<leftarrow> wr b (start + k) NUL;
              let b = lower_range start k b;
              p \<leftarrow> skip_while (\<lambda>x. x \<noteq> NUL \<and> \<not> isspace x) b (start + k + 1) (length b);
              _ \<leftarrow> rd b p;
              h \<leftarrow> hdrs (cli_hdr c);
              key \<leftarrow> c_string (drop start b);
              (h, c) \<leftarrow> http_h_insert h key (p + 1) c;
              Some (upd_hdr (\<lambda>hd. hd\<lparr>hdr := b, hdrs := Some h\<rparr>) c)
            })
     }"

text \<open>The loop over the characters; a line feed before white space does not end the header.\<close>

function hdr_loop :: "nat \<Rightarrow> nat \<Rightarrow> nat \<Rightarrow> http_cli \<Rightarrow> (int \<times> http_cli) option" where
  "hdr_loop len start i c =
     (if i < len then
        do {
          x \<leftarrow> rd (hdr (cli_hdr c)) i;
          if x = LF then
            do {
              y \<leftarrow> rd (hdr (cli_hdr c)) (i + 1);
              if \<not> isspace y then do { c \<leftarrow> hdr_line start i c; hdr_loop len (i + 1) (i + 1) c }
              else hdr_loop len start (i + 1) c
            }
          else hdr_loop len start (i + 1) c
        }
      else Some (0, c))"
  by pat_completeness auto
termination by (relation "measure (\<lambda>(len, start, i, c). len - i)") auto

declare hdr_loop.simps [simp del]

definition http_parse_hdr :: "http_cli \<Rightarrow> (int \<times> http_cli) option" where
  "http_parse_hdr c =
     hdr_loop (hdr_len (cli_hdr c)) (hdr_start (cli_hdr c)) (hdr_start (cli_hdr c)) c"

text \<open>The string that a header's offset points to.\<close>

definition hdr_get :: "http_cli \<Rightarrow> cstring \<Rightarrow> cstring option option" where
  "hdr_get c name =
     do {
       h \<leftarrow> hdrs (cli_hdr c);
       found \<leftarrow> h_get h name;
       (case found of
          None \<Rightarrow> Some None
        | Some off \<Rightarrow> map_option Some (c_string (drop off (hdr (cli_hdr c)))))
     }"

text \<open>
  The host header: with a colon, the port is read from the colon on; without one, the length
  \<open>p - tmp\<close> is computed from the null pointer, which as a \<open>size_t\<close> exceeds every string.
\<close>

definition set_host :: "cstring \<Rightarrow> http_cli \<Rightarrow> (int \<times> http_cli) option" where
  "set_host t c =
     (let k = strchr t (CHR '':'') in
      if (case k of Some k \<Rightarrow> HTTP_MAX_HOST_LEN < k | None \<Rightarrow> False) then Some (err_code HTTP_ERR_INV_HOST, c)
      else
        (case http_alloc c of
           (ok, c) \<Rightarrow>
             if \<not> ok then Some (err_code HTTP_FAIL, upd_req (req_host_update (\<lambda>_. None)) c)
             else
               (case k of
                  Some k \<Rightarrow> Some (0, upd_req (\<lambda>r. r\<lparr>req_host := Some (take k t),
                                                  req_port := word_of_int (strtol10 (drop k t))\<rparr>) c)
                | None \<Rightarrow> Some (0, upd_req (req_host_update (\<lambda>_. Some t)) c))))"

definition http_parse_req_hdr :: "http_cli \<Rightarrow> (int \<times> http_cli) option" where
  "http_parse_req_hdr c =
     (if length (hdr (cli_hdr c)) < hdr_len (cli_hdr c) then None
      else if NUL \<in> set (take (hdr_len (cli_hdr c)) (hdr (cli_hdr c))) then Some (err_code HTTP_ERR_INV_HDR, c)
      else
        do {
          (ret, c) \<leftarrow> http_parse_req_line c;
          if ret \<noteq> 0 then Some (ret, c)
          else
            do {
              (ret, c) \<leftarrow> http_parse_hdr c;
              if ret \<noteq> 0 then Some (ret, c)
              else
                do {
                  tmp \<leftarrow> hdr_get c ''content-length'';
                  let c = (case tmp of
                             Some s \<Rightarrow> upd_hdr (cnt_len_update (\<lambda>_. word_of_int (strtol10 s))) c
                           | None \<Rightarrow> c);
                  h \<leftarrow> hdrs (cli_hdr c);
                  te \<leftarrow> h_get h ''transfer-encoding'';
                  let c = (if te \<noteq> None then upd_hdr (chunked_update (\<lambda>_. True)) c else c);
                  tmp \<leftarrow> hdr_get c ''host'';
                  (case tmp of Some t \<Rightarrow> set_host t c | None \<Rightarrow> Some (0, c))
                }
            }
        })"

end
