(* ===== verification/Http_Parser_Props.thy ===== *)
theory Http_Parser_Props
  imports Http_Parser
begin

text \<open>
  The parser accepts what a client prints: a request line gives back its method, target and version,
  and header lines give back their values under their names in lower case.
\<close>

subsection \<open>Request line\<close>

definition http_version :: "bool \<Rightarrow> cstring" where
  "http_version v11 = (if v11 then ''HTTP/1.1'' else ''HTTP/1.0'')"

definition print_req_line :: "http_method \<Rightarrow> cstring \<Rightarrow> bool \<Rightarrow> cstring" where
  "print_req_line m u v11 = method_name m @ '' '' @ u @ '' '' @ http_version v11"

lemma find_method_name:
  "find_method (method_name m @ CHR '' '' # rest) http_methods = Some (Some m)"
  by (cases m) (simp_all add: http_methods_def method_name_def tolower_def)

lemma version_chars: "\<forall>x \<in> set (http_version v11). \<not> is_cr_or_lf x \<and> x \<noteq> NUL \<and> \<not> isspace x"
  by (simp add: http_version_def is_cr_or_lf_def isspace_def)

lemma version_length [simp]: "length (http_version v11) = 8"
  by (simp add: http_version_def)

lemma version_found:
  "strncasecmp0 (http_version v11 @ rest) (''HTTP/1.1'' @ [NUL]) 8 = Some v11"
  "strncasecmp0 (http_version v11 @ rest) (''HTTP/1.0'' @ [NUL]) 8 = Some (\<not> v11)"
  by (cases v11; simp add: http_version_def tolower_def numeral_eq_Suc)+

lemma parse_proto_ok:
  assumes b: "hdr (cli_hdr c) = pre @ http_version v11 @ x # rest" and x: "is_cr_or_lf x"
    and len: "length pre + 8 < hdr_len (cli_hdr c)" "hdr_len (cli_hdr c) \<le> length (hdr (cli_hdr c))"
  shows "parse_proto (length pre) c =
    Some (0, upd_hdr (\<lambda>h. h\<lparr>http11 := v11, hdr := (hdr (cli_hdr c))[length pre + 7 := NUL], hdr_start := length pre + 8\<rparr>) c)"
proof -
  let ?b = "pre @ http_version v11 @ x # rest"
  have s: "skip_while (\<lambda>x. \<not> is_cr_or_lf x) ?b (length pre) (hdr_len (cli_hdr c)) = Some (length pre + 8)"
    using skip_while_append [of "http_version v11" "\<lambda>x. \<not> is_cr_or_lf x" "x # rest" pre] x len version_chars b by simp
  have "x \<noteq> NUL" using x by (auto simp: is_cr_or_lf_def)
  then have n: "skip_while (\<lambda>x. x = NUL) ?b (length pre + 8) (hdr_len (cli_hdr c)) = Some (length pre + 8)"
    using skip_while_append [of "[]" "\<lambda>x. x = NUL" "x # rest" "pre @ http_version v11"] len b by simp
  show ?thesis
    using b len s n version_found [of v11 "x # rest"] by (simp add: parse_proto_def Let_def add.commute [of 7])
qed

lemma parse_uri_ok:
  assumes b: "hdr (cli_hdr c) = pre @ u @ CHR '' '' # http_version v11 @ x # rest" and x: "is_cr_or_lf x"
    and u: "\<forall>y \<in> set u. \<not> isspace y" "NUL \<notin> set u" and mem: "http_oom c = []"
    and len: "length pre + length u + 9 < hdr_len (cli_hdr c)" "hdr_len (cli_hdr c) \<le> length (hdr (cli_hdr c))"
  shows "parse_uri (length pre) c = parse_proto (length pre + length u + 1) (upd_req (req_uri_update (\<lambda>_. Some u)) c)"
proof -
  let ?b = "pre @ u @ CHR '' '' # http_version v11 @ x # rest"
  have sp: "isspace (CHR '' '')" by (simp add: isspace_def)
  have s: "skip_while (\<lambda>x. \<not> isspace x) ?b (length pre) (hdr_len (cli_hdr c)) = Some (length pre + length u)"
    using skip_while_append [of u "\<lambda>x. \<not> isspace x" "CHR '' '' # http_version v11 @ x # rest" pre] u(1) sp len b by simp
  have "\<not> isspace (hd (http_version v11))" by (simp add: http_version_def isspace_def)
  then have n: "skip_while isspace ?b (length pre + length u) (hdr_len (cli_hdr c)) = Some (length pre + length u + 1)"
    using skip_while_append [of "'' ''" isspace "http_version v11 @ x # rest" "pre @ u"] sp len b
    by (simp add: http_version_def split: if_splits)
  show ?thesis
    using b len s n u mem by (simp add: parse_uri_def Let_def http_alloc_ok)
qed

text \<open>
  C14. Parsing a printed request line succeeds and gives back its method, target and version; the
  default port is set, and the headers start at the end of the line.
\<close>

theorem http_parse_req_line_roundtrip:
  assumes "hdr (cli_hdr c) = print_req_line m u v11 @ x # rest" "is_cr_or_lf x"
    "u \<noteq> []" "\<forall>y \<in> set u. \<not> isspace y" "NUL \<notin> set u" "http_oom c = []"
    "length (print_req_line m u v11) < hdr_len (cli_hdr c)" "hdr_len (cli_hdr c) \<le> length (hdr (cli_hdr c))"
  shows "\<exists>c'. http_parse_req_line c = Some (0, c') \<and> req_method (req c') = Some m \<and> req_uri (req c') = Some u \<and>
    http11 (cli_hdr c') = v11 \<and> req_port (req c') = 80 \<and> hdr_start (cli_hdr c') = length (print_req_line m u v11) \<and>
    hdr_len (cli_hdr c') = hdr_len (cli_hdr c) \<and>
    hdr (cli_hdr c') = (hdr (cli_hdr c))[length (print_req_line m u v11) - 1 := NUL]"
proof -
  let ?n = "method_name m @ '' ''" and ?t = "CHR '' '' # http_version v11 @ x # rest"
  let ?c = "upd_req (req_method_update (\<lambda>_. Some m)) (upd_req (req_port_update (\<lambda>_. 80)) c)"
  have b: "hdr (cli_hdr c) = ?n @ u @ ?t" using assms(1) by (simp add: print_req_line_def)
  have len: "length ?n + length u + 9 < hdr_len (cli_hdr c)" using assms(7) by (simp add: print_req_line_def)
  have "isspace (CHR '' '')" "\<not> isspace (hd (u @ ?t))" using assms(3,4) by (auto simp: isspace_def)
  then have p: "skip_while isspace (?n @ u @ ?t) (length (method_name m)) (hdr_len (cli_hdr c)) = Some (length ?n)"
    using skip_while_append [of "'' ''" isspace "u @ ?t" "method_name m"] len assms(8) b by simp
  have "http_parse_req_line c = parse_uri (length ?n) ?c"
    using len p find_method_name [of m "u @ ?t"] b by (simp add: http_parse_req_line_def Let_def parse_states_def)
  also have "\<dots> = parse_proto (length ?n + length u + 1) (upd_req (req_uri_update (\<lambda>_. Some u)) ?c)"
    by (rule parse_uri_ok [of _ ?n u v11 x rest]) (use b assms len in simp_all)
  also have "\<dots> = parse_proto (length (?n @ u @ '' '')) (upd_req (req_uri_update (\<lambda>_. Some u)) ?c)" by simp
  also have "\<dots> = Some (0, upd_hdr (\<lambda>h. h\<lparr>http11 := v11, hdr := (hdr (cli_hdr c))[length (?n @ u @ '' '') + 7 := NUL],
      hdr_start := length (?n @ u @ '' '') + 8\<rparr>) (upd_req (req_uri_update (\<lambda>_. Some u)) ?c))"
    using b assms len by (subst parse_proto_ok [of _ _ v11 x rest]) simp_all
  finally show ?thesis by (simp add: print_req_line_def)
qed

text \<open>A client of an idle connection, with a request in its buffer.\<close>

definition demo_table :: "'v h_hash" where
  "demo_table = \<lparr>buckets = [[]], order_head = [], h_size = 1, order_next = None, h_items = Map.empty, h_fresh = 0\<rparr>"

definition demo_cli :: "char list \<Rightarrow> nat \<Rightarrow> http_cli" where
  "demo_cli b n =
     \<lparr>req = \<lparr>req_host = None, req_method = None, req_uri = None, req_port = 0,
        req_hdr = \<lparr>hdr = b, hdr_start = 0, hdr_len = n, cnt_len = 0, chunked = False, nolen = False,
          http11 = False, hdrs = Some demo_table\<rparr>,
        req_body = None, req_body_len = 0, req_path = None, req_query_string = None,
        query_string_args = Some demo_table\<rparr>,
      resp = \<lparr>respcode = 0, respcode_int = [], respcode_str = [], resp_hdrs = Some demo_table, resp_body = None,
        resp_body_len = 0, resp_state = HTTP_HDR_BEGIN\<rparr>,
      incoming = [], sent = [], closed = False, http_oom = []\<rparr>"

theorem http_parse_req_line_roundtrip_witness:
  "\<exists>c'. http_parse_req_line (demo_cli (''GET /a?rev=1 HTTP/1.1'' @ [CR, LF, CR, LF]) 25) = Some (0, c') \<and>
    req_method (req c') = Some HTTP_GET \<and> req_uri (req c') = Some ''/a?rev=1'' \<and> http11 (cli_hdr c')"
  using http_parse_req_line_roundtrip [of "demo_cli (''GET /a?rev=1 HTTP/1.1'' @ [CR, LF, CR, LF]) 25" HTTP_GET
      "''/a?rev=1''" True CR "[LF, CR, LF]"]
  by (auto simp: demo_cli_def print_req_line_def method_name_def http_version_def is_cr_or_lf_def isspace_def)

subsection \<open>Headers\<close>

definition header_ok :: "cstring \<times> cstring \<Rightarrow> bool" where
  "header_ok = (\<lambda>(k, v). k \<noteq> [] \<and> \<not> isspace (hd k) \<and> set k \<inter> {NUL, LF, CHR '':''} = {} \<and> set v \<inter> {NUL, LF} = {})"

text \<open>A header as a client prints it, and what the parser leaves of it in the buffer.\<close>

definition print_hdr :: "cstring \<times> cstring \<Rightarrow> cstring" where
  "print_hdr = (\<lambda>(k, v). k @ '': '' @ v @ [CR, LF])"

definition cut_hdr :: "cstring \<times> cstring \<Rightarrow> cstring" where
  "cut_hdr = (\<lambda>(k, v). map tolower k @ NUL # CHR '' '' # v @ [NUL, NUL])"

lemma print_hdr_length [simp]: "length (cut_hdr e) = length (print_hdr e)"
  by (cases e) (simp add: print_hdr_def cut_hdr_def)

text \<open>The entries of the table of headers for headers printed from position \<open>n\<close> on.\<close>

fun hdr_offs :: "nat \<Rightarrow> (cstring \<times> cstring) list \<Rightarrow> (cstring \<times> nat) list" where
  "hdr_offs n [] = []"
| "hdr_offs n (e # es) = (map tolower (fst e), n + length (fst e) + 2) # hdr_offs (n + length (print_hdr e)) es"

lemma hdr_line_ok:
  assumes b: "hdr (cli_hdr c) = pre @ k @ '': '' @ v @ [CR, LF] @ rest"
    and k: "CHR '':'' \<notin> set k" "NUL \<notin> set k" and v: "NUL \<notin> set v" and mem: "http_oom c = []"
    and h: "hdrs (cli_hdr c) = Some h" "h_wf h" "map_of (h_entries h) (map tolower k) = None"
  shows "\<exists>h'. hdr_line (length pre) (length pre + length k + length v + 3) c =
      Some (upd_hdr (\<lambda>x. x\<lparr>hdr := pre @ cut_hdr (k, v) @ rest, hdrs := Some h'\<rparr>) c) \<and> h_wf h' \<and>
    h_entries h' = h_entries h @ [(map tolower k, length pre + length k + 2)]"
proof -
  obtain h' where h': "h_insert True h (map tolower k) (length pre + length k + 2) = Some (0, h')" "h_wf h'"
      "h_entries h' = h_entries h @ [(map tolower k, length pre + length k + 2)]"
    using hh.ins_new [OF h(2,3)] by blast
  define b1 where "b1 = pre @ k @ '': '' @ v @ [CR, NUL] @ rest"
  define b2 where "b2 = pre @ k @ '': '' @ v @ [NUL, NUL] @ rest"
  define b3 where "b3 = pre @ k @ NUL # CHR '' '' # v @ [NUL, NUL] @ rest"
  let ?i = "length pre + length k + length v + 3"
  have w1: "wr (hdr (cli_hdr c)) ?i NUL = Some b1"
    unfolding b b1_def by (simp add: list_update_append add.commute [of _ 3])
  have cr: "b1 ! (?i - 1) = CR" by (simp add: b1_def nth_append)
  have w2: "wr b1 (?i - 1) NUL = Some b2"
    unfolding b1_def b2_def by (simp add: list_update_append add.commute [of _ 2])
  have s: "c_string (drop (length pre) b2) = Some (k @ '': '' @ v)"
    using c_string_append [of "k @ '': '' @ v" "NUL # rest"] k v by (simp add: b2_def)
  have col: "strchr (k @ '': '' @ v) (CHR '':'') = Some (length k)" using k by simp
  have w3: "wr b2 (length pre + length k) NUL = Some b3"
    unfolding b2_def b3_def by (simp add: list_update_append)
  have low: "lower_range (length pre) (length k) b3 = pre @ cut_hdr (k, v) @ rest"
    by (simp add: lower_range_def b3_def cut_hdr_def)
  have sk: "skip_while (\<lambda>x. x \<noteq> NUL \<and> \<not> isspace x) (pre @ cut_hdr (k, v) @ rest) (length pre + length k + 1)
      (length (pre @ cut_hdr (k, v) @ rest)) = Some (length pre + length k + 1)"
    using skip_while_append [of "[]" "\<lambda>x. x \<noteq> NUL \<and> \<not> isspace x" "CHR '' '' # v @ [NUL, NUL] @ rest"
        "pre @ map tolower k @ [NUL]" "length (pre @ cut_hdr (k, v) @ rest)"]
    by (simp add: cut_hdr_def isspace_def)
  have rd: "rd (pre @ cut_hdr (k, v) @ rest) (length pre + length k + 1) = Some (CHR '' '')"
    by (simp add: rd_def nth_append cut_hdr_def)
  have key: "c_string (drop (length pre) (pre @ cut_hdr (k, v) @ rest)) = Some (map tolower k)"
  proof -
    have "NUL \<notin> set (map tolower k)" using k(2) unfolding set_map image_iff by (metis tolower_NUL)
    then show ?thesis
      using c_string_append [of "map tolower k" "CHR '' '' # v @ [NUL, NUL] @ rest"] by (simp add: cut_hdr_def)
  qed
  have g: "h_get h (map tolower k) = Some None" using h by (simp add: hh.get_entries)
  have "hdr_line (length pre) ?i c =
      Some (upd_hdr (\<lambda>x. x\<lparr>hdr := pre @ cut_hdr (k, v) @ rest, hdrs := Some h'\<rparr>) c)"
  proof -
    have ins: "http_h_insert h (map tolower k) (length pre + length k + 1 + 1) c = Some (h', c)"
      using g h'(1) mem by (simp add: http_h_insert_def http_alloc_ok)
    have i: "?i \<noteq> 0 \<and> b1 ! (?i - 1) = CR" using cr by simp
    show ?thesis
      unfolding hdr_line_def w1 bind.bind_lunit if_P [OF i] w2 s col option.case w3 low Let_def sk rd key h(1) ins
      by simp
  qed
  with h' show ?thesis by blast
qed

text \<open>Characters that are no line feed, and line feeds before white space, are passed over.\<close>

lemma hdr_loop_skip:
  assumes "hdr (cli_hdr c) = pre @ ys @ rest" "LF \<notin> set ys" "length (pre @ ys) \<le> len"
  shows "hdr_loop len start (length pre) c = hdr_loop len start (length pre + length ys) c"
  using assms
proof (induction ys arbitrary: pre)
  case (Cons y ys)
  have "hdr_loop len start (length pre) c = hdr_loop len start (length (pre @ [y])) c"
    using Cons.prems by (subst hdr_loop.simps) auto
  also have "\<dots> = hdr_loop len start (length (pre @ [y]) + length ys) c"
    using Cons.prems by (intro Cons.IH) auto
  finally show ?case by simp
qed simp

lemma hdr_loop_end:
  assumes "hdr (cli_hdr c) = pre @ LF # y # rest" "length pre < len"
  shows "hdr_loop len start (length pre) c =
    (if isspace y then hdr_loop len start (length pre + 1) c
     else do { c \<leftarrow> hdr_line start (length pre) c; hdr_loop len (length pre + 1) (length pre + 1) c })"
proof -
  have "rd (hdr (cli_hdr c)) (length pre) = Some LF" "rd (hdr (cli_hdr c)) (length pre + 1) = Some y"
    using assms(1) by (simp_all add: rd_def nth_append)
  then show ?thesis using assms(2) by (subst hdr_loop.simps) simp
qed

text \<open>A list of headers before something that does not start with white space.\<close>

lemma hdr_loop_headers:
  assumes "hdr (cli_hdr c) = pre @ concat (map print_hdr es) @ rest" "\<forall>e \<in> set es. header_ok e"
    "rest \<noteq> []" "\<not> isspace (hd rest)" "http_oom c = []" "hdrs (cli_hdr c) = Some h" "h_wf h"
    "distinct (map fst (h_entries h @ hdr_offs (length pre) es))" "length (pre @ concat (map print_hdr es)) \<le> len"
  shows "\<exists>h'. hdr_loop len (length pre) (length pre) c =
      hdr_loop len (length (pre @ concat (map print_hdr es))) (length (pre @ concat (map print_hdr es)))
        (upd_hdr (\<lambda>x. x\<lparr>hdr := pre @ concat (map cut_hdr es) @ rest, hdrs := Some h'\<rparr>) c) \<and>
    h_wf h' \<and> h_entries h' = h_entries h @ hdr_offs (length pre) es"
  using assms
proof (induction es arbitrary: pre c h)
  case Nil
  have "upd_hdr (\<lambda>x. x\<lparr>hdr := pre @ concat (map cut_hdr []) @ rest, hdrs := Some h\<rparr>) c = c"
    using Nil.prems(1,6) by (cases c) simp
  then show ?case using Nil.prems(7) by (intro exI [of _ h]) simp
next
  case (Cons e es)
  obtain k v where e: "e = (k, v)" by fastforce
  have ok: "k \<noteq> []" "CHR '':'' \<notin> set k" "NUL \<notin> set k" "LF \<notin> set k" "NUL \<notin> set v" "LF \<notin> set v"
    using Cons.prems(2) by (auto simp: e header_ok_def)
  let ?tl = "concat (map print_hdr es) @ rest" and ?n = "length pre + length k + length v + 3"
  have b: "hdr (cli_hdr c) = pre @ k @ '': '' @ v @ [CR, LF] @ ?tl"
    using Cons.prems(1) by (simp add: e print_hdr_def)
  obtain y tl where tl: "?tl = y # tl" "\<not> isspace y"
  proof (cases es)
    case Nil
    then show ?thesis using Cons.prems(3,4) that by (cases rest) auto
  next
    case (Cons e' es')
    then have "header_ok e'" using Cons.prems(2) by simp
    then show ?thesis using that Cons by (cases "fst e'") (auto simp: header_ok_def print_hdr_def split: prod.splits)
  qed
  have "map_of (h_entries h) (map tolower k) = None"
    using Cons.prems(8) by (auto simp: e map_of_eq_None_iff)
  then obtain h1 where h1: "hdr_line (length pre) ?n c =
      Some (upd_hdr (\<lambda>x. x\<lparr>hdr := pre @ cut_hdr (k, v) @ ?tl, hdrs := Some h1\<rparr>) c)" "h_wf h1"
      "h_entries h1 = h_entries h @ [(map tolower k, length pre + length k + 2)]"
    using hdr_line_ok [OF b ok(2,3,5) Cons.prems(5,6,7)] by blast
  let ?c = "upd_hdr (\<lambda>x. x\<lparr>hdr := pre @ cut_hdr (k, v) @ ?tl, hdrs := Some h1\<rparr>) c"
  have "hdr_loop len (length pre) (length pre) c = hdr_loop len (length pre) (length pre + length (k @ '': '' @ v @ [CR])) c"
    using Cons.prems(9) ok b by (intro hdr_loop_skip [of _ _ _ "LF # ?tl"]) (auto simp: e print_hdr_def)
  also have "\<dots> = hdr_loop len (length pre) (length (pre @ k @ '': '' @ v @ [CR])) c" by simp
  also have "\<dots> = hdr_loop len (?n + 1) (?n + 1) ?c"
  proof -
    have n: "length (pre @ k @ '': '' @ v @ [CR]) = ?n" by simp
    have "length (pre @ k @ '': '' @ v @ [CR]) < len" using Cons.prems(9) by (simp add: e print_hdr_def)
    moreover have "hdr (cli_hdr c) = (pre @ k @ '': '' @ v @ [CR]) @ LF # y # tl" using b tl(1) by simp
    ultimately have "hdr_loop len (length pre) ?n c = do { c \<leftarrow> hdr_line (length pre) ?n c; hdr_loop len (?n + 1) (?n + 1) c }"
      using hdr_loop_end [of c "pre @ k @ '': '' @ v @ [CR]" y tl len "length pre"] tl(2) unfolding n by simp
    then show ?thesis unfolding n h1(1) by simp
  qed
  also have "?n + 1 = length (pre @ cut_hdr e)" by (simp add: e print_hdr_def)
  finally have step: "hdr_loop len (length pre) (length pre) c =
      hdr_loop len (length (pre @ cut_hdr e)) (length (pre @ cut_hdr e)) ?c" .
  have "\<exists>h'. hdr_loop len (length (pre @ cut_hdr e)) (length (pre @ cut_hdr e)) ?c =
      hdr_loop len (length ((pre @ cut_hdr e) @ concat (map print_hdr es))) (length ((pre @ cut_hdr e) @ concat (map print_hdr es)))
        (upd_hdr (\<lambda>x. x\<lparr>hdr := (pre @ cut_hdr e) @ concat (map cut_hdr es) @ rest, hdrs := Some h'\<rparr>) ?c) \<and>
    h_wf h' \<and> h_entries h' = h_entries h1 @ hdr_offs (length (pre @ cut_hdr e)) es"
    using Cons.prems h1(2,3) by (intro Cons.IH) (auto simp: e)
  then show ?case using step h1(3) by (auto simp: e comp_def)
qed

lemma cut_values:
  "\<forall>e \<in> set es. NUL \<notin> set (snd e) \<Longrightarrow> (k, off) \<in> set (hdr_offs (length pre) es) \<Longrightarrow>
   \<exists>e \<in> set es. k = map tolower (fst e) \<and>
     c_string (drop off (pre @ concat (map cut_hdr es) @ rest)) = Some (snd e)"
proof (induction es arbitrary: pre)
  case (Cons e es)
  obtain a v where e: "e = (a, v)" by fastforce
  show ?case
  proof (cases "(k, off) = (map tolower a, length pre + length a + 2)")
    case True
    have "NUL \<notin> set v" using Cons.prems(1) by (simp add: e)
    then have "c_string (drop off (pre @ concat (map cut_hdr (e # es)) @ rest)) = Some v"
      using True c_string_append [of v "NUL # concat (map cut_hdr es) @ rest"] by (simp add: e cut_hdr_def)
    then show ?thesis using True by (simp add: e)
  next
    case False
    then have "(k, off) \<in> set (hdr_offs (length (pre @ cut_hdr e)) es)"
      using Cons.prems(2) by (auto simp: e)
    then have "\<exists>e' \<in> set es. k = map tolower (fst e') \<and>
        c_string (drop off ((pre @ cut_hdr e) @ concat (map cut_hdr es) @ rest)) = Some (snd e')"
      using Cons.prems(1) by (intro Cons.IH) auto
    then show ?thesis by auto
  qed
qed simp

lemma hdr_offs_mem: "e \<in> set es \<Longrightarrow> \<exists>off. (map tolower (fst e), off) \<in> set (hdr_offs n es)"
  by (induction es arbitrary: n) auto

lemma hdr_offs_keys: "map fst (hdr_offs n es) = map (\<lambda>e. map tolower (fst e)) es"
  by (induction es arbitrary: n) auto

lemma hdr_offs_fst: "fst ` set (hdr_offs n es) = (\<lambda>e. map tolower (fst e)) ` set es"
  using arg_cong [OF hdr_offs_keys [of n es], of set] by simp

text \<open>The end of the request line leaves no header.\<close>

lemma hdr_loop_first:
  assumes b: "hdr (cli_hdr c) = pre @ [CR, LF] @ y # rest" and "\<not> isspace y" "length pre + 1 < len"
  shows "hdr_loop len (length pre) (length pre) c =
    hdr_loop len (length pre + 2) (length pre + 2) (upd_hdr (hdr_update (\<lambda>_. pre @ [NUL, NUL] @ y # rest)) c)"
proof -
  have "hdr_loop len (length pre) (length pre) c = hdr_loop len (length pre) (length pre + length [CR]) c"
    using assms by (intro hdr_loop_skip [of _ _ _ "LF # y # rest"]) auto
  also have "\<dots> = hdr_loop len (length pre) (length (pre @ [CR])) c" by simp
  also have "\<dots> = do { c \<leftarrow> hdr_line (length pre) (length (pre @ [CR])) c;
      hdr_loop len (length (pre @ [CR]) + 1) (length (pre @ [CR]) + 1) c }"
    using hdr_loop_end [of c "pre @ [CR]" y rest len "length pre"] assms by simp
  also have "hdr_line (length pre) (length (pre @ [CR])) c = Some (upd_hdr (hdr_update (\<lambda>_. pre @ [NUL, NUL] @ y # rest)) c)"
    using b c_string_append [of "[]" "NUL # y # rest"]
    by (simp add: hdr_line_def list_update_append nth_append strchr_def)
  finally show ?thesis by simp
qed

text \<open>The last header runs to the end of the empty line, which does not separate it from its value.\<close>

lemma hdr_loop_last:
  assumes b: "hdr (cli_hdr c) = pre @ print_hdr (k, v) @ [CR, LF] @ y # rest" and ok: "header_ok (k, v)"
    and y: "\<not> isspace y" and mem: "http_oom c = []"
    and h: "hdrs (cli_hdr c) = Some h" "h_wf h" "map_of (h_entries h) (map tolower k) = None"
    and len: "len = length (pre @ print_hdr (k, v) @ [CR, LF])"
  shows "\<exists>h'. hdr_loop len (length pre) (length pre) c =
      Some (0, upd_hdr (\<lambda>x. x\<lparr>hdr := pre @ cut_hdr (k, v @ [CR, LF]) @ y # rest, hdrs := Some h'\<rparr>) c) \<and> h_wf h' \<and>
    h_entries h' = h_entries h @ [(map tolower k, length pre + length k + 2)]"
proof -
  let ?a = "pre @ k @ '': '' @ v @ [CR]"
  have ks: "CHR '':'' \<notin> set k" "NUL \<notin> set k" "LF \<notin> set k" "NUL \<notin> set v" "LF \<notin> set v"
    using ok by (auto simp: header_ok_def)
  have b1: "hdr (cli_hdr c) = ?a @ LF # CR # LF # y # rest"
    and b2: "hdr (cli_hdr c) = (?a @ [LF, CR]) @ LF # y # rest"
    and b3: "hdr (cli_hdr c) = pre @ k @ '': '' @ (v @ [CR, LF]) @ [CR, LF] @ y # rest"
    using b by (simp_all add: print_hdr_def)
  have "isspace CR" by (simp add: isspace_def)
  have "hdr_loop len (length pre) (length pre) c = hdr_loop len (length pre) (length pre + length (k @ '': '' @ v @ [CR])) c"
    using ks b by (intro hdr_loop_skip [of _ _ _ "LF # CR # LF # y # rest"]) (auto simp: print_hdr_def len)
  also have "\<dots> = hdr_loop len (length pre) (length ?a) c" by simp
  also have "\<dots> = hdr_loop len (length pre) (length (?a @ [LF])) c"
    using hdr_loop_end [OF b1, of len "length pre"] \<open>isspace CR\<close> len by (simp add: print_hdr_def)
  also have "\<dots> = hdr_loop len (length pre) (length (?a @ [LF]) + length [CR]) c"
    using b2 by (intro hdr_loop_skip [of _ _ _ "LF # y # rest"]) (auto simp: len print_hdr_def)
  also have "\<dots> = hdr_loop len (length pre) (length (?a @ [LF, CR])) c" by simp
  also have "\<dots> = do { c \<leftarrow> hdr_line (length pre) (length (?a @ [LF, CR])) c;
      hdr_loop len (length (?a @ [LF, CR]) + 1) (length (?a @ [LF, CR]) + 1) c }"
    using hdr_loop_end [OF b2, of len "length pre"] y len by (simp add: print_hdr_def)
  also have "length (?a @ [LF, CR]) + 1 = len" using len by (simp add: print_hdr_def)
  also have "length (?a @ [LF, CR]) = length pre + length k + length (v @ [CR, LF]) + 3" by simp
  finally have step: "hdr_loop len (length pre) (length pre) c =
      do { c \<leftarrow> hdr_line (length pre) (length pre + length k + length (v @ [CR, LF]) + 3) c; hdr_loop len len len c }" .
  obtain h' where h': "hdr_line (length pre) (length pre + length k + length (v @ [CR, LF]) + 3) c =
      Some (upd_hdr (\<lambda>x. x\<lparr>hdr := pre @ cut_hdr (k, v @ [CR, LF]) @ y # rest, hdrs := Some h'\<rparr>) c)" "h_wf h'"
      "h_entries h' = h_entries h @ [(map tolower k, length pre + length k + 2)]"
    using hdr_line_ok [OF b3 ks(1,2) _ mem h] ks(4) by auto
  have "hdr_loop len len len c' = Some (0, c')" for c' by (subst hdr_loop.simps) simp
  then show ?thesis using step h' by auto
qed

text \<open>What the table and the buffer say together.\<close>

lemma hdr_get_cut:
  assumes "hdrs (cli_hdr c) = Some h" "h_wf h" "h_entries h = hdr_offs (length pre) es"
    "hdr (cli_hdr c) = pre @ concat (map cut_hdr es) @ rest" "\<forall>e \<in> set es. NUL \<notin> set (snd e)"
    "distinct (map (\<lambda>e. map tolower (fst e)) es)"
  shows "e \<in> set es \<Longrightarrow> hdr_get c (map tolower (fst e)) = Some (Some (snd e))"
    "name \<notin> (\<lambda>e. map tolower (fst e)) ` set es \<Longrightarrow> hdr_get c name = Some None"
proof -
  assume e: "e \<in> set es"
  obtain off where off: "(map tolower (fst e), off) \<in> set (hdr_offs (length pre) es)" using hdr_offs_mem [OF e] by blast
  have m: "map_of (h_entries h) (map tolower (fst e)) = Some off"
    unfolding assms(3) by (rule map_of_is_SomeI) (use off assms(6) in \<open>simp_all add: hdr_offs_keys\<close>)
  obtain e' where e': "e' \<in> set es" "map tolower (fst e) = map tolower (fst e')"
      "c_string (drop off (hdr (cli_hdr c))) = Some (snd e')"
    using cut_values [OF assms(5) off] unfolding assms(4) by blast
  have "inj_on (\<lambda>e. map tolower (fst e)) (set es)" using assms(6) by (simp add: distinct_map)
  from inj_onD [OF this _ e'(1) e] e'(2) have "e' = e" by simp
  then have "c_string (drop off (hdr (cli_hdr c))) = Some (snd e)" using e'(3) by simp
  then show "hdr_get c (map tolower (fst e)) = Some (Some (snd e))"
    using assms(1,2) m by (simp add: hdr_get_def hh.get_entries)
next
  assume "name \<notin> (\<lambda>e. map tolower (fst e)) ` set es"
  then have "map_of (h_entries h) name = None"
    unfolding assms(3) map_of_eq_None_iff hdr_offs_fst .
  then show "hdr_get c name = Some None" using assms(1,2) by (simp add: hdr_get_def hh.get_entries)
qed

text \<open>
  C29. Parsing the headers that a client prints succeeds. Afterwards each header but the last is found
  under its name in lower case with exactly its value; the value of the last one still has the line
  end before the empty line; no other name is found. The byte after the empty line must not be
  white space.
\<close>

theorem http_parse_hdr_roundtrip:
  assumes b: "hdr (cli_hdr c) = pre @ [CR, LF] @ concat (map print_hdr es) @ print_hdr (k, v) @ [CR, LF] @ y # rest"
    and start: "hdr_start (cli_hdr c) = length pre"
    and len: "hdr_len (cli_hdr c) = length (pre @ [CR, LF] @ concat (map print_hdr es) @ print_hdr (k, v) @ [CR, LF])"
    and ok: "\<forall>e \<in> set es. header_ok e" "header_ok (k, v)" "distinct (map (\<lambda>e. map tolower (fst e)) (es @ [(k, v)]))"
    and y: "\<not> isspace y" and mem: "http_oom c = []"
    and h: "hdrs (cli_hdr c) = Some h" "h_wf h" "h_entries h = []"
  shows "\<exists>c'. http_parse_hdr c = Some (0, c') \<and>
    (\<forall>e \<in> set es. hdr_get c' (map tolower (fst e)) = Some (Some (snd e))) \<and>
    hdr_get c' (map tolower k) = Some (Some (v @ [CR, LF])) \<and>
    (\<forall>name. name \<notin> (\<lambda>e. map tolower (fst e)) ` set (es @ [(k, v)]) \<longrightarrow> hdr_get c' name = Some None)"
proof -
  let ?len = "hdr_len (cli_hdr c)" and ?last = "print_hdr (k, v) @ [CR, LF] @ y # rest" and ?p = "pre @ [NUL, NUL]"
  let ?q = "?p @ concat (map cut_hdr es)" and ?es = "es @ [(k, v @ [CR, LF])]"
  have kh: "k \<noteq> []" "\<not> isspace (hd k)" using ok(2) by (auto simp: header_ok_def)
  have hd1: "\<not> isspace (hd (concat (map print_hdr es) @ ?last))"
    using ok(1) kh by (cases es) (auto simp: header_ok_def print_hdr_def split: prod.splits)
  obtain z zs where z: "concat (map print_hdr es) @ ?last = z # zs" using kh by (cases "concat (map print_hdr es) @ ?last") auto
  define c1 where "c1 = upd_hdr (hdr_update (\<lambda>_. ?p @ concat (map print_hdr es) @ ?last)) c"
  have "hdr_loop ?len (length pre) (length pre) c = hdr_loop ?len (length pre + 2) (length pre + 2) c1"
    unfolding c1_def using hdr_loop_first [of c pre z zs ?len] b z hd1 len by simp
  then have s1: "http_parse_hdr c = hdr_loop ?len (length ?p) (length ?p) c1"
    by (simp add: http_parse_hdr_def start)
  have ds: "distinct (map fst (h_entries h @ hdr_offs (length ?p) es))"
    using ok(3) h(3) hdr_offs_keys [of "length ?p" es] by simp
  have c1: "hdr (cli_hdr c1) = ?p @ concat (map print_hdr es) @ ?last" "http_oom c1 = []" "hdrs (cli_hdr c1) = Some h"
    using mem h(1) by (simp_all add: c1_def)
  have r: "?last \<noteq> []" "\<not> isspace (hd ?last)" using kh by (auto simp: print_hdr_def)
  have lp: "length (?p @ concat (map print_hdr es)) \<le> ?len" using len by simp
  obtain h2 where h2: "hdr_loop ?len (length ?p) (length ?p) c1 =
      hdr_loop ?len (length (?p @ concat (map print_hdr es))) (length (?p @ concat (map print_hdr es)))
        (upd_hdr (\<lambda>x. x\<lparr>hdr := ?p @ concat (map cut_hdr es) @ ?last, hdrs := Some h2\<rparr>) c1)"
      "h_wf h2" "h_entries h2 = h_entries h @ hdr_offs (length ?p) es"
    using hdr_loop_headers [OF c1(1) ok(1) r c1(2,3) h(2) ds lp] by blast
  define c2 where "c2 = upd_hdr (\<lambda>x. x\<lparr>hdr := ?q @ ?last, hdrs := Some h2\<rparr>) c1"
  have lq: "length (?p @ concat (map print_hdr es)) = length ?q" by (simp add: length_concat comp_def)
  have s2: "http_parse_hdr c = hdr_loop ?len (length ?q) (length ?q) c2"
    using s1 h2(1) unfolding c2_def lq by simp
  have fresh: "map_of (h_entries h2) (map tolower k) = None"
    using ok(3) h2(3) h(3) hdr_offs_fst [of "length ?p" es] by (simp add: map_of_eq_None_iff)
  have c2: "hdr (cli_hdr c2) = ?q @ ?last" "http_oom c2 = []" "hdrs (cli_hdr c2) = Some h2"
    using c1 by (simp_all add: c2_def)
  have lq2: "?len = length (?q @ print_hdr (k, v) @ [CR, LF])" using len lq by simp
  obtain h3 where h3: "hdr_loop ?len (length ?q) (length ?q) c2 =
      Some (0, upd_hdr (\<lambda>x. x\<lparr>hdr := ?q @ cut_hdr (k, v @ [CR, LF]) @ y # rest, hdrs := Some h3\<rparr>) c2)" "h_wf h3"
      "h_entries h3 = h_entries h2 @ [(map tolower k, length ?q + length k + 2)]"
    using hdr_loop_last [OF c2(1) ok(2) y c2(2,3) h2(2) fresh lq2] by blast
  define c3 where "c3 = upd_hdr (\<lambda>x. x\<lparr>hdr := ?q @ cut_hdr (k, v @ [CR, LF]) @ y # rest, hdrs := Some h3\<rparr>) c2"
  have offs: "hdr_offs n (es @ [(k, w)]) = hdr_offs n es @ [(map tolower k, n + length (concat (map print_hdr es)) + length k + 2)]" for n w
    by (induction es arbitrary: n) auto
  have "h_entries h3 = hdr_offs (length ?p) ?es" using h3(3) h2(3) h(3) lq offs by simp
  moreover have "\<forall>e \<in> set ?es. NUL \<notin> set (snd e)" using ok(1,2) by (auto simp: header_ok_def)
  moreover have "distinct (map (\<lambda>e. map tolower (fst e)) ?es)" using ok(3) by simp
  ultimately have G: "e \<in> set ?es \<Longrightarrow> hdr_get c3 (map tolower (fst e)) = Some (Some (snd e))"
    "name \<notin> (\<lambda>e. map tolower (fst e)) ` set ?es \<Longrightarrow> hdr_get c3 name = Some None" for e name
    using hdr_get_cut [of c3 h3 ?p ?es "y # rest"] h3(2) by (simp_all add: c3_def)
  show ?thesis
    using s2 h3(1) G(1) [of "(k, v @ [CR, LF])"] G by (intro exI [of _ c3]) (auto simp: c3_def)
qed

lemma demo_table_wf:
  "h_wf (demo_table :: 'v h_hash)" "h_entries (demo_table :: 'v h_hash) = []"
  "order_next (demo_table :: 'v h_hash) = None"
proof -
  have "h_init True True 1 = Some (demo_table :: 'v h_hash)" by (simp add: h_init_def demo_table_def)
  then show "h_wf (demo_table :: 'v h_hash)" "h_entries (demo_table :: 'v h_hash) = []"
    "order_next (demo_table :: 'v h_hash) = None"
    using h_init_wf [of 1, where 'a = 'v] by auto
qed

lemma lower_examples:
  "map tolower ''Host'' = ''host''" "map tolower ''Content-Length'' = ''content-length''"
  by code_simp+

theorem http_parse_hdr_roundtrip_witness:
  "\<exists>c'. http_parse_hdr (demo_cli ([CR, LF] @ ''Host: a'' @ [CR, LF] @ ''Content-Length: 3'' @ [CR, LF, CR, LF] @ ''abc'') 32) =
      Some (0, c') \<and>
    hdr_get c' ''host'' = Some (Some ''a'') \<and> hdr_get c' ''content-length'' = Some (Some (''3'' @ [CR, LF]))"
proof -
  let ?c = "demo_cli ([CR, LF] @ ''Host: a'' @ [CR, LF] @ ''Content-Length: 3'' @ [CR, LF, CR, LF] @ ''abc'') 32"
  have "header_ok (''Host'', ''a'')" "header_ok (''Content-Length'', ''3'')"
    by (simp_all add: header_ok_def isspace_def)
  then have "\<exists>c'. http_parse_hdr ?c = Some (0, c') \<and>
    (\<forall>e \<in> set [(''Host'', ''a'')]. hdr_get c' (map tolower (fst e)) = Some (Some (snd e))) \<and>
    hdr_get c' (map tolower ''Content-Length'') = Some (Some (''3'' @ [CR, LF])) \<and>
    (\<forall>name. name \<notin> (\<lambda>e. map tolower (fst e)) ` set ([(''Host'', ''a'')] @ [(''Content-Length'', ''3'')]) \<longrightarrow>
       hdr_get c' name = Some None)"
    by (intro http_parse_hdr_roundtrip [of ?c "[]" "[(''Host'', ''a'')]" "''Content-Length''" "''3''" "CHR ''a''" "''bc''" demo_table])
      (simp_all add: demo_cli_def print_hdr_def demo_table_wf isspace_def)
  then show ?thesis by (auto simp: lower_examples simp del: list.map)
qed

end
