(* ===== verification/Linkhash.thy ===== *)
theory Linkhash
  imports C_String
begin

text \<open>
  The hash table of the JSON library (\<open>src/lib/json/linkhash.c\<close>) that holds the members of a JSON
  object: open addressing with linear probing and tombstones, the entries linked in the order of
  their insertion. A pointer to an entry is its index in the table. \<open>t_freed\<close> lists the keys and
  values that have been passed to \<open>free_fn\<close>. The statistics, which no code reads, are counters that
  wrap around. Allocation succeeds, or \<open>lh_abort\<close> ends the program.
\<close>

datatype 'k lh_key = LH_EMPTY | LH_FREED | Key 'k

record ('k, 'v) lh_entry =
  e_k :: "'k lh_key"
  e_v :: "'v option"
  e_next :: "nat option"
  e_prev :: "nat option"

record ('k, 'v) lh_table =
  t_size :: int
  t_count :: int
  t_collisions :: "32 word"
  t_resizes :: "32 word"
  t_lookups :: "32 word"
  t_inserts :: "32 word"
  t_deletes :: "32 word"
  t_name :: "cstring option"
  t_head :: "nat option"
  t_tail :: "nat option"
  t_table :: "('k, 'v) lh_entry list"
  t_free_fn :: bool
  t_hash_fn :: "'k \<Rightarrow> 64 word"
  t_equal_fn :: "'k \<Rightarrow> 'k \<Rightarrow> bool"
  t_freed :: "('k \<times> 'v option) list"

subsection \<open>Hash functions\<close>

definition LH_PRIME :: "64 word" where
  "LH_PRIME = 0x9e370001"

definition lh_ptr_hash :: "64 word \<Rightarrow> 64 word" where
  "lh_ptr_hash k = drop_bit 4 (k * LH_PRIME)"

definition lh_ptr_equal :: "64 word \<Rightarrow> 64 word \<Rightarrow> bool" where
  "lh_ptr_equal k1 k2 \<longleftrightarrow> k1 = k2"

text \<open>The sum is computed in 64 bits and cut to the 32 bits of \<open>h\<close>; a character is sign-extended.\<close>

fun lh_char_hash_loop :: "32 word \<Rightarrow> cstring \<Rightarrow> 32 word" where
  "lh_char_hash_loop h [] = h"
| "lh_char_hash_loop h (c # cs) =
     lh_char_hash_loop (ucast (ucast (h * 129 + word_of_int (schar c)) + LH_PRIME)) cs"

definition lh_char_hash :: "cstring \<Rightarrow> 64 word" where
  "lh_char_hash k = ucast (lh_char_hash_loop 0 k)"

definition lh_char_equal :: "cstring \<Rightarrow> cstring \<Rightarrow> bool" where
  "lh_char_equal k1 k2 \<longleftrightarrow> k1 = k2"

subsection \<open>Tables\<close>

definition empty_entry :: "('k, 'v) lh_entry" where
  "empty_entry = \<lparr>e_k = LH_EMPTY, e_v = None, e_next = None, e_prev = None\<rparr>"

definition lh_table_new ::
  "int \<Rightarrow> cstring option \<Rightarrow> bool \<Rightarrow> ('k \<Rightarrow> 64 word) \<Rightarrow> ('k \<Rightarrow> 'k \<Rightarrow> bool) \<Rightarrow> ('k, 'v) lh_table option" where
  "lh_table_new sz name free_fn hash_fn equal_fn =
     (if sz \<le> 0 then None
      else Some \<lparr>t_size = sz, t_count = 0, t_collisions = 0, t_resizes = 0, t_lookups = 0, t_inserts = 0, t_deletes = 0,
                 t_name = name, t_head = None, t_tail = None, t_table = replicate (nat sz) empty_entry,
                 t_free_fn = free_fn, t_hash_fn = hash_fn, t_equal_fn = equal_fn, t_freed = []\<rparr>)"

definition lh_kchar_table_new :: "int \<Rightarrow> cstring option \<Rightarrow> bool \<Rightarrow> (cstring, 'v) lh_table option" where
  "lh_kchar_table_new sz name free_fn = lh_table_new sz name free_fn lh_char_hash lh_char_equal"

definition lh_kptr_table_new :: "int \<Rightarrow> cstring option \<Rightarrow> bool \<Rightarrow> (64 word, 'v) lh_table option" where
  "lh_kptr_table_new sz name free_fn = lh_table_new sz name free_fn lh_ptr_hash lh_ptr_equal"

fun vacant :: "'k lh_key \<Rightarrow> bool" where
  "vacant (Key k) = False"
| "vacant _ = True"

fun key_of :: "'k lh_key \<Rightarrow> 'k option" where
  "key_of (Key k) = Some k"
| "key_of _ = None"

text \<open>\<open>t->table[n]\<close> and an update of its fields.\<close>

definition entry :: "('k, 'v) lh_table \<Rightarrow> nat \<Rightarrow> ('k, 'v) lh_entry option" where
  "entry t n = rd (t_table t) n"

definition upd_entry ::
  "nat \<Rightarrow> (('k, 'v) lh_entry \<Rightarrow> ('k, 'v) lh_entry) \<Rightarrow> ('k, 'v) lh_table \<Rightarrow> ('k, 'v) lh_table option" where
  "upd_entry n f t = do { e \<leftarrow> entry t n; Some (t\<lparr>t_table := (t_table t)[n := f e]\<rparr>) }"

text \<open>\<open>if (++n == t->size) n = 0\<close>\<close>

definition next_slot :: "('k, 'v) lh_table \<Rightarrow> nat \<Rightarrow> nat" where
  "next_slot t n = (if int (Suc n) = t_size t then 0 else Suc n)"

text \<open>\<open>h % t->size\<close>\<close>

definition first_slot :: "('k, 'v) lh_table \<Rightarrow> 'k \<Rightarrow> nat option" where
  "first_slot t k = (if t_size t \<le> 0 then None else Some (nat (uint (t_hash_fn t k) mod t_size t)))"

text \<open>The list of entries from a pointer on, as \<open>lh_foreach\<close> visits them.\<close>

partial_function (option) lh_walk :: "('k, 'v) lh_table \<Rightarrow> nat option \<Rightarrow> ('k, 'v) lh_entry list option" where
  "lh_walk t p =
     (case p of
        None \<Rightarrow> Some []
      | Some n \<Rightarrow>
          do {
            e \<leftarrow> entry t n;
            es \<leftarrow> lh_walk t (e_next e);
            Some (e # es)
          })"

declare lh_walk.simps [code]

subsection \<open>Insertion\<close>

partial_function (option) lh_insert_loop :: "('k, 'v) lh_table \<Rightarrow> nat \<Rightarrow> (nat \<times> ('k, 'v) lh_table) option" where
  "lh_insert_loop t n =
     do {
       e \<leftarrow> entry t n;
       if vacant (e_k e) then Some (n, t)
       else
         let t = t\<lparr>t_collisions := t_collisions t + 1\<rparr> in
         lh_insert_loop t (next_slot t n)
     }"

declare lh_insert_loop.simps [code]

text \<open>The entry at \<open>n\<close> is filled and linked behind the tail.\<close>

definition lh_fill :: "nat \<Rightarrow> 'k \<Rightarrow> 'v option \<Rightarrow> ('k, 'v) lh_table \<Rightarrow> ('k, 'v) lh_table option" where
  "lh_fill n k v t =
     do {
       t \<leftarrow> upd_entry n (\<lambda>e. e\<lparr>e_k := Key k, e_v := v\<rparr>) t;
       let t = t\<lparr>t_count := t_count t + 1\<rparr>;
       case t_head t of
         None \<Rightarrow> upd_entry n (\<lambda>e. e\<lparr>e_next := None, e_prev := None\<rparr>) (t\<lparr>t_head := Some n, t_tail := Some n\<rparr>)
       | Some _ \<Rightarrow>
           do {
             tl \<leftarrow> t_tail t;
             t \<leftarrow> upd_entry tl (\<lambda>e. e\<lparr>e_next := Some n\<rparr>) t;
             t \<leftarrow> upd_entry n (\<lambda>e. e\<lparr>e_prev := t_tail t, e_next := None\<rparr>) t;
             Some (t\<lparr>t_tail := Some n\<rparr>)
           }
     }"

text \<open>The loop of \<open>lh_table_resize\<close>: \<open>ins\<close> is \<open>lh_table_insert\<close>, which calls it.\<close>

primrec insert_entries ::
  "(('k, 'v) lh_table \<Rightarrow> 'k \<Rightarrow> 'v option \<Rightarrow> (int \<times> ('k, 'v) lh_table) option) \<Rightarrow>
   ('k, 'v) lh_entry list \<Rightarrow> ('k, 'v) lh_table \<Rightarrow> ('k, 'v) lh_table option" where
  "insert_entries ins [] t = Some t"
| "insert_entries ins (e # es) t =
     do {
       k \<leftarrow> key_of (e_k e);
       (_, t) \<leftarrow> ins t k (e_v e);
       insert_entries ins es t
     }"

definition resize_by ::
  "(('k, 'v) lh_table \<Rightarrow> 'k \<Rightarrow> 'v option \<Rightarrow> (int \<times> ('k, 'v) lh_table) option) \<Rightarrow>
   ('k, 'v) lh_table \<Rightarrow> int \<Rightarrow> ('k, 'v) lh_table option" where
  "resize_by ins t new_size =
     do {
       new_t \<leftarrow> lh_table_new new_size (t_name t) False (t_hash_fn t) (t_equal_fn t);
       es \<leftarrow> lh_walk t (t_head t);
       new_t \<leftarrow> insert_entries ins es new_t;
       Some (t\<lparr>t_table := t_table new_t, t_size := new_size, t_head := t_head new_t, t_tail := t_tail new_t,
               t_resizes := t_resizes t + 1\<rparr>)
     }"

lemma insert_entries_mono [partial_function_mono]:
  assumes "\<And>t k v. mono_option (\<lambda>f. ins f t k v)"
  shows "mono_option (\<lambda>f. insert_entries (ins f) es t)"
proof (induction es arbitrary: t)
  case Nil
  show ?case by (simp add: option.const_mono)
next
  case (Cons e es)
  show ?case
    unfolding insert_entries.simps
    by (intro bind_mono option.const_mono assms) (auto intro!: bind_mono assms Cons.IH option.const_mono split: prod.split)
qed

lemma resize_by_mono [partial_function_mono]:
  assumes "\<And>t k v. mono_option (\<lambda>f. ins f t k v)"
  shows "mono_option (\<lambda>f. resize_by (ins f) t s)"
  unfolding resize_by_def by (intro bind_mono option.const_mono insert_entries_mono assms)

text \<open>
  \<open>t->count > t->size * 0.66\<close> compares with the product of doubles. The double nearest to 0.66 is
  above it by less than \<open>2 ^ - 54\<close>, so that for sizes of type \<open>int\<close> the rounded product is on the same side
  of every integer as the exact one.
\<close>

definition overfull :: "('k, 'v) lh_table \<Rightarrow> bool" where
  "overfull t \<longleftrightarrow> 100 * t_count t > 66 * t_size t"

partial_function (option) lh_table_insert ::
  "('k, 'v) lh_table \<Rightarrow> 'k \<Rightarrow> 'v option \<Rightarrow> (int \<times> ('k, 'v) lh_table) option" where
  "lh_table_insert t k v =
     do {
       let t = t\<lparr>t_inserts := t_inserts t + 1\<rparr>;
       t \<leftarrow> (if overfull t then
               (if t_size t \<ge> 2 ^ 30 then None else resize_by (\<lambda>t k v. lh_table_insert t k v) t (2 * t_size t))
             else Some t);
       n \<leftarrow> first_slot t k;
       (n, t) \<leftarrow> lh_insert_loop t n;
       t \<leftarrow> lh_fill n k v t;
       Some (0, t)
     }"

declare lh_table_insert.simps [code]

definition lh_table_resize :: "('k, 'v) lh_table \<Rightarrow> int \<Rightarrow> ('k, 'v) lh_table option" where
  "lh_table_resize t new_size = resize_by lh_table_insert t new_size"

subsection \<open>Lookup, deletion, release\<close>

partial_function (option) lh_lookup_loop :: "('k, 'v) lh_table \<Rightarrow> 'k \<Rightarrow> nat \<Rightarrow> nat option option" where
  "lh_lookup_loop t k n =
     do {
       e \<leftarrow> entry t n;
       case e_k e of
         LH_EMPTY \<Rightarrow> Some None
       | LH_FREED \<Rightarrow> lh_lookup_loop t k (next_slot t n)
       | Key k' \<Rightarrow> if t_equal_fn t k' k then Some (Some n) else lh_lookup_loop t k (next_slot t n)
     }"

declare lh_lookup_loop.simps [code]

definition lh_table_lookup_entry :: "('k, 'v) lh_table \<Rightarrow> 'k \<Rightarrow> (nat option \<times> ('k, 'v) lh_table) option" where
  "lh_table_lookup_entry t k =
     do {
       n \<leftarrow> first_slot t k;
       let t = t\<lparr>t_lookups := t_lookups t + 1\<rparr>;
       r \<leftarrow> lh_lookup_loop t k n;
       Some (r, t)
     }"

definition lh_table_lookup :: "('k, 'v) lh_table \<Rightarrow> 'k \<Rightarrow> ('v option \<times> ('k, 'v) lh_table) option" where
  "lh_table_lookup t k =
     do {
       (r, t) \<leftarrow> lh_table_lookup_entry t k;
       case r of
         None \<Rightarrow> Some (None, t)
       | Some n \<Rightarrow> do { e \<leftarrow> entry t n; Some (e_v e, t) }
     }"

text \<open>The four cases in which an entry leaves the list.\<close>

definition lh_unlink :: "nat \<Rightarrow> ('k, 'v) lh_table \<Rightarrow> ('k, 'v) lh_table option" where
  "lh_unlink n t =
     do {
       e \<leftarrow> entry t n;
       if t_tail t = Some n \<and> t_head t = Some n then Some (t\<lparr>t_head := None, t_tail := None\<rparr>)
       else if t_head t = Some n then
         do {
           m \<leftarrow> e_next e;
           t \<leftarrow> upd_entry m (\<lambda>e. e\<lparr>e_prev := None\<rparr>) t;
           Some (t\<lparr>t_head := Some m\<rparr>)
         }
       else if t_tail t = Some n then
         do {
           m \<leftarrow> e_prev e;
           t \<leftarrow> upd_entry m (\<lambda>e. e\<lparr>e_next := None\<rparr>) t;
           Some (t\<lparr>t_tail := Some m\<rparr>)
         }
       else
         do {
           p \<leftarrow> e_prev e;
           t \<leftarrow> upd_entry p (\<lambda>x. x\<lparr>e_next := e_next e\<rparr>) t;
           e \<leftarrow> entry t n;
           m \<leftarrow> e_next e;
           upd_entry m (\<lambda>x. x\<lparr>e_prev := e_prev e\<rparr>) t
         }
     }"

definition lh_table_delete_entry :: "('k, 'v) lh_table \<Rightarrow> int \<Rightarrow> (int \<times> ('k, 'v) lh_table) option" where
  "lh_table_delete_entry t e =
     (if e < 0 then Some (- 2, t)
      else
        do {
          let n = nat e;
          x \<leftarrow> entry t n;
          case e_k x of
            Key k \<Rightarrow>
              do {
                let t = t\<lparr>t_count := t_count t - 1, t_freed := t_freed t @ (if t_free_fn t then [(k, e_v x)] else [])\<rparr>;
                t \<leftarrow> upd_entry n (\<lambda>x. x\<lparr>e_v := None, e_k := LH_FREED\<rparr>) t;
                t \<leftarrow> lh_unlink n t;
                t \<leftarrow> upd_entry n (\<lambda>x. x\<lparr>e_next := None, e_prev := None\<rparr>) t;
                Some (0, t)
              }
          | _ \<Rightarrow> Some (- 1, t)
        })"

definition lh_table_delete :: "('k, 'v) lh_table \<Rightarrow> 'k \<Rightarrow> (int \<times> ('k, 'v) lh_table) option" where
  "lh_table_delete t k =
     do {
       (r, t) \<leftarrow> lh_table_lookup_entry t k;
       case r of
         None \<Rightarrow> Some (- 1, t)
       | Some n \<Rightarrow> lh_table_delete_entry t (int n)
     }"

text \<open>The keys and values that \<open>lh_table_free\<close> passes to \<open>free_fn\<close>.\<close>

definition lh_table_free :: "('k, 'v) lh_table \<Rightarrow> ('k lh_key \<times> 'v option) list option" where
  "lh_table_free t =
     do {
       es \<leftarrow> lh_walk t (t_head t);
       Some (if t_free_fn t then map (\<lambda>e. (e_k e, e_v e)) es else [])
     }"

end
