(* ===== verification/Linkhash_Props.thy ===== *)
theory Linkhash_Props
  imports Linkhash
begin

text \<open>
  The hash table of the JSON library refines an association list in the order of insertion: the
  linked entries are exactly the occupied slots, and every key is found from the slot of its hash
  without crossing a slot that was never used.
\<close>

subsection \<open>Segments of the linked list\<close>

fun seg :: "('k, 'v) lh_entry list \<Rightarrow> nat option \<Rightarrow> nat list \<Rightarrow> nat option \<Rightarrow> bool" where
  "seg tb p [] q = True"
| "seg tb p (n # ns) q \<longleftrightarrow> n < length tb \<and> e_prev (tb ! n) = p \<and> e_next (tb ! n) = (case ns of [] \<Rightarrow> q | m # _ \<Rightarrow> Some m) \<and>
     seg tb (Some n) ns q"

abbreviation first_of :: "nat list \<Rightarrow> nat option \<Rightarrow> nat option" where
  "first_of ns q \<equiv> (case ns of [] \<Rightarrow> q | m # _ \<Rightarrow> Some m)"

abbreviation last_of :: "nat list \<Rightarrow> nat option \<Rightarrow> nat option" where
  "last_of ns p \<equiv> (if ns = [] then p else Some (last ns))"

lemma seg_append: "seg tb p (as @ bs) q \<longleftrightarrow> seg tb p as (first_of bs q) \<and> seg tb (last_of as p) bs q"
  by (induction as arbitrary: p) (auto split: list.splits)

lemma seg_other: "n \<notin> set ns \<Longrightarrow> seg (tb[n := e]) p ns q = seg tb p ns q"
  by (induction ns arbitrary: p) auto

lemma seg_cong:
  assumes "length tb' = length tb" "\<And>n. n \<in> set ns \<Longrightarrow> e_prev (tb' ! n) = e_prev (tb ! n) \<and> e_next (tb' ! n) = e_next (tb ! n)"
  shows "seg tb' p ns q = seg tb p ns q"
  using assms(2) by (induction ns arbitrary: p) (auto simp: assms(1))

lemma seg_bounds: "seg tb p ns q \<Longrightarrow> n \<in> set ns \<Longrightarrow> n < length tb"
  by (induction ns arbitrary: p) auto

lemma seg_set_next:
  assumes "seg tb p (as @ [m]) q" "m \<notin> set as"
  shows "seg (tb[m := (tb ! m)\<lparr>e_next := q'\<rparr>]) p (as @ [m]) q'"
  using assms by (auto simp: seg_append seg_other)

lemma seg_set_prev:
  assumes "seg tb p (m # bs) q" "m \<notin> set bs"
  shows "seg (tb[m := (tb ! m)\<lparr>e_prev := p'\<rparr>]) p' (m # bs) q"
  using assms by (auto simp: seg_other)

lemma lh_walk_seg:
  "seg (t_table t) p ns None \<Longrightarrow> lh_walk t (first_of ns None) = Some (map ((!) (t_table t)) ns)"
proof (induction ns arbitrary: p)
  case Nil
  then show ?case by (simp add: lh_walk.simps)
next
  case (Cons n ns)
  then show ?case by (subst lh_walk.simps) (auto simp: entry_def)
qed

subsection \<open>Probing\<close>

definition slot :: "nat \<Rightarrow> nat \<Rightarrow> nat \<Rightarrow> nat" where
  "slot S h j = (h + j) mod S"

lemma next_slot_slot:
  assumes "int S = t_size t" "0 < S"
  shows "next_slot t (slot S h j) = slot S h (Suc j)"
proof -
  have "(int (Suc (slot S h j)) = t_size t) = (Suc (slot S h j) = S)" using assms(1) by linarith
  then show ?thesis by (simp add: next_slot_def slot_def mod_Suc)
qed

lemma slot_lt: "0 < S \<Longrightarrow> slot S h j < S"
  by (simp add: slot_def)

lemma ex_slot:
  assumes "n < S"
  shows "\<exists>d < S. slot S h d = n"
proof (intro exI conjI)
  let ?d = "(n + (S - h mod S)) mod S"
  have "h mod S < S" using assms by simp
  show "?d < S" using assms by simp
  have "slot S h ?d = (h mod S + (n + (S - h mod S))) mod S" by (simp add: slot_def mod_simps)
  also have "\<dots> = (n + S) mod S" using \<open>h mod S < S\<close> by simp
  finally show "slot S h ?d = n" using assms by simp
qed

definition hash_of :: "('k, 'v) lh_table \<Rightarrow> 'k \<Rightarrow> nat" where
  "hash_of t k = unat (t_hash_fn t k)"

lemma first_slot_eq:
  assumes "t_size t = int S" "0 < S"
  shows "first_slot t k = Some (slot S (hash_of t k) 0)"
proof -
  have "uint (t_hash_fn t k) mod int S = int (unat (t_hash_fn t k) mod S)" by (simp add: zmod_int)
  then show ?thesis using assms by (simp add: first_slot_def slot_def hash_of_def)
qed

text \<open>The slot \<open>n\<close> is met from the slot of the hash before any slot that was never used.\<close>

definition met :: "('k, 'v) lh_table \<Rightarrow> nat \<Rightarrow> nat \<Rightarrow> bool" where
  "met t h n \<longleftrightarrow> (\<exists>d < length (t_table t). n = slot (length (t_table t)) h d \<and>
     (\<forall>j < d. e_k (t_table t ! slot (length (t_table t)) h j) \<noteq> LH_EMPTY))"

lemma insert_loop_steps:
  assumes sz: "int S = t_size t" "S = length (t_table t)" "0 < S"
    and v: "vacant (e_k (t_table t ! slot S h (i + d)))" and o: "\<forall>j < d. \<not> vacant (e_k (t_table t ! slot S h (i + j)))"
  shows "lh_insert_loop t (slot S h i) = Some (slot S h (i + d), t\<lparr>t_collisions := t_collisions t + of_nat d\<rparr>)"
  using assms
proof (induction d arbitrary: i t)
  case 0
  then show ?case by (subst lh_insert_loop.simps) (simp add: entry_def slot_lt)
next
  case (Suc d)
  let ?t = "t\<lparr>t_collisions := t_collisions t + 1\<rparr>"
  have "lh_insert_loop ?t (slot S h (Suc i)) = Some (slot S h (Suc i + d), ?t\<lparr>t_collisions := t_collisions ?t + of_nat d\<rparr>)"
    by (rule Suc.IH) (use Suc.prems in \<open>auto dest: spec [of _ "Suc j" for j]\<close>)
  moreover have "\<not> vacant (e_k (t_table t ! slot S h i))" using Suc.prems(5) [rule_format, of 0] by simp
  moreover have "next_slot ?t (slot S h i) = slot S h (Suc i)" by (rule next_slot_slot) (use Suc.prems in auto)
  moreover have "slot S h i < length (t_table t)" using Suc.prems(2,3) slot_lt by blast
  ultimately show ?case by (subst lh_insert_loop.simps) (simp add: entry_def add.assoc)
qed

lemma insert_loop_finds:
  assumes sz: "int S = t_size t" "S = length (t_table t)" "0 < S" and n: "n < S" "vacant (e_k (t_table t ! n))"
  shows "\<exists>m c. lh_insert_loop t (slot S h 0) = Some (m, t\<lparr>t_collisions := c\<rparr>) \<and> m < S \<and> vacant (e_k (t_table t ! m)) \<and> met t h m"
proof -
  let ?P = "\<lambda>d. vacant (e_k (t_table t ! slot S h d))"
  obtain d0 where d0: "d0 < S" "?P d0" using ex_slot [OF n(1)] n(2) by metis
  define d where "d = (LEAST d. ?P d)"
  have d: "?P d" "d \<le> d0" unfolding d_def by (rule LeastI [of ?P, OF d0(2)], rule Least_le [of ?P, OF d0(2)])
  have nv: "\<not> ?P j" if "j < d" for j using not_less_Least that unfolding d_def by blast
  then have "lh_insert_loop t (slot S h 0) = Some (slot S h d, t\<lparr>t_collisions := t_collisions t + of_nat d\<rparr>)"
    using insert_loop_steps [OF sz, of h 0 d] d(1) by simp
  moreover have "e_k (t_table t ! slot S h j) \<noteq> LH_EMPTY" if "j < d" for j using nv [OF that] by (metis vacant.simps(2))
  then have "met t h (slot S h d)" unfolding met_def sz(2) [symmetric] using d(2) d0(1) by (intro exI [of _ d]) auto
  ultimately show ?thesis using d(1) slot_lt [OF sz(3)] by blast
qed

subsection \<open>Invariant\<close>

definition lh_with :: "('k, 'v) lh_table \<Rightarrow> nat list \<Rightarrow> bool" where
  "lh_with t ns \<longleftrightarrow> t_size t = int (length (t_table t)) \<and> 0 < length (t_table t) \<and> t_size t < 2 ^ 31 \<and> distinct ns \<and>
     set ns = {n. n < length (t_table t) \<and> \<not> vacant (e_k (t_table t ! n))} \<and> t_count t = int (length ns) \<and>
     seg (t_table t) None ns None \<and> t_head t = first_of ns None \<and> t_tail t = last_of ns None \<and>
     (\<forall>n k. n < length (t_table t) \<longrightarrow> e_k (t_table t ! n) = Key k \<longrightarrow> met t (hash_of t k) n)"

definition kv :: "('k, 'v) lh_entry \<Rightarrow> 'k \<times> 'v option" where
  "kv e = (the (key_of (e_k e)), e_v e)"

definition kvs :: "('k, 'v) lh_table \<Rightarrow> nat list \<Rightarrow> ('k \<times> 'v option) list" where
  "kvs t ns = map (\<lambda>n. kv (t_table t ! n)) ns"

text \<open>The table holds an association list, by string or pointer equality of distinct keys.\<close>

definition lh_holds :: "('k, 'v) lh_table \<Rightarrow> ('k \<times> 'v option) list \<Rightarrow> bool" where
  "lh_holds t xs \<longleftrightarrow> (\<exists>ns. lh_with t ns \<and> xs = kvs t ns) \<and> distinct (map fst xs) \<and> t_equal_fn t = (=)"

text \<open>The slots that have been used since the table got its size.\<close>

definition used :: "('k, 'v) lh_table \<Rightarrow> nat" where
  "used t = length (filter (\<lambda>e. e_k e \<noteq> LH_EMPTY) (t_table t))"

lemma met_mono:
  assumes "met t h n" "length (t_table t') = length (t_table t)"
    "\<And>m. m < length (t_table t) \<Longrightarrow> e_k (t_table t ! m) \<noteq> LH_EMPTY \<Longrightarrow> e_k (t_table t' ! m) \<noteq> LH_EMPTY"
  shows "met t' h n"
proof -
  obtain d where d: "d < length (t_table t)" "n = slot (length (t_table t)) h d"
      "\<forall>j < d. e_k (t_table t ! slot (length (t_table t)) h j) \<noteq> LH_EMPTY" using assms(1) by (auto simp: met_def)
  have "slot (length (t_table t)) h j < length (t_table t)" for j using d(1) by (intro slot_lt) linarith
  then show ?thesis unfolding met_def assms(2) using d assms(3) by blast
qed

lemma entry_full:
  "(e :: ('k, 'v) lh_entry)\<lparr>e_k := a, e_v := b, e_next := c, e_prev := d\<rparr> = \<lparr>e_k = a, e_v = b, e_next = c, e_prev = d\<rparr>"
  "(e :: ('k, 'v) lh_entry)\<lparr>e_k := a, e_v := b, e_prev := d, e_next := c\<rparr> = \<lparr>e_k = a, e_v = b, e_next = c, e_prev = d\<rparr>"
  by (cases e; simp)+

lemma lh_fill_ok:
  assumes w: "lh_with t ns" and n: "n < length (t_table t)" "vacant (e_k (t_table t ! n))" and m: "met t (hash_of t k) n"
  shows "\<exists>t'. lh_fill n k v t = Some t' \<and> lh_with t' (ns @ [n]) \<and> kvs t' (ns @ [n]) = kvs t ns @ [(k, v)] \<and>
    t_size t' = t_size t \<and> t_hash_fn t' = t_hash_fn t \<and> t_equal_fn t' = t_equal_fn t \<and> t_freed t' = t_freed t \<and>
    t_free_fn t' = t_free_fn t \<and> map e_k (t_table t') = (map e_k (t_table t))[n := Key k]"
proof -
  let ?tb = "t_table t" and ?e = "\<lambda>p. \<lparr>e_k = Key k, e_v = v, e_next = None, e_prev = p\<rparr>"
  have sg: "seg ?tb None ns None" and ds: "distinct ns" and st: "set ns = {n. n < length ?tb \<and> \<not> vacant (e_k (?tb ! n))}"
    and pr: "\<forall>n k. n < length ?tb \<longrightarrow> e_k (?tb ! n) = Key k \<longrightarrow> met t (hash_of t k) n"
    using w by (auto simp: lh_with_def)
  have nn: "n \<notin> set ns" using n(2) st by simp
  define tb where "tb = (if ns = [] then ?tb[n := ?e None]
    else (?tb[last ns := (?tb ! last ns)\<lparr>e_next := Some n\<rparr>])[n := ?e (Some (last ns))])"
  define t' where "t' = t\<lparr>t_table := tb, t_count := t_count t + 1, t_head := first_of (ns @ [n]) None, t_tail := Some n\<rparr>"
  have l: "last ns < length ?tb" "last ns \<noteq> n" if "ns \<noteq> []" using that nn st last_in_set [OF that] by auto
  have "(map e_k ?tb)[i := e_k (?tb ! i)] = map e_k ?tb" if "i < length ?tb" for i
    using that by (simp add: list_update_same_conv)
  then have ek: "map e_k tb = (map e_k ?tb)[n := Key k]"
    using l by (auto simp: tb_def map_update)
  have kvo: "kv (tb ! i) = kv (?tb ! i)" if "i \<noteq> n" for i
    using that l by (cases "i < length ?tb") (auto simp: tb_def kv_def nth_list_update split: if_splits)
  have fill: "lh_fill n k v t = Some t'"
  proof (cases ns)
    case Nil
    then have "t_head t = None" using w by (simp add: lh_with_def)
    then show ?thesis using n(1) Nil
      by (auto simp: lh_fill_def upd_entry_def entry_def tb_def t'_def Let_def entry_full intro!: lh_table.equality)
  next
    case (Cons a as)
    then have tl: "t_tail t = Some (last ns)" "t_head t = Some a" using w by (auto simp: lh_with_def)
    have "last ns < length ?tb" "last ns \<noteq> n" using l Cons by auto
    then show ?thesis using tl n Cons
      by (auto simp: lh_fill_def upd_entry_def entry_def tb_def t'_def Let_def list_update_swap entry_full intro!: lh_table.equality)
  qed
  have len: "length tb = length ?tb" by (simp add: tb_def)
  have ekn: "e_k (tb ! i) = (if i = n then Key k else e_k (?tb ! i))" if "i < length ?tb" for i
    using arg_cong [OF ek, of "\<lambda>xs. xs ! i"] that len by (simp add: nth_list_update)
  have "seg tb None (ns @ [n]) None"
  proof (cases "ns = []")
    case True
    then show ?thesis using n(1) by (simp add: tb_def)
  next
    case False
    then obtain as m where ns: "ns = as @ [m]" by (metis rev_exhaust)
    have "seg (?tb[m := (?tb ! m)\<lparr>e_next := Some n\<rparr>]) None ns (Some n)"
      unfolding ns by (rule seg_set_next) (use sg ds ns in auto)
    then show ?thesis using nn n(1) ns by (auto simp: seg_append seg_other tb_def split: if_splits)
  qed
  moreover have "set (ns @ [n]) = {i. i < length tb \<and> \<not> vacant (e_k (tb ! i))}"
    using st n(1) ekn by (auto simp: len split: if_splits)
  moreover have "met t' (hash_of t' k') i" if i: "i < length tb" "e_k (tb ! i) = Key k'" for i k'
  proof -
    have "met t (hash_of t k') i" using that ekn [of i] pr m by (auto simp: len split: if_splits)
    then show ?thesis
      using ekn by (intro met_mono [of t _ i t']) (auto simp: t'_def len hash_of_def)
  qed
  ultimately have "lh_with t' (ns @ [n])"
    using w ds nn len by (auto simp: lh_with_def t'_def)
  moreover have "kvs t' (ns @ [n]) = kvs t ns @ [(k, v)]"
  proof -
    have "map (\<lambda>i. kv (tb ! i)) ns = map (\<lambda>i. kv (?tb ! i)) ns" using kvo nn by (metis (no_types, lifting) map_cong)
    moreover have "kv (tb ! n) = (k, v)" using n(1) by (simp add: tb_def kv_def)
    ultimately show ?thesis by (simp add: kvs_def t'_def)
  qed
  ultimately show ?thesis using fill ek by (simp add: t'_def)
qed

lemma lh_stats [simp]:
  "hash_of (t\<lparr>t_inserts := a\<rparr>) = hash_of t" "hash_of (t\<lparr>t_collisions := a\<rparr>) = hash_of t" "hash_of (t\<lparr>t_lookups := a\<rparr>) = hash_of t"
  "met (t\<lparr>t_inserts := a\<rparr>) = met t" "met (t\<lparr>t_collisions := a\<rparr>) = met t" "met (t\<lparr>t_lookups := a\<rparr>) = met t"
  "lh_with (t\<lparr>t_inserts := a\<rparr>) ns = lh_with t ns" "lh_with (t\<lparr>t_collisions := a\<rparr>) ns = lh_with t ns"
  "lh_with (t\<lparr>t_lookups := a\<rparr>) ns = lh_with t ns"
  "kvs (t\<lparr>t_inserts := a\<rparr>) ns = kvs t ns" "kvs (t\<lparr>t_collisions := a\<rparr>) ns = kvs t ns" "kvs (t\<lparr>t_lookups := a\<rparr>) ns = kvs t ns"
  "overfull (t\<lparr>t_inserts := a\<rparr>) = overfull t"
  by (simp_all add: hash_of_def [abs_def] met_def [abs_def] lh_with_def kvs_def overfull_def)

lemma length_filter_update: "length (filter P (xs[i := x])) \<le> Suc (length (filter P xs))"
  by (induction xs arbitrary: i) (auto split: nat.split)

lemma used_keys: "used t = length (filter (\<lambda>k. k \<noteq> LH_EMPTY) (map e_k (t_table t)))"
  by (simp add: used_def filter_map o_def)

lemma used_fill: "map e_k (t_table t') = (map e_k (t_table t))[n := k] \<Longrightarrow> used t' \<le> Suc (used t)"
  unfolding used_keys by (simp only: length_filter_update)

text \<open>What an insertion leaves alone.\<close>

definition same_fns :: "('k, 'v) lh_table \<Rightarrow> ('k, 'v) lh_table \<Rightarrow> bool" where
  "same_fns t t' \<longleftrightarrow> t_hash_fn t' = t_hash_fn t \<and> t_equal_fn t' = t_equal_fn t \<and> t_free_fn t' = t_free_fn t \<and> t_freed t' = t_freed t"

lemma lh_with_le:
  assumes "lh_with t ns"
  shows "length ns \<le> length (t_table t)" "length ns = length (t_table t) \<Longrightarrow> n < length (t_table t) \<Longrightarrow> \<not> vacant (e_k (t_table t ! n))"
proof -
  have "distinct ns" and st: "set ns = {n. n < length (t_table t) \<and> \<not> vacant (e_k (t_table t ! n))}" using assms by (auto simp: lh_with_def)
  then have s: "set ns \<subseteq> {..<length (t_table t)}" "card (set ns) = length ns" using distinct_card by blast+
  then show "length ns \<le> length (t_table t)" using card_mono [OF finite_lessThan s(1)] by simp
  assume "length ns = length (t_table t)" "n < length (t_table t)"
  then have "n \<in> set ns" using card_subset_eq [OF finite_lessThan s(1)] s(2) by (metis card_lessThan lessThan_iff)
  then show "\<not> vacant (e_k (t_table t ! n))" using st by simp
qed

lemma vacant_slot:
  assumes "lh_with t ns" "\<not> overfull t"
  shows "\<exists>n < length (t_table t). vacant (e_k (t_table t ! n))"
proof (rule ccontr)
  assume a: "\<not> ?thesis"
  have "distinct ns" "set ns = {n. n < length (t_table t) \<and> \<not> vacant (e_k (t_table t ! n))}" using assms(1) by (auto simp: lh_with_def)
  moreover from this(2) a have "set ns = {..<length (t_table t)}" by auto
  ultimately have "length ns = length (t_table t)" using distinct_card [of ns] by (metis card_lessThan)
  then show False using assms by (auto simp: lh_with_def overfull_def)
qed

text \<open>The part of an insertion that follows the resizing.\<close>

definition place :: "('k, 'v) lh_table \<Rightarrow> 'k \<Rightarrow> 'v option \<Rightarrow> (int \<times> ('k, 'v) lh_table) option" where
  "place t k v =
     do {
       n \<leftarrow> first_slot t k;
       (n, t) \<leftarrow> lh_insert_loop t n;
       t \<leftarrow> lh_fill n k v t;
       Some (0, t)
     }"

lemma place_ok:
  assumes w: "lh_with t ns" and o: "\<not> overfull t"
  shows "\<exists>t' n. place t k v = Some (0, t') \<and> lh_with t' (ns @ [n]) \<and> kvs t' (ns @ [n]) = kvs t ns @ [(k, v)] \<and>
    t_size t' = t_size t \<and> same_fns t t' \<and> used t' \<le> Suc (used t)"
proof -
  let ?S = "length (t_table t)"
  have sz: "int ?S = t_size t" "?S = length (t_table t)" "0 < ?S" using w by (auto simp: lh_with_def)
  obtain n where n: "n < ?S" "vacant (e_k (t_table t ! n))" using vacant_slot [OF w o] by auto
  obtain m c where m: "lh_insert_loop t (slot ?S (hash_of t k) 0) = Some (m, t\<lparr>t_collisions := c\<rparr>)" "m < ?S"
      "vacant (e_k (t_table t ! m))" "met t (hash_of t k) m"
    using insert_loop_finds [OF sz n, of "hash_of t k"] by blast
  obtain t' where t': "lh_fill m k v (t\<lparr>t_collisions := c\<rparr>) = Some t'" "lh_with t' (ns @ [m])" "kvs t' (ns @ [m]) = kvs t ns @ [(k, v)]"
      "t_size t' = t_size t" "same_fns t t'" "map e_k (t_table t') = (map e_k (t_table t))[m := Key k]"
    using lh_fill_ok [of "t\<lparr>t_collisions := c\<rparr>" ns m k v] w m by (auto simp: same_fns_def)
  moreover have "first_slot t k = Some (slot ?S (hash_of t k) 0)" using first_slot_eq [of t ?S k] sz by simp
  ultimately have "place t k v = Some (0, t')" using m(1) by (simp add: place_def)
  then show ?thesis using t' used_fill [OF t'(6)] by blast
qed

lemma used_inserts [simp]: "used (t\<lparr>t_inserts := a\<rparr>) = used t"
  by (simp add: used_def)

lemma insert_plain:
  assumes w: "lh_with t ns" and o: "\<not> overfull t"
  shows "\<exists>t' n. lh_table_insert t k v = Some (0, t') \<and> lh_with t' (ns @ [n]) \<and> kvs t' (ns @ [n]) = kvs t ns @ [(k, v)] \<and>
    t_size t' = t_size t \<and> same_fns t t' \<and> used t' \<le> Suc (used t)"
proof -
  have "lh_table_insert t k v = place (t\<lparr>t_inserts := t_inserts t + 1\<rparr>) k v"
    using o by (subst lh_table_insert.simps) (simp add: place_def Let_def)
  then show ?thesis
    using place_ok [of "t\<lparr>t_inserts := t_inserts t + 1\<rparr>" ns k v] w o by (simp add: same_fns_def)
qed

lemma insert_entries_ok:
  assumes "lh_with t ns" "\<forall>e \<in> set es. \<not> vacant (e_k e)" "100 * int (length ns + length es) \<le> 66 * t_size t + 100"
  shows "\<exists>t' ms. insert_entries lh_table_insert es t = Some t' \<and> lh_with t' ms \<and> kvs t' ms = kvs t ns @ map kv es \<and>
    t_size t' = t_size t \<and> same_fns t t' \<and> used t' \<le> used t + length es"
  using assms
proof (induction es arbitrary: t ns)
  case Nil
  then show ?case by (auto simp: same_fns_def)
next
  case (Cons e es)
  obtain k where k: "e_k e = Key k" using Cons.prems(2) by (cases "e_k e") auto
  have "\<not> overfull t" using Cons.prems(1,3) by (simp add: overfull_def lh_with_def)
  from insert_plain [OF Cons.prems(1) this] obtain t1 n where t1: "lh_table_insert t k (e_v e) = Some (0, t1)" "lh_with t1 (ns @ [n])"
      "kvs t1 (ns @ [n]) = kvs t ns @ [(k, e_v e)]" "t_size t1 = t_size t" "same_fns t t1" "used t1 \<le> Suc (used t)" by blast
  moreover have "100 * int (length (ns @ [n]) + length es) \<le> 66 * t_size t1 + 100" using Cons.prems(3) t1(4) by simp
  ultimately obtain t2 ms where "insert_entries lh_table_insert es t1 = Some t2" "lh_with t2 ms"
      "kvs t2 ms = kvs t1 (ns @ [n]) @ map kv es" "t_size t2 = t_size t1" "same_fns t1 t2" "used t2 \<le> used t1 + length es"
    using Cons.IH [of t1 "ns @ [n]"] Cons.prems(2) by auto
  then show ?case using t1 k by (intro exI [of _ t2] exI [of _ ms]) (auto simp: same_fns_def kv_def)
qed

lemma lh_new_with:
  assumes "lh_table_new sz nm fr hf eq = Some t" "sz < 2 ^ 31"
  shows "lh_with t [] \<and> kvs t [] = [] \<and> t_size t = sz \<and> used t = 0 \<and> t_hash_fn t = hf \<and> t_equal_fn t = eq"
  using assms by (auto simp: lh_table_new_def lh_with_def kvs_def used_def empty_entry_def split: if_splits)

lemma resize_ok:
  assumes w: "lh_with t ns" and sz: "t_size t < 2 ^ 30"
  shows "\<exists>t' ms. resize_by lh_table_insert t (2 * t_size t) = Some t' \<and> lh_with t' ms \<and> kvs t' ms = kvs t ns \<and>
    t_size t' = 2 * t_size t \<and> same_fns t t' \<and> used t' \<le> length ns"
proof -
  let ?es = "map ((!) (t_table t)) ns"
  have sg: "seg (t_table t) None ns None" and hd: "t_head t = first_of ns None" and cn: "t_count t = int (length ns)"
    and st: "set ns = {n. n < length (t_table t) \<and> \<not> vacant (e_k (t_table t ! n))}" and ds: "distinct ns"
    and S: "t_size t = int (length (t_table t))" "0 < length (t_table t)"
    using w by (auto simp: lh_with_def)
  obtain u :: "('a, 'b) lh_table" where u: "lh_table_new (2 * t_size t) (t_name t) False (t_hash_fn t) (t_equal_fn t) = Some u"
    using S by (simp add: lh_table_new_def)
  then have u0: "lh_with u []" "kvs u [] = []" "t_size u = 2 * t_size t" "used u = 0" "t_hash_fn u = t_hash_fn t"
    using lh_new_with [OF u] sz by auto
  have "length ns \<le> length (t_table t)" by (rule lh_with_le(1) [OF w])
  then have "100 * int (length ([] :: nat list) + length ?es) \<le> 66 * t_size u + 100" using u0(3) S by simp
  moreover have "\<forall>e \<in> set ?es. \<not> vacant (e_k e)" using st by auto
  ultimately obtain u1 ms where u1: "insert_entries lh_table_insert ?es u = Some u1" "lh_with u1 ms" "kvs u1 ms = map kv ?es"
      "t_size u1 = 2 * t_size t" "same_fns u u1" "used u1 \<le> length ns"
    using insert_entries_ok [OF u0(1), of ?es] u0(2-4) by auto
  define t' where "t' = t\<lparr>t_table := t_table u1, t_size := 2 * t_size t, t_head := t_head u1, t_tail := t_tail u1, t_resizes := t_resizes t + 1\<rparr>"
  have k: "kvs u1 ms = kvs t ns" using u1(3) by (simp add: kvs_def)
  then have "length ms = length ns" by (metis kvs_def length_map)
  moreover have "hash_of t' = hash_of u1" using u1(5) u0(5) by (simp add: hash_of_def [abs_def] t'_def same_fns_def)
  moreover have "met t' = met u1" by (simp add: met_def [abs_def] t'_def)
  ultimately have "lh_with t' ms" using u1(2,4) cn by (simp add: lh_with_def t'_def)
  moreover have "resize_by lh_table_insert t (2 * t_size t) = Some t'"
    using u u1(1) lh_walk_seg [OF sg] hd by (simp add: resize_by_def t'_def)
  moreover have "used t' = used u1" "kvs t' ms = kvs u1 ms" by (simp_all add: used_def kvs_def t'_def)
  ultimately show ?thesis using k u1(6) by (auto simp: t'_def same_fns_def)
qed

lemma insert_ok:
  assumes w: "lh_with t ns" and sz: "t_size t < 2 ^ 30"
  shows "\<exists>t' ms. lh_table_insert t k v = Some (0, t') \<and> lh_with t' ms \<and> kvs t' ms = kvs t ns @ [(k, v)] \<and>
    t_size t' = (if overfull t then 2 * t_size t else t_size t) \<and> same_fns t t' \<and>
    used t' \<le> Suc (if overfull t then length ns else used t)"
proof (cases "overfull t")
  case False
  then show ?thesis using insert_plain [OF w False, of k v] by auto
next
  case True
  let ?t = "t\<lparr>t_inserts := t_inserts t + 1\<rparr>"
  have "lh_with ?t ns" "t_size ?t < 2 ^ 30" using w sz by auto
  from resize_ok [OF this] obtain u ms where u: "resize_by lh_table_insert ?t (2 * t_size t) = Some u" "lh_with u ms"
      "kvs u ms = kvs t ns" "t_size u = 2 * t_size t" "same_fns t u" "used u \<le> length ns"
    by (auto simp: same_fns_def)
  have "length ns \<le> length (t_table t)" by (rule lh_with_le(1) [OF w])
  moreover have "length ms = length ns" using u(3) by (metis kvs_def length_map)
  ultimately have "\<not> overfull u" using u(2,4) w by (simp add: overfull_def lh_with_def)
  from place_ok [OF u(2) this, of k v] obtain t' n where t': "place u k v = Some (0, t')" "lh_with t' (ms @ [n])"
      "kvs t' (ms @ [n]) = kvs u ms @ [(k, v)]" "t_size t' = t_size u" "same_fns u t'" "used t' \<le> Suc (used u)" by blast
  have "lh_table_insert t k v = Some (0, t')"
    using True sz u(1) t'(1) by (subst lh_table_insert.simps) (simp add: place_def Let_def)
  then show ?thesis using t' u True by (intro exI [of _ t'] exI [of _ "ms @ [n]"]) (auto simp: same_fns_def)
qed

subsection \<open>Lookup\<close>

lemma lookup_steps:
  assumes sz: "int S = t_size t" "S = length (t_table t)" "0 < S"
    and p: "\<forall>j < d. e_k (t_table t ! slot S h (i + j)) \<noteq> LH_EMPTY \<and> (\<forall>k'. e_k (t_table t ! slot S h (i + j)) = Key k' \<longrightarrow> \<not> t_equal_fn t k' k)"
  shows "lh_lookup_loop t k (slot S h i) = lh_lookup_loop t k (slot S h (i + d))"
  using p
proof (induction d arbitrary: i)
  case (Suc d)
  have "slot S h i < length (t_table t)" using sz(2,3) slot_lt by blast
  moreover have "next_slot t (slot S h i) = slot S h (Suc i)" by (rule next_slot_slot [OF sz(1,3)])
  moreover have "e_k (t_table t ! slot S h i) \<noteq> LH_EMPTY" "\<And>k'. e_k (t_table t ! slot S h i) = Key k' \<Longrightarrow> \<not> t_equal_fn t k' k"
    using Suc.prems [rule_format, of 0] by auto
  ultimately have "lh_lookup_loop t k (slot S h i) = lh_lookup_loop t k (slot S h (Suc i))"
    by (subst lh_lookup_loop.simps) (auto simp: entry_def split: lh_key.split)
  also have "\<dots> = lh_lookup_loop t k (slot S h (Suc i + d))"
    using Suc.prems by (intro Suc.IH) (auto dest: spec [of _ "Suc j" for j])
  finally show ?case by simp
qed simp

lemma lookup_found:
  assumes w: "lh_with t ns" and eq: "t_equal_fn t = (=)" and n: "n < length (t_table t)" "e_k (t_table t ! n) = Key k"
  shows "\<exists>m. lh_lookup_loop t k (slot (length (t_table t)) (hash_of t k) 0) = Some (Some m) \<and> m < length (t_table t) \<and>
    e_k (t_table t ! m) = Key k"
proof -
  let ?S = "length (t_table t)" and ?h = "hash_of t k"
  let ?P = "\<lambda>d. e_k (t_table t ! slot ?S ?h d) = Key k"
  have sz: "int ?S = t_size t" "?S = ?S" "0 < ?S" using w by (auto simp: lh_with_def)
  have "met t ?h n" using w n by (auto simp: lh_with_def)
  then obtain d0 where d0: "?P d0" "\<forall>j < d0. e_k (t_table t ! slot ?S ?h j) \<noteq> LH_EMPTY" using n(2) by (auto simp: met_def)
  define d where "d = (LEAST d. ?P d)"
  have d: "?P d" "d \<le> d0" unfolding d_def by (rule LeastI [of ?P, OF d0(1)], rule Least_le [of ?P, OF d0(1)])
  have "\<not> ?P j" if "j < d" for j using not_less_Least that unfolding d_def by blast
  then have "lh_lookup_loop t k (slot ?S ?h 0) = lh_lookup_loop t k (slot ?S ?h (0 + d))"
    using d0(2) d(2) eq by (intro lookup_steps [OF sz]) auto
  also have "\<dots> = Some (Some (slot ?S ?h d))"
    using d(1) eq slot_lt [OF sz(3)] by (subst lh_lookup_loop.simps) (simp add: entry_def)
  finally show ?thesis using d(1) slot_lt [OF sz(3)] by blast
qed

lemma lookup_missing:
  assumes w: "lh_with t ns" and eq: "t_equal_fn t = (=)" and n: "n < length (t_table t)" "e_k (t_table t ! n) = LH_EMPTY"
    and no: "\<forall>m < length (t_table t). e_k (t_table t ! m) \<noteq> Key k"
  shows "lh_lookup_loop t k (slot (length (t_table t)) (hash_of t k) 0) = Some None"
proof -
  let ?S = "length (t_table t)" and ?h = "hash_of t k"
  let ?P = "\<lambda>d. e_k (t_table t ! slot ?S ?h d) = LH_EMPTY"
  have sz: "int ?S = t_size t" "?S = ?S" "0 < ?S" using w by (auto simp: lh_with_def)
  obtain d0 where d0: "?P d0" using ex_slot [OF n(1)] n(2) by metis
  define d where "d = (LEAST d. ?P d)"
  have d: "?P d" unfolding d_def by (rule LeastI [of ?P, OF d0])
  have "\<not> ?P j" if "j < d" for j using not_less_Least that unfolding d_def by blast
  moreover have "e_k (t_table t ! slot ?S ?h j) \<noteq> Key k" for j using no slot_lt [OF sz(3)] by blast
  ultimately have "lh_lookup_loop t k (slot ?S ?h 0) = lh_lookup_loop t k (slot ?S ?h (0 + d))"
    using eq by (intro lookup_steps [OF sz]) auto
  also have "\<dots> = Some None"
    using d slot_lt [OF sz(3)] by (subst lh_lookup_loop.simps) (simp add: entry_def)
  finally show ?thesis .
qed

text \<open>A lookup that returns has met a slot that was never used, or an equal key.\<close>

lemma lookup_loop_returns:
  assumes "lh_lookup_loop t k n = Some r"
  shows "\<exists>m < length (t_table t). e_k (t_table t ! m) = LH_EMPTY \<or> (\<exists>k'. e_k (t_table t ! m) = Key k' \<and> t_equal_fn t k' k)"
  by (rule lh_lookup_loop.raw_induct [OF _ assms])
    (auto simp: entry_def rd_def bind_eq_Some_conv split: if_splits lh_key.splits)

lemma used_empty:
  assumes "used t < length (t_table t)"
  shows "\<exists>n < length (t_table t). e_k (t_table t ! n) = LH_EMPTY"
proof (rule ccontr)
  assume "\<not> ?thesis"
  then have "\<forall>e \<in> set (t_table t). e_k e \<noteq> LH_EMPTY" by (auto simp: in_set_conv_nth)
  then show False using assms by (simp add: used_def)
qed

lemma lookup_entry_ok:
  assumes w: "lh_with t ns" and eq: "t_equal_fn t = (=)"
    and u: "used t < length (t_table t) \<or> (\<exists>n < length (t_table t). e_k (t_table t ! n) = Key k)"
  shows "\<exists>r. lh_table_lookup_entry t k = Some (r, t\<lparr>t_lookups := t_lookups t + 1\<rparr>) \<and>
    (case r of None \<Rightarrow> \<forall>n < length (t_table t). e_k (t_table t ! n) \<noteq> Key k
     | Some n \<Rightarrow> n < length (t_table t) \<and> e_k (t_table t ! n) = Key k)"
proof -
  let ?t = "t\<lparr>t_lookups := t_lookups t + 1\<rparr>"
  have w': "lh_with ?t ns" "t_equal_fn ?t = (=)" using w eq by auto
  have f: "first_slot t k = Some (slot (length (t_table ?t)) (hash_of ?t k) 0)"
    using first_slot_eq [of t "length (t_table t)" k] w by (simp add: lh_with_def)
  show ?thesis
  proof (cases "\<exists>n < length (t_table t). e_k (t_table t ! n) = Key k")
    case True
    then obtain n where "n < length (t_table ?t)" "e_k (t_table ?t ! n) = Key k" by auto
    from lookup_found [OF w' this] show ?thesis using f by (auto simp: lh_table_lookup_entry_def Let_def)
  next
    case False
    then obtain n where "n < length (t_table ?t)" "e_k (t_table ?t ! n) = LH_EMPTY" using u used_empty by auto
    from lookup_missing [OF w' this, of k] show ?thesis using f False by (auto simp: lh_table_lookup_entry_def Let_def)
  qed
qed

subsection \<open>Deletion\<close>

lemma unlink_ok:
  assumes sg: "seg (t_table t) None (as @ n # bs) None" and ds: "distinct (as @ n # bs)"
    and hd: "t_head t = first_of (as @ n # bs) None" and tl: "t_tail t = last_of (as @ n # bs) None"
  shows "\<exists>tb. lh_unlink n t = Some (t\<lparr>t_table := tb, t_head := first_of (as @ bs) None, t_tail := last_of (as @ bs) None\<rparr>) \<and>
    seg tb None (as @ bs) None \<and> length tb = length (t_table t) \<and>
    (\<forall>i. i < length tb \<longrightarrow> e_k (tb ! i) = e_k (t_table t ! i) \<and> e_v (tb ! i) = e_v (t_table t ! i))"
proof -
  let ?tb = "t_table t"
  have n: "n < length ?tb" "e_prev (?tb ! n) = last_of as None" "e_next (?tb ! n) = first_of bs None"
      "seg ?tb None as (Some n)" "seg ?tb (Some n) bs None"
    using sg by (auto simp: seg_append)
  consider (sole) "as = []" "bs = []" | (head) m bs' where "as = []" "bs = m # bs'" | (tail) as' p where "as = as' @ [p]" "bs = []"
    | (mid) as' p m bs' where "as = as' @ [p]" "bs = m # bs'"
    by (metis list.exhaust rev_exhaust)
  then show ?thesis
  proof cases
    case sole
    then show ?thesis using n(1) hd tl by (intro exI [of _ ?tb]) (simp add: lh_unlink_def entry_def)
  next
    case head
    let ?u = "?tb[m := (?tb ! m)\<lparr>e_prev := None\<rparr>]"
    have "m < length ?tb" using n(5) head by simp
    moreover have "t_tail t \<noteq> Some n" using tl ds head by (auto split: if_splits)
    moreover have "seg ?u None bs None" unfolding head by (rule seg_set_prev) (use n(5) ds head in auto)
    ultimately show ?thesis using n hd tl head
      by (intro exI [of _ ?u]) (auto simp: lh_unlink_def entry_def upd_entry_def nth_list_update intro!: lh_table.equality)
  next
    case tail
    let ?u = "?tb[p := (?tb ! p)\<lparr>e_next := None\<rparr>]"
    have p: "p < length ?tb" using n(4) tail by (simp add: seg_append)
    have h: "t_head t = first_of (as @ bs) None" "t_head t \<noteq> Some n" using hd ds tail by (cases as'; auto)+
    have "lh_unlink n t = Some (t\<lparr>t_table := ?u, t_tail := Some p\<rparr>)"
      using n(1,2) h(2) tl tail p by (simp add: lh_unlink_def entry_def upd_entry_def)
    also have "t\<lparr>t_table := ?u, t_tail := Some p\<rparr> = t\<lparr>t_table := ?u, t_head := first_of (as @ bs) None, t_tail := last_of (as @ bs) None\<rparr>"
      unfolding h(1) [symmetric] by (rule lh_table.equality) (simp_all add: tail)
    finally have "lh_unlink n t = Some \<dots>" .
    moreover have "seg ?u None (as @ bs) None" unfolding tail append_Nil2 by (rule seg_set_next) (use n(4) ds tail in auto)
    ultimately show ?thesis using p by (intro exI [of _ ?u]) (simp add: nth_list_update)
  next
    case mid
    let ?v = "?tb[p := (?tb ! p)\<lparr>e_next := Some m\<rparr>]"
    let ?u = "?v[m := (?v ! m)\<lparr>e_prev := Some p\<rparr>]"
    have pm: "p < length ?tb" "m < length ?tb" "p \<noteq> m" "p \<noteq> n" "m \<noteq> n" "p \<notin> set bs" "m \<notin> set as" "m \<notin> set bs'" "p \<notin> set as'"
      using n(4,5) ds mid by (auto simp: seg_append)
    have h: "t_head t = first_of (as @ bs) None" "t_head t \<noteq> Some n" using hd ds mid by (cases as'; auto)+
    have l: "t_tail t = last_of (as @ bs) None" "t_tail t \<noteq> Some n" using tl ds mid by (auto split: if_splits)
    have "lh_unlink n t = Some (t\<lparr>t_table := ?u\<rparr>)"
      using n(1-3) h(2) l(2) mid pm by (simp add: lh_unlink_def entry_def upd_entry_def)
    also have "t\<lparr>t_table := ?u\<rparr> = t\<lparr>t_table := ?u, t_head := first_of (as @ bs) None, t_tail := last_of (as @ bs) None\<rparr>"
      unfolding h(1) [symmetric] l(1) [symmetric] by (rule lh_table.equality) simp_all
    finally have "lh_unlink n t = Some \<dots>" .
    moreover have "seg ?v None as (Some m)" unfolding mid(1) by (rule seg_set_next) (use n(4) pm mid in auto)
    then have "seg ?u None as (Some m)" using pm(7) by (simp add: seg_other)
    moreover have "seg ?v (Some n) bs None" using n(5) pm(6) by (simp add: seg_other)
    then have "seg ?u (Some p) bs None" unfolding mid(2) using pm(8) by (rule seg_set_prev)
    ultimately show ?thesis using mid pm(1,2) by (intro exI [of _ ?u]) (simp add: seg_append nth_list_update)
  qed
qed

lemma delete_entry_ok:
  assumes w: "lh_with t (as @ n # bs)"
  shows "\<exists>t' k v. kv (t_table t ! n) = (k, v) \<and> lh_table_delete_entry t (int n) = Some (0, t') \<and> lh_with t' (as @ bs) \<and>
    kvs t' (as @ bs) = kvs t (as @ bs) \<and> t_size t' = t_size t \<and> t_hash_fn t' = t_hash_fn t \<and> t_equal_fn t' = t_equal_fn t \<and>
    t_free_fn t' = t_free_fn t \<and> t_freed t' = t_freed t @ (if t_free_fn t then [(k, v)] else []) \<and> used t' = used t"
proof -
  let ?tb = "t_table t"
  have sg: "seg ?tb None (as @ n # bs) None" and ds: "distinct (as @ n # bs)"
    and st: "set (as @ n # bs) = {i. i < length ?tb \<and> \<not> vacant (e_k (?tb ! i))}"
    and hd: "t_head t = first_of (as @ n # bs) None" and tl: "t_tail t = last_of (as @ n # bs) None"
    and S: "t_size t = int (length ?tb)" "0 < length ?tb" "t_size t < 2 ^ 31" "t_count t = int (length (as @ n # bs))"
    and pr: "\<forall>n k. n < length ?tb \<longrightarrow> e_k (?tb ! n) = Key k \<longrightarrow> met t (hash_of t k) n"
    using w by (auto simp: lh_with_def)
  have n: "n < length ?tb" "\<not> vacant (e_k (?tb ! n))" using st by auto
  then obtain k where k: "e_k (?tb ! n) = Key k" by (cases "e_k (?tb ! n)") auto
  define u where "u = t\<lparr>t_count := t_count t - 1, t_freed := t_freed t @ (if t_free_fn t then [(k, e_v (?tb ! n))] else []),
    t_table := ?tb[n := (?tb ! n)\<lparr>e_v := None, e_k := LH_FREED\<rparr>]\<rparr>"
  have "seg (t_table u) None (as @ n # bs) None"
    using sg n(1) by (subst seg_cong [where tb = ?tb]) (auto simp: u_def nth_list_update)
  moreover have "t_head u = first_of (as @ n # bs) None" "t_tail u = last_of (as @ n # bs) None"
    using hd tl by (simp_all add: u_def)
  ultimately obtain tb where tb: "lh_unlink n u = Some (u\<lparr>t_table := tb, t_head := first_of (as @ bs) None, t_tail := last_of (as @ bs) None\<rparr>)"
      "seg tb None (as @ bs) None" "length tb = length ?tb"
      "\<forall>i. i < length tb \<longrightarrow> e_k (tb ! i) = e_k (t_table u ! i) \<and> e_v (tb ! i) = e_v (t_table u ! i)"
    using unlink_ok [of u as n bs] ds by (auto simp: u_def)
  define tb' where "tb' = tb[n := (tb ! n)\<lparr>e_next := None, e_prev := None\<rparr>]"
  define t' where "t' = u\<lparr>t_table := tb', t_head := first_of (as @ bs) None, t_tail := last_of (as @ bs) None\<rparr>"
  have ek: "e_k (tb' ! i) = (if i = n then LH_FREED else e_k (?tb ! i))" if "i < length ?tb" for i
    using that tb(3,4) n(1) by (auto simp: tb'_def u_def nth_list_update)
  have kvo: "kv (tb' ! i) = kv (?tb ! i)" if "i < length ?tb" "i \<noteq> n" for i
    using that tb(3,4) n(1) by (auto simp: tb'_def u_def kv_def nth_list_update)
  have len: "length tb' = length ?tb" using tb(3) by (simp add: tb'_def)
  have "lh_with t' (as @ bs)"
  proof -
    have "seg tb' None (as @ bs) None" using tb(2) ds by (simp add: tb'_def seg_other)
    moreover have "set (as @ bs) = {i. i < length tb' \<and> \<not> vacant (e_k (tb' ! i))}"
    proof -
      have "set (as @ bs) = set (as @ n # bs) - {n}" using ds by auto
      also have "\<dots> = {i. i < length tb' \<and> \<not> vacant (e_k (tb' ! i))}" unfolding st using ek len by (auto split: if_splits)
      finally show ?thesis .
    qed
    moreover have "met t' (hash_of t' k') i" if i: "i < length tb'" "e_k (tb' ! i) = Key k'" for i k'
    proof -
      have "met t (hash_of t k') i" using that ek [of i] pr by (auto simp: len split: if_splits)
      then show ?thesis using ek by (intro met_mono [of t _ i t']) (auto simp: t'_def u_def len hash_of_def)
    qed
    moreover have "t_count t' = int (length (as @ bs))" using S(4) by (simp add: t'_def u_def)
    ultimately show ?thesis using S ds len by (auto simp: lh_with_def t'_def u_def)
  qed
  moreover have "kvs t' (as @ bs) = kvs t (as @ bs)"
    unfolding kvs_def by (rule map_cong [OF refl]) (use kvo ds st in \<open>auto simp: t'_def\<close>)
  moreover have "used t' = used t"
  proof -
    have "{i. i < length tb' \<and> e_k (tb' ! i) \<noteq> LH_EMPTY} = {i. i < length ?tb \<and> e_k (?tb ! i) \<noteq> LH_EMPTY}"
      using ek len k by (auto split: if_splits)
    then show ?thesis by (simp add: used_def length_filter_conv_card t'_def)
  qed
  moreover have "lh_table_delete_entry t (int n) = Some (0, t')"
    using n k tb(1,3) by (simp add: lh_table_delete_entry_def entry_def upd_entry_def Let_def u_def [symmetric] t'_def tb'_def)
  moreover have "kv (?tb ! n) = (k, e_v (?tb ! n))" using k by (simp add: kv_def)
  ultimately show ?thesis by (auto simp: t'_def u_def)
qed

subsection \<open>Association lists\<close>

lemma lh_holdsE:
  assumes "lh_holds t xs"
  obtains ns where "lh_with t ns" "xs = kvs t ns" "distinct (map fst xs)" "t_equal_fn t = (=)"
  using assms by (auto simp: lh_holds_def)

lemma lh_holdsI: "lh_with t ns \<Longrightarrow> kvs t ns = xs \<Longrightarrow> distinct (map fst xs) \<Longrightarrow> t_equal_fn t = (=) \<Longrightarrow> lh_holds t xs"
  by (auto simp: lh_holds_def)

lemma lh_holds_sized: "lh_holds t xs \<Longrightarrow> t_size t = int (length (t_table t)) \<and> t_count t = int (length xs)"
  by (auto simp: lh_holds_def lh_with_def kvs_def)

text \<open>The keys of the list are those of the occupied slots.\<close>

lemma key_slot:
  assumes "lh_with t ns"
  shows "k \<in> fst ` set (kvs t ns) \<longleftrightarrow> (\<exists>n < length (t_table t). e_k (t_table t ! n) = Key k)"
proof -
  have "e_k (t_table t ! n) = Key k \<longleftrightarrow> fst (kv (t_table t ! n)) = k" if "n \<in> set ns" for n
    using that assms by (cases "e_k (t_table t ! n)") (auto simp: kv_def lh_with_def)
  moreover have "n \<in> set ns" if "n < length (t_table t)" "e_k (t_table t ! n) = Key k" for n
    using that assms by (simp add: lh_with_def)
  moreover have "n < length (t_table t)" if "n \<in> set ns" for n using that assms by (simp add: lh_with_def)
  ultimately show ?thesis unfolding kvs_def by (force simp: image_iff)
qed

lemma insert_holds:
  assumes "lh_holds t xs" "k \<notin> fst ` set xs" "t_size t < 2 ^ 30"
  shows "\<exists>t'. lh_table_insert t k v = Some (0, t') \<and> lh_holds t' (xs @ [(k, v)]) \<and>
    t_size t' = (if overfull t then 2 * t_size t else t_size t) \<and> same_fns t t' \<and>
    used t' \<le> Suc (if overfull t then length xs else used t)"
proof -
  obtain ns where ns: "lh_with t ns" "xs = kvs t ns" "distinct (map fst xs)" "t_equal_fn t = (=)" by (rule lh_holdsE [OF assms(1)])
  obtain t' ms where t': "lh_table_insert t k v = Some (0, t')" "lh_with t' ms" "kvs t' ms = xs @ [(k, v)]"
      "t_size t' = (if overfull t then 2 * t_size t else t_size t)" "same_fns t t'"
      "used t' \<le> Suc (if overfull t then length ns else used t)"
    using insert_ok [OF ns(1) assms(3), of k v] ns(2) by auto
  have "lh_holds t' (xs @ [(k, v)])" by (rule lh_holdsI [OF t'(2,3)]) (use ns assms(2) t'(5) in \<open>auto simp: same_fns_def\<close>)
  moreover have "length ns = length xs" by (simp add: ns(2) kvs_def)
  ultimately show ?thesis using t' by auto
qed

lemma lookup_holds:
  assumes "lh_holds t xs" "used t < length (t_table t) \<or> k \<in> fst ` set xs"
  shows "\<exists>r t'. lh_table_lookup_entry t k = Some (r, t') \<and> t' = t\<lparr>t_lookups := t_lookups t + 1\<rparr> \<and> lh_holds t' xs \<and>
    (case r of None \<Rightarrow> k \<notin> fst ` set xs | Some n \<Rightarrow> n < length (t_table t) \<and> e_k (t_table t ! n) = Key k \<and> map_of xs k = Some (e_v (t_table t ! n)))"
proof -
  obtain ns where ns: "lh_with t ns" "xs = kvs t ns" "distinct (map fst xs)" "t_equal_fn t = (=)" by (rule lh_holdsE [OF assms(1)])
  obtain r where r: "lh_table_lookup_entry t k = Some (r, t\<lparr>t_lookups := t_lookups t + 1\<rparr>)"
      "case r of None \<Rightarrow> \<forall>n < length (t_table t). e_k (t_table t ! n) \<noteq> Key k | Some n \<Rightarrow> n < length (t_table t) \<and> e_k (t_table t ! n) = Key k"
    using lookup_entry_ok [OF ns(1,4), of k] assms(2) key_slot [OF ns(1), of k] ns(2) by auto
  have "map_of xs k = Some (e_v (t_table t ! n))" if n: "n < length (t_table t)" "e_k (t_table t ! n) = Key k" for n
  proof (rule map_of_is_SomeI [OF ns(3)])
    have "n \<in> set ns" using n ns(1) by (simp add: lh_with_def)
    moreover have "kv (t_table t ! n) = (k, e_v (t_table t ! n))" using n(2) by (simp add: kv_def)
    ultimately show "(k, e_v (t_table t ! n)) \<in> set xs" unfolding ns(2) kvs_def by force
  qed
  moreover have "lh_holds (t\<lparr>t_lookups := t_lookups t + 1\<rparr>) xs" using assms(1) by (simp add: lh_holds_def)
  ultimately show ?thesis using r key_slot [OF ns(1), of k] ns(2) by (auto split: option.splits)
qed

lemma filter_no_key:
  assumes "k \<notin> fst ` set ys"
  shows "filter (\<lambda>(k', _). k' \<noteq> k) ys = ys" "filter (\<lambda>(k', _). k' = k) ys = []"
  using assms by (auto intro!: filter_True filter_False simp: image_iff)

lemma delete_holds:
  assumes "lh_holds t xs" "used t < length (t_table t) \<or> k \<in> fst ` set xs"
  shows "\<exists>t'. lh_table_delete t k = Some (if k \<in> fst ` set xs then 0 else - 1, t') \<and> lh_holds t' (filter (\<lambda>(k', _). k' \<noteq> k) xs) \<and>
    t_size t' = t_size t \<and> used t' = used t \<and> t_free_fn t' = t_free_fn t \<and>
    t_freed t' = t_freed t @ (if t_free_fn t then filter (\<lambda>(k', _). k' = k) xs else [])"
proof -
  obtain r u where r: "lh_table_lookup_entry t k = Some (r, u)" "u = t\<lparr>t_lookups := t_lookups t + 1\<rparr>" "lh_holds u xs"
      "case r of None \<Rightarrow> k \<notin> fst ` set xs | Some n \<Rightarrow> n < length (t_table t) \<and> e_k (t_table t ! n) = Key k \<and> map_of xs k = Some (e_v (t_table t ! n))"
    using lookup_holds [OF assms] by blast
  show ?thesis
  proof (cases r)
    case None
    then have k: "k \<notin> fst ` set xs" using r(4) by simp
    then have "filter (\<lambda>(k', _). k' \<noteq> k) xs = xs" "filter (\<lambda>(k', _). k' = k) xs = []"
      by (simp_all add: filter_no_key)
    then show ?thesis using r None k by (auto simp: lh_table_delete_def used_def)
  next
    case (Some n)
    obtain ns where ns: "lh_with u ns" "xs = kvs u ns" "distinct (map fst xs)" "t_equal_fn u = (=)" by (rule lh_holdsE [OF r(3)])
    have n: "n < length (t_table u)" "e_k (t_table u ! n) = Key k" using r(2,4) Some by auto
    then have "n \<in> set ns" using ns(1) by (simp add: lh_with_def)
    then obtain as bs where s: "ns = as @ n # bs" by (meson split_list)
    obtain t' v where t': "kv (t_table u ! n) = (k, v)" "lh_table_delete_entry u (int n) = Some (0, t')" "lh_with t' (as @ bs)"
        "kvs t' (as @ bs) = kvs u (as @ bs)" "t_size t' = t_size u" "t_equal_fn t' = t_equal_fn u" "used t' = used u" "t_free_fn t' = t_free_fn u"
        "t_freed t' = t_freed u @ (if t_free_fn u then [(k, v)] else [])"
      using delete_entry_ok [of u as n bs] ns(1) n(2) by (auto simp: s kv_def)
    have x: "xs = kvs u as @ (k, v) # kvs u bs" using ns(2) t'(1) by (simp add: s kvs_def)
    then have nk: "k \<notin> fst ` set (kvs u as)" "k \<notin> fst ` set (kvs u bs)" using ns(3) by auto
    have f: "filter (\<lambda>(k', _). k' \<noteq> k) xs = kvs u (as @ bs)" "filter (\<lambda>(k', _). k' = k) xs = [(k, v)]"
      using nk unfolding x by (simp_all add: filter_no_key) (simp add: kvs_def)
    have "distinct (map fst (kvs u (as @ bs)))" using ns(3) unfolding f(1) [symmetric] by (simp add: distinct_map_filter)
    then have "lh_holds t' (kvs u (as @ bs))" using t'(3,4,6) ns(4) by (intro lh_holdsI) auto
    moreover have "k \<in> fst ` set xs" using x by simp
    ultimately show ?thesis using t' r(1,2) Some f by (auto simp: lh_table_delete_def used_def)
  qed
qed

lemma free_holds:
  assumes "lh_holds t xs"
  shows "lh_table_free t = Some (if t_free_fn t then map (\<lambda>(k, v). (Key k, v)) xs else [])"
proof -
  obtain ns where ns: "lh_with t ns" "xs = kvs t ns" by (rule lh_holdsE [OF assms])
  then have "lh_walk t (t_head t) = Some (map ((!) (t_table t)) ns)" using lh_walk_seg [of t None ns] by (simp add: lh_with_def)
  moreover have "(e_k (t_table t ! n), e_v (t_table t ! n)) = (case kv (t_table t ! n) of (k, v) \<Rightarrow> (Key k, v))" if "n \<in> set ns" for n
    using that ns(1) by (cases "e_k (t_table t ! n)") (auto simp: kv_def lh_with_def)
  ultimately show ?thesis by (auto simp: lh_table_free_def ns(2) kvs_def)
qed

end
