(* ===== verification/Array_List.thy ===== *)
theory Array_List
  imports C_String MQ_State
begin

text \<open>
  The growing array of the JSON library (\<open>src/lib/json/arraylist.c\<close>) that holds the elements of a JSON
  array. The block is a list of pointers, \<open>None\<close> being \<open>NULL\<close>; \<open>al_freed\<close> lists the elements that have
  been passed to \<open>free_fn\<close>. \<open>mem\<close> tells whether the allocation of a number of pointers succeeds.
\<close>

record 'a array_list =
  al_array :: "'a option list"
  al_length :: int
  al_size :: int
  al_freed :: "'a list"

definition ARRAY_LIST_DEFAULT_SIZE :: int where
  "ARRAY_LIST_DEFAULT_SIZE = 32"

text \<open>The result is \<open>None\<close> when \<open>NULL\<close> is returned; \<open>mem0\<close> is the allocation of the structure.\<close>

definition array_list_new :: "bool \<Rightarrow> (int \<Rightarrow> bool) \<Rightarrow> 'a array_list option" where
  "array_list_new mem0 mem =
     (if mem0 \<and> mem ARRAY_LIST_DEFAULT_SIZE then
        Some \<lparr>al_array = replicate (nat ARRAY_LIST_DEFAULT_SIZE) None, al_length = 0,
              al_size = ARRAY_LIST_DEFAULT_SIZE, al_freed = []\<rparr>
      else None)"

text \<open>\<open>arr->array[i]\<close>\<close>

definition al_rd :: "'a array_list \<Rightarrow> int \<Rightarrow> 'a option option" where
  "al_rd arr i = (if i < 0 then None else rd (al_array arr) (nat i))"

text \<open>The elements passed to \<open>free_fn\<close> by the loop of \<open>array_list_free\<close> from index \<open>i\<close> on.\<close>

function array_list_free_loop :: "'a array_list \<Rightarrow> int \<Rightarrow> 'a list option" where
  "array_list_free_loop arr i =
     (if i < al_length arr then
        do {
          p \<leftarrow> al_rd arr i;
          xs \<leftarrow> array_list_free_loop arr (i + 1);
          Some (case p of Some x \<Rightarrow> x # xs | None \<Rightarrow> xs)
        }
      else Some [])"
  by pat_completeness auto
termination by (relation "measure (\<lambda>(arr, i). nat (al_length arr - i))") auto

declare array_list_free_loop.simps [simp del]

definition array_list_free :: "'a array_list \<Rightarrow> 'a list option" where
  "array_list_free arr = array_list_free_loop arr 0"

definition array_list_get_idx :: "'a array_list \<Rightarrow> int \<Rightarrow> 'a option option" where
  "array_list_get_idx arr i = (if i \<ge> al_length arr then Some None else al_rd arr i)"

definition array_list_expand_internal ::
  "(int \<Rightarrow> bool) \<Rightarrow> 'a array_list \<Rightarrow> int \<Rightarrow> (int \<times> 'a array_list) option" where
  "array_list_expand_internal mem arr mx =
     (if mx < al_size arr then Some (0, arr)
      else if al_size arr \<ge> 2 ^ 30 then None
      else
        let new_size = max (2 * al_size arr) mx in
        if \<not> mem new_size then Some (- 1, arr)
        else Some (0, arr\<lparr>al_array := al_array arr @ replicate (nat (new_size - al_size arr)) None,
                          al_size := new_size\<rparr>))"

definition array_list_put_idx ::
  "(int \<Rightarrow> bool) \<Rightarrow> 'a array_list \<Rightarrow> int \<Rightarrow> 'a option \<Rightarrow> (int \<times> 'a array_list) option" where
  "array_list_put_idx mem arr idx data =
     do {
       (r, arr) \<leftarrow> array_list_expand_internal mem arr idx;
       if r \<noteq> 0 then Some (- 1, arr)
       else
         do {
           p \<leftarrow> al_rd arr idx;
           let arr = (case p of Some x \<Rightarrow> arr\<lparr>al_freed := al_freed arr @ [x]\<rparr> | None \<Rightarrow> arr);
           b \<leftarrow> wr (al_array arr) (nat idx) data;
           let arr = arr\<lparr>al_array := b\<rparr>;
           if al_length arr \<le> idx then
             do {
               n \<leftarrow> int_incr idx;
               Some (0, arr\<lparr>al_length := n\<rparr>)
             }
           else Some (0, arr)
         }
     }"

definition array_list_add :: "(int \<Rightarrow> bool) \<Rightarrow> 'a array_list \<Rightarrow> 'a option \<Rightarrow> (int \<times> 'a array_list) option" where
  "array_list_add mem arr data = array_list_put_idx mem arr (al_length arr) data"

definition array_list_length :: "'a array_list \<Rightarrow> int" where
  "array_list_length arr = al_length arr"

subsection \<open>The list that an array holds\<close>

text \<open>The block has \<open>size\<close> pointers, and those behind the length are \<open>NULL\<close>.\<close>

definition al_inv :: "'a array_list \<Rightarrow> bool" where
  "al_inv arr \<longleftrightarrow> int (length (al_array arr)) = al_size arr \<and> 0 < al_size arr \<and> al_size arr < 2 ^ 31 \<and>
     0 \<le> al_length arr \<and> al_length arr \<le> al_size arr \<and> (\<forall>p \<in> set (drop (nat (al_length arr)) (al_array arr)). p = None)"

definition al_vals :: "'a array_list \<Rightarrow> 'a option list" where
  "al_vals arr = take (nat (al_length arr)) (al_array arr)"

text \<open>A store behind the end fills the gap with \<open>NULL\<close>.\<close>

definition put_spec :: "'a option list \<Rightarrow> nat \<Rightarrow> 'a option \<Rightarrow> 'a option list" where
  "put_spec xs i x = (xs @ replicate (Suc i - length xs) None)[i := x]"

definition freed_spec :: "'a option list \<Rightarrow> nat \<Rightarrow> 'a list" where
  "freed_spec xs i = (if i < length xs then case xs ! i of Some x \<Rightarrow> [x] | None \<Rightarrow> [] else [])"

lemma al_split:
  assumes "al_inv arr"
  shows "al_array arr = al_vals arr @ replicate (nat (al_size arr - al_length arr)) None" "length (al_vals arr) = nat (al_length arr)"
proof -
  have "drop (nat (al_length arr)) (al_array arr) = replicate (nat (al_size arr - al_length arr)) None"
    by (rule replicate_eqI) (use assms in \<open>auto simp: al_inv_def\<close>)
  then show "al_array arr = al_vals arr @ replicate (nat (al_size arr - al_length arr)) None"
    unfolding al_vals_def by (metis append_take_drop_id)
  show "length (al_vals arr) = nat (al_length arr)" using assms by (auto simp: al_vals_def al_inv_def)
qed

text \<open>An array whose block is a list of values and \<open>NULL\<close> pointers is well-formed and holds the values.\<close>

lemma al_build:
  assumes "al_array arr = xs @ replicate n None" "al_length arr = int (length xs)" "al_size arr = int (length xs + n)"
    "0 < length xs + n" "length xs + n < 2 ^ 31"
  shows "al_inv arr \<and> al_vals arr = xs"
proof -
  have "0 < al_size arr" using assms(3,4) by linarith
  moreover have "al_size arr < 2 ^ 31" using assms(3,5) by simp
  ultimately show ?thesis using assms(1-3) by (auto simp: al_inv_def al_vals_def)
qed

lemma array_list_new_inv: "array_list_new mem0 mem = Some arr \<Longrightarrow> al_inv arr \<and> al_vals arr = [] \<and> al_freed arr = []"
  using al_build [of arr "[]" 32] by (auto simp: array_list_new_def ARRAY_LIST_DEFAULT_SIZE_def split: if_splits)

lemma expand_correct:
  assumes inv: "al_inv arr" and mx: "mx < al_size arr \<or> al_size arr < 2 ^ 30 \<and> mx < 2 ^ 31 \<and> mem (max (2 * al_size arr) mx)"
  shows "\<exists>arr'. array_list_expand_internal mem arr mx = Some (0, arr') \<and> al_inv arr' \<and> al_vals arr' = al_vals arr \<and>
    al_length arr' = al_length arr \<and> al_freed arr' = al_freed arr \<and>
    al_size arr' = (if mx < al_size arr then al_size arr else max (2 * al_size arr) mx)"
proof (cases "mx < al_size arr")
  case False
  let ?s = "max (2 * al_size arr) mx"
  let ?a = "arr\<lparr>al_array := al_array arr @ replicate (nat (?s - al_size arr)) None, al_size := ?s\<rparr>"
  have b: "0 < al_size arr" "0 \<le> al_length arr" "al_length arr \<le> al_size arr" using inv by (auto simp: al_inv_def)
  have "al_array ?a = al_vals arr @ replicate (nat (?s - al_length arr)) None"
    using al_split(1) [OF inv] b by (simp add: replicate_add [symmetric] nat_add_distrib [symmetric])
  moreover have "nat (al_length arr) + nat (?s - al_length arr) = nat ?s" using b by simp
  ultimately have "al_inv ?a \<and> al_vals ?a = al_vals arr"
    using al_split(2) [OF inv] b mx False by (intro al_build [where n = "nat (?s - al_length arr)"]) auto
  then show ?thesis using False mx by (simp add: array_list_expand_internal_def Let_def)
qed (use inv in \<open>simp add: array_list_expand_internal_def\<close>)

lemma put_spec_eq:
  fixes xs :: "'a option list"
  assumes "i < length xs + n"
  shows "(xs @ replicate n None)[i := x] = put_spec xs i x @ replicate (length xs + n - max (length xs) (Suc i)) None"
    "length (put_spec xs i x) = max (length xs) (Suc i)"
proof -
  have "replicate n (None :: 'a option) = replicate (Suc i - length xs) None @ replicate (length xs + n - max (length xs) (Suc i)) None"
    using assms by (simp add: replicate_add [symmetric])
  then have "(xs @ replicate n None)[i := x] =
      ((xs @ replicate (Suc i - length xs) None) @ replicate (length xs + n - max (length xs) (Suc i)) None)[i := x]" by (simp only: append_assoc)
  also have "\<dots> = put_spec xs i x @ replicate (length xs + n - max (length xs) (Suc i)) None"
    unfolding put_spec_def by (rule list_update_append1) auto
  finally show "(xs @ replicate n None)[i := x] = put_spec xs i x @ replicate (length xs + n - max (length xs) (Suc i)) None" .
qed (auto simp: put_spec_def)

lemma nth_freed_spec:
  "i < length xs + n \<Longrightarrow> (case (xs @ replicate n None) ! i of Some x \<Rightarrow> [x] | None \<Rightarrow> []) = freed_spec xs i"
  by (auto simp: freed_spec_def nth_append)

lemma put_idx_ok:
  assumes inv: "al_inv arr" and idx: "0 \<le> idx" "idx < 2 ^ 31 - 1"
    and sz: "idx < al_size arr \<or> al_size arr < 2 ^ 30 \<and> idx < 2 * al_size arr \<and> mem (2 * al_size arr)"
  shows "\<exists>arr'. array_list_put_idx mem arr idx data = Some (0, arr') \<and> al_inv arr' \<and>
    al_vals arr' = put_spec (al_vals arr) (nat idx) data \<and> al_freed arr' = al_freed arr @ freed_spec (al_vals arr) (nat idx)"
proof -
  have "idx < al_size arr \<or> al_size arr < 2 ^ 30 \<and> idx < 2 ^ 31 \<and> mem (max (2 * al_size arr) idx)"
    using sz idx by (auto simp: max_def)
  from expand_correct [of arr idx mem, OF inv this] obtain a where a: "array_list_expand_internal mem arr idx = Some (0, a)" "al_inv a"
      "al_vals a = al_vals arr" "al_length a = al_length arr" "al_freed a = al_freed arr" "idx < al_size a"
    using sz by fastforce
  let ?xs = "al_vals arr" and ?n = "nat (al_size a - al_length a)" and ?i = "nat idx"
  have arr: "al_array a = ?xs @ replicate ?n None" and len: "length ?xs = nat (al_length a)"
    using al_split [OF a(2)] by (simp_all add: a(3))
  have b: "0 \<le> al_length a" "al_length a \<le> al_size a" "al_size a < 2 ^ 31" "length (al_array a) = nat (al_size a)" "0 < al_size a"
    using a(2) by (auto simp: al_inv_def)
  have i: "?i < length ?xs + ?n" using a(6) len b idx by linarith
  define a' where "a' = a\<lparr>al_freed := al_freed a @ freed_spec ?xs ?i, al_array := (al_array a)[?i := data],
    al_length := max (al_length a) (idx + 1)\<rparr>"
  have A: "al_array a' = put_spec ?xs ?i data @ replicate (length ?xs + ?n - max (length ?xs) (Suc ?i)) None"
    using put_spec_eq(1) [OF i] by (simp add: a'_def arr)
  have L: "al_length a' = int (length (put_spec ?xs ?i data))"
    unfolding put_spec_eq(2) [OF i] using len b idx by (simp add: a'_def)
  have S: "length (put_spec ?xs ?i data) + (length ?xs + ?n - max (length ?xs) (Suc ?i)) = nat (al_size a)"
    unfolding put_spec_eq(2) [OF i] using len b i by simp
  have "al_inv a' \<and> al_vals a' = put_spec ?xs ?i data"
    by (rule al_build [OF A L]; unfold S) (use b in \<open>simp_all add: a'_def\<close>)
  moreover have "array_list_put_idx mem arr idx data = Some (0, a')"
  proof -
    have "(case (al_array a) ! ?i of Some x \<Rightarrow> a\<lparr>al_freed := al_freed a @ [x]\<rparr> | None \<Rightarrow> a) = a\<lparr>al_freed := al_freed a @ freed_spec ?xs ?i\<rparr>"
      using nth_freed_spec [OF i] by (auto simp: arr split: option.splits)
    moreover have "?i < length (al_array a)" using i len b by simp
    ultimately show ?thesis
      using a(1) idx by (auto simp: array_list_put_idx_def al_rd_def int_incr_def a'_def Let_def max_def)
  qed
  ultimately show ?thesis using a(5) by (auto simp: a'_def)
qed

lemma get_idx_ok:
  assumes "al_inv arr" "0 \<le> i"
  shows "array_list_get_idx arr i = Some (if nat i < length (al_vals arr) then al_vals arr ! nat i else None)"
proof -
  have "length (al_vals arr) = nat (al_length arr)" "nat (al_length arr) \<le> length (al_array arr)"
    using al_split(2) [OF assms(1)] assms(1) by (auto simp: al_inv_def)
  then show ?thesis using assms(2) by (auto simp: array_list_get_idx_def al_rd_def al_vals_def)
qed

lemma free_loop_ok:
  assumes "al_inv arr" "0 \<le> i" "i \<le> al_length arr"
  shows "array_list_free_loop arr i = Some (map the (filter (\<lambda>p. p \<noteq> None) (drop (nat i) (al_vals arr))))"
  using assms
proof (induction "nat (al_length arr - i)" arbitrary: i)
  case 0
  then show ?case using al_split(2) [OF 0(2)] by (subst array_list_free_loop.simps) simp
next
  case (Suc n)
  then have i: "i < al_length arr" by simp
  have "array_list_free_loop arr (i + 1) = Some (map the (filter (\<lambda>p. p \<noteq> None) (drop (nat (i + 1)) (al_vals arr))))"
    using Suc by (intro Suc.hyps(1)) auto
  moreover have "drop (nat i) (al_vals arr) = al_vals arr ! nat i # drop (nat (i + 1)) (al_vals arr)"
    using al_split(2) [OF Suc.prems(1)] i Suc.prems(2) by (simp add: Cons_nth_drop_Suc nat_add_distrib)
  moreover have "al_rd arr i = Some (al_vals arr ! nat i)"
    using i Suc.prems by (auto simp: al_rd_def al_vals_def al_inv_def)
  ultimately show ?case using i by (subst array_list_free_loop.simps) (auto split: option.splits)
qed

subsection \<open>Appending\<close>

text \<open>
  What a JSON array needs of its container: elements are appended up to a limit, and read by index.
\<close>

locale growing_array =
  fixes inv :: "'s \<Rightarrow> bool" and vals :: "'s \<Rightarrow> 'b list" and add :: "'s \<Rightarrow> 'b \<Rightarrow> 's option" and get :: "'s \<Rightarrow> nat \<Rightarrow> 'b option"
    and limit :: nat
  assumes add_ok: "inv s \<Longrightarrow> length (vals s) < limit \<Longrightarrow> \<exists>s'. add s x = Some s' \<and> inv s' \<and> vals s' = vals s @ [x]"
    and get_ok: "inv s \<Longrightarrow> i < length (vals s) \<Longrightarrow> get s i = Some (vals s ! i)"
begin

primrec add_all :: "'s \<Rightarrow> 'b list \<Rightarrow> 's option" where
  "add_all s [] = Some s"
| "add_all s (x # xs) = do { s' \<leftarrow> add s x; add_all s' xs }"

lemma add_all_ok:
  "inv s \<Longrightarrow> length (vals s) + length xs \<le> limit \<Longrightarrow> \<exists>s'. add_all s xs = Some s' \<and> inv s' \<and> vals s' = vals s @ xs"
proof (induction xs arbitrary: s)
  case (Cons x xs)
  then obtain s1 where s1: "add s x = Some s1" "inv s1" "vals s1 = vals s @ [x]" using add_ok [of s x] by auto
  with Cons.IH [of s1] Cons.prems(2) show ?case by auto
qed simp

end

text \<open>
  An array that has only been appended to is at least half full, or has its first size, so that the
  limit on the length is a limit on the size.
\<close>

definition al_grown :: "'a array_list \<Rightarrow> bool" where
  "al_grown arr \<longleftrightarrow> al_inv arr \<and> al_size arr \<le> max 32 (2 * al_length arr)"

definition al_add :: "(int \<Rightarrow> bool) \<Rightarrow> 'a array_list \<Rightarrow> 'a option \<Rightarrow> 'a array_list option" where
  "al_add mem arr x = do { (r, arr) \<leftarrow> array_list_add mem arr x; if r = 0 then Some arr else None }"

lemma al_add_ok:
  assumes g: "al_grown arr" and len: "length (al_vals arr) < 2 ^ 30"
  shows "\<exists>arr'. array_list_add (\<lambda>_. True) arr x = Some (0, arr') \<and> al_grown arr' \<and> al_vals arr' = al_vals arr @ [x] \<and>
    al_freed arr' = al_freed arr"
proof -
  have inv: "al_inv arr" using g by (simp add: al_grown_def)
  have b: "0 \<le> al_length arr" "al_length arr \<le> al_size arr" "0 < al_size arr" using inv by (auto simp: al_inv_def)
  have l: "length (al_vals arr) = nat (al_length arr)" by (rule al_split(2) [OF inv])
  have bd: "al_length arr < 2 ^ 30" using len l b(1) by simp
  then have "al_length arr < 2 ^ 31 - 1" by simp
  moreover have "al_length arr < al_size arr \<or> al_size arr < 2 ^ 30 \<and> al_length arr < 2 * al_size arr \<and> True"
    using b bd by (cases "al_length arr = al_size arr") auto
  ultimately obtain a where a: "array_list_put_idx (\<lambda>_. True) arr (al_length arr) x = Some (0, a)" "al_inv a"
      "al_vals a = put_spec (al_vals arr) (nat (al_length arr)) x"
      "al_freed a = al_freed arr @ freed_spec (al_vals arr) (nat (al_length arr))"
    using put_idx_ok [OF inv b(1), of "\<lambda>_. True" x] by blast
  have v: "al_vals a = al_vals arr @ [x]" using a(3) by (simp add: put_spec_def flip: l)
  then have "al_length a = al_length arr + 1" using al_split(2) [OF a(2)] l b(1) a(2) by (simp add: al_inv_def)
  moreover have "al_size a = al_size arr \<or> al_length arr = al_size arr \<and> al_size a = 2 * al_size arr"
    using a(1) b by (auto simp: array_list_put_idx_def array_list_expand_internal_def bind_eq_Some_conv Let_def
        split: if_splits option.splits)
  ultimately have "al_grown a" using a(2) g b unfolding al_grown_def by linarith
  then show ?thesis using a v l by (simp add: array_list_add_def freed_spec_def)
qed

interpretation al: growing_array al_grown al_vals "al_add (\<lambda>_. True)" "\<lambda>arr i. array_list_get_idx arr (int i)" "2 ^ 30"
proof
  fix arr :: "'a array_list" and x assume "al_grown arr" "length (al_vals arr) < 2 ^ 30"
  from al_add_ok [OF this, of x] show "\<exists>s'. al_add (\<lambda>_. True) arr x = Some s' \<and> al_grown s' \<and> al_vals s' = al_vals arr @ [x]"
    by (auto simp: al_add_def)
next
  fix arr :: "'a array_list" and i assume "al_grown arr" "i < length (al_vals arr)"
  then show "array_list_get_idx arr (int i) = Some (al_vals arr ! i)"
    using get_idx_ok [of arr "int i"] by (simp add: al_grown_def)
qed

text \<open>The elements of a list appended one after the other to an array.\<close>

primrec array_list_add_all :: "'a array_list \<Rightarrow> 'a option list \<Rightarrow> 'a array_list option" where
  "array_list_add_all arr [] = Some arr"
| "array_list_add_all arr (x # xs) =
     do {
       (r, arr) \<leftarrow> array_list_add (\<lambda>_. True) arr x;
       if r = 0 then array_list_add_all arr xs else None
     }"

lemma add_all_eq: "array_list_add_all arr xs = al.add_all arr xs"
  by (induction xs arbitrary: arr) (auto simp: al_add_def split: option.splits bind_split)

subsection \<open>Properties\<close>

text \<open>
  C39. With enough memory, appending any list of up to \<open>2 ^ 30\<close> pointers to a new array succeeds; the
  array then has their number as its length, returns the i-th of them at index i and \<open>NULL\<close> behind the
  end, and \<open>array_list_free\<close> frees each one that is not \<open>NULL\<close>, in order.
\<close>

theorem array_list_roundtrip:
  assumes "length xs \<le> 2 ^ 30"
  shows "\<exists>arr0 arr. array_list_new True (\<lambda>_. True) = Some arr0 \<and> array_list_add_all arr0 xs = Some arr \<and>
    array_list_length arr = int (length xs) \<and>
    (\<forall>i. array_list_get_idx arr (int i) = Some (if i < length xs then xs ! i else None)) \<and>
    array_list_free arr = Some (map the (filter (\<lambda>p. p \<noteq> None) xs))"
proof -
  obtain arr0 :: "'a array_list" where new: "array_list_new True (\<lambda>_. True) = Some arr0" by (simp add: array_list_new_def)
  then have "al_grown arr0" "al_vals arr0 = []"
    using array_list_new_inv [OF new] by (auto simp: al_grown_def array_list_new_def ARRAY_LIST_DEFAULT_SIZE_def)
  then obtain arr where arr: "array_list_add_all arr0 xs = Some arr" "al_inv arr" "al_vals arr = xs"
    using al.add_all_ok [of arr0 xs] assms by (auto simp: add_all_eq al_grown_def)
  have "al_length arr = int (length xs)" "0 \<le> al_length arr" using al_split(2) [OF arr(2)] arr(2,3) by (auto simp: al_inv_def)
  then show ?thesis
    using new arr get_idx_ok [OF arr(2)] free_loop_ok [OF arr(2), of 0]
    by (auto simp: array_list_length_def array_list_free_def)
qed

text \<open>
  A store at an index below twice the size of the array succeeds: the element is there, the gap up
  to it is filled with \<open>NULL\<close>, an element that was there is freed, and all others are as before.
\<close>

lemma array_list_put_idx_correct:
  assumes "al_inv arr" "0 \<le> idx" "idx < 2 ^ 31 - 1" "al_size arr < 2 ^ 30" "idx < 2 * al_size arr"
  shows "\<exists>arr'. array_list_put_idx (\<lambda>_. True) arr idx data = Some (0, arr') \<and> al_inv arr' \<and>
    al_vals arr' = put_spec (al_vals arr) (nat idx) data \<and> al_freed arr' = al_freed arr @ freed_spec (al_vals arr) (nat idx)"
  using assms by (intro put_idx_ok) auto

text \<open>
  C40. A store at an index of twice the size or more is undefined: the block is enlarged to exactly as
  many pointers as the index, and the store writes behind its end.
\<close>

theorem array_list_put_idx_overrun:
  assumes "al_inv arr" "al_size arr < 2 ^ 30" "2 * al_size arr \<le> idx"
  shows "array_list_put_idx (\<lambda>_. True) arr idx data = None"
proof -
  have "0 < al_size arr" "length (al_array arr) = nat (al_size arr)" using assms(1) by (auto simp: al_inv_def)
  with assms(2,3) show ?thesis by (auto simp: array_list_put_idx_def array_list_expand_internal_def al_rd_def max_def Let_def)
qed

subsection \<open>Witnesses\<close>

definition demo_array :: "nat array_list" where
  "demo_array = the (array_list_new True (\<lambda>_. True))"

lemma demo_array_facts: "al_inv demo_array" "al_size demo_array = 32" "al_vals demo_array = []"
  using array_list_new_inv [of True "\<lambda>_. True" demo_array]
  by (auto simp: demo_array_def array_list_new_def ARRAY_LIST_DEFAULT_SIZE_def)

theorem array_list_roundtrip_witness:
  "\<exists>arr0 arr. array_list_new True (\<lambda>_. True) = Some arr0 \<and> array_list_add_all arr0 [Some (4 :: nat), None, Some 7] = Some arr \<and>
    array_list_get_idx arr 2 = Some (Some 7) \<and> array_list_free arr = Some [4, 7]"
proof -
  have "length [Some (4 :: nat), None, Some 7] \<le> 2 ^ 30" by simp
  from array_list_roundtrip [OF this] obtain arr0 arr where r: "array_list_new True (\<lambda>_. True) = Some arr0"
      "array_list_add_all arr0 [Some (4 :: nat), None, Some 7] = Some arr"
      "\<forall>i. array_list_get_idx arr (int i) = Some (if i < 3 then [Some (4 :: nat), None, Some 7] ! i else None)"
      "array_list_free arr = Some [4, 7]" by auto
  have "array_list_get_idx arr 2 = Some (Some 7)" using r(3) [rule_format, of 2] by simp
  then show ?thesis using r by blast
qed

lemma array_list_put_idx_correct_witness:
  "\<exists>arr. array_list_put_idx (\<lambda>_. True) demo_array 40 (Some 1) = Some (0, arr) \<and> al_vals arr = replicate 40 None @ [Some 1]"
proof -
  have "\<exists>arr. array_list_put_idx (\<lambda>_. True) demo_array 40 (Some 1) = Some (0, arr) \<and> al_inv arr \<and>
      al_vals arr = put_spec (al_vals demo_array) (nat 40) (Some 1) \<and>
      al_freed arr = al_freed demo_array @ freed_spec (al_vals demo_array) (nat 40)"
    by (rule array_list_put_idx_correct) (simp_all add: demo_array_facts)
  moreover have "put_spec [] 40 (Some (1 :: nat)) = replicate 40 None @ [Some 1]" by code_simp
  ultimately show ?thesis by (auto simp: demo_array_facts)
qed

theorem array_list_put_idx_overrun_witness: "array_list_put_idx (\<lambda>_. True) demo_array 64 (Some 1) = None"
  by (rule array_list_put_idx_overrun) (simp_all add: demo_array_facts)

end
