(* ===== verification/Json.thy ===== *)
theory Json
  imports MQ_Prelude
begin

text \<open>
  JSON values as \<open>src/lib/json/json_object.c\<close> builds them. An object keeps its members in the
  order of their insertion; each value the server builds has one parent, so a value is a tree and
  an update of a nested value is a function on the tree.
\<close>

datatype json = JInt int | JString cstring | JArray "json list" | JObject "(cstring \<times> json) list"

definition json_object_new_object :: json where
  "json_object_new_object = JObject []"

definition json_object_new_array :: json where
  "json_object_new_array = JArray []"

definition json_object_new_int :: "int \<Rightarrow> json" where
  "json_object_new_int i = JInt i"

text \<open>\<open>strdup\<close> and \<open>strndup\<close> stop at the first NUL character.\<close>

definition c_str :: "string \<Rightarrow> cstring" where
  "c_str s = takeWhile (\<lambda>c. c \<noteq> CHR 0x00) s"

definition json_object_new_string :: "string \<Rightarrow> json" where
  "json_object_new_string s = JString (c_str s)"

definition json_object_new_string_len :: "string \<Rightarrow> nat \<Rightarrow> json" where
  "json_object_new_string_len s len = JString (c_str (take len s))"

text \<open>
  \<open>json_object_object_add\<close> deletes the key and appends the pair. On a value that is not an object
  the union is misread: undefined.
\<close>

fun json_object_object_add :: "json \<Rightarrow> cstring \<Rightarrow> json \<Rightarrow> json option" where
  "json_object_object_add (JObject kvs) key val = Some (JObject (filter (\<lambda>(k, _). k \<noteq> key) kvs @ [(key, val)]))"
| "json_object_object_add _ key val = None"

fun json_object_object_get :: "json \<Rightarrow> cstring \<Rightarrow> json option option" where
  "json_object_object_get (JObject kvs) key = Some (map_of kvs key)"
| "json_object_object_get _ key = None"

fun json_object_array_add :: "json \<Rightarrow> json \<Rightarrow> json option" where
  "json_object_array_add (JArray vs) v = Some (JArray (vs @ [v]))"
| "json_object_array_add _ v = None"

text \<open>An update, through its pointer, of the value that an object holds under a key.\<close>

fun object_modify :: "json \<Rightarrow> cstring \<Rightarrow> (json \<Rightarrow> json option) \<Rightarrow> json option" where
  "object_modify (JObject kvs) key f =
     do {
       v \<leftarrow> map_of kvs key;
       v' \<leftarrow> f v;
       Some (JObject (map (\<lambda>(k, w). if k = key then (k, v') else (k, w)) kvs))
     }"
| "object_modify _ key f = None"

end
