(* ===== verification/Json_Containers.thy ===== *)
theory Json_Containers
  imports Linkhash_Props Array_List Json
begin

text \<open>
  The containers of JSON values as \<open>src/lib/json/json_object.c\<close> uses them: an object is a hash table
  of strings with 16 slots at first, an array is a growing array. The association lists and lists of
  the theory of JSON values are what these containers hold.
\<close>

definition JSON_OBJECT_DEF_HASH_ENTRIES :: int where
  "JSON_OBJECT_DEF_HASH_ENTRIES = 16"

definition object_table :: "(cstring, 'v) lh_table option" where
  "object_table = lh_kchar_table_new JSON_OBJECT_DEF_HASH_ENTRIES None True"

text \<open>\<open>json_object_object_add\<close>, \<open>json_object_object_get\<close> and \<open>json_object_object_del\<close> on the table.\<close>

definition object_add :: "(cstring, 'v) lh_table \<Rightarrow> cstring \<Rightarrow> 'v option \<Rightarrow> (cstring, 'v) lh_table option" where
  "object_add t key val =
     do {
       (_, t) \<leftarrow> lh_table_delete t key;
       (_, t) \<leftarrow> lh_table_insert t key val;
       Some t
     }"

definition object_get :: "(cstring, 'v) lh_table \<Rightarrow> cstring \<Rightarrow> ('v option \<times> (cstring, 'v) lh_table) option" where
  "object_get t key = lh_table_lookup t key"

definition object_del :: "(cstring, 'v) lh_table \<Rightarrow> cstring \<Rightarrow> (cstring, 'v) lh_table option" where
  "object_del t key = do { (_, t) \<leftarrow> lh_table_delete t key; Some t }"

text \<open>The value of a key in an association list, \<open>None\<close> for \<open>NULL\<close> and for a key that is absent.\<close>

definition value_of :: "('k \<times> 'v option) list \<Rightarrow> 'k \<Rightarrow> 'v option" where
  "value_of xs k = (case map_of xs k of Some v \<Rightarrow> v | None \<Rightarrow> None)"

lemma lookup_value:
  assumes "lh_holds t xs" "used t < length (t_table t) \<or> k \<in> fst ` set xs"
  shows "\<exists>t'. lh_table_lookup t k = Some (value_of xs k, t') \<and> t' = t\<lparr>t_lookups := t_lookups t + 1\<rparr> \<and> lh_holds t' xs"
proof -
  obtain r u where r: "lh_table_lookup_entry t k = Some (r, u)" "u = t\<lparr>t_lookups := t_lookups t + 1\<rparr>" "lh_holds u xs"
      "case r of None \<Rightarrow> k \<notin> fst ` set xs | Some n \<Rightarrow> n < length (t_table t) \<and> e_k (t_table t ! n) = Key k \<and> map_of xs k = Some (e_v (t_table t ! n))"
    using lookup_holds [OF assms] by blast
  moreover have "map_of xs k = None" if "k \<notin> fst ` set xs" using that by (simp add: map_of_eq_None_iff)
  ultimately show ?thesis by (auto simp: lh_table_lookup_def value_of_def entry_def split: option.splits)
qed

lemma add_holds:
  assumes h: "lh_holds t xs" and u: "used t < length (t_table t) \<or> k \<in> fst ` set xs" and sz: "t_size t < 2 ^ 30"
  shows "\<exists>t'. object_add t k v = Some t' \<and> lh_holds t' (filter (\<lambda>(k', _). k' \<noteq> k) xs @ [(k, v)]) \<and>
    t_size t' \<in> {t_size t, 2 * t_size t}"
proof -
  obtain t1 r where t1: "lh_table_delete t k = Some (r, t1)" "lh_holds t1 (filter (\<lambda>(k', _). k' \<noteq> k) xs)" "t_size t1 = t_size t"
    using delete_holds [OF h u] by blast
  moreover have "k \<notin> fst ` set (filter (\<lambda>(k', _). k' \<noteq> k) xs)" by auto
  ultimately obtain t' where "lh_table_insert t1 k v = Some (0, t')" "lh_holds t' (filter (\<lambda>(k', _). k' \<noteq> k) xs @ [(k, v)])"
      "t_size t' \<in> {t_size t, 2 * t_size t}"
    using insert_holds [OF t1(2), of k v] sz by (auto split: if_splits)
  then show ?thesis using t1(1) by (auto simp: object_add_def)
qed

subsection \<open>Objects that only grow\<close>

text \<open>
  What the server needs of an object: members are added under new keys, up to a limit, and read back.
\<close>

locale growing_object =
  fixes holds :: "'s \<Rightarrow> ('k \<times> 'b option) list \<Rightarrow> bool" and add :: "'s \<Rightarrow> 'k \<Rightarrow> 'b option \<Rightarrow> 's option"
    and get :: "'s \<Rightarrow> 'k \<Rightarrow> ('b option \<times> 's) option" and limit :: nat
  assumes add_ok: "holds s xs \<Longrightarrow> k \<notin> fst ` set xs \<Longrightarrow> length xs < limit \<Longrightarrow> \<exists>s'. add s k v = Some s' \<and> holds s' (xs @ [(k, v)])"
    and get_ok: "holds s xs \<Longrightarrow> \<exists>s'. get s k = Some (value_of xs k, s') \<and> holds s' xs"
begin

primrec add_all :: "'s \<Rightarrow> ('k \<times> 'b option) list \<Rightarrow> 's option" where
  "add_all s [] = Some s"
| "add_all s (x # xs) = do { s' \<leftarrow> add s (fst x) (snd x); add_all s' xs }"

lemma add_all_ok:
  "holds s ys \<Longrightarrow> distinct (map fst (ys @ xs)) \<Longrightarrow> length ys + length xs \<le> limit \<Longrightarrow>
   \<exists>s'. add_all s xs = Some s' \<and> holds s' (ys @ xs)"
proof (induction xs arbitrary: s ys)
  case (Cons x xs)
  then obtain s1 where "add s (fst x) (snd x) = Some s1" "holds s1 (ys @ [x])"
    using add_ok [of s ys "fst x" "snd x"] by (auto simp: image_iff)
  with Cons.IH [of s1 "ys @ [x]"] Cons.prems(2,3) show ?case by auto
qed simp

end

text \<open>No slot has been vacated, and the size follows the number of members.\<close>

definition grown :: "(cstring, 'v) lh_table \<Rightarrow> (cstring \<times> 'v option) list \<Rightarrow> bool" where
  "grown t xs \<longleftrightarrow> lh_holds t xs \<and> used t \<le> length xs \<and> 16 \<le> t_size t \<and> 100 * int (length xs) \<le> 66 * t_size t + 100 \<and>
     t_size t \<le> max 16 (4 * int (length xs)) \<and> t_free_fn t"

lemma grown_free: "grown t xs \<Longrightarrow> used t < length (t_table t)"
  using lh_holds_sized [of t xs] by (auto simp: grown_def)

lemma grown_add:
  assumes g: "grown t xs" and k: "k \<notin> fst ` set xs" and l: "length xs < 2 ^ 28"
  shows "\<exists>t'. object_add t k v = Some t' \<and> grown t' (xs @ [(k, v)])"
proof -
  have h: "lh_holds t xs" and u: "used t < length (t_table t)" using g grown_free [OF g] by (auto simp: grown_def)
  obtain t1 r where t1: "lh_table_delete t k = Some (r, t1)" "lh_holds t1 (filter (\<lambda>(k', _). k' \<noteq> k) xs)" "t_size t1 = t_size t"
      "used t1 = used t" "t_free_fn t1 = t_free_fn t"
    using delete_holds [OF h, of k] u by blast
  then have h1: "lh_holds t1 xs" using filter_no_key(1) [OF k] by simp
  have sz: "t_size t1 < 2 ^ 30" using g l t1(3) by (auto simp: grown_def)
  obtain t' where t': "lh_table_insert t1 k v = Some (0, t')" "lh_holds t' (xs @ [(k, v)])"
      "t_size t' = (if overfull t1 then 2 * t_size t1 else t_size t1)" "used t' \<le> Suc (if overfull t1 then length xs else used t1)"
      "t_free_fn t' = t_free_fn t1"
    using insert_holds [OF h1 k sz] unfolding same_fns_def by blast
  have c: "t_count t1 = int (length xs)" using lh_holds_sized [OF h1] by simp
  have "16 \<le> t_size t'" "100 * int (length (xs @ [(k, v)])) \<le> 66 * t_size t' + 100" "t_size t' \<le> max 16 (4 * int (length (xs @ [(k, v)])))"
    using g t'(3) t1(3) c by (auto simp: grown_def overfull_def split: if_splits)
  moreover have "used t' \<le> length (xs @ [(k, v)])" using t'(4) t1(4) g by (auto simp: grown_def split: if_splits)
  ultimately show ?thesis using t' t1(1,5) g by (auto simp: object_add_def grown_def)
qed

lemma grown_get:
  assumes "grown t xs"
  shows "\<exists>t'. object_get t k = Some (value_of xs k, t') \<and> grown t' xs"
proof -
  have h: "lh_holds t xs" "used t < length (t_table t) \<or> k \<in> fst ` set xs" using assms grown_free [OF assms] by (auto simp: grown_def)
  from lookup_value [OF this] show ?thesis using assms by (auto simp: object_get_def grown_def used_def)
qed

interpretation obj: growing_object grown object_add object_get "2 ^ 28"
proof
  fix t :: "(cstring, 'v) lh_table" and xs k v
  assume "grown t xs" "k \<notin> fst ` set xs" "length xs < 2 ^ 28"
  then show "\<exists>s'. object_add t k v = Some s' \<and> grown s' (xs @ [(k, v)])" by (rule grown_add)
next
  fix t :: "(cstring, 'v) lh_table" and xs k
  assume "grown t xs"
  then show "\<exists>s'. object_get t k = Some (value_of xs k, s') \<and> grown s' xs" by (rule grown_get)
qed

lemma object_table_grown: "\<exists>t :: (cstring, 'v) lh_table. object_table = Some t \<and> grown t []"
proof -
  obtain t :: "(cstring, 'v) lh_table" where t: "object_table = Some t" "t_free_fn t"
    by (simp add: object_table_def lh_kchar_table_new_def lh_table_new_def JSON_OBJECT_DEF_HASH_ENTRIES_def)
  then have n: "lh_with t []" "kvs t [] = []" "t_size t = 16" "used t = 0" "t_equal_fn t = lh_char_equal"
    using lh_new_with [of 16 None True lh_char_hash lh_char_equal t]
    by (simp_all add: object_table_def lh_kchar_table_new_def JSON_OBJECT_DEF_HASH_ENTRIES_def)
  moreover have "lh_char_equal = (=)" by (simp add: lh_char_equal_def fun_eq_iff)
  ultimately have "lh_holds t []" by (intro lh_holdsI [OF n(1,2)]) simp_all
  then show ?thesis using t n(3,4) by (intro exI [of _ t]) (simp add: grown_def)
qed

text \<open>Members added one after the other to an object.\<close>

primrec object_add_all :: "(cstring, 'v) lh_table \<Rightarrow> (cstring \<times> 'v option) list \<Rightarrow> (cstring, 'v) lh_table option" where
  "object_add_all t [] = Some t"
| "object_add_all t (x # xs) = do { t \<leftarrow> object_add t (fst x) (snd x); object_add_all t xs }"

lemma object_add_all_eq: "object_add_all t xs = obj.add_all t xs"
  by (induction xs arbitrary: t) simp_all

lemma walk_holds:
  assumes "lh_holds t xs"
  shows "\<exists>es. lh_walk t (t_head t) = Some es \<and> map kv es = xs"
proof -
  obtain ns where ns: "lh_with t ns" "xs = kvs t ns" by (rule lh_holdsE [OF assms])
  then show ?thesis using lh_walk_seg [of t None ns] by (simp add: lh_with_def kvs_def)
qed

text \<open>The members of a JSON object as a table holds them.\<close>

definition members :: "(cstring \<times> json) list \<Rightarrow> (cstring \<times> json option) list" where
  "members ms = map (\<lambda>(k, v). (k, Some v)) ms"

lemma members_filter: "filter (\<lambda>(k', _). k' \<noteq> k) (members ms) = members (filter (\<lambda>(k', _). k' \<noteq> k) ms)"
  by (induction ms) (auto simp: members_def)

lemma value_of_members: "value_of (members ms) k = map_of ms k"
  by (induction ms) (auto simp: members_def value_of_def)

text \<open>Members that are added and removed again, each in its turn.\<close>

primrec churn :: "cstring list \<Rightarrow> (cstring, 'v) lh_table \<Rightarrow> (cstring, 'v) lh_table option" where
  "churn [] t = Some t"
| "churn (k # ks) t = do { t \<leftarrow> object_add t k None; t \<leftarrow> object_del t k; churn ks t }"

lemma lookup_entry_stuck:
  assumes "lh_holds t xs" "used t = length (t_table t)" "k \<notin> fst ` set xs"
  shows "lh_table_lookup_entry t k = None"
proof -
  obtain ns where ns: "lh_with t ns" "xs = kvs t ns" "t_equal_fn t = (=)" by (rule lh_holdsE [OF assms(1)])
  have ne: "e_k e \<noteq> LH_EMPTY" if "e \<in> set (t_table t)" for e
    using length_filter_less [OF that, of "\<lambda>e. e_k e \<noteq> LH_EMPTY"] assms(2) by (auto simp: used_def)
  have "lh_lookup_loop (t\<lparr>t_lookups := l\<rparr>) k n = None" for l n
  proof (cases "lh_lookup_loop (t\<lparr>t_lookups := l\<rparr>) k n")
    case (Some r)
    from lookup_loop_returns [OF this] obtain m where "m < length (t_table t)" "e_k (t_table t ! m) = LH_EMPTY \<or> e_k (t_table t ! m) = Key k"
      using ns(3) by auto
    then show ?thesis using ne key_slot [OF ns(1), of k] assms(3) ns(2) by auto
  qed
  then show ?thesis by (cases "first_slot t k") (simp_all add: lh_table_lookup_entry_def Let_def)
qed

lemma churn_holds: "churn ks t = Some t' \<Longrightarrow> lh_holds t [] \<Longrightarrow> t_size t < 2 ^ 30 \<Longrightarrow> lh_holds t' []"
proof (induction ks arbitrary: t)
  case (Cons k ks)
  obtain t1 t2 where t: "object_add t k None = Some t1" "object_del t1 k = Some t2" "churn ks t2 = Some t'"
    using Cons.prems(1) by (auto simp: bind_eq_Some_conv)
  have "used t \<noteq> length (t_table t)"
    using t(1) lookup_entry_stuck [OF Cons.prems(2), of k] by (auto simp: object_add_def lh_table_delete_def)
  then have u: "used t < length (t_table t)" using length_filter_le [of _ "t_table t"] unfolding used_def by (metis le_neq_implies_less)
  obtain r u where d: "lh_table_delete t k = Some (r, u)" "lh_holds u []" "t_size u = t_size t"
    using delete_holds [OF Cons.prems(2), of k] u by auto
  have "\<not> overfull u" using lh_holds_sized [OF d(2)] by (simp add: overfull_def)
  then have t1: "lh_holds t1 [(k, None)]" "t_size t1 = t_size t"
    using insert_holds [OF d(2), of k None] d Cons.prems(3) t(1) by (auto simp: object_add_def)
  obtain t2' where "lh_table_delete t1 k = Some (0, t2')" "lh_holds t2' []" "t_size t2' = t_size t1"
    using delete_holds [OF t1(1), of k] by auto
  then show ?case using Cons.IH [OF t(3)] t(2) t1(2) Cons.prems(3) by (simp add: object_del_def)
qed simp

subsection \<open>Properties\<close>

text \<open>
  C36. Adding members with distinct keys to a new object succeeds, up to \<open>2 ^ 28\<close> of them, whatever
  collisions and resizings they cause. The walk over the object then meets exactly these members in
  the order of their addition, every lookup returns and gives the value of its key or \<open>NULL\<close>, and
  deleting the object frees every member once.
\<close>

theorem object_roundtrip:
  assumes "distinct (map fst xs)" "length xs \<le> 2 ^ 28"
  shows "\<exists>t0 t. object_table = Some t0 \<and> object_add_all t0 xs = Some t \<and> (\<exists>es. lh_walk t (t_head t) = Some es \<and> map kv es = xs) \<and>
    (\<forall>k. \<exists>t'. object_get t k = Some (value_of xs k, t')) \<and> lh_table_free t = Some (map (\<lambda>(k, v). (Key k, v)) xs)"
proof -
  obtain t0 :: "(cstring, 'a) lh_table" where t0: "object_table = Some t0" "grown t0 []" using object_table_grown by blast
  then obtain t where t: "object_add_all t0 xs = Some t" "grown t xs"
    using obj.add_all_ok [of t0 "[]" xs] assms by (auto simp: object_add_all_eq)
  then have h: "lh_holds t xs" "t_free_fn t" by (auto simp: grown_def)
  have "\<exists>t'. object_get t k = Some (value_of xs k, t')" for k using obj.get_ok [OF t(2)] by blast
  then show ?thesis
    using t0(1) t(1) walk_holds [OF h(1)] free_holds [OF h(1)] h(2) by (intro exI [of _ t0] exI [of _ t]) simp
qed

text \<open>
  C37. \<open>json_object_object_add\<close> on the hash table implements the update of the association list: it
  removes a member with the same key and appends the new one. The table needs a slot that was never
  used, for the search of the old member to end.
\<close>

theorem object_add_refines:
  assumes "lh_holds t (members ms)" "used t < length (t_table t)" "t_size t < 2 ^ 30"
  shows "\<exists>t' ms'. object_add t key (Some val) = Some t' \<and> json_object_object_add (JObject ms) key val = Some (JObject ms') \<and>
    lh_holds t' (members ms')"
proof -
  obtain t' where "object_add t key (Some val) = Some t'" "lh_holds t' (filter (\<lambda>(k', _). k' \<noteq> key) (members ms) @ [(key, Some val)])"
    using add_holds [OF assms(1) disjI1 [OF assms(2)] assms(3)] by blast
  moreover have "filter (\<lambda>(k', _). k' \<noteq> key) (members ms) @ [(key, Some val)] = members (filter (\<lambda>(k, _). k \<noteq> key) ms @ [(key, val)])"
    by (simp add: members_filter) (simp add: members_def)
  ultimately show ?thesis by auto
qed

text \<open>
  C38. When every slot of the table has been used, which deletions never undo, a lookup of a key that
  the object does not have never returns.
\<close>

theorem object_get_stuck:
  assumes "lh_holds t xs" "used t = length (t_table t)" "k \<notin> fst ` set xs"
  shows "object_get t k = None"
  using lookup_entry_stuck [OF assms] by (simp add: object_get_def lh_table_lookup_def)

subsection \<open>Witnesses\<close>

theorem object_roundtrip_witness:
  "\<exists>t0 t. object_table = Some t0 \<and> object_add_all t0 [(''msg'', Some (1 :: nat)), (''rev'', None), (''name'', Some 3)] = Some t \<and>
    (\<exists>t'. object_get t ''name'' = Some (Some 3, t'))"
proof -
  let ?xs = "[(''msg'', Some (1 :: nat)), (''rev'', None), (''name'', Some 3)]"
  have "distinct (map fst ?xs)" "length ?xs \<le> 2 ^ 28" by simp_all
  from object_roundtrip [OF this] obtain t0 t where "object_table = Some t0" "object_add_all t0 ?xs = Some t"
      "\<forall>k. \<exists>t'. object_get t k = Some (value_of ?xs k, t')" by blast
  moreover have "value_of ?xs ''name'' = Some 3" by (simp add: value_of_def)
  ultimately show ?thesis by metis
qed

text \<open>An object with 16 slots after 16 members have come and gone.\<close>

definition demo_keys :: "cstring list" where
  "demo_keys = map (\<lambda>i. [char_of (97 + i)]) [0..<16]"

definition demo_table :: "(cstring, json) lh_table" where
  "demo_table = the object_table"

lemma demo_table: "object_table = Some demo_table" "grown demo_table []"
proof -
  obtain t :: "(cstring, json) lh_table" where t: "object_table = Some t" "grown t []" using object_table_grown by blast
  show "object_table = Some demo_table" "grown demo_table []" by (simp_all add: demo_table_def t)
qed

definition demo_churned :: "(cstring, json) lh_table" where
  "demo_churned = the (churn demo_keys demo_table)"

lemma demo_churned_run:
  "case churn demo_keys demo_table of Some t \<Rightarrow> used t = length (t_table t) | None \<Rightarrow> False"
  by code_simp

theorem object_get_stuck_witness:
  "churn demo_keys demo_table = Some demo_churned \<and> object_get demo_churned ''z'' = None"
proof -
  obtain t where t: "churn demo_keys demo_table = Some t" "used t = length (t_table t)"
    using demo_churned_run by (auto split: option.splits)
  then have c: "demo_churned = t" by (simp add: demo_churned_def)
  have "lh_holds demo_churned []" using churn_holds [OF t(1)] demo_table(2) by (simp add: grown_def c)
  then have "object_get demo_churned ''z'' = None" by (rule object_get_stuck) (simp_all add: c t(2))
  then show ?thesis using t c by simp
qed

theorem object_add_refines_witness:
  "\<exists>t' ms'. object_add demo_table ''rev'' (Some (JInt 1)) = Some t' \<and>
    json_object_object_add (JObject []) ''rev'' (JInt 1) = Some (JObject ms') \<and> lh_holds t' (members ms')"
proof -
  have "lh_holds demo_table (members [])" "t_size demo_table < 2 ^ 30"
    using demo_table(2) by (simp_all add: grown_def members_def)
  from object_add_refines [OF this(1) grown_free [OF demo_table(2)] this(2)] show ?thesis by blast
qed

end
