(* ===== verification/Json_Print_Props.thy ===== *)
theory Json_Print_Props
  imports Json_Print
begin

text \<open>
  The printers against a plain definition of the text of a JSON value: an append to the buffer is an
  append to its contents, whatever the buffer has to grow.
\<close>

subsection \<open>The buffer as a text\<close>

definition content :: "printbuf \<Rightarrow> cstring" where
  "content p = take (pb_bpos p) (pb_buf p)"

definition pb_ok :: "printbuf \<Rightarrow> bool" where
  "pb_ok p \<longleftrightarrow> pb_oom p = [] \<and> length (pb_buf p) = pb_size p \<and> pb_bpos p < pb_size p \<and>
     pb_size p \<le> 2 * pb_bpos p + 32 \<and> pb_buf p ! pb_bpos p = NUL"

lemma pb_okD: "pb_ok p \<Longrightarrow> pb_alloc p = (True, p)" "pb_ok p \<Longrightarrow> length (content p) = pb_bpos p"
  by (simp_all add: pb_ok_def pb_alloc_def content_def)

lemma printbuf_grow_ok:
  assumes "pb_ok p" "pb_bpos p + n + 16 < 2 ^ 30"
  shows "\<exists>p'. printbuf_grow n p = Some (True, p') \<and> pb_oom p' = [] \<and> length (pb_buf p') = pb_size p' \<and>
    pb_bpos p' = pb_bpos p \<and> content p' = content p \<and> pb_bpos p + n < pb_size p' \<and> pb_size p' \<le> 2 * (pb_bpos p + n) + 32"
proof (cases "int (pb_size p) - int (pb_bpos p) \<le> int n")
  case True
  let ?s = "max (pb_size p * 2) (pb_bpos p + n + 8)"
  have s: "?s < 2 ^ 31" "?s \<le> 2 * (pb_bpos p + n) + 32" "pb_bpos p + n < ?s" "pb_size p \<le> ?s"
    using True assms by (auto simp: pb_ok_def)
  then show ?thesis
    using True assms(1) pb_okD(1) [OF assms(1)]
    by (auto simp: printbuf_grow_def Let_def content_def pb_ok_def)
next
  case False
  then show ?thesis using assms by (auto simp: printbuf_grow_def pb_ok_def)
qed

lemma memappend_ok:
  assumes "pb_ok p" "pb_bpos p + length s + 16 < 2 ^ 30"
  shows "\<exists>p'. printbuf_memappend p s = Some (int (length s), p') \<and> pb_ok p' \<and> content p' = content p @ s \<and>
    pb_bpos p' = pb_bpos p + length s"
proof -
  obtain q where q: "printbuf_grow (length s) p = Some (True, q)" "pb_oom q = []" "length (pb_buf q) = pb_size q"
      "pb_bpos q = pb_bpos p" "content q = content p" "pb_bpos p + length s < pb_size q"
      "pb_size q \<le> 2 * (pb_bpos p + length s) + 32"
    using printbuf_grow_ok [OF assms] by blast
  let ?p = "q\<lparr>pb_buf := take (pb_bpos q) (pb_buf q) @ s @ NUL # drop (pb_bpos q + length s + 1) (pb_buf q),
      pb_bpos := pb_bpos q + length s\<rparr>"
  have "printbuf_memappend p s = Some (int (length s), ?p)" using q by (simp add: printbuf_memappend_def)
  moreover have "pb_ok ?p" using q by (simp add: pb_ok_def nth_append)
  moreover have "content ?p = content p @ s" using q(3,4,5,6) assms(1) by (auto simp: content_def pb_ok_def)
  ultimately show ?thesis using q(4) by auto
qed

lemma sprintbuf_ok:
  assumes "pb_ok p" "pb_bpos p + length s + 16 < 2 ^ 30"
  shows "\<exists>p'. sprintbuf p s = Some (int (length s), p') \<and> pb_ok p' \<and> content p' = content p @ s \<and>
    pb_bpos p' = pb_bpos p + length s"
  using memappend_ok [OF assms] pb_okD(1) [OF assms(1)] by (auto simp: sprintbuf_def)

text \<open>What a printer does: it appends a text to the buffer.\<close>

definition appends :: "cstring \<Rightarrow> (printbuf \<Rightarrow> printbuf option) \<Rightarrow> bool" where
  "appends t f \<longleftrightarrow>
     (\<forall>p. pb_ok p \<and> pb_bpos p + length t + 16 < 2 ^ 30 \<longrightarrow>
        (\<exists>p'. f p = Some p' \<and> pb_ok p' \<and> content p' = content p @ t \<and> pb_bpos p' = pb_bpos p + length t))"

lemma appends_seq: "appends s f \<Longrightarrow> appends t g \<Longrightarrow> appends (s @ t) (\<lambda>p. do { p \<leftarrow> f p; g p })"
  unfolding appends_def
proof (intro allI impI)
  fix p
  assume f: "\<forall>p. pb_ok p \<and> pb_bpos p + length s + 16 < 2 ^ 30 \<longrightarrow>
        (\<exists>p'. f p = Some p' \<and> pb_ok p' \<and> content p' = content p @ s \<and> pb_bpos p' = pb_bpos p + length s)"
    and g: "\<forall>p. pb_ok p \<and> pb_bpos p + length t + 16 < 2 ^ 30 \<longrightarrow>
        (\<exists>p'. g p = Some p' \<and> pb_ok p' \<and> content p' = content p @ t \<and> pb_bpos p' = pb_bpos p + length t)"
    and p: "pb_ok p \<and> pb_bpos p + length (s @ t) + 16 < 2 ^ 30"
  then obtain q where q: "f p = Some q" "pb_ok q" "content q = content p @ s" "pb_bpos q = pb_bpos p + length s" by force
  with g p obtain r where "g q = Some r" "pb_ok r" "content r = content q @ t" "pb_bpos r = pb_bpos q + length t" by force
  with q show "\<exists>p'. do { p \<leftarrow> f p; g p } = Some p' \<and> pb_ok p' \<and> content p' = content p @ s @ t \<and>
      pb_bpos p' = pb_bpos p + length (s @ t)" by simp
qed

lemma appends_Nil: "appends [] Some"
  by (simp add: appends_def)

lemma appends_sprintbuf: "appends t (\<lambda>p. do { (_, p) \<leftarrow> sprintbuf p t; Some p })"
  using sprintbuf_ok unfolding appends_def by fastforce

lemma appends_memappend: "appends t (\<lambda>p. do { (_, p) \<leftarrow> printbuf_memappend p t; Some p })"
  using memappend_ok unfolding appends_def by fastforce

lemma appends_sprintbuf_then:
  "appends t g \<Longrightarrow> appends (s @ t) (\<lambda>p. do { (_, p) \<leftarrow> sprintbuf p s; g p })"
  using appends_seq [OF appends_sprintbuf [of s], of t g] by (simp add: case_prod_unfold)

subsection \<open>Escaping\<close>

definition json_escape :: "cstring \<Rightarrow> cstring" where
  "json_escape s = concat (map (\<lambda>c. case escape_char c of Some e \<Rightarrow> e | None \<Rightarrow> [c]) s)"

lemma appends_flush: "appends w (\<lambda>p. flush p (u @ w @ s) (length u) (length u + length w))"
proof (cases "w = []")
  case True
  then show ?thesis using appends_Nil by (simp add: flush_def [abs_def])
next
  case False
  then show ?thesis using appends_memappend [of w] by (simp add: flush_def [abs_def])
qed

lemma appends_escape_loop:
  "NUL \<notin> set s \<Longrightarrow>
   appends (w @ json_escape s) (\<lambda>p. escape_loop p (u @ w @ s @ [NUL]) (length u + length w) (length u))"
proof (induction s arbitrary: u w)
  case Nil
  have "rd (u @ w @ [NUL]) (length u + length w) = Some NUL" by (simp add: rd_def nth_append)
  then show ?case
    using appends_flush [of w u "[NUL]"] by (subst escape_loop.simps) (simp add: json_escape_def)
next
  case (Cons c s)
  have c: "rd (u @ w @ (c # s) @ [NUL]) (length u + length w) = Some c" "c \<noteq> NUL"
    using Cons.prems by (auto simp: rd_def nth_append)
  show ?case
  proof (cases "escape_char c")
    case None
    have "appends ((w @ [c]) @ json_escape s)
        (\<lambda>p. escape_loop p (u @ (w @ [c]) @ s @ [NUL]) (length u + length (w @ [c])) (length u))"
      using Cons.prems by (intro Cons.IH) simp
    then show ?thesis using c None by (subst escape_loop.simps) (simp add: json_escape_def)
  next
    case (Some e)
    have "appends (json_escape s) (\<lambda>p. escape_loop p (u @ w @ (c # s) @ [NUL])
        (Suc (length u + length w)) (Suc (length u + length w)))"
      using Cons.IH [of "[]" "u @ w @ [c]"] Cons.prems by simp
    from appends_seq [OF appends_flush [of w u "(c # s) @ [NUL]"] appends_sprintbuf_then [OF this, of e]]
    show ?thesis using c Some by (subst escape_loop.simps) (simp add: json_escape_def)
  qed
qed

lemma appends_escape: "NUL \<notin> set s \<Longrightarrow> appends (json_escape s) (\<lambda>p. json_escape_str p (s @ [NUL]))"
  using appends_escape_loop [of s "[]" "[]"] by (simp add: json_escape_str_def)

subsection \<open>Values\<close>

text \<open>The text of a value, member by member.\<close>

fun json_text :: "json \<Rightarrow> cstring"
  and object_text :: "bool \<Rightarrow> (cstring \<times> json) list \<Rightarrow> cstring"
  and array_text :: "bool \<Rightarrow> json list \<Rightarrow> cstring" where
  "json_text (JInt i) = int_dec i"
| "json_text (JString s) = [CHR 0x22] @ json_escape s @ [CHR 0x22]"
| "json_text (JArray vs) = ''['' @ array_text False vs @ '' ]''"
| "json_text (JObject kvs) = ''{'' @ object_text False kvs @ '' }''"
| "object_text i [] = []"
| "object_text i ((k, v) # kvs) =
     (if i then '','' else []) @ ('' '' @ [CHR 0x22]) @ json_escape k @ ([CHR 0x22] @ '': '') @ json_text v @ object_text True kvs"
| "array_text i [] = []"
| "array_text i (v # vs) = (if i then '', '' else '' '') @ json_text v @ array_text True vs"

text \<open>Strings and keys of a value are C strings.\<close>

fun json_ok :: "json \<Rightarrow> bool" where
  "json_ok (JInt i) = True"
| "json_ok (JString s) = (NUL \<notin> set s)"
| "json_ok (JArray vs) = (\<forall>v \<in> set vs. json_ok v)"
| "json_ok (JObject kvs) = (\<forall>kv \<in> set kvs. NUL \<notin> set (fst kv) \<and> json_ok (snd kv))"

lemma appends_to_json_string:
  "json_ok j \<Longrightarrow> appends (json_text j) (to_json_string j)"
  "\<forall>kv \<in> set kvs. NUL \<notin> set (fst kv) \<and> json_ok (snd kv) \<Longrightarrow> appends (object_text i kvs) (object_to_json_string i kvs)"
  "\<forall>v \<in> set vs. json_ok v \<Longrightarrow> appends (array_text i vs) (array_to_json_string i vs)"
proof (induction j and i kvs and i vs rule: json_text_object_text_array_text.induct)
  case (1 i)
  then show ?case using appends_sprintbuf [of "int_dec i"] by simp
next
  case (2 s)
  then show ?case
    using appends_sprintbuf_then [OF appends_seq [OF appends_escape appends_sprintbuf], of s "[CHR 0x22]" "[CHR 0x22]"] by simp
next
  case (3 vs)
  then show ?case
    using appends_sprintbuf_then [OF appends_seq [OF 3(1) appends_sprintbuf], of "''[''" "'' ]''"] by simp
next
  case (4 kvs)
  then show ?case
    using appends_sprintbuf_then [OF appends_seq [OF 4(1) appends_sprintbuf], of "''{''" "'' }''"] by simp
next
  case (5 i)
  then show ?case using appends_Nil by simp
next
  case (6 i k v kvs)
  have k: "NUL \<notin> set k" "appends (json_text v) (to_json_string v)"
    "appends (object_text True kvs) (object_to_json_string True kvs)"
    using 6 by auto
  note body = appends_sprintbuf_then [OF appends_seq [OF appends_escape [OF k(1)]
        appends_sprintbuf_then [OF appends_seq [OF k(2,3)], of "[CHR 0x22] @ '': ''"]], of "'' '' @ [CHR 0x22]"]
  show ?case
  proof (cases i)
    case True
    then show ?thesis using appends_sprintbuf_then [OF body, of "'',''"] by (simp add: case_prod_unfold)
  next
    case False
    then show ?thesis using body by simp
  qed
next
  case (7 i)
  then show ?case using appends_Nil by simp
next
  case (8 i v vs)
  then have "appends (json_text v @ array_text True vs) (\<lambda>p. do { p \<leftarrow> to_json_string v p; array_to_json_string True vs p })"
    by (intro appends_seq) auto
  from appends_sprintbuf_then [OF this, of "if i then '', '' else '' ''"] show ?case by simp
qed

lemma escape_nonnul: "NUL \<notin> set s \<Longrightarrow> NUL \<notin> set (json_escape s)"
proof -
  have "NUL \<notin> set e" if "escape_char c = Some e" for c e
  proof -
    have "json_hex_chars ! n \<noteq> NUL" if "n < 16" for n
    proof -
      have "json_hex_chars ! n \<in> set json_hex_chars" using that by (intro nth_mem) (simp add: json_hex_chars_def)
      moreover have "NUL \<notin> set json_hex_chars" by (simp add: json_hex_chars_def)
      ultimately show ?thesis by metis
    qed
    then have "(of_char c :: nat) < 32 \<Longrightarrow> json_hex_chars ! (of_char c div 16) \<noteq> NUL"
      "json_hex_chars ! (of_char c mod 16) \<noteq> NUL"
      by (simp_all add: less_mult_imp_div_less)
    then show ?thesis
      using that by (auto simp: escape_char_def short_escapes_def split: option.splits if_splits)
  qed
  then show "NUL \<notin> set s \<Longrightarrow> NUL \<notin> set (json_escape s)"
    by (auto simp: json_escape_def split: option.splits)
qed

lemma text_nonnul:
  "json_ok j \<Longrightarrow> NUL \<notin> set (json_text j)"
  "\<forall>kv \<in> set kvs. NUL \<notin> set (fst kv) \<and> json_ok (snd kv) \<Longrightarrow> NUL \<notin> set (object_text i kvs)"
  "\<forall>v \<in> set vs. json_ok v \<Longrightarrow> NUL \<notin> set (array_text i vs)"
proof (induction j and i kvs and i vs rule: json_text_object_text_array_text.induct)
  case (1 i)
  have "NUL \<notin> set (nat_dec n)" for n using nat_dec_digits [of NUL n] by (auto simp: isdigit_def)
  then show ?case by (simp add: int_dec_def)
qed (use escape_nonnul in auto)

lemma json_print_ok:
  assumes "json_ok j" "length (json_text j) + 16 < 2 ^ 30"
  shows "json_object_to_json_string [] j = Some (Some (json_text j))"
proof -
  let ?pb = "\<lparr>pb_buf = replicate 32 NUL, pb_bpos = 0, pb_size = 32, pb_oom = []\<rparr>"
  have n: "printbuf_new [] = Some ?pb" by (simp add: printbuf_new_def pb_alloc_def Let_def)
  have "pb_ok ?pb" "content ?pb = []" by (simp_all add: pb_ok_def content_def)
  then obtain p where p: "to_json_string j ?pb = Some p" "pb_ok p" "content p = json_text j"
    using appends_to_json_string(1) [OF assms(1)] assms(2) unfolding appends_def by force
  have "pb_buf p = take (pb_bpos p) (pb_buf p) @ pb_buf p ! pb_bpos p # drop (Suc (pb_bpos p)) (pb_buf p)"
    by (rule id_take_nth_drop) (use p(2) in \<open>simp add: pb_ok_def\<close>)
  also have "\<dots> = json_text j @ NUL # drop (Suc (pb_bpos p)) (pb_buf p)"
    using p(2,3) by (simp add: content_def pb_ok_def)
  finally have "c_string (pb_buf p) = Some (json_text j)"
    using c_string_append [OF text_nonnul(1) [OF assms(1)]] by metis
  then show ?thesis using n p(1) by (simp add: json_object_to_json_string_def)
qed

text \<open>
  C16. Printing a JSON value whose strings and keys are C strings returns, with enough memory, exactly
  the text of the value: the copying of runs of plain characters and the growth of the buffer lose
  and add nothing. The text must be shorter than \<open>2^30 - 16\<close> characters.
\<close>

theorem json_print_correct:
  assumes "json_ok j" "length (json_text j) + 16 < 2 ^ 30"
  shows "json_object_to_json_string [] j = Some (Some (json_text j))"
  by (rule json_print_ok [OF assms])

theorem json_print_correct_witness:
  "json_object_to_json_string [] (JObject [(''rev'', JInt 7), (''messages'', JArray [JString [CHR ''a'', LF]])]) =
    Some (Some (''{ '' @ [CHR 0x22] @ ''rev'' @ [CHR 0x22] @ '': 7, '' @ [CHR 0x22] @ ''messages'' @ [CHR 0x22] @ '': [ '' @
      [CHR 0x22, CHR ''a'', CHR 0x5C, CHR ''n'', CHR 0x22] @ '' ] }''))"
proof -
  let ?j = "JObject [(''rev'', JInt 7), (''messages'', JArray [JString [CHR ''a'', LF]])]"
  have t: "json_text ?j = ''{ '' @ [CHR 0x22] @ ''rev'' @ [CHR 0x22] @ '': 7, '' @ [CHR 0x22] @ ''messages'' @ [CHR 0x22] @
      '': [ '' @ [CHR 0x22, CHR ''a'', CHR 0x5C, CHR ''n'', CHR 0x22] @ '' ] }''"
    by code_simp
  show ?thesis using json_print_correct [of ?j] unfolding t by simp
qed

subsection \<open>Reading a string back\<close>

definition hex_val :: "char \<Rightarrow> nat option" where
  "hex_val c = index_of (\<lambda>x. x = c) json_hex_chars"

text \<open>The decoding of the JSON standard, for the escapes that are written.\<close>

fun json_unescape :: "cstring \<Rightarrow> cstring option" where
  "json_unescape [] = Some []"
| "json_unescape (c # s) =
     (if c = CHR 0x5C then
        (case s of
           [] \<Rightarrow> None
         | e # s \<Rightarrow>
             if e = CHR ''u'' then
               (case s of
                  a # b # x # y # s \<Rightarrow>
                    do {
                      h \<leftarrow> hex_val a; i \<leftarrow> hex_val b; j \<leftarrow> hex_val x; k \<leftarrow> hex_val y;
                      let n = ((h * 16 + i) * 16 + j) * 16 + k;
                      if 256 \<le> n then None else do { r \<leftarrow> json_unescape s; Some (char_of n # r) }
                    }
                | _ \<Rightarrow> None)
             else
               do {
                 x \<leftarrow> map_of (map (\<lambda>(c, e). (e, c)) short_escapes) e;
                 r \<leftarrow> json_unescape s;
                 Some (x # r)
               })
      else if c = CHR 0x22 then None
      else do { r \<leftarrow> json_unescape s; Some (c # r) })"

lemma hex_val_nth: "n < 16 \<Longrightarrow> hex_val (json_hex_chars ! n) = Some n"
proof -
  have "list_all (\<lambda>n. hex_val (json_hex_chars ! n) = Some n) [0..<16]" by code_simp
  then show "n < 16 \<Longrightarrow> hex_val (json_hex_chars ! n) = Some n" by (simp only: list_all_iff set_upt atLeastLessThan_iff le0)
qed

lemma unescape_char:
  "json_unescape ((case escape_char c of Some e \<Rightarrow> e | None \<Rightarrow> [c]) @ s) = do { r \<leftarrow> json_unescape s; Some (c # r) }"
proof (cases "map_of short_escapes c")
  case (Some e)
  then have "e \<noteq> CHR ''u'' \<and> map_of (map (\<lambda>(c, e). (e, c)) short_escapes) e = Some c"
    by (auto simp: short_escapes_def split: if_splits)
  then show ?thesis using Some by (simp add: escape_char_def)
next
  case None
  then have c: "c \<noteq> CHR 0x5C" "c \<noteq> CHR 0x22" by (auto simp: short_escapes_def split: if_splits)
  show ?thesis
  proof (cases "(of_char c :: nat) < 32")
    case True
    define n where "n = (of_char c :: nat)"
    have h: "hex_val (CHR ''0'') = Some 0" by (simp add: hex_val_def json_hex_chars_def)
    have "hex_val (json_hex_chars ! (n div 16)) = Some (n div 16)" "hex_val (json_hex_chars ! (n mod 16)) = Some (n mod 16)"
      using True by (auto intro!: hex_val_nth simp: n_def less_mult_imp_div_less)
    moreover have "n div 16 * 16 + n mod 16 = n" "n < 256" "char_of n = c" using True by (simp_all add: n_def)
    ultimately show ?thesis using None True h by (simp add: escape_char_def Let_def flip: n_def)
  next
    case False
    then show ?thesis using None c by (simp add: escape_char_def)
  qed
qed

text \<open>
  Every string is read back from its escaped form by the decoding of the JSON standard, so that
  no two strings are printed alike.
\<close>

lemma json_escape_roundtrip: "json_unescape (json_escape s) = Some s"
  by (induction s) (simp_all add: json_escape_def unescape_char)

end
