(* ===== verification/Tokener.thy ===== *)
theory Tokener
  imports Json_Print_Props MQ_State
begin

text \<open>
  The JSON parser of the library (\<open>src/lib/json/json_tokener.c\<close>): a machine over the characters of the
  input with a stack of 32 levels. A character may be looked at by several states before the machine
  advances. The print buffer is its contents (that appending appends is shown with the printer). A
  value is a tree, \<open>None\<close> being \<open>NULL\<close>, which stands for null; reference counts are not modelled. \<open>'d\<close> is
  the type of doubles, \<open>scan_lf\<close> what \<open>sscanf\<close> reads with \<open>%lf\<close>, and \<open>big\<close> what it stores with \<open>%d\<close> for a
  number that is not an \<open>int\<close>.
\<close>

datatype 'd jval =
  VBoolean bool | VInt int | VDouble 'd | VString cstring | VArray "'d jval option list" | VObject "(cstring \<times> 'd jval option) list"

datatype tok_err =
  tok_success | tok_continue | err_depth | err_parse_eof | err_parse_unexpected | err_parse_null | err_parse_boolean
| err_parse_number | err_parse_array | err_parse_object_key_name | err_parse_object_key_sep | err_parse_object_value_sep
| err_parse_string | err_parse_comment

datatype tok_state =
  st_eatws | st_start | st_finish | st_null | st_comment_start | st_comment | st_comment_eol | st_comment_end | st_string
| st_string_escape | st_escape_unicode | st_boolean | st_number | st_array | st_array_add | st_array_sep | st_object_field_start
| st_object_field | st_object_field_end | st_object_value | st_object_value_add | st_object_sep

record 'd srec =
  sr_state :: tok_state
  sr_saved_state :: tok_state
  sr_current :: "'d jval option"
  sr_obj_field_name :: "cstring option"

definition JSON_TOKENER_MAX_DEPTH :: nat where
  "JSON_TOKENER_MAX_DEPTH = 32"

record 'd tokener =
  tk_pb :: string
  tk_depth :: nat
  tk_is_double :: bool
  tk_st_pos :: nat
  tk_char_offset :: int
  tk_err :: tok_err
  tk_ucs_char :: "32 word"
  tk_quote_char :: char
  tk_stack :: "'d srec list"

text \<open>The local variables \<open>str\<close>, \<open>c\<close> and \<open>obj\<close> of \<open>json_tokener_parse_ex\<close>, with the tokener.\<close>

record 'd cfg =
  tok :: "'d tokener"
  str :: nat
  ch :: char
  obj :: "'d jval option"

subsection \<open>Levels\<close>

definition reset_srec :: "'d srec" where
  "reset_srec = \<lparr>sr_state = st_eatws, sr_saved_state = st_start, sr_current = None, sr_obj_field_name = None\<rparr>"

definition json_tokener_reset_level :: "'d tokener \<Rightarrow> nat \<Rightarrow> 'd tokener option" where
  "json_tokener_reset_level t d = do { s \<leftarrow> wr (tk_stack t) d reset_srec; Some (t\<lparr>tk_stack := s\<rparr>) }"

fun json_tokener_reset_loop :: "'d tokener \<Rightarrow> nat \<Rightarrow> 'd tokener option" where
  "json_tokener_reset_loop t 0 = json_tokener_reset_level t 0"
| "json_tokener_reset_loop t (Suc i) = do { t \<leftarrow> json_tokener_reset_level t (Suc i); json_tokener_reset_loop t i }"

definition json_tokener_reset :: "'d tokener \<Rightarrow> 'd tokener option" where
  "json_tokener_reset t =
     do {
       t \<leftarrow> json_tokener_reset_loop t (tk_depth t);
       Some (t\<lparr>tk_depth := 0, tk_err := tok_success\<rparr>)
     }"

text \<open>The buffer and the tokener are freed; what is done to the levels is modelled.\<close>

definition json_tokener_free :: "'d tokener \<Rightarrow> unit option" where
  "json_tokener_free t = do { _ \<leftarrow> json_tokener_reset t; Some () }"

text \<open>\<open>calloc\<close> leaves the first state and no values in all levels.\<close>

definition json_tokener_new :: "'d tokener option" where
  "json_tokener_new =
     json_tokener_reset
       \<lparr>tk_pb = [], tk_depth = 0, tk_is_double = False, tk_st_pos = 0, tk_char_offset = 0, tk_err = tok_success, tk_ucs_char = 0,
        tk_quote_char = NUL,
        tk_stack = replicate JSON_TOKENER_MAX_DEPTH
          \<lparr>sr_state = st_eatws, sr_saved_state = st_eatws, sr_current = None, sr_obj_field_name = None\<rparr>\<rparr>"

text \<open>The macros \<open>state\<close>, \<open>saved_state\<close>, \<open>current\<close> and \<open>obj_field_name\<close> name the fields of this level.\<close>

definition level :: "'d tokener \<Rightarrow> 'd srec option" where
  "level t = rd (tk_stack t) (tk_depth t)"

definition upd_level :: "('d srec \<Rightarrow> 'd srec) \<Rightarrow> 'd cfg \<Rightarrow> 'd cfg option" where
  "upd_level f x =
     do {
       l \<leftarrow> level (tok x);
       s \<leftarrow> wr (tk_stack (tok x)) (tk_depth (tok x)) (f l);
       Some (x\<lparr>tok := (tok x)\<lparr>tk_stack := s\<rparr>\<rparr>)
     }"

definition goto_state :: "tok_state \<Rightarrow> 'd cfg \<Rightarrow> 'd cfg option" where
  "goto_state s = upd_level (\<lambda>l. l\<lparr>sr_state := s\<rparr>)"

text \<open>\<open>state = json_tokener_state_eatws; saved_state = s\<close>\<close>

definition eatws_then :: "tok_state \<Rightarrow> 'd cfg \<Rightarrow> 'd cfg option" where
  "eatws_then s = upd_level (\<lambda>l. l\<lparr>sr_state := st_eatws, sr_saved_state := s\<rparr>)"

definition set_current :: "'d jval option \<Rightarrow> 'd cfg \<Rightarrow> 'd cfg option" where
  "set_current v = upd_level (\<lambda>l. l\<lparr>sr_current := v\<rparr>)"

definition set_err :: "tok_err \<Rightarrow> 'd cfg \<Rightarrow> 'd cfg" where
  "set_err e x = x\<lparr>tok := (tok x)\<lparr>tk_err := e\<rparr>\<rparr>"

definition pb_reset :: "'d cfg \<Rightarrow> 'd cfg" where
  "pb_reset x = x\<lparr>tok := (tok x)\<lparr>tk_pb := []\<rparr>\<rparr>"

definition pb_append :: "string \<Rightarrow> 'd cfg \<Rightarrow> 'd cfg" where
  "pb_append s x = x\<lparr>tok := (tok x)\<lparr>tk_pb := tk_pb (tok x) @ s\<rparr>\<rparr>"

subsection \<open>Characters\<close>

definition POP_CHAR :: "char list \<Rightarrow> int \<Rightarrow> 'd cfg \<Rightarrow> (bool \<times> 'd cfg) option" where
  "POP_CHAR b len x =
     (if tk_char_offset (tok x) = len then
        do {
          l \<leftarrow> level (tok x);
          if tk_depth (tok x) = 0 \<and> sr_state l = st_eatws \<and> sr_saved_state l = st_finish then Some (False, set_err tok_success x)
          else Some (False, set_err tok_continue x)
        }
      else
        do {
          c \<leftarrow> rd b (str x);
          Some (True, x\<lparr>ch := c\<rparr>)
        })"

definition ADVANCE_CHAR :: "'d cfg \<Rightarrow> (bool \<times> 'd cfg) option" where
  "ADVANCE_CHAR x =
     do {
       n \<leftarrow> int_incr (tk_char_offset (tok x));
       Some (ch x \<noteq> NUL, x\<lparr>str := str x + 1, tok := (tok x)\<lparr>tk_char_offset := n\<rparr>\<rparr>)
     }"

text \<open>\<open>ADVANCE_CHAR(str, tok) && POP_CHAR(c, tok)\<close>\<close>

definition adv_pop :: "char list \<Rightarrow> int \<Rightarrow> 'd cfg \<Rightarrow> (bool \<times> 'd cfg) option" where
  "adv_pop b len x =
     do {
       (ok, x) \<leftarrow> ADVANCE_CHAR x;
       if ok then POP_CHAR b len x else Some (False, x)
     }"

text \<open>The loops that advance while a test holds for the character; \<open>False\<close> when they leave to \<open>out\<close>.\<close>

function scan_while :: "(char \<Rightarrow> bool) \<Rightarrow> char list \<Rightarrow> int \<Rightarrow> 'd cfg \<Rightarrow> (bool \<times> 'd cfg) option" where
  "scan_while P b len x =
     (if P (ch x) then
        do {
          (ok, x) \<leftarrow> adv_pop b len x;
          if ok then scan_while P b len x else Some (False, x)
        }
      else Some (True, x))"
  by pat_completeness auto
termination
  by (relation "measure (\<lambda>(P, b, len, x). length b - str x)")
    (auto simp: adv_pop_def ADVANCE_CHAR_def POP_CHAR_def bind_eq_Some_conv rd_def split: if_splits)

declare scan_while.simps [simp del]

text \<open>The characters between \<open>case_start\<close> and \<open>str\<close>.\<close>

definition scanned :: "char list \<Rightarrow> 'd cfg \<Rightarrow> 'd cfg \<Rightarrow> string" where
  "scanned b x x' = take (str x' - str x) (drop (str x) b)"

datatype act = Redo | Break | Out

type_synonym 'd result = "(act \<times> 'd cfg) option"

subsection \<open>White space and comments\<close>

definition do_eatws :: "char list \<Rightarrow> int \<Rightarrow> 'd cfg \<Rightarrow> 'd result" where
  "do_eatws b len x =
     do {
       (ok, x) \<leftarrow> scan_while isspace b len x;
       if \<not> ok then Some (Out, x)
       else if ch x = CHR ''/'' then
         do { x \<leftarrow> goto_state st_comment_start (pb_append [ch x] (pb_reset x)); Some (Break, x) }
       else
         do {
           l \<leftarrow> level (tok x);
           x \<leftarrow> goto_state (sr_saved_state l) x;
           Some (Redo, x)
         }
     }"

definition do_comment_start :: "'d cfg \<Rightarrow> 'd result" where
  "do_comment_start x =
     (if ch x = CHR ''*'' then do { x \<leftarrow> goto_state st_comment x; Some (Break, pb_append [ch x] x) }
      else if ch x = CHR ''/'' then do { x \<leftarrow> goto_state st_comment_eol x; Some (Break, pb_append [ch x] x) }
      else Some (Out, set_err err_parse_comment x))"

definition do_comment :: "char list \<Rightarrow> int \<Rightarrow> 'd cfg \<Rightarrow> 'd result" where
  "do_comment b len x =
     do {
       (ok, x') \<leftarrow> scan_while (\<lambda>c. c \<noteq> CHR ''*'') b len x;
       if \<not> ok then Some (Out, pb_append (scanned b x x') x')
       else do { x' \<leftarrow> goto_state st_comment_end (pb_append (scanned b x x' @ [ch x']) x'); Some (Break, x') }
     }"

definition do_comment_eol :: "char list \<Rightarrow> int \<Rightarrow> 'd cfg \<Rightarrow> 'd result" where
  "do_comment_eol b len x =
     do {
       (ok, x') \<leftarrow> scan_while (\<lambda>c. c \<noteq> LF) b len x;
       let x' = pb_append (scanned b x x') x';
       if \<not> ok then Some (Out, x')
       else do { x' \<leftarrow> goto_state st_eatws x'; Some (Break, x') }
     }"

definition do_comment_end :: "'d cfg \<Rightarrow> 'd result" where
  "do_comment_end x =
     do {
       let x = pb_append [ch x] x;
       x \<leftarrow> goto_state (if ch x = CHR ''/'' then st_eatws else st_comment) x;
       Some (Break, x)
     }"

subsection \<open>Values\<close>

definition set_st_pos :: "nat \<Rightarrow> 'd cfg \<Rightarrow> 'd cfg" where
  "set_st_pos n x = x\<lparr>tok := (tok x)\<lparr>tk_st_pos := n\<rparr>\<rparr>"

definition set_quote :: "char \<Rightarrow> 'd cfg \<Rightarrow> 'd cfg" where
  "set_quote c x = x\<lparr>tok := (tok x)\<lparr>tk_quote_char := c\<rparr>\<rparr>"

definition set_is_double :: "bool \<Rightarrow> 'd cfg \<Rightarrow> 'd cfg" where
  "set_is_double d x = x\<lparr>tok := (tok x)\<lparr>tk_is_double := d\<rparr>\<rparr>"

definition do_start :: "'d cfg \<Rightarrow> 'd result" where
  "do_start x =
     (let c = ch x in
      if c = CHR ''{'' then
        do { x \<leftarrow> eatws_then st_object_field_start x; x \<leftarrow> set_current (Some (VObject [])) x; Some (Break, x) }
      else if c = CHR ''['' then
        do { x \<leftarrow> eatws_then st_array x; x \<leftarrow> set_current (Some (VArray [])) x; Some (Break, x) }
      else if c = CHR ''N'' \<or> c = CHR ''n'' then
        do { x \<leftarrow> goto_state st_null x; Some (Redo, set_st_pos 0 (pb_reset x)) }
      else if c = CHR 0x22 \<or> c = CHR 0x27 then
        do { x \<leftarrow> goto_state st_string x; Some (Break, set_quote c (pb_reset x)) }
      else if c = CHR ''T'' \<or> c = CHR ''t'' \<or> c = CHR ''F'' \<or> c = CHR ''f'' then
        do { x \<leftarrow> goto_state st_boolean x; Some (Redo, set_st_pos 0 (pb_reset x)) }
      else if isdigit c \<or> c = CHR ''-'' then
        do { x \<leftarrow> goto_state st_number x; Some (Redo, set_is_double False (pb_reset x)) }
      else Some (Out, set_err err_parse_unexpected x))"

definition do_finish :: "'d cfg \<Rightarrow> 'd result" where
  "do_finish x =
     (if tk_depth (tok x) = 0 then Some (Out, x)
      else
        do {
          l \<leftarrow> level (tok x);
          t \<leftarrow> json_tokener_reset_level (tok x) (tk_depth (tok x));
          Some (Redo, x\<lparr>obj := sr_current l, tok := t\<lparr>tk_depth := tk_depth t - 1\<rparr>\<rparr>)
        })"

text \<open>A value is complete: \<open>current = v; saved_state = finish; state = eatws\<close>.\<close>

definition complete :: "'d jval option \<Rightarrow> 'd cfg \<Rightarrow> 'd cfg option" where
  "complete v x = do { x \<leftarrow> set_current v x; eatws_then st_finish x }"

text \<open>
  \<open>strncasecmp(word, tok->pb->buf, json_min(tok->st_pos + 1, strlen(word))) == 0\<close>
\<close>

definition matches_word :: "cstring \<Rightarrow> 'd cfg \<Rightarrow> bool option" where
  "matches_word w x = strncasecmp0 (w @ [NUL]) (tk_pb (tok x) @ [NUL]) (min (tk_st_pos (tok x) + 1) (length w))"

definition do_null :: "'d cfg \<Rightarrow> 'd result" where
  "do_null x =
     do {
       let x = pb_append [ch x] x;
       m \<leftarrow> matches_word ''null'' x;
       if m then
         if tk_st_pos (tok x) = length ''null'' then do { x \<leftarrow> complete None x; Some (Redo, x) }
         else Some (Break, set_st_pos (tk_st_pos (tok x) + 1) x)
       else Some (Out, set_err err_parse_null x)
     }"

definition do_boolean :: "'d cfg \<Rightarrow> 'd result" where
  "do_boolean x =
     do {
       let x = pb_append [ch x] x;
       m \<leftarrow> matches_word ''true'' x;
       if m then
         if tk_st_pos (tok x) = length ''true'' then do { x \<leftarrow> complete (Some (VBoolean True)) x; Some (Redo, x) }
         else Some (Break, set_st_pos (tk_st_pos (tok x) + 1) x)
       else
         do {
           m \<leftarrow> matches_word ''false'' x;
           if m then
             if tk_st_pos (tok x) = length ''false'' then do { x \<leftarrow> complete (Some (VBoolean False)) x; Some (Redo, x) }
             else Some (Break, set_st_pos (tk_st_pos (tok x) + 1) x)
           else Some (Out, set_err err_parse_boolean x)
         }
     }"

definition json_number_chars :: cstring where
  "json_number_chars = ''0123456789.+-eE''"

text \<open>\<open>sscanf(s, "%d", &i)\<close>: the number read, if the conversion succeeds.\<close>

definition sscanf_d :: "(cstring \<Rightarrow> int) \<Rightarrow> cstring \<Rightarrow> int option" where
  "sscanf_d big s =
     (let r = dropWhile isspace s;
          neg = (case r of c # _ \<Rightarrow> c = CHR ''-'' | [] \<Rightarrow> False);
          ds = takeWhile isdigit (case r of c # t \<Rightarrow> if c = CHR ''-'' \<or> c = CHR ''+'' then t else r | [] \<Rightarrow> r);
          v = (if neg then - int (digits_val ds) else int (digits_val ds))
      in if ds = [] then None else Some (if - (2 ^ 31) \<le> v \<and> v < 2 ^ 31 then v else big s))"

definition do_number :: "(cstring \<Rightarrow> int) \<Rightarrow> (cstring \<Rightarrow> 'd option) \<Rightarrow> char list \<Rightarrow> int \<Rightarrow> 'd cfg \<Rightarrow> 'd result" where
  "do_number big scan_lf b len x =
     do {
       (ok, x') \<leftarrow> scan_while (\<lambda>c. c \<noteq> NUL \<and> c \<in> set json_number_chars) b len x;
       let s = scanned b x x';
       let x' = pb_append s (set_is_double (tk_is_double (tok x) \<or> CHR ''.'' \<in> set s \<or> CHR ''e'' \<in> set s) x');
       if \<not> ok then Some (Out, x')
       else
         let t = c_str (tk_pb (tok x')) in
         case (if tk_is_double (tok x') then map_option VDouble (scan_lf t) else map_option VInt (sscanf_d big t)) of
           None \<Rightarrow> Some (Out, set_err err_parse_number x')
         | Some v \<Rightarrow> do { x' \<leftarrow> complete (Some v) x'; Some (Redo, x') }
     }"

subsection \<open>Strings\<close>

text \<open>The loop that a string and a member name share, up to a quote or a backslash.\<close>

definition scan_string ::
  "(cstring \<Rightarrow> 'd cfg \<Rightarrow> 'd cfg option) \<Rightarrow> tok_state \<Rightarrow> char list \<Rightarrow> int \<Rightarrow> 'd cfg \<Rightarrow> 'd result" where
  "scan_string done here b len x =
     do {
       (ok, x') \<leftarrow> scan_while (\<lambda>c. c \<noteq> tk_quote_char (tok x) \<and> c \<noteq> CHR 0x5C) b len x;
       let x' = pb_append (scanned b x x') x';
       if \<not> ok then Some (Out, x')
       else if ch x' = tk_quote_char (tok x) then do { x' \<leftarrow> done (c_str (tk_pb (tok x'))) x'; Some (Break, x') }
       else
         do {
           x' \<leftarrow> upd_level (\<lambda>l. l\<lparr>sr_saved_state := here, sr_state := st_string_escape\<rparr>) x';
           Some (Break, x')
         }
     }"

definition do_string :: "char list \<Rightarrow> int \<Rightarrow> 'd cfg \<Rightarrow> 'd result" where
  "do_string = scan_string (\<lambda>s. complete (Some (VString s))) st_string"

definition do_object_field :: "char list \<Rightarrow> int \<Rightarrow> 'd cfg \<Rightarrow> 'd result" where
  "do_object_field =
     scan_string (\<lambda>s. upd_level (\<lambda>l. l\<lparr>sr_obj_field_name := Some s, sr_saved_state := st_object_field_end, sr_state := st_eatws\<rparr>))
       st_object_field"

definition back_to_saved :: "'d cfg \<Rightarrow> 'd cfg option" where
  "back_to_saved = upd_level (\<lambda>l. l\<lparr>sr_state := sr_saved_state l\<rparr>)"

definition do_string_escape :: "'d cfg \<Rightarrow> 'd result" where
  "do_string_escape x =
     (let c = ch x in
      if c \<in> {CHR 0x22, CHR 0x5C, CHR ''/''} then do { x \<leftarrow> back_to_saved (pb_append [c] x); Some (Break, x) }
      else if c = CHR ''b'' then do { x \<leftarrow> back_to_saved (pb_append [CHR 0x08] x); Some (Break, x) }
      else if c = CHR ''n'' then do { x \<leftarrow> back_to_saved (pb_append [LF] x); Some (Break, x) }
      else if c = CHR ''r'' then do { x \<leftarrow> back_to_saved (pb_append [CR] x); Some (Break, x) }
      else if c = CHR ''t'' then do { x \<leftarrow> back_to_saved (pb_append [CHR 0x09] x); Some (Break, x) }
      else if c = CHR ''u'' then
        do {
          x \<leftarrow> goto_state st_escape_unicode x;
          Some (Break, x\<lparr>tok := (tok x)\<lparr>tk_ucs_char := 0, tk_st_pos := 0\<rparr>\<rparr>)
        }
      else Some (Out, set_err err_parse_string x))"

text \<open>The macro of \<open>bits.h\<close>, on a signed character.\<close>

definition hexdigit :: "char \<Rightarrow> 32 word" where
  "hexdigit c = (if schar c \<le> 57 then word_of_int (schar c - 48) else (word_of_int (schar c) AND 7) + 9)"

definition utf8 :: "32 word \<Rightarrow> string" where
  "utf8 u =
     map (\<lambda>w. char_of (unat (w :: 32 word)))
       (if u < 0x80 then [u]
        else if u < 0x800 then [0xc0 OR drop_bit 6 u, 0x80 OR (u AND 0x3f)]
        else [0xe0 OR drop_bit 12 u, 0x80 OR (drop_bit 6 u AND 0x3f), 0x80 OR (u AND 0x3f)])"

text \<open>\<open>strchr(json_hex_chars, c)\<close> also finds the terminator; a shift by a negative amount is undefined.\<close>

function do_escape_unicode :: "char list \<Rightarrow> int \<Rightarrow> 'd cfg \<Rightarrow> 'd result" where
  "do_escape_unicode b len x =
     (if tk_st_pos (tok x) > 3 then None
      else if ch x \<in> set json_hex_chars \<or> ch x = NUL then
        let t = tok x;
            x = x\<lparr>tok := t\<lparr>tk_ucs_char := tk_ucs_char t + push_bit ((3 - tk_st_pos t) * 4) (hexdigit (ch x)), tk_st_pos := tk_st_pos t + 1\<rparr>\<rparr>
        in
        if tk_st_pos (tok x) = 4 then
          do { x \<leftarrow> back_to_saved (pb_append (utf8 (tk_ucs_char (tok x))) x); Some (Break, x) }
        else
          do {
            (ok, x) \<leftarrow> adv_pop b len x;
            if ok then do_escape_unicode b len x else Some (Out, x)
          }
      else Some (Out, set_err err_parse_string x))"
  by pat_completeness auto
termination
  by (relation "measure (\<lambda>(b, len, x). length b - str x)")
    (auto simp: adv_pop_def ADVANCE_CHAR_def POP_CHAR_def bind_eq_Some_conv rd_def split: if_splits)

declare do_escape_unicode.simps [simp del]

subsection \<open>Arrays and objects\<close>

text \<open>A new level for an element or a member value.\<close>

definition push_level :: "tok_state \<Rightarrow> 'd cfg \<Rightarrow> 'd result" where
  "push_level s x =
     (if tk_depth (tok x) \<ge> JSON_TOKENER_MAX_DEPTH - 1 then Some (Out, set_err err_depth x)
      else
        do {
          x \<leftarrow> goto_state s x;
          t \<leftarrow> json_tokener_reset_level ((tok x)\<lparr>tk_depth := tk_depth (tok x) + 1\<rparr>) (tk_depth (tok x) + 1);
          Some (Redo, x\<lparr>tok := t\<rparr>)
        })"

definition do_array :: "'d cfg \<Rightarrow> 'd result" where
  "do_array x =
     (if ch x = CHR '']'' then do { x \<leftarrow> eatws_then st_finish x; Some (Break, x) }
      else push_level st_array_add x)"

definition do_array_add :: "'d cfg \<Rightarrow> 'd result" where
  "do_array_add x =
     do {
       l \<leftarrow> level (tok x);
       case sr_current l of
         Some (VArray vs) \<Rightarrow>
           do {
             x \<leftarrow> set_current (Some (VArray (vs @ [obj x]))) x;
             x \<leftarrow> eatws_then st_array_sep x;
             Some (Redo, x)
           }
       | _ \<Rightarrow> None
     }"

definition do_array_sep :: "'d cfg \<Rightarrow> 'd result" where
  "do_array_sep x =
     (if ch x = CHR '']'' then do { x \<leftarrow> eatws_then st_finish x; Some (Break, x) }
      else if ch x = CHR '','' then do { x \<leftarrow> eatws_then st_array x; Some (Break, x) }
      else Some (Out, set_err err_parse_array x))"

definition do_object_field_start :: "'d cfg \<Rightarrow> 'd result" where
  "do_object_field_start x =
     (if ch x = CHR ''}'' then do { x \<leftarrow> eatws_then st_finish x; Some (Break, x) }
      else if ch x = CHR 0x22 \<or> ch x = CHR 0x27 then
        do { x \<leftarrow> goto_state st_object_field (pb_reset (set_quote (ch x) x)); Some (Break, x) }
      else Some (Out, set_err err_parse_object_key_name x))"

definition do_object_field_end :: "'d cfg \<Rightarrow> 'd result" where
  "do_object_field_end x =
     (if ch x = CHR '':'' then do { x \<leftarrow> eatws_then st_object_value x; Some (Break, x) }
      else Some (Out, set_err err_parse_object_key_sep x))"

definition do_object_value_add :: "'d cfg \<Rightarrow> 'd result" where
  "do_object_value_add x =
     do {
       l \<leftarrow> level (tok x);
       k \<leftarrow> sr_obj_field_name l;
       case sr_current l of
         Some (VObject kvs) \<Rightarrow>
           do {
             x \<leftarrow> set_current (Some (VObject (filter (\<lambda>(k', _). k' \<noteq> k) kvs @ [(k, obj x)]))) x;
             x \<leftarrow> upd_level (\<lambda>l. l\<lparr>sr_obj_field_name := None\<rparr>) x;
             x \<leftarrow> eatws_then st_object_sep x;
             Some (Redo, x)
           }
       | _ \<Rightarrow> None
     }"

definition do_object_sep :: "'d cfg \<Rightarrow> 'd result" where
  "do_object_sep x =
     (if ch x = CHR ''}'' then do { x \<leftarrow> eatws_then st_finish x; Some (Break, x) }
      else if ch x = CHR '','' then do { x \<leftarrow> eatws_then st_object_field_start x; Some (Break, x) }
      else Some (Out, set_err err_parse_object_value_sep x))"

subsection \<open>The machine\<close>

definition dispatch :: "(cstring \<Rightarrow> int) \<Rightarrow> (cstring \<Rightarrow> 'd option) \<Rightarrow> char list \<Rightarrow> int \<Rightarrow> 'd cfg \<Rightarrow> 'd result" where
  "dispatch big scan_lf b len x =
     do {
       l \<leftarrow> level (tok x);
       case sr_state l of
         st_eatws \<Rightarrow> do_eatws b len x
       | st_start \<Rightarrow> do_start x
       | st_finish \<Rightarrow> do_finish x
       | st_null \<Rightarrow> do_null x
       | st_comment_start \<Rightarrow> do_comment_start x
       | st_comment \<Rightarrow> do_comment b len x
       | st_comment_eol \<Rightarrow> do_comment_eol b len x
       | st_comment_end \<Rightarrow> do_comment_end x
       | st_string \<Rightarrow> do_string b len x
       | st_string_escape \<Rightarrow> do_string_escape x
       | st_escape_unicode \<Rightarrow> do_escape_unicode b len x
       | st_boolean \<Rightarrow> do_boolean x
       | st_number \<Rightarrow> do_number big scan_lf b len x
       | st_array \<Rightarrow> do_array x
       | st_array_add \<Rightarrow> do_array_add x
       | st_array_sep \<Rightarrow> do_array_sep x
       | st_object_field_start \<Rightarrow> do_object_field_start x
       | st_object_field \<Rightarrow> do_object_field b len x
       | st_object_field_end \<Rightarrow> do_object_field_end x
       | st_object_value \<Rightarrow> push_level st_object_value_add x
       | st_object_value_add \<Rightarrow> do_object_value_add x
       | st_object_sep \<Rightarrow> do_object_sep x
     }"

partial_function (option) parse_loop ::
  "(cstring \<Rightarrow> int) \<Rightarrow> (cstring \<Rightarrow> 'd option) \<Rightarrow> char list \<Rightarrow> int \<Rightarrow> 'd cfg \<Rightarrow> 'd cfg option" where
  "parse_loop big scan_lf b len x =
     do {
       (a, x) \<leftarrow> dispatch big scan_lf b len x;
       case a of
         Redo \<Rightarrow> parse_loop big scan_lf b len x
       | Break \<Rightarrow>
           do {
             (ok, x) \<leftarrow> adv_pop b len x;
             if ok then parse_loop big scan_lf b len x else Some x
           }
       | Out \<Rightarrow> Some x
     }"

declare parse_loop.simps [code]

text \<open>The code behind the label \<open>out\<close>: the tokener, and the value that is returned.\<close>

definition parse_out :: "'d cfg \<Rightarrow> ('d jval option \<times> 'd tokener) option" where
  "parse_out x =
     do {
       l \<leftarrow> level (tok x);
       let x = (if ch x = NUL \<and> sr_state l \<noteq> st_finish \<and> sr_saved_state l \<noteq> st_finish then set_err err_parse_eof x else x);
       Some (if tk_err (tok x) = tok_success then sr_current l else None, tok x)
     }"

definition json_tokener_parse_ex ::
  "(cstring \<Rightarrow> int) \<Rightarrow> (cstring \<Rightarrow> 'd option) \<Rightarrow> 'd tokener \<Rightarrow> char list \<Rightarrow> int \<Rightarrow> ('d jval option \<times> 'd tokener) option" where
  "json_tokener_parse_ex big scan_lf t b len =
     do {
       let x = \<lparr>tok = t\<lparr>tk_char_offset := 0, tk_err := tok_success\<rparr>, str = 0, ch = CHR 0x01, obj = None\<rparr>;
       (ok, x) \<leftarrow> POP_CHAR b len x;
       x \<leftarrow> (if ok then parse_loop big scan_lf b len x else Some x);
       parse_out x
     }"

text \<open>An error pointer carries the error, and any other pointer the value.\<close>

definition json_tokener_parse ::
  "(cstring \<Rightarrow> int) \<Rightarrow> (cstring \<Rightarrow> 'd option) \<Rightarrow> char list \<Rightarrow> (tok_err + 'd jval option) option" where
  "json_tokener_parse big scan_lf b =
     do {
       t \<leftarrow> json_tokener_new;
       (v, t) \<leftarrow> json_tokener_parse_ex big scan_lf t b (- 1);
       let r = (if tk_err t \<noteq> tok_success then Inl (tk_err t) else Inr v);
       _ \<leftarrow> json_tokener_free t;
       Some r
     }"

end
