(* ===== verification/Tokener_Props.thy ===== *)
theory Tokener_Props
  imports Tokener
begin

text \<open>
  The parser returns for every C string: no state of the machine meets undefined behaviour, and every
  round consumes a character or comes closer to doing so.
\<close>

subsection \<open>Configurations\<close>

definition wf :: "'d cfg \<Rightarrow> bool" where
  "wf x \<longleftrightarrow> tk_depth (tok x) < 32 \<and> length (tk_stack (tok x)) = 32"

definition lvl :: "'d cfg \<Rightarrow> 'd srec" where
  "lvl x = tk_stack (tok x) ! tk_depth (tok x)"

definition set_top :: "('d srec \<Rightarrow> 'd srec) \<Rightarrow> 'd cfg \<Rightarrow> 'd cfg" where
  "set_top f x = x\<lparr>tok := (tok x)\<lparr>tk_stack := (tk_stack (tok x))[tk_depth (tok x) := f (lvl x)]\<rparr>\<rparr>"

text \<open>The levels below the top one.\<close>

definition low :: "'d cfg \<Rightarrow> 'd srec list" where
  "low x = take (tk_depth (tok x)) (tk_stack (tok x))"

lemma level_top: "wf x \<Longrightarrow> level (tok x) = Some (lvl x)"
  by (simp add: wf_def level_def lvl_def)

lemma upd_level_top: "wf x \<Longrightarrow> upd_level f x = Some (set_top f x)"
  by (simp add: wf_def upd_level_def level_def set_top_def lvl_def)

named_theorems cfg_simps

lemma set_top_simps [cfg_simps]:
  "wf x \<Longrightarrow> lvl (set_top f x) = f (lvl x)" "wf (set_top f x) = wf x" "low (set_top f x) = low x" "str (set_top f x) = str x"
  "ch (set_top f x) = ch x" "obj (set_top f x) = obj x" "tk_depth (tok (set_top f x)) = tk_depth (tok x)"
  "tk_pb (tok (set_top f x)) = tk_pb (tok x)" "tk_st_pos (tok (set_top f x)) = tk_st_pos (tok x)"
  "tk_char_offset (tok (set_top f x)) = tk_char_offset (tok x)" "tk_quote_char (tok (set_top f x)) = tk_quote_char (tok x)"
  "tk_is_double (tok (set_top f x)) = tk_is_double (tok x)" "tk_ucs_char (tok (set_top f x)) = tk_ucs_char (tok x)"
  "tk_err (tok (set_top f x)) = tk_err (tok x)"
  by (simp_all add: set_top_def lvl_def wf_def low_def)

text \<open>Updates that do not touch the stack.\<close>

lemma scalar_simps [cfg_simps]:
  "wf (set_err e x) = wf x" "lvl (set_err e x) = lvl x" "low (set_err e x) = low x"
  "wf (pb_reset x) = wf x" "lvl (pb_reset x) = lvl x" "low (pb_reset x) = low x"
  "wf (pb_append s x) = wf x" "lvl (pb_append s x) = lvl x" "low (pb_append s x) = low x"
  "wf (set_st_pos n x) = wf x" "lvl (set_st_pos n x) = lvl x" "low (set_st_pos n x) = low x"
  "wf (set_quote c x) = wf x" "lvl (set_quote c x) = lvl x" "low (set_quote c x) = low x"
  "wf (set_is_double d x) = wf x" "lvl (set_is_double d x) = lvl x" "low (set_is_double d x) = low x"
  by (simp_all add: wf_def lvl_def low_def set_err_def pb_reset_def pb_append_def set_st_pos_def set_quote_def set_is_double_def)

subsection \<open>Positions\<close>

definition c_text :: "char list \<Rightarrow> bool" where
  "c_text b \<longleftrightarrow> (\<exists>s. b = s @ [NUL] \<and> NUL \<notin> set s) \<and> length b < 2 ^ 31"

definition pos_ok :: "char list \<Rightarrow> 'd cfg \<Rightarrow> bool" where
  "pos_ok b x \<longleftrightarrow> str x < length b \<and> ch x = b ! str x \<and> tk_char_offset (tok x) = int (str x)"

definition at_pos :: "char list \<Rightarrow> nat \<Rightarrow> 'd cfg \<Rightarrow> 'd cfg" where
  "at_pos b p x = x\<lparr>str := p, ch := b ! p, tok := (tok x)\<lparr>tk_char_offset := int p\<rparr>\<rparr>"

lemma c_text_end: "c_text b \<Longrightarrow> p < length b \<Longrightarrow> b ! p = NUL \<longleftrightarrow> Suc p = length b"
  by (auto simp: c_text_def nth_append split: if_splits) (metis nth_mem)

lemma at_pos_simps [cfg_simps]:
  "wf (at_pos b p x) = wf x" "lvl (at_pos b p x) = lvl x" "low (at_pos b p x) = low x" "str (at_pos b p x) = p"
  "ch (at_pos b p x) = b ! p" "obj (at_pos b p x) = obj x" "pos_ok b (at_pos b p x) = (p < length b)"
  "tk_depth (tok (at_pos b p x)) = tk_depth (tok x)" "at_pos b q (at_pos b p x) = at_pos b q x"
  "tk_st_pos (tok (at_pos b p x)) = tk_st_pos (tok x)" "tk_pb (tok (at_pos b p x)) = tk_pb (tok x)"
  "tk_quote_char (tok (at_pos b p x)) = tk_quote_char (tok x)" "tk_is_double (tok (at_pos b p x)) = tk_is_double (tok x)"
  "tk_err (tok (at_pos b p x)) = tk_err (tok x)" "tk_ucs_char (tok (at_pos b p x)) = tk_ucs_char (tok x)"
  by (simp_all add: at_pos_def wf_def lvl_def low_def pos_ok_def)

lemma pos_simps [cfg_simps]:
  "pos_ok b (set_top f x) = pos_ok b x" "pos_ok b (set_err e x) = pos_ok b x" "pos_ok b (pb_reset x) = pos_ok b x"
  "pos_ok b (pb_append s x) = pos_ok b x" "pos_ok b (set_st_pos n x) = pos_ok b x" "pos_ok b (set_quote c x) = pos_ok b x"
  "pos_ok b (set_is_double d x) = pos_ok b x"
  by (simp_all add: pos_ok_def set_top_def set_err_def pb_reset_def pb_append_def set_st_pos_def set_quote_def set_is_double_def)

lemma field_simps_cfg [cfg_simps]:
  "str (set_err e x) = str x" "ch (set_err e x) = ch x" "tk_depth (tok (set_err e x)) = tk_depth (tok x)"
  "str (pb_reset x) = str x" "ch (pb_reset x) = ch x" "obj (pb_reset x) = obj x" "tk_pb (tok (pb_reset x)) = []"
  "tk_depth (tok (pb_reset x)) = tk_depth (tok x)" "tk_quote_char (tok (pb_reset x)) = tk_quote_char (tok x)"
  "str (pb_append s x) = str x" "ch (pb_append s x) = ch x" "obj (pb_append s x) = obj x" "tk_pb (tok (pb_append s x)) = tk_pb (tok x) @ s"
  "tk_depth (tok (pb_append s x)) = tk_depth (tok x)" "tk_st_pos (tok (pb_append s x)) = tk_st_pos (tok x)"
  "tk_quote_char (tok (pb_append s x)) = tk_quote_char (tok x)" "tk_is_double (tok (pb_append s x)) = tk_is_double (tok x)"
  "str (set_st_pos n x) = str x" "ch (set_st_pos n x) = ch x" "obj (set_st_pos n x) = obj x" "tk_depth (tok (set_st_pos n x)) = tk_depth (tok x)"
  "str (set_quote c x) = str x" "ch (set_quote c x) = ch x" "obj (set_quote c x) = obj x" "tk_depth (tok (set_quote c x)) = tk_depth (tok x)"
  "tk_quote_char (tok (set_quote c x)) = c" "tk_pb (tok (set_quote c x)) = tk_pb (tok x)"
  "str (set_is_double d x) = str x" "ch (set_is_double d x) = ch x" "obj (set_is_double d x) = obj x"
  "tk_depth (tok (set_is_double d x)) = tk_depth (tok x)" "tk_pb (tok (set_is_double d x)) = tk_pb (tok x)"
  "tk_is_double (tok (set_is_double d x)) = d" "tk_st_pos (tok (set_st_pos n x)) = n"
  by (simp_all add: set_err_def pb_reset_def pb_append_def set_st_pos_def set_quote_def set_is_double_def)

lemma adv_pop_ok:
  assumes "c_text b" "pos_ok b x"
  shows "ch x \<noteq> NUL \<Longrightarrow> adv_pop b (- 1) x = Some (True, at_pos b (str x + 1) x) \<and> str x + 1 < length b"
    "ch x = NUL \<Longrightarrow> adv_pop b (- 1) x = Some (False, x\<lparr>str := str x + 1, tok := (tok x)\<lparr>tk_char_offset := int (str x) + 1\<rparr>\<rparr>)"
proof -
  have p: "str x < length b" "ch x = b ! str x" "tk_char_offset (tok x) = int (str x)" using assms(2) by (auto simp: pos_ok_def)
  have i: "int_incr (int (str x)) = Some (int (str x) + 1)" using p(1) assms(1) by (simp add: int_incr_def c_text_def)
  show "ch x \<noteq> NUL \<Longrightarrow> adv_pop b (- 1) x = Some (True, at_pos b (str x + 1) x) \<and> str x + 1 < length b"
    using p i c_text_end [OF assms(1) p(1)] by (auto simp: adv_pop_def ADVANCE_CHAR_def POP_CHAR_def at_pos_def)
  show "ch x = NUL \<Longrightarrow> adv_pop b (- 1) x = Some (False, x\<lparr>str := str x + 1, tok := (tok x)\<lparr>tk_char_offset := int (str x) + 1\<rparr>\<rparr>)"
    using p i by (simp add: adv_pop_def ADVANCE_CHAR_def)
qed

text \<open>A scan stops at the first character that fails the test, or runs over the terminator.\<close>

lemma scan_while_stops:
  assumes "c_text b" "pos_ok b x" "str x \<le> p" "p < length b" "\<forall>i. str x \<le> i \<and> i < p \<longrightarrow> P (b ! i)" "\<not> P (b ! p)"
  shows "scan_while P b (- 1) x = Some (True, at_pos b p x)"
  using assms
proof (induction "p - str x" arbitrary: x)
  case 0
  then have e: "p = str x" by simp
  then have "at_pos b p x = x" using 0(3) by (simp add: at_pos_def pos_ok_def)
  then show ?case using 0 e by (subst scan_while.simps) (simp add: pos_ok_def)
next
  case (Suc n)
  have c: "ch x = b ! str x" "str x < length b" using Suc.prems(2) by (auto simp: pos_ok_def)
  have lt: "str x < p" using Suc.hyps(2) by simp
  then have "P (ch x)" using Suc.prems(5) c by simp
  moreover have "ch x \<noteq> NUL" using c_text_end [OF Suc.prems(1) c(2)] c(1) lt Suc.prems(4) by simp
  moreover have "scan_while P b (- 1) (at_pos b (str x + 1) x) = Some (True, at_pos b p (at_pos b (str x + 1) x))"
    using Suc lt by (intro Suc.hyps(1)) (auto simp: cfg_simps)
  ultimately show ?case
    using adv_pop_ok(1) [OF Suc.prems(1,2)] by (subst scan_while.simps) (simp add: cfg_simps)
qed

lemma scan_while_runs:
  assumes "c_text b" "pos_ok b x" "\<forall>i. str x \<le> i \<and> i < length b \<longrightarrow> P (b ! i)"
  shows "\<exists>y. scan_while P b (- 1) x = Some (False, y) \<and> wf y = wf x \<and> lvl y = lvl x"
  using assms
proof (induction "length b - str x" arbitrary: x)
  case 0
  then show ?case by (simp add: pos_ok_def)
next
  case (Suc n)
  have c: "ch x = b ! str x" "str x < length b" using Suc.prems(2) by (auto simp: pos_ok_def)
  then have p: "P (ch x)" using Suc.prems(3) by simp
  show ?case
  proof (cases "ch x = NUL")
    case True
    then show ?thesis
      using p adv_pop_ok(2) [OF Suc.prems(1,2)] by (subst scan_while.simps) (simp add: wf_def lvl_def)
  next
    case False
    have "\<exists>y. scan_while P b (- 1) (at_pos b (str x + 1) x) = Some (False, y) \<and> wf y = wf (at_pos b (str x + 1) x) \<and>
        lvl y = lvl (at_pos b (str x + 1) x)"
      using Suc c adv_pop_ok(1) [OF Suc.prems(1,2) False] by (intro Suc.hyps(1)) (auto simp: cfg_simps)
    then show ?thesis
      using p adv_pop_ok(1) [OF Suc.prems(1,2) False] by (subst scan_while.simps) (auto simp: cfg_simps)
  qed
qed

lemma scan_while_cases:
  assumes "c_text b" "pos_ok b x"
  obtains (stop) p where "str x \<le> p" "p < length b" "\<not> P (b ! p)" "scan_while P b (- 1) x = Some (True, at_pos b p x)"
    | (run) y where "scan_while P b (- 1) x = Some (False, y)" "wf y = wf x" "lvl y = lvl x"
proof (cases "\<forall>i. str x \<le> i \<and> i < length b \<longrightarrow> P (b ! i)")
  case True
  then show thesis using scan_while_runs [OF assms] run by blast
next
  case False
  let ?Q = "\<lambda>i. str x \<le> i \<and> i < length b \<and> \<not> P (b ! i)"
  define p where "p = (LEAST i. ?Q i)"
  have "\<exists>i. ?Q i" using False by blast
  then have p: "?Q p" unfolding p_def by (rule LeastI_ex)
  moreover have "P (b ! i)" if "str x \<le> i" "i < p" for i
    using not_less_Least [of i ?Q] that p unfolding p_def [symmetric] by (auto dest: order.strict_trans)
  ultimately show thesis using stop scan_while_stops [OF assms, of p P] by blast
qed

subsection \<open>Types of the levels\<close>

text \<open>What a state takes for granted about its level.\<close>

fun typed :: "tok_state \<Rightarrow> 'd srec \<Rightarrow> bool" where
  "typed st_array l = (\<exists>vs. sr_current l = Some (VArray vs))"
| "typed st_array_add l = (\<exists>vs. sr_current l = Some (VArray vs))"
| "typed st_array_sep l = (\<exists>vs. sr_current l = Some (VArray vs))"
| "typed st_object_field_start l = (\<exists>ms. sr_current l = Some (VObject ms))"
| "typed st_object_field l = (\<exists>ms. sr_current l = Some (VObject ms))"
| "typed st_object_field_end l = (\<exists>ms k. sr_current l = Some (VObject ms) \<and> sr_obj_field_name l = Some k)"
| "typed st_object_value l = (\<exists>ms k. sr_current l = Some (VObject ms) \<and> sr_obj_field_name l = Some k)"
| "typed st_object_value_add l = (\<exists>ms k. sr_current l = Some (VObject ms) \<and> sr_obj_field_name l = Some k)"
| "typed st_object_sep l = (\<exists>ms. sr_current l = Some (VObject ms))"
| "typed s l = True"

lemma typed_states [cfg_simps]:
  "typed s (l\<lparr>sr_state := z\<rparr>) = typed s l" "typed s (l\<lparr>sr_saved_state := z\<rparr>) = typed s l"
  by (cases s; simp)+

text \<open>The states to which white space and comments lead back, and those to which an escape leads back.\<close>

definition after_ws :: "tok_state set" where
  "after_ws = {st_start, st_finish, st_array, st_array_sep, st_object_field_start, st_object_field_end, st_object_value, st_object_sep}"

definition top_ok :: "'d srec \<Rightarrow> bool" where
  "top_ok l \<longleftrightarrow>
     (if sr_state l \<in> {st_eatws, st_comment_start, st_comment, st_comment_eol, st_comment_end}
      then sr_saved_state l \<in> after_ws \<and> typed (sr_saved_state l) l
      else if sr_state l \<in> {st_string_escape, st_escape_unicode}
      then sr_saved_state l \<in> {st_string, st_object_field} \<and> typed (sr_saved_state l) l
      else typed (sr_state l) l)"

definition low_ok :: "'d srec \<Rightarrow> bool" where
  "low_ok l \<longleftrightarrow> sr_state l \<in> {st_array_add, st_object_value_add} \<and> typed (sr_state l) l"

text \<open>Another look at the same character is by a state of a lower rank.\<close>

fun rank :: "tok_state \<Rightarrow> nat" where
  "rank st_array = 8"
| "rank st_object_value = 8"
| "rank st_start = 6"
| "rank st_null = 5"
| "rank st_boolean = 5"
| "rank st_number = 5"
| "rank st_finish = 3"
| "rank st_array_add = 2"
| "rank st_object_value_add = 2"
| "rank _ = 0"

definition cfg_rank :: "'d cfg \<Rightarrow> nat" where
  "cfg_rank x = (if sr_state (lvl x) = st_eatws then Suc (rank (sr_saved_state (lvl x))) else rank (sr_state (lvl x)))"

definition cfg_ok :: "char list \<Rightarrow> 'd cfg \<Rightarrow> bool" where
  "cfg_ok b x \<longleftrightarrow> wf x \<and> pos_ok b x \<and> top_ok (lvl x) \<and> (\<forall>l \<in> set (low x). low_ok l) \<and>
     (sr_state (lvl x) = st_escape_unicode \<longrightarrow> tk_st_pos (tok x) < 4)"

definition steps_ok :: "char list \<Rightarrow> 'd cfg \<Rightarrow> 'd result \<Rightarrow> bool" where
  "steps_ok b x r \<longleftrightarrow> (\<exists>a x'. r = Some (a, x') \<and> wf x' \<and>
     (a = Break \<longrightarrow> cfg_ok b x' \<and> str x \<le> str x') \<and>
     (a = Redo \<longrightarrow> cfg_ok b x' \<and> (str x < str x' \<or> str x' = str x \<and> cfg_rank x' < cfg_rank x)))"

lemma steps_okI:
  "wf x' \<Longrightarrow> steps_ok b x (Some (Out, x'))"
  "cfg_ok b x' \<Longrightarrow> str x \<le> str x' \<Longrightarrow> steps_ok b x (Some (Break, x'))"
  "cfg_ok b x' \<Longrightarrow> str x < str x' \<or> str x' = str x \<and> cfg_rank x' < cfg_rank x \<Longrightarrow> steps_ok b x (Some (Redo, x'))"
  by (auto simp: steps_ok_def cfg_ok_def)

lemmas level_updates = goto_state_def eatws_then_def set_current_def back_to_saved_def complete_def

lemmas handler_simps = level_updates upd_level_top level_top cfg_simps

text \<open>The handlers that look at one character.\<close>

lemma char_steps:
  assumes "cfg_ok b x"
  shows "sr_state (lvl x) = st_start \<Longrightarrow> steps_ok b x (do_start x)"
    "sr_state (lvl x) = st_comment_start \<Longrightarrow> steps_ok b x (do_comment_start x)"
    "sr_state (lvl x) = st_comment_end \<Longrightarrow> steps_ok b x (do_comment_end x)"
    "sr_state (lvl x) = st_array_sep \<Longrightarrow> steps_ok b x (do_array_sep x)"
    "sr_state (lvl x) = st_object_field_start \<Longrightarrow> steps_ok b x (do_object_field_start x)"
    "sr_state (lvl x) = st_object_field_end \<Longrightarrow> steps_ok b x (do_object_field_end x)"
    "sr_state (lvl x) = st_object_sep \<Longrightarrow> steps_ok b x (do_object_sep x)"
    "sr_state (lvl x) = st_array_add \<Longrightarrow> steps_ok b x (do_array_add x)"
    "sr_state (lvl x) = st_object_value_add \<Longrightarrow> steps_ok b x (do_object_value_add x)"
  using assms
  by (auto simp: do_start_def do_comment_start_def do_comment_end_def do_array_sep_def do_object_field_start_def do_object_field_end_def
      do_object_sep_def do_array_add_def do_object_value_add_def Let_def handler_simps cfg_ok_def top_ok_def after_ws_def cfg_rank_def
      intro!: steps_okI)

lemma string_escape_steps:
  assumes "cfg_ok b x" "sr_state (lvl x) = st_string_escape"
  shows "steps_ok b x (do_string_escape x)"
proof -
  have u: "wf (x\<lparr>tok := (tok x)\<lparr>tk_ucs_char := 0, tk_st_pos := 0\<rparr>\<rparr>) = wf x" "lvl (x\<lparr>tok := (tok x)\<lparr>tk_ucs_char := 0, tk_st_pos := 0\<rparr>\<rparr>) = lvl x"
    "low (x\<lparr>tok := (tok x)\<lparr>tk_ucs_char := 0, tk_st_pos := 0\<rparr>\<rparr>) = low x" "pos_ok b (x\<lparr>tok := (tok x)\<lparr>tk_ucs_char := 0, tk_st_pos := 0\<rparr>\<rparr>) = pos_ok b x"
    for x :: "'a cfg" by (simp_all add: wf_def lvl_def low_def pos_ok_def)
  show ?thesis
    using assms
    by (auto simp: do_string_escape_def Let_def handler_simps cfg_ok_def top_ok_def after_ws_def cfg_rank_def u intro!: steps_okI)
qed

text \<open>Words are compared within their terminators.\<close>

lemma strncasecmp0_total: "n \<le> length w \<Longrightarrow> NUL \<notin> set w \<Longrightarrow> \<exists>r. strncasecmp0 (w @ [NUL]) (s @ [NUL]) n = Some r"
proof (induction n arbitrary: w s)
  case (Suc n)
  then obtain c w' where w: "w = c # w'" by (cases w) auto
  show ?case
  proof (cases s)
    case Nil
    have "tolower c \<noteq> tolower NUL" using Suc.prems(2) w tolower_NUL [of c] tolower_NUL [of NUL] by auto
    then show ?thesis using w Nil by auto
  next
    case (Cons d s')
    then show ?thesis using Suc.IH [of w' s'] Suc.prems w by auto
  qed
qed auto

lemma matches_word_total: "NUL \<notin> set w \<Longrightarrow> \<exists>r. matches_word w x = Some r"
  unfolding matches_word_def by (rule strncasecmp0_total) auto

lemma word_steps:
  assumes "cfg_ok b x"
  shows "sr_state (lvl x) = st_null \<Longrightarrow> steps_ok b x (do_null x)"
    "sr_state (lvl x) = st_boolean \<Longrightarrow> steps_ok b x (do_boolean x)"
proof -
  let ?y = "pb_append [ch x] x"
  obtain r1 r2 r3 where r: "matches_word ''null'' ?y = Some r1" "matches_word ''true'' ?y = Some r2" "matches_word ''false'' ?y = Some r3"
    using matches_word_total [of "''null''" ?y] matches_word_total [of "''true''" ?y] matches_word_total [of "''false''" ?y] by auto
  show "sr_state (lvl x) = st_null \<Longrightarrow> steps_ok b x (do_null x)"
    using assms r(1)
    by (cases r1) (auto simp: do_null_def Let_def handler_simps cfg_ok_def top_ok_def after_ws_def cfg_rank_def intro!: steps_okI)
  show "sr_state (lvl x) = st_boolean \<Longrightarrow> steps_ok b x (do_boolean x)"
    using assms r(2,3)
    by (cases r2; cases r3) (auto simp: do_boolean_def Let_def handler_simps cfg_ok_def top_ok_def after_ws_def cfg_rank_def intro!: steps_okI)
qed

text \<open>The handlers that scan.\<close>

lemma eatws_steps:
  assumes b: "c_text b" and x: "cfg_ok b x" "sr_state (lvl x) = st_eatws"
  shows "steps_ok b x (do_eatws b (- 1) x)"
proof -
  have p: "pos_ok b x" "wf x" "sr_saved_state (lvl x) \<in> after_ws" "typed (sr_saved_state (lvl x)) (lvl x)" "\<forall>l \<in> set (low x). low_ok l"
    using x by (auto simp: cfg_ok_def top_ok_def)
  have q: "top_ok ((lvl x)\<lparr>sr_state := sr_saved_state (lvl x)\<rparr>)" "sr_saved_state (lvl x) \<noteq> st_escape_unicode" "sr_saved_state (lvl x) \<noteq> st_eatws"
    using p(3,4) by (auto simp: top_ok_def after_ws_def)
  show ?thesis
  proof (rule scan_while_cases [OF b p(1), of isspace])
    fix q assume "str x \<le> q" "q < length b" "\<not> isspace (b ! q)" "scan_while isspace b (- 1) x = Some (True, at_pos b q x)"
    then show ?thesis
      using p q x(2) by (auto simp: do_eatws_def handler_simps cfg_ok_def top_ok_def cfg_rank_def intro!: steps_okI)
  next
    fix y assume "scan_while isspace b (- 1) x = Some (False, y)" "wf y = wf x" "lvl y = lvl x"
    then show ?thesis using p(2) by (auto simp: do_eatws_def intro!: steps_okI)
  qed
qed

lemma comment_steps:
  assumes b: "c_text b" and x: "cfg_ok b x"
  shows "sr_state (lvl x) = st_comment \<Longrightarrow> steps_ok b x (do_comment b (- 1) x)"
    "sr_state (lvl x) = st_comment_eol \<Longrightarrow> steps_ok b x (do_comment_eol b (- 1) x)"
proof -
  have p: "pos_ok b x" "wf x" using x by (auto simp: cfg_ok_def)
  show "steps_ok b x (do_comment b (- 1) x)" if st: "sr_state (lvl x) = st_comment"
  proof (rule scan_while_cases [OF b p(1), of "\<lambda>c. c \<noteq> CHR ''*''"])
    fix q assume "str x \<le> q" "q < length b" "scan_while (\<lambda>c. c \<noteq> CHR ''*'') b (- 1) x = Some (True, at_pos b q x)"
    then show ?thesis using x st by (auto simp: do_comment_def handler_simps cfg_ok_def top_ok_def intro!: steps_okI)
  next
    fix y assume "scan_while (\<lambda>c. c \<noteq> CHR ''*'') b (- 1) x = Some (False, y)" "wf y = wf x" "lvl y = lvl x"
    then show ?thesis using p(2) by (auto simp: do_comment_def handler_simps intro!: steps_okI)
  qed
  show "steps_ok b x (do_comment_eol b (- 1) x)" if st: "sr_state (lvl x) = st_comment_eol"
  proof (rule scan_while_cases [OF b p(1), of "\<lambda>c. c \<noteq> LF"])
    fix q assume "str x \<le> q" "q < length b" "scan_while (\<lambda>c. c \<noteq> LF) b (- 1) x = Some (True, at_pos b q x)"
    then show ?thesis using x st by (auto simp: do_comment_eol_def handler_simps cfg_ok_def top_ok_def intro!: steps_okI)
  next
    fix y assume "scan_while (\<lambda>c. c \<noteq> LF) b (- 1) x = Some (False, y)" "wf y = wf x" "lvl y = lvl x"
    then show ?thesis using p(2) by (auto simp: do_comment_eol_def handler_simps intro!: steps_okI)
  qed
qed

lemma scan_string_steps:
  assumes b: "c_text b" and x: "cfg_ok b x"
    and fin: "\<And>s y. cfg_ok b y \<Longrightarrow> lvl y = lvl x \<Longrightarrow> str y \<ge> str x \<Longrightarrow> \<exists>y'. done s y = Some y' \<and> cfg_ok b y' \<and> str y' = str y"
    and here: "here \<in> {st_string, st_object_field}" "sr_state (lvl x) = here"
  shows "steps_ok b x (scan_string done here b (- 1) x)"
proof -
  let ?P = "\<lambda>c. c \<noteq> tk_quote_char (tok x) \<and> c \<noteq> CHR 0x5C"
  have p: "pos_ok b x" "wf x" using x by (auto simp: cfg_ok_def)
  show ?thesis
  proof (rule scan_while_cases [OF b p(1), of ?P])
    fix q assume q: "str x \<le> q" "q < length b" "scan_while ?P b (- 1) x = Some (True, at_pos b q x)"
    let ?y = "pb_append (scanned b x (at_pos b q x)) (at_pos b q x)"
    have y: "cfg_ok b ?y" "lvl ?y = lvl x" "str ?y \<ge> str x" using x q here by (auto simp: cfg_ok_def cfg_simps)
    obtain y' where "done (c_str (tk_pb (tok ?y))) ?y = Some y'" "cfg_ok b y'" "str y' = str ?y" using fin [OF y] by blast
    moreover have "cfg_ok b (set_top (\<lambda>l. l\<lparr>sr_saved_state := here, sr_state := st_string_escape\<rparr>) ?y)"
      using y(1) here x by (auto simp: cfg_ok_def top_ok_def cfg_simps)
    ultimately show ?thesis
      using q y(3) by (auto simp: scan_string_def Let_def upd_level_top cfg_simps p(2) intro!: steps_okI)
  next
    fix y assume "scan_while ?P b (- 1) x = Some (False, y)" "wf y = wf x" "lvl y = lvl x"
    then show ?thesis using p(2) by (auto simp: scan_string_def Let_def handler_simps intro!: steps_okI)
  qed
qed

lemma string_steps:
  assumes b: "c_text b" and x: "cfg_ok b x"
  shows "sr_state (lvl x) = st_string \<Longrightarrow> steps_ok b x (do_string b (- 1) x)"
    "sr_state (lvl x) = st_object_field \<Longrightarrow> steps_ok b x (do_object_field b (- 1) x)"
  unfolding do_string_def do_object_field_def
  by (rule scan_string_steps [OF b x]; auto simp: handler_simps cfg_ok_def top_ok_def after_ws_def)+

lemma number_steps:
  assumes b: "c_text b" and x: "cfg_ok b x" and st: "sr_state (lvl x) = st_number"
  shows "steps_ok b x (do_number big scan_lf b (- 1) x)"
proof -
  let ?P = "\<lambda>c. c \<noteq> NUL \<and> c \<in> set json_number_chars"
  have p: "pos_ok b x" "wf x" using x by (auto simp: cfg_ok_def)
  show ?thesis
  proof (rule scan_while_cases [OF b p(1), of ?P])
    fix q assume q: "str x \<le> q" "q < length b" "scan_while ?P b (- 1) x = Some (True, at_pos b q x)"
    then show ?thesis
      using x st by (auto simp: do_number_def Let_def handler_simps cfg_ok_def top_ok_def after_ws_def cfg_rank_def
          split: option.split intro!: steps_okI)
  next
    fix y assume "scan_while ?P b (- 1) x = Some (False, y)" "wf y = wf x" "lvl y = lvl x"
    then show ?thesis using p(2) by (auto simp: do_number_def Let_def handler_simps intro!: steps_okI)
  qed
qed

text \<open>Leaving and entering a level.\<close>

definition pop_level :: "'d cfg \<Rightarrow> 'd cfg" where
  "pop_level x = x\<lparr>obj := sr_current (lvl x),
     tok := (tok x)\<lparr>tk_stack := (tk_stack (tok x))[tk_depth (tok x) := reset_srec], tk_depth := tk_depth (tok x) - 1\<rparr>\<rparr>"

definition new_level :: "tok_state \<Rightarrow> 'd cfg \<Rightarrow> 'd cfg" where
  "new_level s x = x\<lparr>tok := (tok x)\<lparr>tk_depth := tk_depth (tok x) + 1,
     tk_stack := (tk_stack (tok x))[tk_depth (tok x) := (lvl x)\<lparr>sr_state := s\<rparr>, tk_depth (tok x) + 1 := reset_srec]\<rparr>\<rparr>"

lemma do_finish_pop: "wf x \<Longrightarrow> tk_depth (tok x) \<noteq> 0 \<Longrightarrow> do_finish x = Some (Redo, pop_level x)"
  by (auto simp: do_finish_def level_top json_tokener_reset_level_def pop_level_def wf_def intro!: cfg.equality tokener.equality)

lemma push_level_new: "wf x \<Longrightarrow> tk_depth (tok x) < 31 \<Longrightarrow> push_level s x = Some (Redo, new_level s x)"
  by (auto simp: push_level_def JSON_TOKENER_MAX_DEPTH_def goto_state_def upd_level_top json_tokener_reset_level_def wf_def
      new_level_def set_top_def intro!: cfg.equality tokener.equality)

lemma pop_level_simps [cfg_simps]:
  assumes "wf x" "low x = ls @ [l]"
  shows "wf (pop_level x)" "lvl (pop_level x) = l" "low (pop_level x) = ls" "str (pop_level x) = str x" "ch (pop_level x) = ch x"
    "obj (pop_level x) = sr_current (lvl x)" "pos_ok b (pop_level x) = pos_ok b x" "tk_depth (tok (pop_level x)) = tk_depth (tok x) - 1"
proof -
  let ?s = "tk_stack (tok x)" and ?d = "tk_depth (tok x)"
  have w: "?d < 32" "length ?s = 32" using assms(1) by (auto simp: wf_def)
  have t: "take ?d ?s = ls @ [l]" using assms(2) by (simp add: low_def)
  from arg_cong [OF t, of length] have d: "?d = Suc (length ls)" using w by simp
  then have "?s ! (?d - 1) = (ls @ [l]) ! length ls" using t by (metis diff_Suc_1 lessI nth_take)
  then show "lvl (pop_level x) = l" using d by (simp add: lvl_def pop_level_def)
  have "take (length ls) ?s = take (length ls) (take ?d ?s)" using d by simp
  then have "take (length ls) ?s = ls" unfolding t by simp
  then show "low (pop_level x) = ls" using d by (simp add: low_def pop_level_def)
  show "wf (pop_level x)" using w by (simp add: wf_def pop_level_def)
qed (simp_all add: pop_level_def pos_ok_def)

lemma new_level_simps [cfg_simps]:
  assumes "wf x" "tk_depth (tok x) < 31"
  shows "wf (new_level s x)" "lvl (new_level s x) = reset_srec" "low (new_level s x) = low x @ [(lvl x)\<lparr>sr_state := s\<rparr>]"
    "str (new_level s x) = str x" "ch (new_level s x) = ch x" "pos_ok b (new_level s x) = pos_ok b x"
    "tk_depth (tok (new_level s x)) = Suc (tk_depth (tok x))"
  using assms by (simp_all add: new_level_def wf_def lvl_def low_def pos_ok_def take_Suc_conv_app_nth)

lemma finish_steps:
  assumes x: "cfg_ok b x" "sr_state (lvl x) = st_finish"
  shows "steps_ok b x (do_finish x)"
proof (cases "tk_depth (tok x) = 0")
  case True
  then show ?thesis using x by (auto simp: do_finish_def cfg_ok_def intro!: steps_okI)
next
  case False
  have w: "wf x" using x by (simp add: cfg_ok_def)
  have "low x \<noteq> []" using False w by (auto simp: low_def wf_def)
  then obtain ls l where ls: "low x = ls @ [l]" by (metis rev_exhaust)
  then have l: "low_ok l" "\<forall>k \<in> set ls. low_ok k" using x by (auto simp: cfg_ok_def)
  then have "cfg_ok b (pop_level x)" "cfg_rank (pop_level x) < cfg_rank x"
    using x w ls by (auto simp: cfg_ok_def pop_level_simps [OF w ls] top_ok_def low_ok_def cfg_rank_def)
  then show ?thesis using do_finish_pop [OF w False] pop_level_simps(4) [OF w ls] by (auto intro!: steps_okI)
qed

lemma push_steps:
  assumes x: "cfg_ok b x" and st: "sr_state (lvl x) = s0" "rank s0 = 8" "s0 \<noteq> st_eatws" "low_ok ((lvl x)\<lparr>sr_state := s\<rparr>)"
  shows "steps_ok b x (push_level s x)"
proof (cases "tk_depth (tok x) < 31")
  case False
  then show ?thesis using x by (auto simp: push_level_def JSON_TOKENER_MAX_DEPTH_def cfg_ok_def cfg_simps intro!: steps_okI)
next
  case True
  have w: "wf x" using x by (simp add: cfg_ok_def)
  have "cfg_ok b (new_level s x)" "cfg_rank (new_level s x) < cfg_rank x"
    using x st by (auto simp: cfg_ok_def new_level_simps [OF w True] top_ok_def after_ws_def reset_srec_def cfg_rank_def)
  then show ?thesis using push_level_new [OF w True] new_level_simps(4) [OF w True] by (auto intro!: steps_okI)
qed

lemma nested_steps:
  assumes x: "cfg_ok b x"
  shows "sr_state (lvl x) = st_array \<Longrightarrow> steps_ok b x (do_array x)"
    "sr_state (lvl x) = st_object_value \<Longrightarrow> steps_ok b x (push_level st_object_value_add x)"
proof -
  assume st: "sr_state (lvl x) = st_array"
  have "steps_ok b x (push_level st_array_add x)"
    by (rule push_steps [OF x st]) (use x st in \<open>auto simp: low_ok_def cfg_ok_def top_ok_def\<close>)
  then show "steps_ok b x (do_array x)"
    using x st by (auto simp: do_array_def handler_simps cfg_ok_def top_ok_def after_ws_def intro!: steps_okI)
next
  assume st: "sr_state (lvl x) = st_object_value"
  show "steps_ok b x (push_level st_object_value_add x)"
    by (rule push_steps [OF x st]) (use x st in \<open>auto simp: low_ok_def cfg_ok_def top_ok_def\<close>)
qed

lemma unicode_steps:
  assumes b: "c_text b" and x: "cfg_ok b x" "sr_state (lvl x) = st_escape_unicode"
  shows "steps_ok b x (do_escape_unicode b (- 1) x)"
  using x
proof (induction "length b - str x" arbitrary: x rule: less_induct)
  case less
  let ?y = "x\<lparr>tok := (tok x)\<lparr>tk_ucs_char := tk_ucs_char (tok x) + push_bit ((3 - tk_st_pos (tok x)) * 4) (hexdigit (ch x)),
    tk_st_pos := tk_st_pos (tok x) + 1\<rparr>\<rparr>"
  have w: "wf x" "pos_ok b x" "tk_st_pos (tok x) < 4" using less.prems by (auto simp: cfg_ok_def)
  have y: "wf ?y" "lvl ?y = lvl x" "low ?y = low x" "pos_ok b ?y" "str ?y = str x" "ch ?y = ch x" "tk_st_pos (tok ?y) = tk_st_pos (tok x) + 1"
    using w by (simp_all add: wf_def lvl_def low_def pos_ok_def)
  show ?case
  proof (cases "ch x \<in> set json_hex_chars \<or> ch x = NUL")
    case False
    then show ?thesis using w by (subst do_escape_unicode.simps) (auto simp: cfg_simps intro!: steps_okI)
  next
    case hex: True
    show ?thesis
    proof (cases "tk_st_pos (tok x) = 3")
      case True
      have "do_escape_unicode b (- 1) x = Some (Break, set_top (\<lambda>l. l\<lparr>sr_state := sr_saved_state l\<rparr>) (pb_append (utf8 (tk_ucs_char (tok ?y))) ?y))"
        using hex True w y by (subst do_escape_unicode.simps) (simp add: Let_def back_to_saved_def upd_level_top cfg_simps)
      moreover have "cfg_ok b (set_top (\<lambda>l. l\<lparr>sr_state := sr_saved_state l\<rparr>) (pb_append (utf8 (tk_ucs_char (tok ?y))) ?y))"
        using less.prems y by (auto simp: cfg_ok_def cfg_simps top_ok_def)
      ultimately show ?thesis using y by (auto simp: cfg_simps intro!: steps_okI)
    next
      case False
      have e: "do_escape_unicode b (- 1) x = do { (ok, x) \<leftarrow> adv_pop b (- 1) ?y; if ok then do_escape_unicode b (- 1) x else Some (Out, x) }"
        using hex False w by (subst do_escape_unicode.simps) (simp add: Let_def)
      show ?thesis
      proof (cases "ch x = NUL")
        case True
        then show ?thesis using e adv_pop_ok(2) [OF b y(4)] y(1,6) by (auto simp: wf_def intro!: steps_okI)
      next
        case n: False
        then have a: "adv_pop b (- 1) ?y = Some (True, at_pos b (str x + 1) ?y)" "str x + 1 < length b"
          using adv_pop_ok(1) [OF b y(4)] y(5,6) by auto
        let ?z = "at_pos b (str x + 1) ?y"
        have z: "cfg_ok b ?z" "sr_state (lvl ?z) = st_escape_unicode" "str ?z = str x + 1"
          using less.prems y a(2) w(3) False by (auto simp: cfg_ok_def at_pos_simps top_ok_def)
        have "steps_ok b ?z (do_escape_unicode b (- 1) ?z)"
          by (rule less.hyps [OF _ z(1,2)]) (use z(3) a(2) in simp)
        then show ?thesis using e a(1) z(3) by (auto simp: steps_ok_def)
      qed
    qed
  qed
qed

subsection \<open>The machine ends\<close>

lemma dispatch_steps:
  assumes b: "c_text b" and x: "cfg_ok b x"
  shows "steps_ok b x (dispatch big scan_lf b (- 1) x)"
proof -
  have "level (tok x) = Some (lvl x)" using x by (auto simp: cfg_ok_def level_top)
  then show ?thesis
    using char_steps [OF x] string_escape_steps [OF x] word_steps [OF x] finish_steps [OF x] nested_steps [OF x]
      eatws_steps [OF b x] comment_steps [OF b x] string_steps [OF b x] number_steps [OF b x] unicode_steps [OF b x]
    by (cases "sr_state (lvl x)") (simp_all add: dispatch_def)
qed

lemma parse_loop_total:
  assumes b: "c_text b" and x: "cfg_ok b x"
  shows "\<exists>y. parse_loop big scan_lf b (- 1) x = Some y \<and> wf y"
  using x
proof (induction x rule: wf_induct_rule [OF wf_measures [of "[\<lambda>x. length b - str x, cfg_rank]"]])
  case (1 x)
  obtain a y where y: "dispatch big scan_lf b (- 1) x = Some (a, y)" "wf y" "a = Break \<longrightarrow> cfg_ok b y \<and> str x \<le> str y"
      "a = Redo \<longrightarrow> cfg_ok b y \<and> (str x < str y \<or> str y = str x \<and> cfg_rank y < cfg_rank x)"
    using dispatch_steps [OF b 1(2)] unfolding steps_ok_def by blast
  have px: "str x < length b" using 1(2) by (simp add: cfg_ok_def pos_ok_def)
  show ?case
  proof (cases a)
    case Redo
    then have "(y, x) \<in> measures [\<lambda>x. length b - str x, cfg_rank]" using y(4) px by auto
    then have "\<exists>z. parse_loop big scan_lf b (- 1) y = Some z \<and> wf z" using 1(1) y(4) Redo by blast
    then show ?thesis using y(1) Redo by (subst parse_loop.simps) simp
  next
    case Break
    then have c: "cfg_ok b y" "str x \<le> str y" "pos_ok b y" using y(3) by (auto simp: cfg_ok_def)
    show ?thesis
    proof (cases "ch y = NUL")
      case True
      then show ?thesis using y(1,2) Break adv_pop_ok(2) [OF b c(3)] by (subst parse_loop.simps) (simp add: wf_def)
    next
      case False
      let ?z = "at_pos b (str y + 1) y"
      have a: "adv_pop b (- 1) y = Some (True, ?z)" "str y + 1 < length b" using adv_pop_ok(1) [OF b c(3) False] by auto
      have "cfg_ok b ?z" using c(1) a(2) by (simp add: cfg_ok_def at_pos_simps)
      moreover have "(?z, x) \<in> measures [\<lambda>x. length b - str x, cfg_rank]" using c(2) px by (auto simp: at_pos_simps)
      ultimately have "\<exists>u. parse_loop big scan_lf b (- 1) ?z = Some u \<and> wf u" using 1(1) by blast
      then show ?thesis using y(1) Break a(1) by (subst parse_loop.simps) simp
    qed
  next
    case Out
    then show ?thesis using y(1,2) by (subst parse_loop.simps) simp
  qed
qed

text \<open>The first configuration: the machine looks at the first character in its first state.\<close>

definition start_tok :: "'d tokener" where
  "start_tok = the json_tokener_new"

definition start_cfg :: "char list \<Rightarrow> 'd cfg" where
  "start_cfg b = \<lparr>tok = start_tok, str = 0, ch = b ! 0, obj = None\<rparr>"

lemma start_tok: "json_tokener_new = Some start_tok"
  "tk_char_offset start_tok = 0" "tk_err start_tok = tok_success" "tk_depth start_tok = 0" "length (tk_stack start_tok) = 32"
  "tk_stack start_tok ! 0 = reset_srec"
  by (simp_all add: start_tok_def json_tokener_new_def json_tokener_reset_def json_tokener_reset_level_def JSON_TOKENER_MAX_DEPTH_def)

lemma start_cfg_ok: "c_text b \<Longrightarrow> cfg_ok b (start_cfg b)" "wf (start_cfg b)" "lvl (start_cfg b) = reset_srec" "low (start_cfg b) = []"
  by (auto simp: start_cfg_def cfg_ok_def wf_def lvl_def low_def pos_ok_def start_tok top_ok_def after_ws_def reset_srec_def c_text_def)

lemma reset_loop_ok: "d < length (tk_stack t) \<Longrightarrow> \<exists>t'. json_tokener_reset_loop t d = Some t'"
  by (induction t d rule: json_tokener_reset_loop.induct) (auto simp: json_tokener_reset_level_def wr_def)

lemma free_ok: "wf x \<Longrightarrow> json_tokener_free (tok x) = Some ()"
  using reset_loop_ok [of "tk_depth (tok x)" "tok x"] by (auto simp: wf_def json_tokener_free_def json_tokener_reset_def)

text \<open>The result of the parser, once its machine has ended.\<close>

lemma parse_end:
  fixes scan_lf :: "cstring \<Rightarrow> 'd option"
  assumes b: "c_text b" and y: "parse_loop big scan_lf b (- 1) (start_cfg b) = Some y" "wf y"
    and e: "e = (if ch y = NUL \<and> sr_state (lvl y) \<noteq> st_finish \<and> sr_saved_state (lvl y) \<noteq> st_finish then err_parse_eof else tk_err (tok y))"
  shows "json_tokener_parse big scan_lf b = Some (if e = tok_success then Inr (sr_current (lvl y)) else Inl e)"
proof -
  have t: "start_tok\<lparr>tk_char_offset := 0, tk_err := tok_success\<rparr> = (start_tok :: 'd tokener)"
    by (rule tokener.equality) (simp_all add: start_tok)
  have "b \<noteq> []" using b by (auto simp: c_text_def)
  then have "json_tokener_parse_ex big scan_lf start_tok b (- 1) = parse_out y"
    using y(1) by (simp add: t json_tokener_parse_ex_def start_tok POP_CHAR_def start_cfg_def Let_def)
  moreover have "parse_out y = Some (if e = tok_success then sr_current (lvl y) else None, tok (set_err e y))"
    using level_top [OF y(2)] e by (auto simp: parse_out_def Let_def set_err_def)
  moreover have "json_tokener_free (tok (set_err e y)) = Some ()" by (rule free_ok) (simp add: y(2) cfg_simps)
  moreover have "tk_err (tok (set_err e y)) = e" by (simp add: set_err_def)
  ultimately show ?thesis by (simp add: json_tokener_parse_def start_tok Let_def)
qed

lemma c_text_append: "NUL \<notin> set s \<Longrightarrow> length s < 2 ^ 31 - 1 \<Longrightarrow> c_text (s @ [NUL])"
  by (auto simp: c_text_def)

lemma parse_total:
  assumes "NUL \<notin> set s" "length s < 2 ^ 31 - 1"
  shows "\<exists>r. json_tokener_parse big scan_lf (s @ [NUL]) = Some r"
proof -
  let ?b = "s @ [NUL]"
  have b: "c_text ?b" by (rule c_text_append [OF assms])
  obtain y where y: "parse_loop big scan_lf ?b (- 1) (start_cfg ?b) = Some y" "wf y"
    using parse_loop_total [OF b start_cfg_ok(1) [OF b]] by blast
  show ?thesis unfolding parse_end [OF b y refl] by (rule exI, rule refl)
qed



end
