(* ===== verification/Tokener_Roundtrip.thy ===== *)
theory Tokener_Roundtrip
  imports Tokener_Props
begin

text \<open>
  The parser reads back what the printer prints: on the text of a value the machine comes to the end
  of the text with the value complete, at any depth of the stack that leaves room for the nesting.
\<close>

subsection \<open>Runs of the machine\<close>

text \<open>The machine comes from \<open>x\<close> to a configuration with property \<open>P\<close>.\<close>

definition leads ::
  "(cstring \<Rightarrow> int) \<Rightarrow> (cstring \<Rightarrow> 'd option) \<Rightarrow> char list \<Rightarrow> 'd cfg \<Rightarrow> ('d cfg \<Rightarrow> bool) \<Rightarrow> bool" where
  "leads big scan_lf b x P \<longleftrightarrow> (\<exists>y. parse_loop big scan_lf b (- 1) x = parse_loop big scan_lf b (- 1) y \<and> P y)"

lemma leads_refl: "P x \<Longrightarrow> leads big scan_lf b x P"
  by (auto simp: leads_def)

lemma leads_trans: "leads big scan_lf b x P \<Longrightarrow> (\<And>y. P y \<Longrightarrow> leads big scan_lf b y Q) \<Longrightarrow> leads big scan_lf b x Q"
  unfolding leads_def by metis

text \<open>The input that is left, the level and the levels below.\<close>

definition view :: "char list \<Rightarrow> char list \<Rightarrow> 'd srec \<Rightarrow> 'd srec list \<Rightarrow> 'd cfg \<Rightarrow> bool" where
  "view b r l ls x \<longleftrightarrow> wf x \<and> pos_ok b x \<and> drop (str x) b = r \<and> lvl x = l \<and> low x = ls \<and> tk_err (tok x) = tok_success"

lemma viewD:
  assumes "view b r l ls x"
  shows "wf x" "pos_ok b x" "lvl x = l" "low x = ls" "level (tok x) = Some l" "r = ch x # drop (Suc (str x)) b" "tk_depth (tok x) = length ls"
proof -
  have v: "wf x" "pos_ok b x" "drop (str x) b = r" "lvl x = l" "low x = ls" using assms by (auto simp: view_def)
  then show "wf x" "pos_ok b x" "lvl x = l" "low x = ls" "level (tok x) = Some l" by (auto simp: level_top)
  show "r = ch x # drop (Suc (str x)) b" using v(2,3) by (auto simp: pos_ok_def Cons_nth_drop_Suc)
  show "tk_depth (tok x) = length ls" using v(1,5) by (auto simp: wf_def low_def)
qed

lemma leads_redo: "dispatch big scan_lf b (- 1) x = Some (Redo, y) \<Longrightarrow> leads big scan_lf b y P \<Longrightarrow> leads big scan_lf b x P"
  unfolding leads_def by (subst parse_loop.simps) simp

lemma leads_break:
  assumes b: "c_text b" and d: "dispatch big scan_lf b (- 1) x = Some (Break, y)" and p: "pos_ok b y" "ch y \<noteq> NUL"
    and l: "leads big scan_lf b (at_pos b (str y + 1) y) P"
  shows "leads big scan_lf b x P"
proof -
  have "parse_loop big scan_lf b (- 1) x = parse_loop big scan_lf b (- 1) (at_pos b (str y + 1) y)"
    using d adv_pop_ok(1) [OF b p] by (subst parse_loop.simps) simp
  then show ?thesis using l by (simp add: leads_def)
qed

text \<open>Moving on by some characters.\<close>

lemma view_at:
  assumes "view b (s @ r) l ls x" "r \<noteq> []"
  shows "view b r l ls (at_pos b (str x + length s) x)" "str x + length s < length b" "b ! (str x + length s) = hd r"
proof -
  have d: "drop (str x) b = s @ r" using assms(1) by (simp add: view_def)
  then have e: "drop (str x + length s) b = r" by (metis add.commute append_eq_conv_conj drop_drop)
  then show lt: "str x + length s < length b" using assms(2) by (metis drop_eq_Nil not_le)
  then show "b ! (str x + length s) = hd r" using e by (metis hd_drop_conv_nth)
  show "view b r l ls (at_pos b (str x + length s) x)" using assms(1) lt e by (simp add: view_def cfg_simps)
qed

lemma scan_view:
  assumes b: "c_text b" and v: "view b (s @ r) l ls x" and P: "\<forall>c \<in> set s. P c" "r \<noteq> []" "\<not> P (hd r)"
  shows "scan_while P b (- 1) x = Some (True, at_pos b (str x + length s) x)" "scanned b x (at_pos b (str x + length s) x) = s"
proof -
  have d: "drop (str x) b = s @ r" using v by (simp add: view_def)
  have "P (b ! i)" if "str x \<le> i" "i < str x + length s" for i
  proof -
    have "b ! i = drop (str x) b ! (i - str x)" using that viewD(2) [OF v] by (simp add: pos_ok_def)
    then show ?thesis using that P(1) by (simp add: d nth_append)
  qed
  then show "scan_while P b (- 1) x = Some (True, at_pos b (str x + length s) x)"
    using view_at [OF v P(2)] P(3) viewD(2) [OF v] by (intro scan_while_stops [OF b]) auto
  show "scanned b x (at_pos b (str x + length s) x) = s" using d by (simp add: scanned_def cfg_simps)
qed

lemma leads_mono: "leads big scan_lf b x P \<Longrightarrow> (\<And>y. P y \<Longrightarrow> Q y) \<Longrightarrow> leads big scan_lf b x Q"
  unfolding leads_def by blast

lemma view_simps [cfg_simps]:
  "view b r l ls (pb_reset x) = view b r l ls x" "view b r l ls (pb_append s x) = view b r l ls x"
  "view b r l ls (set_st_pos n x) = view b r l ls x" "view b r l ls (set_quote c x) = view b r l ls x"
  "view b r l ls (set_is_double d x) = view b r l ls x"
  by (simp_all add: view_def cfg_simps) (simp_all add: pb_reset_def pb_append_def set_st_pos_def set_quote_def set_is_double_def)

lemma view_set_top: "view b r l ls x \<Longrightarrow> view b r (f l) ls (set_top f x)"
  by (auto simp: view_def cfg_simps)

lemma set_top_twice: "wf x \<Longrightarrow> set_top g (set_top f x) = set_top (g \<circ> f) x"
  by (simp add: set_top_def lvl_def wf_def)

text \<open>A round that ends with \<open>break\<close> moves on by one character.\<close>

lemma break_step:
  assumes b: "c_text b" and d: "dispatch big scan_lf b (- 1) x = Some (Break, y)" and v: "view b (c # r) l ls y" and c: "c \<noteq> NUL"
    and k: "view b r l ls (at_pos b (str y + 1) y) \<Longrightarrow> leads big scan_lf b (at_pos b (str y + 1) y) P"
  shows "leads big scan_lf b x P"
proof (rule leads_break [OF b d viewD(2) [OF v]])
  show n: "ch y \<noteq> NUL" using viewD(6) [OF v] c by simp
  have "str y + 1 < length b" using adv_pop_ok(1) [OF b viewD(2) [OF v] n] by simp
  moreover from this have "r \<noteq> []" using viewD(6) [OF v] by simp
  ultimately show "leads big scan_lf b (at_pos b (str y + 1) y) P" using k view_at(1) [of b "[c]" r l ls y] v by simp
qed

subsection \<open>Steps on white space and punctuation\<close>

abbreviation L :: "tok_state \<Rightarrow> tok_state \<Rightarrow> 'd jval option \<Rightarrow> cstring option \<Rightarrow> 'd srec" where
  "L st sv cur fld \<equiv> \<lparr>sr_state = st, sr_saved_state = sv, sr_current = cur, sr_obj_field_name = fld\<rparr>"

lemma eat:
  assumes b: "c_text b" and v: "view b (s @ r) (L st_eatws sv cur fld) ls x"
    and s: "\<forall>c \<in> set s. isspace c" "r \<noteq> []" "\<not> isspace (hd r)" "hd r \<noteq> CHR ''/''"
  shows "leads big scan_lf b x (view b r (L sv sv cur fld) ls)"
proof -
  let ?y = "at_pos b (str x + length s) x"
  have w: "wf x" "lvl x = L st_eatws sv cur fld" using viewD [OF v] by auto
  have "dispatch big scan_lf b (- 1) x = Some (Redo, set_top (\<lambda>l'. l'\<lparr>sr_state := sv\<rparr>) ?y)"
    using scan_view(1) [OF b v s(1-3)] view_at(3) [OF v s(2)] s(4) w
    by (simp add: dispatch_def do_eatws_def handler_simps)
  then show ?thesis
    by (rule leads_redo) (use view_set_top [OF view_at(1) [OF v s(2)], of "\<lambda>l'. l'\<lparr>sr_state := sv\<rparr>"] in \<open>auto intro!: leads_refl\<close>)
qed

text \<open>The states that take one character and go on: the level changes by \<open>f\<close>.\<close>

fun punct :: "char \<Rightarrow> tok_state \<Rightarrow> ('d srec \<Rightarrow> 'd srec) option" where
  "punct c st =
    (if c = CHR ''['' \<and> st = st_start then Some (\<lambda>l. l\<lparr>sr_state := st_eatws, sr_saved_state := st_array, sr_current := Some (VArray [])\<rparr>)
     else if c = CHR ''{'' \<and> st = st_start then Some (\<lambda>l. l\<lparr>sr_state := st_eatws, sr_saved_state := st_object_field_start, sr_current := Some (VObject [])\<rparr>)
     else if c = CHR '']'' \<and> st \<in> {st_array, st_array_sep} then Some (\<lambda>l. l\<lparr>sr_state := st_eatws, sr_saved_state := st_finish\<rparr>)
     else if c = CHR '','' \<and> st = st_array_sep then Some (\<lambda>l. l\<lparr>sr_state := st_eatws, sr_saved_state := st_array\<rparr>)
     else if c = CHR ''}'' \<and> st \<in> {st_object_field_start, st_object_sep} then Some (\<lambda>l. l\<lparr>sr_state := st_eatws, sr_saved_state := st_finish\<rparr>)
     else if c = CHR '','' \<and> st = st_object_sep then Some (\<lambda>l. l\<lparr>sr_state := st_eatws, sr_saved_state := st_object_field_start\<rparr>)
     else if c = CHR '':'' \<and> st = st_object_field_end then Some (\<lambda>l. l\<lparr>sr_state := st_eatws, sr_saved_state := st_object_value\<rparr>)
     else None)"

lemma punct_step:
  fixes l :: "'d srec"
  assumes b: "c_text b" and v: "view b (c # r) l ls x" and p: "(punct c (sr_state l) :: ('d srec \<Rightarrow> 'd srec) option) \<noteq> None"
  shows "leads big scan_lf b x (view b r (the (punct c (sr_state l)) l) ls)"
proof -
  obtain f :: "'d srec \<Rightarrow> 'd srec" where f: "punct c (sr_state l) = Some f" using p by blast
  have w: "wf x" "lvl x = l" "ch x = c" using viewD [OF v] by auto
  have "dispatch big scan_lf b (- 1) x = Some (Break, set_top f x)"
    using f by (auto simp: w dispatch_def do_start_def do_array_def do_array_sep_def do_object_field_start_def do_object_sep_def
        do_object_field_end_def Let_def handler_simps set_top_twice comp_def split: if_splits)
  moreover have "c \<noteq> NUL" using f by (auto split: if_splits)
  ultimately have "leads big scan_lf b x (view b r (f l) ls)" by (rule break_step [OF b _ view_set_top [OF v]]) (rule leads_refl)
  then show ?thesis unfolding f option.sel .
qed

subsection \<open>Strings\<close>

text \<open>The escapes that the printer writes: one character, or four digits.\<close>

lemma short_escape_step:
  assumes b: "c_text b" and v: "view b (e # r) (L st_string_escape here cur fld) ls x" and e: "map_of short_escapes c = Some e"
    and k: "\<And>y. view b r (L here here cur fld) ls y \<Longrightarrow> tk_pb (tok y) = tk_pb (tok x) @ [c] \<Longrightarrow>
      tk_quote_char (tok y) = tk_quote_char (tok x) \<Longrightarrow> leads big scan_lf b y P"
  shows "leads big scan_lf b x P"
proof -
  let ?f = "\<lambda>l. l\<lparr>sr_state := sr_saved_state l\<rparr>"
  let ?y = "set_top ?f (pb_append [c] x)"
  have w: "wf x" "lvl x = L st_string_escape here cur fld" "ch x = e" using viewD [OF v] by auto
  have "dispatch big scan_lf b (- 1) x = Some (Break, ?y)"
    using e by (auto simp: w dispatch_def do_string_escape_def short_escapes_def Let_def handler_simps split: if_splits)
  moreover have "view b (e # r) (L here here cur fld) ls ?y"
    using view_set_top [of b "e # r" "L st_string_escape here cur fld" ls "pb_append [c] x" ?f] v by (simp add: cfg_simps)
  moreover have "e \<noteq> NUL" using e by (auto simp: short_escapes_def split: if_splits)
  ultimately show ?thesis by (rule break_step [OF b]) (auto simp: cfg_simps intro!: k)
qed

definition ucs_step :: "'d cfg \<Rightarrow> char \<Rightarrow> 'd cfg" where
  "ucs_step x c = x\<lparr>tok := (tok x)\<lparr>tk_ucs_char := tk_ucs_char (tok x) + push_bit ((3 - tk_st_pos (tok x)) * 4) (hexdigit c),
     tk_st_pos := tk_st_pos (tok x) + 1\<rparr>\<rparr>"

lemma ucs_step_simps [cfg_simps]:
  "view b r l ls (ucs_step x c) = view b r l ls x" "tk_pb (tok (ucs_step x c)) = tk_pb (tok x)" "wf (ucs_step x c) = wf x"
  "tk_quote_char (tok (ucs_step x c)) = tk_quote_char (tok x)" "tk_st_pos (tok (ucs_step x c)) = Suc (tk_st_pos (tok x))"
  "str (ucs_step x c) = str x" "ch (ucs_step x c) = ch x"
  "tk_ucs_char (tok (ucs_step x c)) = tk_ucs_char (tok x) + push_bit ((3 - tk_st_pos (tok x)) * 4) (hexdigit c)"
  by (simp_all add: ucs_step_def view_def wf_def pos_ok_def lvl_def low_def)

lemma unicode_more:
  assumes b: "c_text b" and v: "view b (c # r) l ls x" and c: "c \<in> set json_hex_chars" "tk_st_pos (tok x) < 3"
  shows "do_escape_unicode b (- 1) x = do_escape_unicode b (- 1) (at_pos b (str x + 1) (ucs_step x c)) \<and>
    view b r l ls (at_pos b (str x + 1) (ucs_step x c))"
proof -
  have ch: "ch x = c" using viewD(6) [OF v] by simp
  have n: "c \<noteq> NUL" using c(1) by (auto simp: json_hex_chars_def)
  have vy: "view b (c # r) l ls (ucs_step x c)" using v by (simp add: cfg_simps)
  have a: "adv_pop b (- 1) (ucs_step x c) = Some (True, at_pos b (str x + 1) (ucs_step x c))" "str x + 1 < length b"
    using adv_pop_ok(1) [OF b viewD(2) [OF vy]] n ch by (simp_all add: cfg_simps)
  have "r \<noteq> []" using viewD(6) [OF v] a(2) by simp
  then have "view b r l ls (at_pos b (str x + 1) (ucs_step x c))" using view_at(1) [of b "[c]" r l ls "ucs_step x c"] vy by (simp add: cfg_simps)
  moreover have "do_escape_unicode b (- 1) x = do_escape_unicode b (- 1) (at_pos b (str x + 1) (ucs_step x c))"
    using c a(1) ch by (subst do_escape_unicode.simps) (simp add: Let_def ucs_step_def)
  ultimately show ?thesis by simp
qed

lemma unicode_last:
  assumes "view b (c # r) l ls x" "c \<in> set json_hex_chars" "tk_st_pos (tok x) = 3"
  shows "do_escape_unicode b (- 1) x =
    Some (Break, set_top (\<lambda>l. l\<lparr>sr_state := sr_saved_state l\<rparr>) (pb_append (utf8 (tk_ucs_char (tok x) + hexdigit c)) (ucs_step x c)))"
proof -
  let ?f = "\<lambda>l. l\<lparr>sr_state := sr_saved_state l\<rparr>" and ?y = "pb_append (utf8 (tk_ucs_char (tok x) + hexdigit c)) (ucs_step x c)"
  have c: "ch x = c" "wf ?y" using viewD(1,6) [OF assms(1)] by (auto simp: cfg_simps)
  have e: "ucs_step x c = x\<lparr>tok := (tok x)\<lparr>tk_ucs_char := tk_ucs_char (tok x) + hexdigit c, tk_st_pos := 4\<rparr>\<rparr>"
    using assms(3) by (simp add: ucs_step_def)
  have "do_escape_unicode b (- 1) x = do { x \<leftarrow> back_to_saved ?y; Some (Break, x) }"
    using assms(2,3) c(1) by (subst do_escape_unicode.simps) (simp add: Let_def e)
  then show ?thesis using upd_level_top [OF c(2), of ?f] by (simp add: back_to_saved_def)
qed

lemma hex_digits: "k < 16 \<Longrightarrow> json_hex_chars ! k \<in> set json_hex_chars"
  by (rule nth_mem) (simp add: json_hex_chars_def)

lemma hexdigit_nth: "k < 16 \<Longrightarrow> hexdigit (json_hex_chars ! k) = of_nat k"
proof -
  have "list_all (\<lambda>k. hexdigit (json_hex_chars ! k) = of_nat k) [0..<16]" by code_simp
  then show "k < 16 \<Longrightarrow> hexdigit (json_hex_chars ! k) = of_nat k" by (simp only: list_all_iff set_upt atLeastLessThan_iff le0)
qed

lemma utf8_hex:
  assumes "n < 32"
  shows "utf8 (push_bit 12 (hexdigit (CHR ''0'')) + push_bit 8 (hexdigit (CHR ''0'')) +
      push_bit 4 (hexdigit (json_hex_chars ! (n div 16))) + hexdigit (json_hex_chars ! (n mod 16))) = [char_of n]"
proof -
  have z: "hexdigit (CHR ''0'') = 0" using hexdigit_nth [of 0] by (simp add: json_hex_chars_def)
  have d: "hexdigit (json_hex_chars ! (n div 16)) = of_nat (n div 16)" "hexdigit (json_hex_chars ! (n mod 16)) = of_nat (n mod 16)"
    using assms by (auto intro!: hexdigit_nth simp: less_mult_imp_div_less)
  have "push_bit 4 (of_nat (n div 16) :: 32 word) + of_nat (n mod 16) = of_nat (n div 16 * 16 + n mod 16)"
    by (simp only: push_bit_eq_mult of_nat_add of_nat_mult) simp
  also have "\<dots> = of_nat n" by (simp only: div_mult_mod_eq)
  finally have e: "push_bit 4 (of_nat (n div 16) :: 32 word) + of_nat (n mod 16) = of_nat n" .
  have u: "unat (of_nat n :: 32 word) = n" using assms by (simp add: unat_of_nat)
  then have "(of_nat n :: 32 word) < 0x80" using assms by (simp add: word_less_nat_alt)
  then show ?thesis using u by (simp add: utf8_def z d e)
qed

lemma unicode_escape_step:
  assumes b: "c_text b" and c: "(of_char c :: nat) < 32"
    and v: "view b (''u00'' @ json_hex_chars ! (of_char c div 16) # json_hex_chars ! (of_char c mod 16) # r) (L st_string_escape here cur fld) ls x"
    and k: "\<And>y. view b r (L here here cur fld) ls y \<Longrightarrow> tk_pb (tok y) = tk_pb (tok x) @ [c] \<Longrightarrow>
      tk_quote_char (tok y) = tk_quote_char (tok x) \<Longrightarrow> leads big scan_lf b y P"
  shows "leads big scan_lf b x P"
proof -
  let ?h = "json_hex_chars ! (of_char c div 16)" and ?l = "json_hex_chars ! (of_char c mod 16)"
  let ?u = "\<lambda>l. l\<lparr>sr_state := st_escape_unicode\<rparr>" and ?s = "\<lambda>l. l\<lparr>sr_state := sr_saved_state l\<rparr>"
  have hex: "CHR ''0'' \<in> set json_hex_chars" "?h \<in> set json_hex_chars" "?l \<in> set json_hex_chars"
    using hex_digits [of 0] hex_digits [of "of_char c div 16"] hex_digits [of "of_char c mod 16"] c
    by (simp_all add: less_mult_imp_div_less json_hex_chars_def)
  have w: "wf x" "lvl x = L st_string_escape here cur fld" "ch x = CHR ''u''" using viewD [OF v] by auto
  define y where "y = set_top ?u x\<lparr>tok := (tok (set_top ?u x))\<lparr>tk_ucs_char := 0, tk_st_pos := 0\<rparr>\<rparr>"
  have d: "dispatch big scan_lf b (- 1) x = Some (Break, y)"
    by (simp add: w dispatch_def do_string_escape_def Let_def handler_simps y_def)
  have y: "tk_pb (tok y) = tk_pb (tok x)" "tk_quote_char (tok y) = tk_quote_char (tok x)" "tk_ucs_char (tok y) = 0" "tk_st_pos (tok y) = 0"
    by (simp_all add: y_def cfg_simps)
  have vy: "view b (CHR ''u'' # CHR ''0'' # CHR ''0'' # ?h # ?l # r) (L st_escape_unicode here cur fld) ls y"
    using view_set_top [OF v, of ?u] by (simp add: y_def view_def wf_def pos_ok_def lvl_def low_def)
  show ?thesis
  proof (rule break_step [OF b d vy])
    let ?z0 = "at_pos b (str y + 1) y"
    assume v0: "view b (CHR ''0'' # CHR ''0'' # ?h # ?l # r) (L st_escape_unicode here cur fld) ls ?z0"
    define z1 where "z1 = at_pos b (str ?z0 + 1) (ucs_step ?z0 (CHR ''0''))"
    define z2 where "z2 = at_pos b (str z1 + 1) (ucs_step z1 (CHR ''0''))"
    define z3 where "z3 = at_pos b (str z2 + 1) (ucs_step z2 ?h)"
    have f1: "tk_st_pos (tok z1) = 1" "tk_ucs_char (tok z1) = push_bit 12 (hexdigit (CHR ''0''))"
      "tk_pb (tok z1) = tk_pb (tok x)" "tk_quote_char (tok z1) = tk_quote_char (tok x)"
      by (simp_all add: z1_def cfg_simps y)
    have f2: "tk_st_pos (tok z2) = 2" "tk_ucs_char (tok z2) = tk_ucs_char (tok z1) + push_bit 8 (hexdigit (CHR ''0''))"
      "tk_pb (tok z2) = tk_pb (tok x)" "tk_quote_char (tok z2) = tk_quote_char (tok x)"
      by (simp_all add: z2_def cfg_simps f1)
    have f3: "tk_st_pos (tok z3) = 3" "tk_ucs_char (tok z3) = tk_ucs_char (tok z2) + push_bit 4 (hexdigit ?h)"
      "tk_pb (tok z3) = tk_pb (tok x)" "tk_quote_char (tok z3) = tk_quote_char (tok x)"
      by (simp_all add: z3_def cfg_simps f2)
    have e1: "do_escape_unicode b (- 1) ?z0 = do_escape_unicode b (- 1) z1 \<and> view b (CHR ''0'' # ?h # ?l # r) (L st_escape_unicode here cur fld) ls z1"
      using unicode_more [OF b v0 hex(1)] by (simp add: z1_def cfg_simps y)
    have e2: "do_escape_unicode b (- 1) z1 = do_escape_unicode b (- 1) z2 \<and> view b (?h # ?l # r) (L st_escape_unicode here cur fld) ls z2"
      using unicode_more [OF b conjunct2 [OF e1] hex(1)] by (simp add: z2_def f1)
    have e3: "do_escape_unicode b (- 1) z2 = do_escape_unicode b (- 1) z3 \<and> view b (?l # r) (L st_escape_unicode here cur fld) ls z3"
      using unicode_more [OF b conjunct2 [OF e2] hex(2)] by (simp add: z3_def f2)
    let ?e = "set_top ?s (pb_append [c] (ucs_step z3 ?l))"
    have "utf8 (tk_ucs_char (tok z3) + hexdigit ?l) = [c]" using utf8_hex [OF c] by (simp add: f3 f2 f1)
    then have "do_escape_unicode b (- 1) ?z0 = Some (Break, ?e)"
      using unicode_last [OF conjunct2 [OF e3] hex(3) f3(1)] e1 e2 e3 by simp
    then have de: "dispatch big scan_lf b (- 1) ?z0 = Some (Break, ?e)" using viewD(5) [OF v0] by (simp add: dispatch_def)
    have ve: "view b (?l # r) (L here here cur fld) ls ?e"
      using view_set_top [of b "?l # r" "L st_escape_unicode here cur fld" ls "pb_append [c] (ucs_step z3 ?l)" ?s] e3 by (simp add: cfg_simps)
    have "?l \<noteq> NUL" using hex(3) by (auto simp: json_hex_chars_def)
    then show "leads big scan_lf b ?z0 P" by (rule break_step [OF b de ve]) (auto simp: cfg_simps f3 intro!: k)
  qed simp
qed

lemma escape_shape:
  assumes "escape_char c = Some e"
  shows "(\<exists>d. map_of short_escapes c = Some d \<and> e = [CHR 0x5C, d]) \<or>
    (of_char c :: nat) < 32 \<and> e = CHR 0x5C # ''u00'' @ [json_hex_chars ! (of_char c div 16), json_hex_chars ! (of_char c mod 16)]"
  using assms by (auto simp: escape_char_def split: option.splits if_splits)

lemma escape_step:
  assumes b: "c_text b" and e: "escape_char c = Some (CHR 0x5C # e)" and v: "view b (e @ r) (L st_string_escape here cur fld) ls x"
    and k: "\<And>y. view b r (L here here cur fld) ls y \<Longrightarrow> tk_pb (tok y) = tk_pb (tok x) @ [c] \<Longrightarrow>
      tk_quote_char (tok y) = tk_quote_char (tok x) \<Longrightarrow> leads big scan_lf b y P"
  shows "leads big scan_lf b x P"
  using escape_shape [OF e]
proof (elim disjE exE conjE)
  fix d assume d: "map_of short_escapes c = Some d" "CHR 0x5C # e = [CHR 0x5C, d]"
  have "view b (d # r) (L st_string_escape here cur fld) ls x" using v d(2) by simp
  then show ?thesis using d(1) by (rule short_escape_step [OF b]) (rule k)
next
  assume n: "(of_char c :: nat) < 32"
    and e: "CHR 0x5C # e = CHR 0x5C # ''u00'' @ [json_hex_chars ! (of_char c div 16), json_hex_chars ! (of_char c mod 16)]"
  have "view b (''u00'' @ json_hex_chars ! (of_char c div 16) # json_hex_chars ! (of_char c mod 16) # r) (L st_string_escape here cur fld) ls x"
    using v e by simp
  then show ?thesis by (rule unicode_escape_step [OF b n]) (rule k)
qed

text \<open>A run of plain characters, and what comes after it.\<close>

lemma escape_split:
  obtains u where "\<forall>c \<in> set u. escape_char c = None" "s = u" "json_escape s = u"
  | u c e s' where "\<forall>c \<in> set u. escape_char c = None" "s = u @ c # s'" "escape_char c = Some (CHR 0x5C # e)"
      "json_escape s = u @ CHR 0x5C # e @ json_escape s'"
proof -
  let ?P = "\<lambda>c. escape_char c = None"
  define u where "u = takeWhile ?P s"
  have u: "\<forall>c \<in> set u. escape_char c = None" unfolding u_def by (auto dest: set_takeWhileD)
  have eu: "json_escape (u @ t) = u @ json_escape t" for t using u by (induction u) (auto simp: json_escape_def)
  show thesis
  proof (cases "dropWhile ?P s")
    case Nil
    then have "s = u" unfolding u_def by (metis append_Nil2 takeWhile_dropWhile_id)
    then show thesis using that(1) [OF u] eu [of "[]"] by (simp add: json_escape_def)
  next
    case (Cons c t)
    then have s: "s = u @ c # t" unfolding u_def by (metis takeWhile_dropWhile_id)
    have "\<not> ?P c" using hd_dropWhile [of ?P s] Cons by simp
    then obtain e where e: "escape_char c = Some e" by auto
    from escape_shape [OF this] obtain e' where e': "e = CHR 0x5C # e'" by auto
    have "json_escape s = u @ CHR 0x5C # e' @ json_escape t" using e e' by (simp add: s eu) (simp add: json_escape_def)
    then show thesis using that(2) [OF u s] e e' by simp
  qed
qed

lemma plain_char: "escape_char c = None \<Longrightarrow> c \<noteq> CHR 0x22 \<and> c \<noteq> CHR 0x5C"
  by (auto simp: escape_char_def short_escapes_def split: if_splits)

text \<open>
  A state that scans a string: it goes to the level \<open>R\<close> of the contents at the closing quote.
\<close>

definition scans :: "(cstring \<Rightarrow> int) \<Rightarrow> (cstring \<Rightarrow> 'd option) \<Rightarrow> char list \<Rightarrow> tok_state \<Rightarrow> 'd jval option \<Rightarrow> cstring option \<Rightarrow>
    (cstring \<Rightarrow> 'd srec) \<Rightarrow> bool" where
  "scans big scan_lf b here cur fld R \<longleftrightarrow>
     (\<exists>dn g. (\<forall>x. wf x \<longrightarrow> sr_state (lvl x) = here \<longrightarrow> dispatch big scan_lf b (- 1) x = scan_string dn here b (- 1) x) \<and>
        (\<forall>t x. wf x \<longrightarrow> dn t x = Some (set_top (g t) x)) \<and> (\<forall>t sv. g t (L here sv cur fld) = R t))"

lemma scans_states:
  "scans big scan_lf b st_string cur fld (\<lambda>t. L st_eatws st_finish (Some (VString t)) fld)"
  "scans big scan_lf b st_object_field cur fld (\<lambda>t. L st_eatws st_object_field_end cur (Some t))"
proof -
  show "scans big scan_lf b st_string cur fld (\<lambda>t. L st_eatws st_finish (Some (VString t)) fld)"
    unfolding scans_def
    by (intro exI [of _ "\<lambda>s. complete (Some (VString s))"]
        exI [of _ "\<lambda>t l. l\<lparr>sr_current := Some (VString t), sr_state := st_eatws, sr_saved_state := st_finish\<rparr>"])
      (simp add: dispatch_def do_string_def handler_simps set_top_twice comp_def)
  show "scans big scan_lf b st_object_field cur fld (\<lambda>t. L st_eatws st_object_field_end cur (Some t))"
    unfolding scans_def do_object_field_def
    by (intro exI [of _ "\<lambda>s. upd_level (\<lambda>l. l\<lparr>sr_obj_field_name := Some s, sr_saved_state := st_object_field_end, sr_state := st_eatws\<rparr>)"]
        exI [of _ "\<lambda>t l. l\<lparr>sr_obj_field_name := Some t, sr_saved_state := st_object_field_end, sr_state := st_eatws\<rparr>"])
      (simp add: dispatch_def do_object_field_def handler_simps)
qed

lemma string_read:
  assumes b: "c_text b" and S: "scans big scan_lf b here cur fld R"
    and v: "view b (json_escape s @ CHR 0x22 # r) (L here sv cur fld) ls x" "tk_quote_char (tok x) = CHR 0x22"
    and n: "NUL \<notin> set s" "NUL \<notin> set (tk_pb (tok x))"
  shows "leads big scan_lf b x (view b r (R (tk_pb (tok x) @ s)) ls)"
  using v n
proof (induction "length s" arbitrary: s sv x rule: less_induct)
  case less
  obtain dn g where D: "\<And>x. wf x \<Longrightarrow> sr_state (lvl x) = here \<Longrightarrow> dispatch big scan_lf b (- 1) x = scan_string dn here b (- 1) x"
      "\<And>t x. wf x \<Longrightarrow> dn t x = Some (set_top (g t) x)" "\<And>t sv. g t (L here sv cur fld) = R t"
    using S unfolding scans_def by metis
  let ?P = "\<lambda>c. c \<noteq> tk_quote_char (tok x) \<and> c \<noteq> CHR 0x5C"
  have w: "wf x" "lvl x = L here sv cur fld" using viewD [OF less.prems(1)] by auto
  then have d: "dispatch big scan_lf b (- 1) x = scan_string dn here b (- 1) x" using D(1) by simp
  consider (plain) "\<forall>c \<in> set s. escape_char c = None" "json_escape s = s"
    | (esc) u c e s' where "\<forall>c \<in> set u. escape_char c = None" "s = u @ c # s'" "escape_char c = Some (CHR 0x5C # e)"
      "json_escape s = u @ CHR 0x5C # e @ json_escape s'" by (rule escape_split [of s]) auto
  then show ?case
  proof cases
    case plain
    let ?p = "at_pos b (str x + length s) x" and ?t = "tk_pb (tok x) @ s"
    have v: "view b (s @ CHR 0x22 # r) (L here sv cur fld) ls x" using less.prems(1) plain(2) by simp
    have P: "\<forall>c \<in> set s. ?P c" using plain(1) plain_char less.prems(2) by auto
    note sc = scan_view [OF b v P, simplified less.prems(2), simplified]
    have "c_str ?t = ?t" using less.prems(3,4) by (auto simp: c_str_def takeWhile_eq_all_conv)
    then have "dispatch big scan_lf b (- 1) x = Some (Break, set_top (g ?t) (pb_append s ?p))"
      using sc view_at(3) [OF v] w less.prems(2) by (simp add: d scan_string_def Let_def cfg_simps D(2))
    moreover have "view b (CHR 0x22 # r) (R ?t) ls (set_top (g ?t) (pb_append s ?p))"
      using view_set_top [of b "CHR 0x22 # r" "L here sv cur fld" ls "pb_append s ?p" "g ?t"] view_at(1) [OF v] by (simp add: cfg_simps D(3))
    ultimately show ?thesis by (rule break_step [OF b]) (auto intro: leads_refl)
  next
    case (esc u c e s')
    let ?f = "\<lambda>l. l\<lparr>sr_saved_state := here, sr_state := st_string_escape\<rparr>"
    let ?p = "at_pos b (str x + length u) x"
    let ?y = "set_top ?f (pb_append u ?p)"
    let ?r = "e @ json_escape s' @ CHR 0x22 # r"
    have v: "view b (u @ CHR 0x5C # ?r) (L here sv cur fld) ls x" using less.prems(1) esc(4) by simp
    have P: "\<forall>c \<in> set u. ?P c" using esc(1) plain_char less.prems(2) by auto
    note sc = scan_view [OF b v P, simplified less.prems(2), simplified]
    have "dispatch big scan_lf b (- 1) x = Some (Break, ?y)"
      using sc view_at(3) [OF v] w less.prems(2) by (simp add: d scan_string_def Let_def cfg_simps upd_level_top)
    moreover have "view b (CHR 0x5C # ?r) (L st_string_escape here cur fld) ls ?y"
      using view_set_top [of b "CHR 0x5C # ?r" "L here sv cur fld" ls "pb_append u ?p" ?f] view_at(1) [OF v] by (simp add: cfg_simps)
    ultimately show ?thesis
    proof (rule break_step [OF b])
      let ?z = "at_pos b (str ?y + 1) ?y"
      assume vz: "view b ?r (L st_string_escape here cur fld) ls ?z"
      show "leads big scan_lf b ?z (view b r (R (tk_pb (tok x) @ s)) ls)"
      proof (rule escape_step [OF b esc(3) vz])
        fix z assume z: "view b (json_escape s' @ CHR 0x22 # r) (L here here cur fld) ls z" "tk_pb (tok z) = tk_pb (tok ?z) @ [c]"
          "tk_quote_char (tok z) = tk_quote_char (tok ?z)"
        have pb: "tk_pb (tok z) = tk_pb (tok x) @ u @ [c]" using z(2) by (simp add: cfg_simps)
        have "leads big scan_lf b z (view b r (R (tk_pb (tok z) @ s')) ls)"
          by (rule less.hyps [OF _ z(1)]) (use z(3) less.prems esc(2) pb in \<open>auto simp: cfg_simps\<close>)
        then show "leads big scan_lf b z (view b r (R (tk_pb (tok x) @ s)) ls)" using pb esc(2) by simp
      qed
    qed simp
  qed
qed

subsection \<open>Values\<close>

fun emb :: "json \<Rightarrow> 'd jval" where
  "emb (JInt i) = VInt i"
| "emb (JString s) = VString s"
| "emb (JArray vs) = VArray (map (\<lambda>v. Some (emb v)) vs)"
| "emb (JObject kvs) = VObject (map (\<lambda>kv. (fst kv, Some (emb (snd kv)))) kvs)"

text \<open>
  The values that the parser can read with \<open>n\<close> levels left on its stack: the numbers are \<open>int\<close>s, strings and
  keys are C strings, and no key is used twice.
\<close>

fun readable :: "nat \<Rightarrow> json \<Rightarrow> bool" where
  "readable n (JInt i) = (- (2 ^ 31) \<le> i \<and> i < 2 ^ 31)"
| "readable n (JString s) = (NUL \<notin> set s)"
| "readable n (JArray vs) = (\<forall>v \<in> set vs. 0 < n \<and> readable (n - 1) v)"
| "readable n (JObject kvs) = (distinct (map fst kvs) \<and> (\<forall>kv \<in> set kvs. NUL \<notin> set (fst kv) \<and> 0 < n \<and> readable (n - 1) (snd kv)))"

lemma readable_ok: "readable n j \<Longrightarrow> json_ok j"
  by (induction n j rule: readable.induct) auto

lemma sscanf_d_int_dec:
  assumes "- (2 ^ 31) \<le> i" "i < 2 ^ 31"
  shows "sscanf_d big (int_dec i) = Some i"
proof (cases "i < 0")
  case True
  have "\<not> isspace (CHR ''-'')" "nat_dec (nat (- i)) \<noteq> []" using nat_dec_hd [of "nat (- i)"] by (auto simp: isspace_def)
  then show ?thesis using True assms by (simp add: sscanf_d_def int_dec_def Let_def takeWhile_nat_dec digits_val_dec)
next
  case False
  let ?d = "nat_dec (nat i)"
  obtain c cs where n: "?d = c # cs" "isdigit c" using nat_dec_hd by blast
  have "dropWhile isspace ?d = ?d" "(case ?d of c # _ \<Rightarrow> c = CHR ''-'' | [] \<Rightarrow> False) = False" "(?d = []) = False"
    "(case ?d of c # t \<Rightarrow> if c = CHR ''-'' \<or> c = CHR ''+'' then t else ?d | [] \<Rightarrow> ?d) = ?d"
    using n digit_not_special [OF n(2)] by simp_all
  moreover have "int_dec i = ?d" using False by (simp add: int_dec_def)
  ultimately show ?thesis using False assms unfolding sscanf_d_def Let_def by (simp only: takeWhile_nat_dec digits_val_dec) simp
qed

lemma int_dec_chars:
  "c \<in> set (int_dec i) \<Longrightarrow> c \<noteq> NUL \<and> c \<in> set json_number_chars \<and> c \<noteq> CHR ''.'' \<and> c \<noteq> CHR ''e''"
proof -
  have d: "c \<noteq> NUL \<and> c \<in> set json_number_chars \<and> c \<noteq> CHR ''.'' \<and> c \<noteq> CHR ''e''" if "isdigit c"
  proof -
    have "\<exists>n < 10. c = char_of (48 + n :: nat)"
      using that by (intro exI [of _ "of_char c - 48"]) (auto simp: isdigit_def)
    then obtain n where n: "n < 10" "c = char_of (48 + n :: nat)" by blast
    have "list_all (\<lambda>n. let c = char_of (48 + n :: nat) in c \<noteq> NUL \<and> c \<in> set json_number_chars \<and> c \<noteq> CHR ''.'' \<and> c \<noteq> CHR ''e'') [0..<10]"
      by code_simp
    then show ?thesis using n by (simp only: list_all_iff set_upt atLeastLessThan_iff le0 Let_def simp_thms)
  qed
  assume "c \<in> set (int_dec i)"
  then consider "isdigit c" | "c = CHR ''-''" using nat_dec_digits by (auto simp: int_dec_def split: if_splits)
  then show "c \<noteq> NUL \<and> c \<in> set json_number_chars \<and> c \<noteq> CHR ''.'' \<and> c \<noteq> CHR ''e''"
  proof cases
    case 2
    then show ?thesis by (simp add: json_number_chars_def)
  qed (rule d)
qed

abbreviation complete_lvl :: "'d jval \<Rightarrow> 'd srec" where
  "complete_lvl v \<equiv> L st_eatws st_finish (Some v) None"

text \<open>From its first character the machine reads the text of \<open>j\<close>, with \<open>n\<close> levels left.\<close>

definition reads :: "(cstring \<Rightarrow> int) \<Rightarrow> (cstring \<Rightarrow> 'd option) \<Rightarrow> char list \<Rightarrow> nat \<Rightarrow> json \<Rightarrow> bool" where
  "reads big scan_lf b n j \<longleftrightarrow>
     (\<forall>x r ls. view b (json_text j @ r) (L st_start st_start None None) ls x \<and> r \<noteq> [] \<and> hd r \<notin> set json_number_chars \<and> length ls + n \<le> 31 \<longrightarrow>
        leads big scan_lf b x (view b r (complete_lvl (emb j)) ls))"

lemma readsD:
  assumes "reads big scan_lf b n j" "view b (json_text j @ r) (L st_start st_start None None) ls x" "r \<noteq> []" "hd r \<notin> set json_number_chars"
    "length ls + n \<le> 31"
  shows "leads big scan_lf b x (view b r (complete_lvl (emb j)) ls)"
  using assms unfolding reads_def by blast

lemma int_dec_hd: "\<exists>c cs. int_dec i = c # cs \<and> (isdigit c \<or> c = CHR ''-'')"
  using nat_dec_hd [of "nat i"] by (auto simp: int_dec_def)

lemma reads_int:
  fixes scan_lf :: "cstring \<Rightarrow> 'd option"
  assumes b: "c_text b" and i: "- (2 ^ 31) \<le> i" "i < 2 ^ 31"
  shows "reads big scan_lf b n (JInt i)"
  unfolding reads_def
proof (intro allI impI, elim conjE)
  fix x :: "'d cfg" and r ls
  assume v: "view b (json_text (JInt i) @ r) (L st_start st_start None None) ls x" and r: "r \<noteq> []" "hd r \<notin> set json_number_chars"
  let ?t = "int_dec i" and ?n = "\<lambda>l. l\<lparr>sr_state := st_number\<rparr>"
  let ?f = "\<lambda>l. l\<lparr>sr_current := Some (VInt i), sr_state := st_eatws, sr_saved_state := st_finish\<rparr>"
  define y where "y = set_is_double False (pb_reset (set_top ?n x))"
  define z where "z = pb_append ?t (set_is_double False (at_pos b (str y + length ?t) y))"
  let ?P = "\<lambda>c. c \<noteq> NUL \<and> c \<in> set json_number_chars"
  obtain c cs where c: "?t = c # cs" "isdigit c \<or> c = CHR ''-''" using int_dec_hd by blast
  have w: "wf x" "lvl x = L st_start st_start None None" "ch x = c" using viewD [OF v] c by auto
  have "c \<notin> {CHR ''{'', CHR ''['', CHR ''N'', CHR ''n'', CHR 0x22, CHR 0x27, CHR ''T'', CHR ''t'', CHR ''F'', CHR ''f''}"
    using c(2) by (auto simp: isdigit_def)
  then have d1: "dispatch big scan_lf b (- 1) x = Some (Redo, y)"
    using c(2) by (simp add: w dispatch_def do_start_def Let_def handler_simps y_def)
  have vy: "view b (?t @ r) (L st_number st_start None None) ls y"
    using view_set_top [OF v, of ?n] by (simp add: y_def cfg_simps)
  have y: "wf y" "lvl y = L st_number st_start None None" "tk_pb (tok y) = []" "tk_is_double (tok y) = False"
    using viewD [OF vy] by (auto simp: y_def cfg_simps)
  have P: "\<forall>c \<in> set ?t. ?P c" "\<not> ?P (hd r)" using int_dec_chars r(2) by auto
  note sc = scan_view [OF b vy P(1) r(1) P(2)]
  have nd: "CHR ''.'' \<notin> set ?t" "CHR ''e'' \<notin> set ?t" "c_str ?t = ?t"
    using int_dec_chars by (auto simp: c_str_def takeWhile_eq_all_conv)
  have z: "wf z" "tk_pb (tok z) = ?t" "tk_is_double (tok z) = False" using y by (simp_all add: z_def cfg_simps)
  have d2: "dispatch big scan_lf b (- 1) y = Some (Redo, set_top ?f z)"
    using sc nd z by (simp add: y dispatch_def level_top do_number_def Let_def sscanf_d_int_dec [OF i] complete_def set_current_def eatws_then_def
        upd_level_top set_top_simps set_top_twice comp_def flip: z_def)
  have "view b r (L st_number st_start None None) ls z" using view_at(1) [OF vy r(1)] by (simp add: z_def cfg_simps)
  from view_set_top [OF this, of ?f] have "view b r (complete_lvl (emb (JInt i))) ls (set_top ?f z)" by simp
  then show "leads big scan_lf b x (view b r (complete_lvl (emb (JInt i))) ls)"
    by (intro leads_redo [OF d1] leads_redo [OF d2] leads_refl)
qed

lemma reads_string:
  fixes scan_lf :: "cstring \<Rightarrow> 'd option"
  assumes b: "c_text b" and s: "NUL \<notin> set s"
  shows "reads big scan_lf b n (JString s)"
  unfolding reads_def
proof (intro allI impI, elim conjE)
  fix x :: "'d cfg" and r ls
  assume "view b (json_text (JString s) @ r) (L st_start st_start None None) ls x"
  then have v: "view b (CHR 0x22 # json_escape s @ CHR 0x22 # r) (L st_start st_start None None) ls x" by simp
  let ?f = "\<lambda>l. l\<lparr>sr_state := st_string\<rparr>"
  define y where "y = set_quote (CHR 0x22) (pb_reset (set_top ?f x))"
  have w: "wf x" "lvl x = L st_start st_start None None" "ch x = CHR 0x22" using viewD [OF v] by auto
  have d: "dispatch big scan_lf b (- 1) x = Some (Break, y)" by (simp add: w dispatch_def do_start_def Let_def handler_simps y_def)
  have vy: "view b (CHR 0x22 # json_escape s @ CHR 0x22 # r) (L st_string st_start None None) ls y"
    using view_set_top [OF v, of ?f] by (simp add: y_def cfg_simps)
  have y: "tk_pb (tok y) = []" "tk_quote_char (tok y) = CHR 0x22" by (simp_all add: y_def cfg_simps)
  show "leads big scan_lf b x (view b r (complete_lvl (emb (JString s))) ls)"
  proof (rule break_step [OF b d vy])
    assume "view b (json_escape s @ CHR 0x22 # r) (L st_string st_start None None) ls (at_pos b (str y + 1) y)"
    from string_read [OF b scans_states(1) this _ s]
    show "leads big scan_lf b (at_pos b (str y + 1) y) (view b r (complete_lvl (emb (JString s))) ls)" by (simp add: cfg_simps y)
  qed simp
qed

text \<open>The characters that may start the text of a value, and the text that may follow it: white space and a delimiter.\<close>

lemma text_hd: "\<exists>c t. json_text j = c # t \<and> \<not> isspace c \<and> c \<noteq> CHR ''/'' \<and> c \<noteq> CHR '']''"
proof (cases j)
  case (JInt i)
  then show ?thesis using int_dec_hd [of i] by (auto simp: isdigit_def isspace_def)
qed (auto simp: isspace_def)

definition delim :: "char list \<Rightarrow> char list \<Rightarrow> bool" where
  "delim w r \<longleftrightarrow> w \<in> {[], '' ''} \<and> r \<noteq> [] \<and> hd r \<in> set '',]}''"

lemma delimD:
  assumes "delim w r"
  shows "\<forall>c \<in> set w. isspace c" "r \<noteq> []" "\<not> isspace (hd r)" "hd r \<noteq> CHR ''/''" "w @ r \<noteq> []" "hd (w @ r) \<notin> set json_number_chars"
  using assms by (auto simp: delim_def isspace_def json_number_chars_def)

text \<open>A value in a level of its own; then the machine is back in the level below with the value at hand.\<close>

lemma child:
  fixes scan_lf :: "cstring \<Rightarrow> 'd option"
  assumes b: "c_text b" and j: "reads big scan_lf b n j" and v: "view b (json_text j @ w @ r) l ls x"
    and d: "dispatch big scan_lf b (- 1) x = push_level s x" and n: "length ls + Suc n \<le> 31" and r: "delim w r"
  shows "leads big scan_lf b x (\<lambda>y. view b r (l\<lparr>sr_state := s\<rparr>) ls y \<and> obj y = Some (emb j))"
proof -
  let ?ls = "ls @ [l\<lparr>sr_state := s\<rparr>]" and ?L = "L :: tok_state \<Rightarrow> _ \<Rightarrow> _ \<Rightarrow> _ \<Rightarrow> 'd srec"
  note V = viewD [OF v]
  have dp: "tk_depth (tok x) < 31" using V(7) n by simp
  have nl: "view b (json_text j @ w @ r) (?L st_eatws st_start None None) ?ls (new_level s x)"
    using v new_level_simps [OF V(1) dp] by (simp add: view_def reset_srec_def) (simp add: new_level_def)
  show ?thesis
  proof (rule leads_redo [OF d [unfolded push_level_new [OF V(1) dp]]])
    have "leads big scan_lf b (new_level s x) (view b (json_text j @ w @ r) (?L st_start st_start None None) ?ls)"
      by (rule eat [where s = "[]", OF b]) (use nl text_hd [of j] in auto)
    then have "leads big scan_lf b (new_level s x) (view b (w @ r) (complete_lvl (emb j)) ?ls)"
      by (rule leads_trans) (rule readsD [OF j], use delimD [OF r] n in auto)
    then have "leads big scan_lf b (new_level s x) (view b r (?L st_finish st_finish (Some (emb j)) None) ?ls)"
      by (rule leads_trans) (rule eat [OF b _ delimD(1-4) [OF r]])
    then show "leads big scan_lf b (new_level s x) (\<lambda>y. view b r (l\<lparr>sr_state := s\<rparr>) ls y \<and> obj y = Some (emb j))"
    proof (rule leads_trans)
      fix y assume y: "view b r (?L st_finish st_finish (Some (emb j)) None) ?ls y"
      note Y = viewD [OF y]
      note P = pop_level_simps [OF Y(1,4)]
      have "dispatch big scan_lf b (- 1) y = Some (Redo, pop_level y)"
        using do_finish_pop [OF Y(1)] Y(5,7) by (simp add: dispatch_def)
      then show "leads big scan_lf b y (\<lambda>y. view b r (l\<lparr>sr_state := s\<rparr>) ls y \<and> obj y = Some (emb j))"
      proof (rule leads_redo, intro leads_refl conjI)
        show "view b r (l\<lparr>sr_state := s\<rparr>) ls (pop_level y)" using y P by (simp add: view_def) (simp add: pop_level_def)
        show "obj (pop_level y) = Some (emb j)" using P(6) Y(3) by simp
      qed
    qed
  qed
qed

text \<open>An element of an array, up to its delimiter.\<close>

lemma element:
  fixes scan_lf :: "cstring \<Rightarrow> 'd option"
  assumes b: "c_text b" and j: "reads big scan_lf b n j" and n: "length ls + Suc n \<le> 31" and r: "delim w r"
    and v: "view b ('' '' @ json_text j @ w @ r) (L st_eatws st_array (Some (VArray us)) None) ls x"
  shows "leads big scan_lf b x (view b r (L st_array_sep st_array_sep (Some (VArray (us @ [Some (emb j)]))) None) ls)"
proof -
  let ?L = "L :: tok_state \<Rightarrow> _ \<Rightarrow> _ \<Rightarrow> _ \<Rightarrow> 'd srec"
  obtain c t where c: "json_text j = c # t" "\<not> isspace c" "c \<noteq> CHR ''/''" "c \<noteq> CHR '']''" using text_hd by blast
  have "leads big scan_lf b x (view b (json_text j @ w @ r) (?L st_array st_array (Some (VArray us)) None) ls)"
    by (rule eat [OF b v]) (use c in \<open>auto simp: isspace_def\<close>)
  then have "leads big scan_lf b x (\<lambda>y. view b r (?L st_array_add st_array (Some (VArray us)) None) ls y \<and> obj y = Some (emb j))"
  proof (rule leads_trans)
    fix y assume y: "view b (json_text j @ w @ r) (?L st_array st_array (Some (VArray us)) None) ls y"
    have "dispatch big scan_lf b (- 1) y = push_level st_array_add y"
      using viewD(5,6) [OF y] c by (simp add: dispatch_def do_array_def)
    from child [OF b j y this n r]
    show "leads big scan_lf b y (\<lambda>y. view b r (?L st_array_add st_array (Some (VArray us)) None) ls y \<and> obj y = Some (emb j))" by simp
  qed
  then have "leads big scan_lf b x (view b r (?L st_eatws st_array_sep (Some (VArray (us @ [Some (emb j)]))) None) ls)"
  proof (rule leads_trans)
    fix y assume y: "view b r (?L st_array_add st_array (Some (VArray us)) None) ls y \<and> obj y = Some (emb j)"
    let ?f = "\<lambda>l. l\<lparr>sr_current := Some (VArray (us @ [Some (emb j)])), sr_state := st_eatws, sr_saved_state := st_array_sep\<rparr>"
    note Y = viewD [OF conjunct1 [OF y]]
    have "dispatch big scan_lf b (- 1) y = Some (Redo, set_top ?f y)"
      using Y y by (simp add: dispatch_def do_array_add_def handler_simps set_top_twice comp_def)
    then show "leads big scan_lf b y (view b r (?L st_eatws st_array_sep (Some (VArray (us @ [Some (emb j)]))) None) ls)"
      by (rule leads_redo) (use view_set_top [OF conjunct1 [OF y], of ?f] in \<open>auto intro: leads_refl\<close>)
  qed
  then show ?thesis
    by (rule leads_trans) (rule eat [where s = "[]", OF b], use delimD [OF r] in auto)
qed

text \<open>The rest of an array after an element; the white space before the bracket is eaten with the element.\<close>

lemma array_rest:
  fixes scan_lf :: "cstring \<Rightarrow> 'd option"
  assumes b: "c_text b" and n: "length ls + Suc n \<le> 31" and j: "\<forall>v \<in> set vs. reads big scan_lf b n v"
    and v: "view b ((if vs = [] then '']'' else array_text True vs @ '' ]'') @ r) (L st_array_sep sv (Some (VArray us)) None) ls x"
  shows "leads big scan_lf b x (view b r (complete_lvl (VArray (us @ map (\<lambda>v. Some (emb v)) vs))) ls)"
  using j v
proof (induction vs arbitrary: us sv x)
  case Nil
  then have "view b (CHR '']'' # r) (L st_array_sep sv (Some (VArray us)) None) ls x" by simp
  from punct_step [OF b this] show ?case by simp
next
  case (Cons v vs)
  let ?w = "if vs = [] then '' '' else []" and ?r = "(if vs = [] then '']'' else array_text True vs @ '' ]'') @ r"
  have t: "(if v # vs = [] then '']'' else array_text True (v # vs) @ '' ]'') @ r = CHR '','' # '' '' @ json_text v @ ?w @ ?r" by simp
  have d: "delim ?w ?r" by (cases vs) (auto simp: delim_def)
  have "leads big scan_lf b x (view b ('' '' @ json_text v @ ?w @ ?r) (L st_eatws st_array (Some (VArray us)) None) ls)"
    using punct_step [OF b Cons.prems(2) [unfolded t]] by simp
  then have "leads big scan_lf b x (view b ?r (L st_array_sep st_array_sep (Some (VArray (us @ [Some (emb v)]))) None) ls)"
    by (rule leads_trans) (rule element [OF b _ n d], use Cons.prems(1) in auto)
  then show ?case
  proof (rule leads_trans)
    fix y assume "view b ?r (L st_array_sep st_array_sep (Some (VArray (us @ [Some (emb v)]))) None) ls y"
    from Cons.IH [OF _ this] Cons.prems(1)
    show "leads big scan_lf b y (view b r (complete_lvl (VArray (us @ map (\<lambda>v. Some (emb v)) (v # vs)))) ls)" by simp
  qed
qed

lemma reads_array:
  fixes scan_lf :: "cstring \<Rightarrow> 'd option"
  assumes b: "c_text b" and j: "\<forall>v \<in> set vs. 0 < n \<and> reads big scan_lf b (n - 1) v"
  shows "reads big scan_lf b n (JArray vs)"
  unfolding reads_def
proof (intro allI impI, elim conjE)
  fix x :: "'d cfg" and r ls
  assume v: "view b (json_text (JArray vs) @ r) (L st_start st_start None None) ls x" and n: "length ls + n \<le> 31"
  have "view b (CHR ''['' # array_text False vs @ '' ]'' @ r) (L st_start st_start None None) ls x" using v by simp
  from punct_step [OF b this]
  have v1: "leads big scan_lf b x (view b (array_text False vs @ '' ]'' @ r) (L st_eatws st_array (Some (VArray [])) None) ls)" by simp
  show "leads big scan_lf b x (view b r (complete_lvl (emb (JArray vs))) ls)"
  proof (cases vs)
    case Nil
    have "leads big scan_lf b x (view b (CHR '']'' # r) (L st_array st_array (Some (VArray [])) None) ls)"
      by (rule leads_trans [OF v1], rule eat [where s = "'' ''", OF b]) (auto simp: Nil isspace_def)
    then show ?thesis by (rule leads_trans) (use punct_step [OF b] Nil in force)
  next
    case (Cons u us)
    let ?w = "if us = [] then '' '' else []" and ?r = "(if us = [] then '']'' else array_text True us @ '' ]'') @ r"
    have n': "length ls + Suc (n - 1) \<le> 31" using n j Cons by auto
    have t: "array_text False vs @ '' ]'' @ r = '' '' @ json_text u @ ?w @ ?r" using Cons by simp
    have d: "delim ?w ?r" by (cases us) (auto simp: delim_def)
    have "leads big scan_lf b x (view b ?r (L st_array_sep st_array_sep (Some (VArray ([] @ [Some (emb u)]))) None) ls)"
      by (rule leads_trans [OF v1 [unfolded t]], rule element [OF b _ n' d]) (use j Cons in auto)
    then show ?thesis
    proof (rule leads_trans)
      fix y assume "view b ?r (L st_array_sep st_array_sep (Some (VArray ([] @ [Some (emb u)]))) None) ls y"
      from array_rest [OF b n' _ this, of big scan_lf] show "leads big scan_lf b y (view b r (complete_lvl (emb (JArray vs))) ls)"
        using j Cons by simp
    qed
  qed
qed

text \<open>The name of a member, in its quotes.\<close>

lemma field_name:
  fixes scan_lf :: "cstring \<Rightarrow> 'd option"
  assumes b: "c_text b" and k: "NUL \<notin> set k"
    and v: "view b (CHR 0x22 # json_escape k @ CHR 0x22 # r) (L st_object_field_start st_object_field_start cur None) ls y"
  shows "leads big scan_lf b y (view b r (L st_eatws st_object_field_end cur (Some k)) ls)"
proof -
  let ?f = "\<lambda>l. l\<lparr>sr_state := st_object_field\<rparr>"
  define z where "z = set_top ?f (pb_reset (set_quote (CHR 0x22) y))"
  have w: "wf y" "lvl y = L st_object_field_start st_object_field_start cur None" "ch y = CHR 0x22" using viewD [OF v] by auto
  have d: "dispatch big scan_lf b (- 1) y = Some (Break, z)"
    by (simp add: w dispatch_def do_object_field_start_def handler_simps z_def)
  have vz: "view b (CHR 0x22 # json_escape k @ CHR 0x22 # r) (L st_object_field st_object_field_start cur None) ls z"
    using view_set_top [of b _ "L st_object_field_start st_object_field_start cur None" ls "pb_reset (set_quote (CHR 0x22) y)" ?f] v
    by (simp add: z_def cfg_simps)
  have z: "tk_pb (tok z) = []" "tk_quote_char (tok z) = CHR 0x22" by (simp_all add: z_def cfg_simps)
  show ?thesis
  proof (rule break_step [OF b d vz])
    assume "view b (json_escape k @ CHR 0x22 # r) (L st_object_field st_object_field_start cur None) ls (at_pos b (str z + 1) z)"
    from string_read [OF b scans_states(2) this _ k]
    show "leads big scan_lf b (at_pos b (str z + 1) z) (view b r (L st_eatws st_object_field_end cur (Some k)) ls)"
      by (simp add: cfg_simps z)
  qed simp
qed

text \<open>A name and its colon, up to the value.\<close>

lemma member_name:
  fixes scan_lf :: "cstring \<Rightarrow> 'd option"
  assumes b: "c_text b" and k: "NUL \<notin> set k" and r: "r \<noteq> []" "\<not> isspace (hd r)" "hd r \<noteq> CHR ''/''"
    and v: "view b ('' '' @ CHR 0x22 # json_escape k @ CHR 0x22 # '': '' @ r) (L st_eatws st_object_field_start cur None) ls x"
  shows "leads big scan_lf b x (view b r (L st_object_value st_object_value cur (Some k)) ls)"
proof -
  let ?L = "L :: tok_state \<Rightarrow> _ \<Rightarrow> _ \<Rightarrow> _ \<Rightarrow> 'd srec"
  have "leads big scan_lf b x (view b (CHR 0x22 # json_escape k @ CHR 0x22 # '': '' @ r) (?L st_object_field_start st_object_field_start cur None) ls)"
    by (rule eat [OF b v]) (auto simp: isspace_def)
  then have "leads big scan_lf b x (view b ('': '' @ r) (?L st_eatws st_object_field_end cur (Some k)) ls)"
    by (rule leads_trans) (rule field_name [OF b k])
  then have "leads big scan_lf b x (view b (CHR '':'' # '' '' @ r) (?L st_object_field_end st_object_field_end cur (Some k)) ls)"
    by (rule leads_trans) (rule eat [where s = "[]", OF b], auto simp: isspace_def)
  then have "leads big scan_lf b x (view b ('' '' @ r) (?L st_eatws st_object_value cur (Some k)) ls)"
  proof (rule leads_trans)
    fix y assume "view b (CHR '':'' # '' '' @ r) (?L st_object_field_end st_object_field_end cur (Some k)) ls y"
    from punct_step [OF b this] show "leads big scan_lf b y (view b ('' '' @ r) (?L st_eatws st_object_value cur (Some k)) ls)" by simp
  qed
  then show ?thesis
    by (rule leads_trans) (erule eat [OF b], use r in \<open>auto simp: isspace_def\<close>)
qed

text \<open>A member of an object.\<close>

lemma member:
  fixes scan_lf :: "cstring \<Rightarrow> 'd option"
  assumes b: "c_text b" and j: "reads big scan_lf b n j" and n: "length ls + Suc n \<le> 31" and r: "delim w r" and k: "NUL \<notin> set k"
    and v: "view b ('' '' @ CHR 0x22 # json_escape k @ CHR 0x22 # '': '' @ json_text j @ w @ r)
      (L st_eatws st_object_field_start (Some (VObject ms)) None) ls x"
  shows "leads big scan_lf b x
    (view b r (L st_object_sep st_object_sep (Some (VObject (filter (\<lambda>(k', _). k' \<noteq> k) ms @ [(k, Some (emb j))]))) None) ls)"
proof -
  let ?L = "L :: tok_state \<Rightarrow> _ \<Rightarrow> _ \<Rightarrow> _ \<Rightarrow> 'd srec" and ?o = "Some (VObject ms)"
  let ?o' = "Some (VObject (filter (\<lambda>(k', _). k' \<noteq> k) ms @ [(k, Some (emb j))]))"
  have "leads big scan_lf b x (view b (json_text j @ w @ r) (?L st_object_value st_object_value ?o (Some k)) ls)"
    by (rule member_name [OF b k _ _ _ v]) (use text_hd [of j] in auto)
  then have "leads big scan_lf b x (\<lambda>y. view b r (?L st_object_value_add st_object_value ?o (Some k)) ls y \<and> obj y = Some (emb j))"
  proof (rule leads_trans)
    fix y assume y: "view b (json_text j @ w @ r) (?L st_object_value st_object_value ?o (Some k)) ls y"
    have "dispatch big scan_lf b (- 1) y = push_level st_object_value_add y" using viewD(5) [OF y] by (simp add: dispatch_def)
    from child [OF b j y this n r]
    show "leads big scan_lf b y (\<lambda>y. view b r (?L st_object_value_add st_object_value ?o (Some k)) ls y \<and> obj y = Some (emb j))" by simp
  qed
  then have "leads big scan_lf b x (view b r (?L st_eatws st_object_sep ?o' None) ls)"
  proof (rule leads_trans)
    fix y assume y: "view b r (?L st_object_value_add st_object_value ?o (Some k)) ls y \<and> obj y = Some (emb j)"
    let ?f = "\<lambda>l. l\<lparr>sr_current := ?o', sr_obj_field_name := None, sr_state := st_eatws, sr_saved_state := st_object_sep\<rparr>"
    note Y = viewD [OF conjunct1 [OF y]]
    have "dispatch big scan_lf b (- 1) y = Some (Redo, set_top ?f y)"
      using Y y by (simp add: dispatch_def do_object_value_add_def handler_simps set_top_twice comp_def)
    then show "leads big scan_lf b y (view b r (?L st_eatws st_object_sep ?o' None) ls)"
      by (rule leads_redo) (use view_set_top [OF conjunct1 [OF y], of ?f] in \<open>auto intro: leads_refl\<close>)
  qed
  then show ?thesis
    by (rule leads_trans) (rule eat [where s = "[]", OF b], use delimD [OF r] in auto)
qed

text \<open>The rest of an object, and the object; \<open>ms\<close> has the members before.\<close>

abbreviation "members kvs \<equiv> map (\<lambda>kv. (fst kv, Some (emb (snd kv)))) kvs"

lemma object_rest:
  fixes scan_lf :: "cstring \<Rightarrow> 'd option"
  assumes b: "c_text b" and n: "length ls + Suc n \<le> 31" and j: "\<forall>kv \<in> set kvs. NUL \<notin> set (fst kv) \<and> reads big scan_lf b n (snd kv)"
    and d: "distinct (map fst ms @ map fst kvs)"
    and v: "view b ((if kvs = [] then ''}'' else object_text True kvs @ '' }'') @ r) (L st_object_sep sv (Some (VObject ms)) None) ls x"
  shows "leads big scan_lf b x (view b r (complete_lvl (VObject (ms @ members kvs))) ls)"
  using j d v
proof (induction kvs arbitrary: ms sv x)
  case Nil
  then have "view b (CHR ''}'' # r) (L st_object_sep sv (Some (VObject ms)) None) ls x" by simp
  from punct_step [OF b this] show ?case by simp
next
  case (Cons kv kvs)
  obtain k v where kv: "kv = (k, v)" by (cases kv)
  let ?w = "if kvs = [] then '' '' else []" and ?r = "(if kvs = [] then ''}'' else object_text True kvs @ '' }'') @ r"
  have t: "(if kv # kvs = [] then ''}'' else object_text True (kv # kvs) @ '' }'') @ r =
      CHR '','' # '' '' @ CHR 0x22 # json_escape k @ CHR 0x22 # '': '' @ json_text v @ ?w @ ?r" by (simp add: kv)
  have dl: "delim ?w ?r" by (cases kvs) (auto simp: delim_def)
  have f: "filter (\<lambda>(k', _). k' \<noteq> k) ms = ms" using Cons.prems(2) kv by (force simp: filter_id_conv)
  have "leads big scan_lf b x (view b ('' '' @ CHR 0x22 # json_escape k @ CHR 0x22 # '': '' @ json_text v @ ?w @ ?r)
      (L st_eatws st_object_field_start (Some (VObject ms)) None) ls)"
    using punct_step [OF b Cons.prems(3) [unfolded t]] by simp
  then have "leads big scan_lf b x (view b ?r (L st_object_sep st_object_sep (Some (VObject (filter (\<lambda>(k', _). k' \<noteq> k) ms @ [(k, Some (emb v))]))) None) ls)"
    by (rule leads_trans) (rule member [OF b _ n dl], use Cons.prems(1) kv in auto)
  then show ?case
  proof (rule leads_trans)
    fix y assume "view b ?r (L st_object_sep st_object_sep (Some (VObject (filter (\<lambda>(k', _). k' \<noteq> k) ms @ [(k, Some (emb v))]))) None) ls y"
    from Cons.IH [OF _ _ this] Cons.prems(1,2)
    show "leads big scan_lf b y (view b r (complete_lvl (VObject (ms @ members (kv # kvs)))) ls)" by (simp add: f kv)
  qed
qed

lemma reads_object:
  fixes scan_lf :: "cstring \<Rightarrow> 'd option"
  assumes b: "c_text b" and d: "distinct (map fst kvs)"
    and j: "\<forall>kv \<in> set kvs. NUL \<notin> set (fst kv) \<and> 0 < n \<and> reads big scan_lf b (n - 1) (snd kv)"
  shows "reads big scan_lf b n (JObject kvs)"
  unfolding reads_def
proof (intro allI impI, elim conjE)
  fix x :: "'d cfg" and r ls
  assume v: "view b (json_text (JObject kvs) @ r) (L st_start st_start None None) ls x" and n: "length ls + n \<le> 31"
  have "view b (CHR ''{'' # object_text False kvs @ '' }'' @ r) (L st_start st_start None None) ls x" using v by simp
  from punct_step [OF b this]
  have v1: "leads big scan_lf b x (view b (object_text False kvs @ '' }'' @ r) (L st_eatws st_object_field_start (Some (VObject [])) None) ls)" by simp
  show "leads big scan_lf b x (view b r (complete_lvl (emb (JObject kvs))) ls)"
  proof (cases kvs)
    case Nil
    have "leads big scan_lf b x (view b (CHR ''}'' # r) (L st_object_field_start st_object_field_start (Some (VObject [])) None) ls)"
      by (rule leads_trans [OF v1], rule eat [where s = "'' ''", OF b]) (auto simp: Nil isspace_def)
    then show ?thesis by (rule leads_trans) (use punct_step [OF b] Nil in force)
  next
    case (Cons kv us)
    obtain k u where kv: "kv = (k, u)" by (cases kv)
    let ?w = "if us = [] then '' '' else []" and ?r = "(if us = [] then ''}'' else object_text True us @ '' }'') @ r"
    have n': "length ls + Suc (n - 1) \<le> 31" using n j Cons by auto
    have t: "object_text False kvs @ '' }'' @ r = '' '' @ CHR 0x22 # json_escape k @ CHR 0x22 # '': '' @ json_text u @ ?w @ ?r"
      using Cons kv by simp
    have dl: "delim ?w ?r" by (cases us) (auto simp: delim_def)
    have "leads big scan_lf b x (view b ?r (L st_object_sep st_object_sep
        (Some (VObject (filter (\<lambda>(k', _). k' \<noteq> k) [] @ [(k, Some (emb u))]))) None) ls)"
      by (rule leads_trans [OF v1 [unfolded t]], rule member [OF b _ n' dl]) (use j Cons kv in auto)
    then show ?thesis
    proof (rule leads_trans)
      fix y assume "view b ?r (L st_object_sep st_object_sep (Some (VObject (filter (\<lambda>(k', _). k' \<noteq> k) [] @ [(k, Some (emb u))]))) None) ls y"
      from object_rest [OF b n' _ _ this, of big scan_lf] show "leads big scan_lf b y (view b r (complete_lvl (emb (JObject kvs))) ls)"
        using j d Cons kv by simp
    qed
  qed
qed

subsection \<open>The round trip\<close>

lemma reads_readable:
  assumes b: "c_text b"
  shows "readable n j \<Longrightarrow> reads big scan_lf b n j"
proof (induction n j rule: readable.induct)
  case (1 n i)
  then show ?case by (intro reads_int [OF b]) auto
next
  case (2 n s)
  then show ?case by (intro reads_string [OF b]) auto
next
  case (3 n vs)
  then show ?case by (intro reads_array [OF b]) auto
next
  case (4 n kvs)
  then show ?case by (intro reads_object [OF b]) auto
qed

lemma start_view:
  assumes "c_text b"
  shows "view b b (L st_eatws st_start None None) [] (start_cfg b :: 'd cfg)"
proof -
  have "cfg_ok b (start_cfg b :: 'd cfg)" by (rule start_cfg_ok(1) [OF assms])
  then have "pos_ok b (start_cfg b :: 'd cfg)" by (simp add: cfg_ok_def)
  moreover have "str (start_cfg b :: 'd cfg) = 0" "tk_err (tok (start_cfg b :: 'd cfg)) = tok_success"
    by (simp_all add: start_cfg_def start_tok)
  ultimately show "view b b (L st_eatws st_start None None) [] (start_cfg b :: 'd cfg)"
    by (simp add: view_def start_cfg_ok(2-4)) (simp add: reset_srec_def)
qed

lemma parse_text:
  fixes scan_lf :: "cstring \<Rightarrow> 'd option"
  assumes "readable 31 j" "length (json_text j) < 2 ^ 31 - 1"
  shows "json_tokener_parse big scan_lf (json_text j @ [NUL]) = Some (Inr (Some (emb j)))"
proof -
  let ?b = "json_text j @ [NUL]" and ?x = "start_cfg (json_text j @ [NUL]) :: 'd cfg"
  let ?L = "L :: tok_state \<Rightarrow> _ \<Rightarrow> _ \<Rightarrow> _ \<Rightarrow> 'd srec"
  have b: "c_text ?b" by (rule c_text_append [OF text_nonnul(1) [OF readable_ok [OF assms(1)]] assms(2)])
  have "leads big scan_lf ?b ?x (view ?b ?b (?L st_start st_start None None) [])"
    by (rule eat [where s = "[]", OF b]) (use start_view [OF b] text_hd [of j] in auto)
  then have "leads big scan_lf ?b ?x (view ?b [NUL] (complete_lvl (emb j)) [])"
    by (rule leads_trans) (rule readsD [OF reads_readable [OF b assms(1)]], auto simp: json_number_chars_def)
  then have "leads big scan_lf ?b ?x (view ?b [NUL] (?L st_finish st_finish (Some (emb j)) None) [])"
    by (rule leads_trans) (rule eat [where s = "[]", OF b], auto simp: isspace_def)
  then obtain y where y: "parse_loop big scan_lf ?b (- 1) ?x = parse_loop big scan_lf ?b (- 1) y"
      "view ?b [NUL] (?L st_finish st_finish (Some (emb j)) None) [] y" unfolding leads_def by blast
  note Y = viewD [OF y(2)]
  have "parse_loop big scan_lf ?b (- 1) y = Some y"
    using Y by (subst parse_loop.simps) (simp add: dispatch_def do_finish_def)
  then have "parse_loop big scan_lf ?b (- 1) ?x = Some y" using y(1) by simp
  moreover have "tk_err (tok y) = tok_success" using y(2) by (simp add: view_def)
  ultimately show ?thesis using parse_end [OF b _ Y(1) refl, of big scan_lf] Y(3) by simp
qed

text \<open>
  C17. The parser reads back what the printer prints: for a value that it can hold (numbers in the range of
  \<open>int\<close>, no key twice in an object, at most 31 values inside each other) the text that
  \<open>json_object_to_json_string\<close> returns is parsed without an error to the same value, whatever has to be
  escaped in strings and keys. The text must be shorter than \<open>2^30 - 16\<close> characters.
\<close>

theorem json_print_parse:
  assumes "readable 31 j" "length (json_text j) + 16 < 2 ^ 30"
  shows "do {
      t \<leftarrow> json_object_to_json_string [] j;
      s \<leftarrow> t;
      json_tokener_parse big scan_lf (s @ [NUL])
    } = Some (Inr (Some (emb j)))"
  using json_print_ok [OF readable_ok [OF assms(1)] assms(2)] parse_text [OF assms(1)] assms(2) by simp

theorem json_print_parse_witness:
  "do {
      t \<leftarrow> json_object_to_json_string [] (JObject [(''rev'', JInt (- 7)), (''a'' @ [LF], JArray [JString [CHR 0x22, CHR 0x01]])]);
      s \<leftarrow> t;
      json_tokener_parse (\<lambda>_. 0) (\<lambda>_. None) (s @ [NUL])
    } = Some (Inr (Some (VObject [(''rev'', Some (VInt (- 7))), (''a'' @ [LF], Some (VArray [Some (VString [CHR 0x22, CHR 0x01])]))] :: unit jval)))"
proof -
  let ?j = "JObject [(''rev'', JInt (- 7)), (''a'' @ [LF], JArray [JString [CHR 0x22, CHR 0x01]])]"
  have "length (json_text ?j) < 100" by code_simp
  moreover have "(100 :: nat) + 16 < 2 ^ 30" by simp
  ultimately have l: "length (json_text ?j) + 16 < 2 ^ 30" by linarith
  have "readable 31 ?j" by simp
  from json_print_parse [OF this l, of "\<lambda>_. 0" "\<lambda>_. None :: unit option"] show ?thesis unfolding emb.simps list.map fst_conv snd_conv .
qed

text \<open>
  What a client of the text form relies on: the reader inverts the writer up to an embedding. Then no two
  values are written alike.
\<close>

locale text_format =
  fixes ok :: "'a \<Rightarrow> bool" and wr_text :: "'a \<Rightarrow> 't option option" and rd_text :: "'t \<Rightarrow> 'v option" and embed :: "'a \<Rightarrow> 'v"
  assumes rd_wr: "ok j \<Longrightarrow> \<exists>t. wr_text j = Some (Some t) \<and> rd_text t = Some (embed j)"
    and embed_inj: "embed i = embed j \<Longrightarrow> i = j"
begin

lemma wr_inj: "ok i \<Longrightarrow> ok j \<Longrightarrow> wr_text i = wr_text j \<Longrightarrow> i = j"
  using rd_wr [of i] rd_wr [of j] embed_inj by force

end

lemma emb_inj: "(emb i :: 'd jval) = emb j \<Longrightarrow> i = j"
proof (induction i arbitrary: j)
  case (JInt x)
  then show ?case by (cases j) auto
next
  case (JString s)
  then show ?case by (cases j) auto
next
  case (JArray vs)
  then obtain us where us: "j = JArray us" by (cases j) auto
  have "vs = us" if "map (\<lambda>v. Some (emb v :: 'd jval)) vs = map (\<lambda>v. Some (emb v)) us"
    using that JArray.IH by (induction vs arbitrary: us) (auto simp: Cons_eq_map_conv)
  then show ?case using JArray.prems us by simp
next
  case (JObject kvs)
  then obtain us where us: "j = JObject us" by (cases j) auto
  have "kvs = us" if "members kvs = (members us :: (cstring \<times> 'd jval option) list)"
    using that JObject.IH by (induction kvs arbitrary: us) (force simp: Cons_eq_map_conv)+
  then show ?case using JObject.prems us by simp
qed

interpretation jt: text_format "\<lambda>j. readable 31 j \<and> length (json_text j) + 16 < 2 ^ 30" "json_object_to_json_string []"
  "\<lambda>t. json_tokener_parse (\<lambda>_. 0) (\<lambda>_. None :: unit option) (t @ [NUL])" "\<lambda>j. Inr (Some (emb j))"
proof
  fix j assume "readable 31 j \<and> length (json_text j) + 16 < 2 ^ 30"
  then show "\<exists>t. json_object_to_json_string [] j = Some (Some t) \<and>
      json_tokener_parse (\<lambda>_. 0) (\<lambda>_. None :: unit option) (t @ [NUL]) = Some (Inr (Some (emb j)))"
    using json_print_ok [OF readable_ok] parse_text [of j "\<lambda>_. 0" "\<lambda>_. None :: unit option"] by auto
next
  fix i j :: json assume "Inr (Some (emb i)) = (Inr (Some (emb j)) :: tok_err + unit jval option)"
  then show "i = j" using emb_inj by auto
qed

text \<open>Two values that the parser can hold are never printed alike.\<close>

lemma json_print_inj:
  assumes "readable 31 i" "readable 31 j" "length (json_text i) + 16 < 2 ^ 30" "length (json_text j) + 16 < 2 ^ 30"
    "json_object_to_json_string [] i = json_object_to_json_string [] j"
  shows "i = j"
  by (rule jt.wr_inj) (use assms in auto)

subsection \<open>The limit of the nesting\<close>

abbreviation open_array :: "'d srec" where
  "open_array \<equiv> L st_eatws st_array (Some (VArray [])) None"

lemma nest:
  fixes scan_lf :: "cstring \<Rightarrow> 'd option"
  assumes b: "c_text b"
  shows "view b (replicate (Suc m) (CHR ''['') @ r) (L st_start st_start None None) ls x \<Longrightarrow> length ls + m \<le> 31 \<Longrightarrow>
    leads big scan_lf b x (\<lambda>y. \<exists>ls'. length ls' = length ls + m \<and> view b r open_array ls' y)"
proof (induction m arbitrary: ls x)
  case 0
  then have "view b (CHR ''['' # r) (L st_start st_start None None) ls x" by simp
  from punct_step [OF b this] have "leads big scan_lf b x (view b r open_array ls)" by simp
  then show ?case by (rule leads_mono) auto
next
  case (Suc m)
  let ?r = "replicate (Suc m) (CHR ''['') @ r" and ?L = "L :: tok_state \<Rightarrow> _ \<Rightarrow> _ \<Rightarrow> _ \<Rightarrow> 'd srec"
  have "view b (CHR ''['' # ?r) (?L st_start st_start None None) ls x" using Suc.prems(1) by simp
  from punct_step [OF b this] have "leads big scan_lf b x (view b ?r open_array ls)" by simp
  then have "leads big scan_lf b x (view b ?r (?L st_array st_array (Some (VArray [])) None) ls)"
    by (rule leads_trans) (rule eat [where s = "[]", OF b], auto simp: isspace_def)
  then have "leads big scan_lf b x (view b ?r (?L st_eatws st_start None None) (ls @ [?L st_array_add st_array (Some (VArray [])) None]))"
  proof (rule leads_trans)
    fix y assume y: "view b ?r (?L st_array st_array (Some (VArray [])) None) ls y"
    note Y = viewD [OF y]
    have dp: "tk_depth (tok y) < 31" using Y(7) Suc.prems(2) by simp
    have "dispatch big scan_lf b (- 1) y = Some (Redo, new_level st_array_add y)"
      using Y(5,6) push_level_new [OF Y(1) dp] by (auto simp: dispatch_def do_array_def)
    moreover have "view b ?r (?L st_eatws st_start None None) (ls @ [?L st_array_add st_array (Some (VArray [])) None]) (new_level st_array_add y)"
      using y new_level_simps [OF Y(1) dp] by (simp add: view_def reset_srec_def) (simp add: new_level_def)
    ultimately show "leads big scan_lf b y (view b ?r (?L st_eatws st_start None None) (ls @ [?L st_array_add st_array (Some (VArray [])) None]))"
      by (rule leads_redo [OF _ leads_refl])
  qed
  then have "leads big scan_lf b x (view b ?r (?L st_start st_start None None) (ls @ [?L st_array_add st_array (Some (VArray [])) None]))"
    by (rule leads_trans) (rule eat [where s = "[]", OF b], auto simp: isspace_def)
  then show ?case by (rule leads_trans) (use Suc in force)
qed

lemma nest_too_deep:
  fixes scan_lf :: "cstring \<Rightarrow> 'd option"
  assumes s: "NUL \<notin> set (c # s)" "length s + 33 < 2 ^ 31 - 1" and c: "\<not> isspace c" "c \<noteq> CHR ''/''" "c \<noteq> CHR '']''"
  shows "json_tokener_parse big scan_lf (replicate 32 (CHR ''['') @ (c # s) @ [NUL]) = Some (Inl err_depth)"
proof -
  let ?b = "replicate 32 (CHR ''['') @ (c # s) @ [NUL]" and ?L = "L :: tok_state \<Rightarrow> _ \<Rightarrow> _ \<Rightarrow> _ \<Rightarrow> 'd srec"
  let ?x = "start_cfg ?b :: 'd cfg" and ?r = "(c # s) @ [NUL]"
  have "c_text ((replicate 32 (CHR ''['') @ c # s) @ [NUL])" by (rule c_text_append) (use s in auto)
  then have b: "c_text ?b" by simp
  have "leads big scan_lf ?b ?x (view ?b ?b (?L st_start st_start None None) [])"
    by (rule eat [where s = "[]", OF b]) (use start_view [OF b] in \<open>auto simp: isspace_def\<close>)
  then have "leads big scan_lf ?b ?x (\<lambda>y. \<exists>ls. length ls = 31 \<and> view ?b ?r open_array ls y)"
    by (rule leads_trans) (use nest [OF b, of 31 ?r "[]" _ big scan_lf] in simp)
  then have "leads big scan_lf ?b ?x (\<lambda>y. \<exists>ls. length ls = 31 \<and> view ?b ?r (?L st_array st_array (Some (VArray [])) None) ls y)"
    by (rule leads_trans) (use eat [where s = "[]", OF b, of ?r] c in \<open>force elim: leads_mono\<close>)
  then obtain y ls where y: "parse_loop big scan_lf ?b (- 1) ?x = parse_loop big scan_lf ?b (- 1) y"
      "length ls = 31" "view ?b ?r (?L st_array st_array (Some (VArray [])) None) ls y" unfolding leads_def by blast
  note Y = viewD [OF y(3)]
  have "parse_loop big scan_lf ?b (- 1) y = Some (set_err err_depth y)"
    using Y(5,6,7) y(2) c(3) by (subst parse_loop.simps) (simp add: dispatch_def do_array_def push_level_def JSON_TOKENER_MAX_DEPTH_def)
  then have "parse_loop big scan_lf ?b (- 1) ?x = Some (set_err err_depth y)" using y(1) by simp
  moreover have "wf (set_err err_depth y)" "ch (set_err err_depth y) = c" using Y(1,6) by (simp_all add: cfg_simps)
  moreover have "tk_err (tok (set_err err_depth y)) = err_depth" by (simp add: set_err_def)
  ultimately show ?thesis using parse_end [OF b _ _ refl, of big scan_lf "set_err err_depth y"] s(1) by auto
qed

text \<open>
  C35. Nesting is limited to 32 levels: after 32 opening brackets every further value, of whatever kind, is
  refused with \<open>json_tokener_error_depth\<close>, before it is looked at.
\<close>

theorem json_tokener_depth:
  assumes "NUL \<notin> set (c # s)" "length s + 33 < 2 ^ 31 - 1" "\<not> isspace c" "c \<noteq> CHR ''/''" "c \<noteq> CHR '']''"
  shows "json_tokener_parse big scan_lf (replicate 32 (CHR ''['') @ (c # s) @ [NUL]) = Some (Inl err_depth)"
  by (rule nest_too_deep [OF assms])

theorem json_tokener_depth_witness:
  "json_tokener_parse (\<lambda>_. 0) (\<lambda>_. None :: unit option) (replicate 32 (CHR ''['') @ (''[7'') @ [NUL]) = Some (Inl err_depth)"
  using json_tokener_depth [of "CHR ''[''" "''7''" "\<lambda>_. 0" "\<lambda>_. None :: unit option"] by (simp add: isspace_def)

end
