(* ===== verification/Http.thy ===== *)
theory Http
  imports Http_Parser
begin

text \<open>
  The HTTP server, \<open>src/src/http_impl.c\<close> and \<open>http_conn.c\<close>: receiving a request, its path and query
  string, the response, and the loop of a connection. Copies of strings are taken to succeed; the
  other allocations may fail.
\<close>

subsection \<open>Receiving\<close>

text \<open>
  \<open>http_recv\<close>: at most \<open>cap\<close> bytes of the first packet; 0 at the end of the stream, -1 on an error,
  -2 on a timeout.
\<close>

definition http_recv :: "nat \<Rightarrow> http_cli \<Rightarrow> int \<times> char list \<times> http_cli" where
  "http_recv cap c =
     (case incoming c of
        [] \<Rightarrow> (0, [], c)
      | Timeout # ps \<Rightarrow> (- 2, [], c\<lparr>incoming := ps\<rparr>)
      | Failure # ps \<Rightarrow> (- 1, [], c\<lparr>incoming := ps\<rparr>)
      | Data d # ps \<Rightarrow>
          (int (length (take cap d)), take cap d,
           c\<lparr>incoming := (if length d \<le> cap then ps else Data (drop cap d) # ps)\<rparr>))"

fun packet_size :: "packet \<Rightarrow> nat" where
  "packet_size (Data d) = Suc (length d)"
| "packet_size Timeout = 1"
| "packet_size Failure = 1"

definition backlog :: "http_cli \<Rightarrow> nat" where
  "backlog c = sum_list (map packet_size (incoming c))"

lemma http_recv_less: "(r, d, c') = http_recv cap c \<Longrightarrow> r \<noteq> 0 \<Longrightarrow> backlog c' < backlog c"
  by (auto simp: http_recv_def backlog_def split: list.splits packet.splits if_splits)

lemma backlog_upd [simp]: "backlog (req_update f c) = backlog c"
  by (simp add: backlog_def)

lemma http_alloc_less: "(ok, c') = http_alloc c \<Longrightarrow> backlog c' = backlog c"
  by (simp add: http_alloc_def backlog_def)

text \<open>\<open>while (i <= ret && isspace(hdr[i])) { i++; ret--; }\<close>\<close>

function skip_ws :: "char list \<Rightarrow> nat \<Rightarrow> nat \<Rightarrow> nat \<times> nat" where
  "skip_ws b i ret = (if i \<le> ret \<and> isspace (b ! i) then skip_ws b (Suc i) (ret - 1) else (i, ret))"
  by pat_completeness auto
termination by (relation "measure (\<lambda>(b, i, ret). Suc ret - i)") auto

declare skip_ws.simps [simp del]

text \<open>White space before the header is moved out of the way.\<close>

definition drop_ws :: "char list \<Rightarrow> nat \<Rightarrow> char list \<times> nat" where
  "drop_ws b ret =
     (case skip_ws b 0 ret of
        (i, ret) \<Rightarrow> (if i \<noteq> 0 \<and> ret > 0 then take ret (drop i b) @ drop ret b else b, ret))"

text \<open>The end of the header: its position and the length of the terminator found there.\<close>

definition hdr_end :: "cstring \<Rightarrow> (nat \<times> nat) option" where
  "hdr_end s =
     (case strstr s [CR, LF, CR, LF] of
        Some e \<Rightarrow> Some (e, 4)
      | None \<Rightarrow> map_option (\<lambda>e. (e, 2)) (strstr s [LF, LF]))"

text \<open>
  The loop of \<open>http_recv_hdr\<close>. With a full buffer the terminator would be written behind its end.
\<close>

definition hdr_done :: "nat \<Rightarrow> nat \<Rightarrow> http_cli \<Rightarrow> int \<times> http_cli" where
  "hdr_done recvd n c =
     (case http_alloc (upd_req (\<lambda>r. r\<lparr>req_hdr := (req_hdr r)\<lparr>hdr_len := n\<rparr>, req_body_len := of_nat (recvd - n)\<rparr>) c) of
        (ok, c) \<Rightarrow>
          if ok then (0, upd_req (\<lambda>r. r\<lparr>req_body := Some (take (recvd - n) (drop n (hdr (req_hdr r))))\<rparr>) c)
          else (err_code HTTP_FAIL, upd_req (req_body_update (\<lambda>_. None)) c))"

function recv_hdr_loop :: "nat \<Rightarrow> http_cli \<Rightarrow> (int \<times> http_cli) option" where
  "recv_hdr_loop recvd c =
     (if recvd < HTTP_MAX_HDR_LEN then
        (case http_recv (HTTP_MAX_HDR_LEN - recvd) c of
           (ret, d, c) \<Rightarrow>
             if ret = - 2 then Some (err_code HTTP_ERR_TIMEOUT_EXC, c)
             else if ret < 1 then Some (err_code HTTP_ERR_CLI_CLOSED, c)
             else
               (let b = hdr (cli_hdr c);
                    b = take recvd b @ d @ drop (recvd + length d) b
                in case (if recvd = 0 then drop_ws b (length d) else (b, length d)) of
                     (b, n) \<Rightarrow>
                       (let c = upd_hdr (hdr_update (\<lambda>_. b)) c in
                        if n = 0 then recv_hdr_loop recvd c
                        else
                          do {
                            _ \<leftarrow> rd b (recvd + n);
                            s \<leftarrow> c_string (b[recvd + n := NUL]);
                            (case hdr_end s of
                               Some (e, k) \<Rightarrow> Some (hdr_done (recvd + n) (e + k) c)
                             | None \<Rightarrow> recv_hdr_loop (recvd + n) c)
                          })))
      else Some (err_code HTTP_ERR_MAX_HDR_EXC, c))"
  by pat_completeness auto
termination
  by (relation "measure (\<lambda>(recvd, c). backlog c)")
    (auto dest: http_recv_less)

declare recv_hdr_loop.simps [simp del]

definition http_recv_hdr :: "http_cli \<Rightarrow> (int \<times> http_cli) option" where
  "http_recv_hdr c = recv_hdr_loop 0 (upd_hdr (cnt_len_update (\<lambda>_. 0)) c)"

definition http_recv_req_hdr :: "http_cli \<Rightarrow> (int \<times> http_cli) option" where
  "http_recv_req_hdr c =
     do { (ret, c) \<leftarrow> http_recv_hdr c; if ret \<noteq> 0 then Some (ret, c) else http_parse_req_hdr c }"

text \<open>
  \<open>http_recv_exact\<close>: the result of \<open>http_recv\<close> is added as a \<open>uint64_t\<close>, so that a timeout counts as
  \<open>2^64 - 2\<close> bytes. The flag \<open>nolen\<close> is never set by the program.
\<close>

function recv_exact_loop :: "64 word \<Rightarrow> http_cli \<Rightarrow> (int \<times> http_cli) option" where
  "recv_exact_loop recvd c =
     (if recvd < cnt_len (cli_hdr c) then
        (case http_alloc c of
           (ok, c) \<Rightarrow>
             if \<not> ok then Some (- 1, upd_req (req_body_update (\<lambda>_. None)) c)
             else
               (case http_recv TCP_BUF_SIZE c of
                  (ret, d, c) \<Rightarrow>
                    if ret = - 1 then Some (- 1, upd_req (req_body_update (\<lambda>_. None)) c)
                    else
                      do {
                        b \<leftarrow> req_body (req c);
                        b \<leftarrow> (if unat recvd \<le> length b then Some (take (unat recvd) b @ d) else None);
                        let recvd' = recvd + word_of_int ret;
                        let c = upd_req (\<lambda>r. r\<lparr>req_body := Some b, req_body_len := recvd'\<rparr>) c;
                        if ret = 0 then Some (0, c) else recv_exact_loop recvd' c
                      }))
      else Some (0, c))"
  by pat_completeness auto
termination
  by (relation "measure (\<lambda>(recvd, c). backlog c)") (auto, metis http_recv_less http_alloc_less)

declare recv_exact_loop.simps [simp del]

definition http_recv_exact :: "http_cli \<Rightarrow> (int \<times> http_cli) option" where
  "http_recv_exact c =
     (if nolen (cli_hdr c) then Some (0, c)
      else if req_body_len (req c) = cnt_len (cli_hdr c) then Some (0, c)
      else recv_exact_loop (req_body_len (req c)) c)"

text \<open>
  \<open>http_recv_chunked\<close> up to the first \<open>break\<close>. In the first round \<open>ret\<close> is 0 and \<open>more\<close> is positive,
  because \<open>recvd\<close> differs from \<open>cnt_len\<close>: the rest of the loop is never reached.
\<close>

definition http_recv_chunked :: "http_cli \<Rightarrow> (int \<times> http_cli) option" where
  "http_recv_chunked c =
     do {
       nl \<leftarrow> http_strcasechr (drop (hdr_len (cli_hdr c)) (hdr (cli_hdr c))) LF (unat (req_body_len (req c)));
       nl \<leftarrow> nl;
       let recvd = req_body_len (req c) - of_nat nl - 1;
       if recvd = cnt_len (cli_hdr c) then Some (0, c)
       else
         (let ret = (0 :: 64 word);
              recvd = recvd + ret;
              more = (if recvd < cnt_len (cli_hdr c) then - 1 else recvd - cnt_len (cli_hdr c))
          in if more > 0 \<and> ret = 0 then Some (0, c) else None)
     }"

definition http_recvbody :: "http_cli \<Rightarrow> (int \<times> http_cli) option" where
  "http_recvbody c = (if chunked (cli_hdr c) then http_recv_chunked c else http_recv_exact c)"

subsection \<open>Path and query string\<close>

text \<open>The tokens of \<open>strtok_r(s, "&")\<close>: runs of other characters.\<close>

fun split_on :: "char \<Rightarrow> cstring \<Rightarrow> cstring list" where
  "split_on x [] = [[]]"
| "split_on x (c # cs) =
     (if c = x then [] # split_on x cs
      else case split_on x cs of [] \<Rightarrow> [[c]] | t # ts \<Rightarrow> (c # t) # ts)"

definition strtok :: "char \<Rightarrow> cstring \<Rightarrow> cstring list" where
  "strtok x s = filter (\<lambda>t. t \<noteq> []) (split_on x s)"

fun add_query_args :: "cstring list \<Rightarrow> cstring h_hash \<Rightarrow> http_cli \<Rightarrow> (cstring h_hash \<times> http_cli) option" where
  "add_query_args [] h c = Some (h, c)"
| "add_query_args (t # ts) h c =
     (case strchr t (CHR ''='') of
        None \<Rightarrow> add_query_args ts h c
      | Some k \<Rightarrow>
          do { (h, c) \<leftarrow> http_h_insert h (take k t) (drop (Suc k) t) c; add_query_args ts h c })"

text \<open>
  The separators that \<open>strtok_r\<close> overwrites in the copy of the query string are put back for all but
  repeated ones; nothing reads the copy afterwards, and the model keeps the original text.
\<close>

definition http_set_path :: "http_cli \<Rightarrow> http_cli option" where
  "http_set_path c =
     do {
       uri \<leftarrow> req_uri (req c);
       (case strchr uri (CHR ''?'') of
          Some k \<Rightarrow>
            do {
              let qs = drop (Suc k) uri;
              h \<leftarrow> query_string_args (req c);
              (h, c) \<leftarrow> add_query_args (strtok (CHR ''&'') qs) h c;
              Some (upd_req (\<lambda>r. r\<lparr>req_path := Some (take k uri), req_query_string := Some qs,
                                  query_string_args := Some h\<rparr>) c)
            }
        | None \<Rightarrow> Some (upd_req (req_path_update (\<lambda>_. Some uri)) c))
     }"

definition http_get_querystring :: "http_cli \<Rightarrow> cstring \<Rightarrow> cstring option option" where
  "http_get_querystring c str = do { h \<leftarrow> query_string_args (req c); h_get h str }"

definition http_get_method_str :: "http_cli \<Rightarrow> cstring" where
  "http_get_method_str c =
     (case req_method (req c) of
        Some HTTP_GET \<Rightarrow> ''GET'' | Some HTTP_POST \<Rightarrow> ''POST'' | Some HTTP_DELETE \<Rightarrow> ''DELETE''
      | Some HTTP_PUT \<Rightarrow> ''PUT'' | Some HTTP_HEAD \<Rightarrow> ''HEAD'' | None \<Rightarrow> ''Unknown Method'')"

definition http_get_body :: "http_cli \<Rightarrow> char list option" where
  "http_get_body c = req_body (req c)"

definition http_get_body_len :: "http_cli \<Rightarrow> 64 word" where
  "http_get_body_len c = req_body_len (req c)"

definition http_get_path :: "http_cli \<Rightarrow> cstring option" where
  "http_get_path c = req_path (req c)"

subsection \<open>Responses\<close>

definition http_add_header :: "http_cli \<Rightarrow> cstring \<Rightarrow> cstring \<Rightarrow> http_cli option" where
  "http_add_header c name v =
     do {
       h \<leftarrow> resp_hdrs (resp c);
       (h, c) \<leftarrow> http_h_insert h name v c;
       Some (resp_update (resp_hdrs_update (\<lambda>_. Some h)) c)
     }"

text \<open>The cases of \<open>http_set_respcode\<close>: reason, code, and whether the connection stays open.\<close>

definition respcodes :: "(int \<times> cstring \<times> cstring \<times> bool) list" where
  "respcodes =
     [(200, ''OK'', ''200 '', True), (201, ''Created'', ''201 '', True), (202, ''Accepted'', ''202 '', True),
      (203, ''Non-Authoritative Information'', ''203 '', False), (204, ''No Content'', ''204 '', True),
      (205, ''Reset Content'', ''205 '', False), (206, ''Partial Content'', ''206 '', True),
      (300, ''Multiple Choices'', ''300 '', False), (301, ''Moved Permanently'', ''301 '', True),
      (302, ''Found'', ''302 '', True), (303, ''See Other'', ''303 '', True), (304, ''Not Modified'', ''304 '', True),
      (305, ''Use Proxy'', ''305 '', False), (307, ''Temporary Redirect'', ''307 '', False),
      (400, ''Bad Request'', ''400 '', False), (401, ''Unauthorized'', ''401 '', False),
      (404, ''Not Found'', ''404 '', False), (405, ''Method Not Allowed'', ''405 '', False),
      (407, ''Proxy Authentication Required'', ''407 '', False), (408, ''Request Timeout'', ''408 '', False),
      (409, ''Conflict'', ''409 '', False), (410, ''Gone'', ''410 '', False), (411, ''Length Required'', ''411 '', False),
      (412, ''Precondition Failed'', ''412 '', False), (413, ''Request Entity Too Large'', ''413 '', False),
      (414, ''Request-URI Too Long'', ''414 '', False), (415, ''Unsupported Media Type'', ''415 '', False),
      (416, ''Requested Range Not Satisfiable'', ''416 '', False), (417, ''Expectation Failed'', ''417 '', False),
      (500, ''Internal Server Error'', ''500 '', False), (501, ''Not Implemented'', ''501 '', False),
      (502, ''Bad Gateway'', ''502 '', False), (503, ''Service Unavailable'', ''503 '', False),
      (504, ''Gateway Timeout'', ''504 '', False), (505, ''HTTP Version Not Supported'', ''505 '', False)]"

definition http_set_respcode :: "int \<Rightarrow> http_cli \<Rightarrow> http_cli option" where
  "http_set_respcode code c =
     (if respcode (resp c) \<noteq> 0 then Some c
      else
        let (code, reason, num, dont_close) =
              (case map_of respcodes code of
                 Some (reason, num, dont_close) \<Rightarrow> (code, reason, num, dont_close)
               | None \<Rightarrow> (204, ''No Content'', ''204 '', False));
            c = resp_update (\<lambda>r. r\<lparr>respcode := code, respcode_int := num, respcode_str := reason\<rparr>) c
        in http_add_header c ''Connection'' (if dont_close then ''keep-alive'' else ''close''))"

text \<open>
  \<open>http_cli_resp_hdr_create\<close>: the number of entries of the array that are filled, their contents,
  the size of the array, and the client. An entry outside of the array is undefined behaviour.
\<close>

definition hdr_iovecs :: "http_cli \<Rightarrow> (cstring \<times> cstring) list \<Rightarrow> char list list" where
  "hdr_iovecs c items =
     [if http11 (cli_hdr c) then ''HTTP/1.1 '' else ''HTTP/1.0 '', take 4 (respcode_int (resp c)),
      respcode_str (resp c), [LF]] @
     concat (map (\<lambda>(k, v). [k, '': '', v, [LF]]) items) @ [[LF]]"

definition http_cli_resp_hdr_create :: "http_cli \<Rightarrow> (int \<times> char list list \<times> nat \<times> http_cli) option" where
  "http_cli_resp_hdr_create c =
     (if resp_state (resp c) \<noteq> HTTP_HDR_BEGIN then Some (0, [], 0, c)
      else
        do {
          (n, c) \<leftarrow> (if resp_body_len (resp c) \<noteq> 0 then
                       do {
                         c \<leftarrow> http_add_header c ''Content-Length'' (nat_dec (unat (resp_body_len (resp c))));
                         Some (4 + 2, c)
                       }
                     else do { c \<leftarrow> http_set_respcode 204 c; Some (4, c) });
          c \<leftarrow> (if respcode (resp c) = 0 then http_set_respcode 200 c else Some c);
          h \<leftarrow> resp_hdrs (resp c);
          server \<leftarrow> h_get h ''Server'';
          c \<leftarrow> (if server = None then http_add_header c ''Server'' ''express HTTP Server: 1.0'' else Some c);
          h \<leftarrow> resp_hdrs (resp c);
          (items, h) \<leftarrow> h_traverse (Suc (length (order_head h))) h;
          let size = n + 4 * length items + 1;
          (case http_alloc c of
             (ok, c) \<Rightarrow>
               if \<not> ok then Some (- 1, [], 0, resp_update (resp_hdrs_update (\<lambda>_. Some h)) c)
               else
                 do {
                   (items, h) \<leftarrow> h_traverse (Suc (length (order_head h))) h;
                   let c = resp_update (resp_hdrs_update (\<lambda>_. Some h)) c;
                   let iovecs = hdr_iovecs c items;
                   if length iovecs \<le> size then Some (int (length iovecs), iovecs, size, c) else None
                 })
        })"

text \<open>The write to the socket takes all entries; its result is not looked at.\<close>

definition http_respond :: "int \<Rightarrow> char list option \<Rightarrow> 64 word \<Rightarrow> http_cli \<Rightarrow> (int \<times> http_cli) option" where
  "http_respond http_code body body_len c =
     (if resp_state (resp c) \<noteq> HTTP_HDR_BEGIN then Some (0, c)
      else
        do {
          c \<leftarrow> http_set_respcode http_code c;
          let c = (if body_len \<noteq> 0 then resp_update (\<lambda>r. r\<lparr>resp_body := body, resp_body_len := body_len\<rparr>) c else c);
          (n, iovecs, size, c) \<leftarrow> http_cli_resp_hdr_create c;
          if n < 1 then Some (- 1, c)
          else
            do {
              iovecs \<leftarrow> (if resp_body_len (resp c) \<noteq> 0 then
                            do {
                              b \<leftarrow> resp_body (resp c);
                              if length iovecs < size \<and> unat (resp_body_len (resp c)) \<le> length b
                              then Some (iovecs @ [take (unat (resp_body_len (resp c))) b]) else None
                            }
                          else Some iovecs);
              Some (0, resp_update (resp_state_update (\<lambda>_. HTTP_BODY_SENT)) (c\<lparr>sent := sent c @ concat iovecs\<rparr>))
            }
        })"

text \<open>The errors that are answered with the code 400; \<open>err\<close> is the value of the enumeration.\<close>

definition http_handle_cli_req_err :: "int \<Rightarrow> http_cli \<Rightarrow> http_cli option" where
  "http_handle_cli_req_err err c =
     (if err \<in> err_code ` {HTTP_ERR_UNKNOWN_HOST, HTTP_ERR_NO_CNT_LEN, HTTP_ERR_INV_REQ_LINE, HTTP_ERR_MAX_HDR_EXC,
                HTTP_ERR_INV_HOST, HTTP_ERR_INV_METHOD, HTTP_ERR_INV_PORT, HTTP_ERR_INV_PROTO}
      then do { (_, c) \<leftarrow> http_respond 400 None 0 c; Some c }
      else Some c)"

subsection \<open>Connections\<close>

text \<open>\<open>h_init(128)\<close> with the next two allocations.\<close>

definition http_h_init :: "http_cli \<Rightarrow> 'v h_hash option \<times> http_cli" where
  "http_h_init c =
     (case http_alloc c of
        (ok1, c) \<Rightarrow> if \<not> ok1 then (None, c) else (case http_alloc c of (ok2, c) \<Rightarrow> (h_init True ok2 128, c)))"

definition http_cli_init :: "http_cli \<Rightarrow> int \<times> http_cli" where
  "http_cli_init c =
     (let c = req_update (\<lambda>r. r\<lparr>req_host := None, req_uri := None, req_body := None, req_path := None,
                               req_query_string := None\<rparr>)
                (resp_update (\<lambda>r. r\<lparr>resp_body_len := 0, respcode := 0\<rparr>) c)
      in case http_h_init c of
           (h1, c) \<Rightarrow>
             (let c = upd_hdr (hdrs_update (\<lambda>_. h1)) c
              in if h1 = None then (- 1, c)
                 else case http_h_init c of
                        (h2, c) \<Rightarrow>
                          (let c = resp_update (resp_hdrs_update (\<lambda>_. h2)) c
                           in if h2 = None then (- 1, c)
                              else case http_h_init c of
                                     (h3, c) \<Rightarrow>
                                       (let c = req_update (query_string_args_update (\<lambda>_. h3)) c
                                        in if h3 = None then (- 1, c) else (0, c)))))"

text \<open>Freeing a table of a request: the values are freed in a walk first, when they are owned.\<close>

definition free_table :: "bool \<Rightarrow> 'v h_hash option \<Rightarrow> unit option" where
  "free_table owned h =
     (case h of
        None \<Rightarrow> Some ()
      | Some h \<Rightarrow>
          do {
            (_, h) \<leftarrow> (if owned then h_traverse (Suc (length (order_head h))) h else Some ([], h));
            _ \<leftarrow> h_free h;
            Some ()
          })"

definition http_cli_reset :: "http_cli \<Rightarrow> http_cli option" where
  "http_cli_reset c =
     do {
       _ \<leftarrow> free_table False (hdrs (cli_hdr c));
       _ \<leftarrow> free_table True (resp_hdrs (resp c));
       _ \<leftarrow> free_table True (query_string_args (req c));
       Some (resp_update (\<lambda>r. r\<lparr>resp_state := HTTP_HDR_BEGIN, resp_hdrs := None, resp_body_len := 0, respcode := 0\<rparr>)
              (req_update (\<lambda>r. r\<lparr>req_path := None, query_string_args := None, req_query_string := None,
                              req_hdr := (req_hdr r)\<lparr>hdrs := None\<rparr>, req_host := None, req_uri := None,
                              req_body := None\<rparr>) c))
     }"

definition http_cli_free :: "http_cli \<Rightarrow> http_cli option" where
  "http_cli_free c = http_cli_reset (c\<lparr>closed := True\<rparr>)"

definition http_handle_cli_rd :: "http_cli \<Rightarrow> (int \<times> http_cli) option" where
  "http_handle_cli_rd c =
     do {
       (err, c) \<leftarrow> http_recv_req_hdr c;
       if err \<noteq> 0 then do { c \<leftarrow> http_handle_cli_req_err err c; Some (- 1, c) }
       else
         do {
           c \<leftarrow> http_set_path c;
           if req_method (req c) = Some HTTP_POST then do { (_, c) \<leftarrow> http_recvbody c; Some (0, c) }
           else Some (0, c)
         }
     }"

text \<open>
  The loop of a connection, with the router (that works on a state of its own) as an argument. It
  runs as long as requests come in.
\<close>

partial_function (option) http_lt_cli_rd ::
  "(http_cli \<Rightarrow> 's \<Rightarrow> (int \<times> http_cli \<times> 's) option) \<Rightarrow> http_cli \<Rightarrow> 's \<Rightarrow> (http_cli \<times> 's) option" where
  "http_lt_cli_rd router_cb c st =
     (case http_cli_init c of
        (r, c) \<Rightarrow>
          if r = - 1 then do { c \<leftarrow> http_cli_free c; Some (c, st) }
          else
            do {
              (err, c) \<leftarrow> http_handle_cli_rd c;
              if err = - 1 then do { c \<leftarrow> http_cli_free c; Some (c, st) }
              else
                do {
                  (err, c, st) \<leftarrow> router_cb c st;
                  (_, c) \<leftarrow> http_respond (respcode (resp c)) (resp_body (resp c)) (resp_body_len (resp c)) c;
                  if err = - 1 then do { c \<leftarrow> http_cli_free c; Some (c, st) }
                  else do { c \<leftarrow> http_cli_reset c; http_lt_cli_rd router_cb c st }
                }
            })"

declare http_lt_cli_rd.simps [code]

end
