(* ===== verification/Router.thy ===== *)
theory Router
  imports Http
begin

text \<open>
  The router, \<open>src/src/router.c\<close>. Regular expressions are those of the PCRE library, which is not part
  of the repository: its three functions are arguments of the definitions. \<open>compile\<close> gives the
  compiled expression if the pattern is valid, \<open>exec\<close> the vector of the group positions if the
  subject matches, and \<open>names\<close> the table of the named groups with their numbers, in its order.
\<close>

record ('re, 'cb) http_route =
  rt_path :: cstring
  rt_method :: cstring
  rt_cb :: 'cb
  rt_re :: 're

type_synonym ('re, 'cb) http_routes = "('re, 'cb) http_route list"

definition http_route_init :: "('re, 'cb) http_routes" where
  "http_route_init = []"

text \<open>The flag says whether the allocation of the route succeeds. New routes come first.\<close>

definition http_route_on ::
  "(cstring \<Rightarrow> 're option) \<Rightarrow> bool \<Rightarrow> cstring \<Rightarrow> cstring \<Rightarrow> 'cb \<Rightarrow> ('re, 'cb) http_routes \<Rightarrow>
   int \<times> ('re, 'cb) http_routes" where
  "http_route_on compile ok method path cb routes =
     (if \<not> ok then (- 1, routes)
      else case compile path of
             None \<Rightarrow> (- 1, routes)
           | Some re \<Rightarrow> (0, \<lparr>rt_path = path, rt_method = method, rt_cb = cb, rt_re = re\<rparr> # routes))"

text \<open>The values of the named groups, put into the table of the path's arguments.\<close>

fun add_path_args ::
  "(nat \<times> cstring) list \<Rightarrow> (int \<times> int) list \<Rightarrow> cstring \<Rightarrow> cstring h_hash \<Rightarrow> http_cli \<Rightarrow>
   (cstring h_hash \<times> http_cli) option" where
  "add_path_args [] ov path h c = Some (h, c)"
| "add_path_args ((n, name) # ns) ov path h c =
     do {
       (i, j) \<leftarrow> rd ov n;
       if 0 \<le> i \<and> i \<le> j \<and> j \<le> int (length path) then
         do {
           (h, c) \<leftarrow> http_h_insert h name (strndup (drop (nat i) path) (nat (j - i))) c;
           add_path_args ns ov path h c
         }
       else None
     }"

text \<open>
  The variable \<open>h\<close> of the loop: \<open>NULL\<close>, a live table, or the pointer to a table freed in an earlier
  round. It is not reset between the rounds.
\<close>

datatype args_ptr = No_Args | Path_Args "cstring h_hash" | Freed_Args

definition free_args :: "args_ptr \<Rightarrow> args_ptr option" where
  "free_args a =
     (case a of
        No_Args \<Rightarrow> Some No_Args
      | Path_Args h \<Rightarrow> do { _ \<leftarrow> free_table True (Some h); Some Freed_Args }
      | Freed_Args \<Rightarrow> None)"

definition route_args ::
  "('re \<Rightarrow> (nat \<times> cstring) list) \<Rightarrow> 're \<Rightarrow> (int \<times> int) list \<Rightarrow> cstring \<Rightarrow> args_ptr \<Rightarrow> http_cli \<Rightarrow>
   (args_ptr \<times> http_cli) option" where
  "route_args names re ov path h c =
     (if names re \<noteq> [] then
        (case http_h_init c of
           (None, c) \<Rightarrow> Some (No_Args, c)
         | (Some t, c) \<Rightarrow> do { (t, c) \<leftarrow> add_path_args (names re) ov path t c; Some (Path_Args t, c) })
      else Some (h, c))"

fun route_loop ::
  "('re \<Rightarrow> cstring \<Rightarrow> (int \<times> int) list option) \<Rightarrow> ('re \<Rightarrow> (nat \<times> cstring) list) \<Rightarrow>
   ('cb \<Rightarrow> cstring h_hash option \<Rightarrow> http_cli \<Rightarrow> 's \<Rightarrow> (int \<times> http_cli \<times> 's) option) \<Rightarrow>
   cstring \<Rightarrow> ('re, 'cb) http_routes \<Rightarrow> args_ptr \<Rightarrow> bool \<Rightarrow> http_cli \<Rightarrow> 's \<Rightarrow> (int \<times> http_cli \<times> 's) option" where
  "route_loop exec names call path [] h matched c st =
     (if \<not> matched then do { c \<leftarrow> http_set_respcode 404 c; Some (- 1, c, st) } else Some (0, c, st))"
| "route_loop exec names call path (r # rs) h matched c st =
     (if rt_method r \<noteq> http_get_method_str c then route_loop exec names call path rs h matched c st
      else
        case exec (rt_re r) path of
          None \<Rightarrow> route_loop exec names call path rs h matched c st
        | Some ov \<Rightarrow>
            do {
              (h, c) \<leftarrow> route_args names (rt_re r) ov path h c;
              args \<leftarrow> (case h of No_Args \<Rightarrow> Some None | Path_Args t \<Rightarrow> Some (Some t) | Freed_Args \<Rightarrow> None);
              (ret, c, st) \<leftarrow> call (rt_cb r) args c st;
              h \<leftarrow> free_args h;
              if ret = - 2 then route_loop exec names call path rs h True c st else Some (ret, c, st)
            })"

definition http_route_handle_request ::
  "('re \<Rightarrow> cstring \<Rightarrow> (int \<times> int) list option) \<Rightarrow> ('re \<Rightarrow> (nat \<times> cstring) list) \<Rightarrow>
   ('cb \<Rightarrow> cstring h_hash option \<Rightarrow> http_cli \<Rightarrow> 's \<Rightarrow> (int \<times> http_cli \<times> 's) option) \<Rightarrow>
   ('re, 'cb) http_routes \<Rightarrow> http_cli \<Rightarrow> 's \<Rightarrow> (int \<times> http_cli \<times> 's) option" where
  "http_route_handle_request exec names call routes c st =
     do { path \<leftarrow> http_get_path c; route_loop exec names call path routes No_Args False c st }"

end
