(* ===== verification/Memqueue.thy ===== *)
theory Memqueue
  imports Expiry Json
begin

text \<open>
  The queue server of \<open>src/src/memqueue.c\<close>: reference counts of messages and queues, creation of
  messages and their delivery to the bound pollers, polling, expiry of objects, and the handlers
  of the HTTP requests.

  The lightweight threads are cooperative: a handler runs without interruption up to its only
  blocking call, the wait of \<open>memqueue_poll_queue\<close>, which is therefore modelled in two parts.
  Copies of strings (\<open>asprintf\<close>, the key of a hash item) are taken to succeed; every other
  allocation may fail.
\<close>

subsection \<open>Reference counts\<close>

definition memqueue_retain :: "addr \<Rightarrow> memqueue_ins \<Rightarrow> memqueue_ins option" where
  "memqueue_retain q ins =
     do {
       mq \<leftarrow> queues ins q;
       n \<leftarrow> int_incr (q_ref_count mq);
       upd_queue q (q_ref_count_update (\<lambda>_. n)) ins
     }"

text \<open>\<open>while ((item = h_next(q->consumers))) free(item->value);\<close>\<close>

fun free_consumers :: "addr list \<Rightarrow> memqueue_ins \<Rightarrow> memqueue_ins option" where
  "free_consumers [] ins = Some ins"
| "free_consumers (c # cs) ins =
     do {
       _ \<leftarrow> consumers ins c;
       free_consumers cs (ins\<lparr>consumers := (consumers ins)(c := None)\<rparr>)
     }"

definition memqueue_release :: "addr \<Rightarrow> memqueue_ins \<Rightarrow> memqueue_ins option" where
  "memqueue_release q ins =
     do {
       mq \<leftarrow> queues ins q;
       let n = q_ref_count mq - 1;
       ins \<leftarrow> upd_queue q (q_ref_count_update (\<lambda>_. n)) ins;
       if n < 0 then None
       else if n = 0 then
         do {
           (_, store) \<leftarrow> h_remove (queue_store ins) (q_q_id mq);
           let ins = ins\<lparr>queue_store := store\<rparr>;
           (items, h) \<leftarrow> h_traverse (Suc (length (order_head (q_consumers mq)))) (q_consumers mq);
           ins \<leftarrow> free_consumers (map snd items) ins;
           _ \<leftarrow> h_free h;
           Some (ins\<lparr>queues := (queues ins)(q := None)\<rparr>)
         }
       else Some ins
     }"

definition memqueue_msg_retain :: "addr \<Rightarrow> memqueue_ins \<Rightarrow> memqueue_ins option" where
  "memqueue_msg_retain m ins =
     do {
       x \<leftarrow> msgs ins m;
       n \<leftarrow> int_incr (m_ref_count x);
       ins \<leftarrow> upd_msg m (m_ref_count_update (\<lambda>_. n)) ins;
       memqueue_retain (m_memqueue x) ins
     }"

definition memqueue_msg_free :: "addr \<Rightarrow> memqueue_ins \<Rightarrow> memqueue_ins" where
  "memqueue_msg_free m ins = ins\<lparr>msgs := (msgs ins)(m := None)\<rparr>"

definition memqueue_msg_release :: "addr \<Rightarrow> memqueue_ins \<Rightarrow> memqueue_ins option" where
  "memqueue_msg_release m ins =
     do {
       x \<leftarrow> msgs ins m;
       let n = m_ref_count x - 1;
       let q = m_memqueue x;
       ins \<leftarrow> upd_msg m (\<lambda>x. x\<lparr>m_new := 0, m_ref_count := n\<rparr>) ins;
       if n < 0 then None
       else if n = 0 then
         do {
           mq \<leftarrow> queues ins q;
           if m \<in> set (q_msg_queue mq) then
             do {
               ins \<leftarrow> upd_queue q (\<lambda>mq. mq\<lparr>q_msg_queue := remove1 m (q_msg_queue mq),
                                        q_msgs_in_queue := q_msgs_in_queue mq - 1\<rparr>) ins;
               ins \<leftarrow> memqueue_release q ins;
               Some (memqueue_msg_free m ins)
             }
           else None
         }
       else memqueue_release q ins
     }"

subsection \<open>Pollers and their bindings\<close>

definition cli_binder_create :: "32 word \<Rightarrow> memqueue_ins \<Rightarrow> addr option \<times> memqueue_ins" where
  "cli_binder_create timeout ins =
     (case calloc ins of
        (None, ins) \<Rightarrow> (None, ins)
      | (Some b, ins) \<Rightarrow>
          (Some b, ins\<lparr>cli_binders := (cli_binders ins)(b \<mapsto> \<lparr>cb_timeout = timeout,
                        cb_memqueues = [], cb_pending_msgs = []\<rparr>)\<rparr>))"

definition cli_binder_free :: "addr option \<Rightarrow> memqueue_ins \<Rightarrow> memqueue_ins option" where
  "cli_binder_free b ins =
     do {
       b \<leftarrow> b;
       _ \<leftarrow> cli_binders ins b;
       Some (ins\<lparr>cli_binders := (cli_binders ins)(b := None)\<rparr>)
     }"

definition cli_binder_enqueue_msg :: "addr \<Rightarrow> addr \<Rightarrow> memqueue_ins \<Rightarrow> (int \<times> memqueue_ins) option" where
  "cli_binder_enqueue_msg b m ins =
     (case calloc ins of
        (None, ins) \<Rightarrow> Some (- 1, ins)
      | (Some _, ins) \<Rightarrow>
          do {
            ins \<leftarrow> upd_cli b (\<lambda>cb. cb\<lparr>cb_pending_msgs := cb_pending_msgs cb @ [m]\<rparr>) ins;
            ins \<leftarrow> memqueue_msg_retain m ins;
            Some (0, ins)
          })"

definition cli_wakeup :: "addr \<Rightarrow> memqueue_ins \<Rightarrow> memqueue_ins option" where
  "cli_wakeup b ins = do { _ \<leftarrow> cli_binders ins b; Some (cond_signal (Some b) ins) }"

definition cli_binder_has_pending_msgs :: "addr \<Rightarrow> memqueue_ins \<Rightarrow> bool option" where
  "cli_binder_has_pending_msgs b ins =
     do { cb \<leftarrow> cli_binders ins b; Some (cb_pending_msgs cb \<noteq> []) }"

text \<open>The \<open>TAILQ_FOREACH\<close> over the messages of a queue.\<close>

fun enqueue_loop ::
  "addr \<Rightarrow> int \<Rightarrow> int \<Rightarrow> addr list \<Rightarrow> int \<Rightarrow> memqueue_ins \<Rightarrow> (int \<times> memqueue_ins) option" where
  "enqueue_loop b rv latest [] tot ins = Some (tot, ins)"
| "enqueue_loop b rv latest (m # ms) tot ins =
     do {
       x \<leftarrow> msgs ins m;
       if rv < m_rev x \<or> (latest \<noteq> 0 \<and> m_new x = 1) then
         do {
           (_, ins) \<leftarrow> cli_binder_enqueue_msg b m ins;
           enqueue_loop b rv latest ms (tot + 1) ins
         }
       else enqueue_loop b rv latest ms tot ins
     }"

definition cli_binder_enqueue_msgs ::
  "addr \<Rightarrow> addr \<Rightarrow> int \<Rightarrow> int \<Rightarrow> memqueue_ins \<Rightarrow> (int \<times> memqueue_ins) option" where
  "cli_binder_enqueue_msgs b q rv latest ins =
     do { mq \<leftarrow> queues ins q; enqueue_loop b rv latest (q_msg_queue mq) 0 ins }"

text \<open>Each pending message is released and then taken off the list.\<close>

fun release_loop :: "addr \<Rightarrow> addr list \<Rightarrow> memqueue_ins \<Rightarrow> memqueue_ins option" where
  "release_loop b [] ins = Some ins"
| "release_loop b (m # ms) ins =
     do {
       ins \<leftarrow> memqueue_msg_release m ins;
       ins \<leftarrow> upd_cli b (\<lambda>cb. cb\<lparr>cb_pending_msgs := ms\<rparr>) ins;
       release_loop b ms ins
     }"

definition cli_binder_release_pending_msgs :: "addr \<Rightarrow> memqueue_ins \<Rightarrow> memqueue_ins option" where
  "cli_binder_release_pending_msgs b ins =
     do { cb \<leftarrow> cli_binders ins b; release_loop b (cb_pending_msgs cb) ins }"

definition memqueue_bind ::
  "addr \<Rightarrow> addr \<Rightarrow> int \<Rightarrow> int \<Rightarrow> memqueue_ins \<Rightarrow> (int \<times> memqueue_ins) option" where
  "memqueue_bind q b rv include_consumers ins =
     (case calloc ins of
        (None, ins) \<Rightarrow> Some (- 1, ins)
      | (Some t, ins) \<Rightarrow>
          do {
            let ins = ins\<lparr>binders := (binders ins)(t \<mapsto> \<lparr>b_rev = rv, b_memqueue = q,
                            b_cli_binder = b, b_include_consumers = include_consumers\<rparr>)\<rparr>;
            ins \<leftarrow> upd_cli b (\<lambda>cb. cb\<lparr>cb_memqueues := t # cb_memqueues cb\<rparr>) ins;
            ins \<leftarrow> upd_queue q (\<lambda>mq. mq\<lparr>q_memqueue_binders := t # q_memqueue_binders mq\<rparr>) ins;
            Some (0, ins)
          })"

text \<open>\<open>LIST_REMOVE\<close> of a binding needs the queue, whose list it is in, to be live.\<close>

fun unbind_loop :: "addr \<Rightarrow> addr list \<Rightarrow> memqueue_ins \<Rightarrow> memqueue_ins option" where
  "unbind_loop b [] ins = Some ins"
| "unbind_loop b (t # ts) ins =
     do {
       bd \<leftarrow> binders ins t;
       ins \<leftarrow> upd_cli b (\<lambda>cb. cb\<lparr>cb_memqueues := remove1 t (cb_memqueues cb)\<rparr>) ins;
       ins \<leftarrow> upd_queue (b_memqueue bd)
               (\<lambda>mq. mq\<lparr>q_memqueue_binders := remove1 t (q_memqueue_binders mq)\<rparr>) ins;
       unbind_loop b ts ins
     }"

definition memqueue_unbind_all :: "addr \<Rightarrow> memqueue_ins \<Rightarrow> memqueue_ins option" where
  "memqueue_unbind_all b ins =
     do { cb \<leftarrow> cli_binders ins b; unbind_loop b (cb_memqueues cb) ins }"

subsection \<open>Messages\<close>

text \<open>The \<open>LIST_FOREACH\<close> over the pollers bound to a queue, for a new message.\<close>

fun deliver_loop :: "int \<Rightarrow> addr \<Rightarrow> addr list \<Rightarrow> memqueue_ins \<Rightarrow> memqueue_ins option" where
  "deliver_loop rv m [] ins = Some ins"
| "deliver_loop rv m (t # ts) ins =
     do {
       bd \<leftarrow> binders ins t;
       if b_rev bd \<le> rv then
         do {
           (_, ins) \<leftarrow> cli_binder_enqueue_msg (b_cli_binder bd) m ins;
           ins \<leftarrow> cli_wakeup (b_cli_binder bd) ins;
           deliver_loop rv m ts ins
         }
       else deliver_loop rv m ts ins
     }"

text \<open>The message object before it is scheduled.\<close>

definition new_msg :: "memqueue \<Rightarrow> addr \<Rightarrow> int \<Rightarrow> string \<Rightarrow> 64 word \<Rightarrow> 64 word \<Rightarrow> msg" where
  "new_msg mq q msecs data data_len msg_id =
     \<lparr>m_data = data, m_data_len = data_len, m_ref_count = 0, m_rev = q_rev mq, m_new = 1,
      m_memqueue = q, m_expiry_next = None, m_expiry = msecs, m_expiry_node = None,
      m_msg_id = msg_id\<rparr>"

text \<open>
  The retains of a new message: by its deadline when it has one, for ever when \<open>msecs\<close> is \<open>-1\<close>.
\<close>

definition msg_sched :: "addr \<Rightarrow> int \<Rightarrow> memqueue_ins \<Rightarrow> memqueue_ins option" where
  "msg_sched m msecs ins =
     do {
       ins \<leftarrow> (if msecs > 0 then
                 do {
                   ins \<leftarrow> obj_sched_expire ins m (word_of_int msecs) MSG_TYPE;
                   memqueue_msg_retain m ins
                 }
               else Some ins);
       (if msecs = - 1 then memqueue_msg_retain m ins else Some ins)
     }"

definition memqueue_msg_create ::
  "addr \<Rightarrow> int \<Rightarrow> string \<Rightarrow> 64 word \<Rightarrow> memqueue_ins \<Rightarrow> (int \<times> memqueue_ins) option" where
  "memqueue_msg_create q msecs data data_len ins =
     (case calloc ins of
        (None, ins) \<Rightarrow> Some (- 1, ins)
      | (Some _, ins) \<Rightarrow>
          (case calloc ins of
             (None, ins) \<Rightarrow> Some (- 1, ins)
           | (Some m, ins) \<Rightarrow>
               do {
                 mq \<leftarrow> queues ins q;
                 rv \<leftarrow> int_incr (q_rev mq);
                 let mq = mq\<lparr>q_rev := rv\<rparr>;
                 let msg_id = unique_msg_id ins + 1;
                 let ins = ins\<lparr>queues := (queues ins)(q \<mapsto> mq), unique_msg_id := msg_id,
                               msgs := (msgs ins)(m \<mapsto> new_msg mq q msecs data data_len msg_id)\<rparr>;
                 ins \<leftarrow> msg_sched m msecs ins;
                 mq \<leftarrow> queues ins q;
                 n \<leftarrow> int_incr (q_msgs_in_queue mq);
                 ins \<leftarrow> upd_queue q (\<lambda>mq. mq\<lparr>q_msg_queue := q_msg_queue mq @ [m],
                                          q_msgs_in_queue := n\<rparr>) ins;
                 ins \<leftarrow> deliver_loop (q_rev mq) m (q_memqueue_binders mq) ins;
                 Some (0, ins)
               }))"

subsection \<open>Consumers\<close>

definition memqueue_free_consumer :: "addr \<Rightarrow> memqueue_ins \<Rightarrow> memqueue_ins option" where
  "memqueue_free_consumer c ins =
     do {
       cn \<leftarrow> consumers ins c;
       mq \<leftarrow> queues ins (c_memqueue cn);
       (_, h) \<leftarrow> h_remove (q_consumers mq) (c_consumer_id cn);
       ins \<leftarrow> upd_queue (c_memqueue cn) (q_consumers_update (\<lambda>_. h)) ins;
       Some (ins\<lparr>consumers := (consumers ins)(c := None)\<rparr>)
     }"

definition consumer_expired :: "addr \<Rightarrow> memqueue_ins \<Rightarrow> memqueue_ins option" where
  "consumer_expired c ins =
     do {
       cn \<leftarrow> consumers ins c;
       let tmp = c_consumer_id cn @ '':expired'';
       (_, ins) \<leftarrow> memqueue_msg_create (c_memqueue cn) 2000 tmp (of_nat (length tmp)) ins;
       ins \<leftarrow> memqueue_release (c_memqueue cn) ins;
       memqueue_free_consumer c ins
     }"

text \<open>Insertion into a hash table of the heap, with the next allocation for its item.\<close>

definition heap_insert ::
  "addr h_hash \<Rightarrow> cstring \<Rightarrow> addr \<Rightarrow> memqueue_ins \<Rightarrow> (addr h_hash \<times> memqueue_ins) option" where
  "heap_insert h key v ins =
     do {
       present \<leftarrow> h_get h key;
       (case present of
          Some _ \<Rightarrow> Some (h, ins)
        | None \<Rightarrow>
            (case calloc ins of
               (item, ins) \<Rightarrow> do { (_, h) \<leftarrow> h_insert (item \<noteq> None) h key v; Some (h, ins) }))
     }"

definition memqueue_refresh_consumer :: "addr \<Rightarrow> cstring \<Rightarrow> memqueue_ins \<Rightarrow> memqueue_ins option" where
  "memqueue_refresh_consumer q consumer_id ins =
     do {
       mq \<leftarrow> queues ins q;
       found \<leftarrow> h_get (q_consumers mq) consumer_id;
       (case found of
          Some c \<Rightarrow> consumer_resched ins c
        | None \<Rightarrow>
            (case calloc ins of
               (None, ins) \<Rightarrow> Some ins
             | (Some c, ins) \<Rightarrow>
                 (case calloc ins of
                    (None, ins) \<Rightarrow> Some ins
                  | (Some _, ins) \<Rightarrow>
                      do {
                        let ins = ins\<lparr>consumers := (consumers ins)(c \<mapsto>
                              \<lparr>c_consumer_id = consumer_id, c_expiry = q_consumer_expiry mq,
                               c_expiry_node = None, c_memqueue = q, c_expiry_next = None\<rparr>)\<rparr>;
                        (h, ins) \<leftarrow> heap_insert (q_consumers mq) consumer_id c ins;
                        ins \<leftarrow> upd_queue q (q_consumers_update (\<lambda>_. h)) ins;
                        let tmp = consumer_id @ '':joined'';
                        (_, ins) \<leftarrow> memqueue_msg_create q 2000 tmp (of_nat (length tmp)) ins;
                        ins \<leftarrow> memqueue_retain q ins;
                        obj_sched_expire ins c (q_consumer_expiry mq) CONSUMER_TYPE
                      })))
     }"

end
