(* ===== verification/Memqueue_Handlers.thy ===== *)
theory Memqueue_Handlers
  imports Memqueue Args
begin

text \<open>
  The second half of \<open>src/src/memqueue.c\<close>: the expiry of objects (with \<open>objs_expire\<close> of
  \<open>memqueue_expiry.c\<close>) and the cleaner, the JSON responses, polling, and the handlers that the
  router calls. A handler returns the response it sent, if any, its return value and the new
  state.
\<close>

subsection \<open>Expiry\<close>

text \<open>
  \<open>x->expiry_node = NULL\<close> after the object was released: when the release freed the object, this
  is a write to freed memory, which is recorded.
\<close>

definition clear_expiry_node :: "obj_type \<Rightarrow> addr \<Rightarrow> memqueue_ins \<Rightarrow> memqueue_ins" where
  "clear_expiry_node type obj ins =
     (case set_expiry_node type obj None ins of
        Some ins \<Rightarrow> ins
      | None \<Rightarrow> ins\<lparr>freed_writes := freed_writes ins @ [obj]\<rparr>)"

definition obj_expired :: "obj_type \<Rightarrow> addr \<Rightarrow> memqueue_ins \<Rightarrow> memqueue_ins option" where
  "obj_expired type obj ins =
     (case type of
        MSG_TYPE \<Rightarrow> memqueue_msg_release obj ins
      | MEMQUEUE_TYPE \<Rightarrow> memqueue_release obj ins
      | CONSUMER_TYPE \<Rightarrow> consumer_expired obj ins)"

text \<open>The \<open>LIST_FOREACH_SAFE\<close> loops over the objects of an expired node.\<close>

fun expire_list :: "obj_type \<Rightarrow> addr list \<Rightarrow> memqueue_ins \<Rightarrow> memqueue_ins option" where
  "expire_list type [] ins = Some ins"
| "expire_list type (obj # rest) ins =
     do {
       ins \<leftarrow> expiry_unlink type obj ins;
       ins \<leftarrow> obj_expired type obj ins;
       expire_list type rest (clear_expiry_node type obj ins)
     }"

text \<open>
  The walk of \<open>objs_expire\<close>: from the root along the left pointers, the next node being read before
  the current one is freed.
\<close>

partial_function (option) objs_expire_loop ::
  "obj_type \<Rightarrow> 32 word \<Rightarrow> addr option \<Rightarrow> memqueue_ins \<Rightarrow> memqueue_ins option" where
  "objs_expire_loop type t_diff_msecs node ins =
     (case node of
        None \<Rightarrow> Some ins
      | Some a \<Rightarrow>
          do {
            n \<leftarrow> rb ins a;
            data \<leftarrow> enodes ins a;
            if en_msecs data \<le> t_diff_msecs then
              do {
                ins \<leftarrow> expire_list type (en_objs type data) ins;
                (_, ins) \<leftarrow> possibly_node_free a type ins;
                objs_expire_loop type t_diff_msecs (rb_left n) ins
              }
            else objs_expire_loop type t_diff_msecs (rb_left n) ins
          })"

declare objs_expire_loop.simps [code]

definition objs_expire :: "obj_type \<Rightarrow> memqueue_ins \<Rightarrow> memqueue_ins option" where
  "objs_expire type ins =
     do {
       t \<leftarrow> tick_diff_msecs (birth ins) (now ins);
       objs_expire_loop type (ucast t) (exp_root type ins) ins
     }"

text \<open>One round of the endless loop of \<open>obj_cleaner\<close>, after its wait: how long to sleep next.\<close>

definition obj_cleaner_round :: "memqueue_ins \<Rightarrow> (32 word \<times> memqueue_ins) option" where
  "obj_cleaner_round ins =
     do {
       ins \<leftarrow> objs_expire MSG_TYPE ins;
       ins \<leftarrow> objs_expire MEMQUEUE_TYPE ins;
       ins \<leftarrow> objs_expire CONSUMER_TYPE ins;
       sleep \<leftarrow> sched_get_min_timeout ins;
       Some (sleep, ins)
     }"

subsection \<open>Responses\<close>

text \<open>The table \<open>memqueue_ret\<close>; it has no entry for \<open>MEMQUEUE_OK\<close>.\<close>

fun ret_entry :: "memqueue_ret \<Rightarrow> (int \<times> cstring \<times> cstring) option" where
  "ret_entry MEMQUEUE_NOT_FOUND = Some (404, ''MEMQUEUE_NOT_FOUND'', ''memqueue not found'')"
| "ret_entry MEMQUEUE_CREATED = Some (200, ''MEMQUEUE_CREATED'', ''memqueue created successfully'')"
| "ret_entry MEMQUEUE_EXISTS = Some (200, ''MEMQUEUE_EXISTS'', ''memqueue already exists'')"
| "ret_entry MEMQUEUE_MSG_ADDED = Some (200, ''MEMQUEUE_MSG_ADDED'', ''message added successfully'')"
| "ret_entry MEMQUEUE_TIMEOUT = Some (408, ''MEMQUEUE_TIMEOUT'', ''poll timed out'')"
| "ret_entry MEMQUEUE_MSGS = Some (200, ''MEMQUEUE_MSGS'', [])"
| "ret_entry MEMQUEUE_QUEUE_INFO = Some (200, ''MEMQUEUE_QUEUE_INFO'', ''Queue information'')"
| "ret_entry MEMQUEUE_DELETED = Some (200, ''MEMQUEUE_DELETED'', ''memqueue deleted successfully'')"
| "ret_entry MEMQUEUE_FULL = Some (200, ''MEMQUEUE_FULL'', ''memqueue is full.'')"
| "ret_entry MEMQUEUE_OK = None"

type_synonym response = "int \<times> json"

text \<open>The search for a binding of the poller to the queue that includes the consumers.\<close>

fun wants_consumers :: "addr \<Rightarrow> addr list \<Rightarrow> memqueue_ins \<Rightarrow> bool option" where
  "wants_consumers q [] ins = Some False"
| "wants_consumers q (t # ts) ins =
     do {
       bd \<leftarrow> binders ins t;
       if b_memqueue bd = q \<and> b_include_consumers bd \<noteq> 0 then Some True
       else wants_consumers q ts ins
     }"

text \<open>The array of the consumers' names, and the hash table with its cursor moved.\<close>

definition consumers_json :: "addr h_hash \<Rightarrow> (json \<times> addr h_hash) option" where
  "consumers_json h =
     do {
       (items, h) \<leftarrow> h_traverse (Suc (length (order_head h))) h;
       Some (JArray (map (\<lambda>(k, _). json_object_new_string k) items), h)
     }"

text \<open>The object of a queue that has no object in the result yet.\<close>

definition queue_json :: "addr list \<Rightarrow> addr \<Rightarrow> memqueue_ins \<Rightarrow> (json \<times> memqueue_ins) option" where
  "queue_json bs q ins =
     do {
       mq \<leftarrow> queues ins q;
       obj \<leftarrow> json_object_object_add json_object_new_object ''messages'' json_object_new_array;
       obj \<leftarrow> json_object_object_add obj ''rev'' (json_object_new_int (q_rev mq));
       include \<leftarrow> wants_consumers q bs ins;
       if include then
         do {
           (arr, h) \<leftarrow> consumers_json (q_consumers mq);
           ins \<leftarrow> upd_queue q (q_consumers_update (\<lambda>_. h)) ins;
           obj \<leftarrow> json_object_object_add obj ''consumers'' arr;
           Some (obj, ins)
         }
       else Some (obj, ins)
     }"

text \<open>One round of the loop over the pending messages.\<close>

definition add_pending :: "addr list \<Rightarrow> addr \<Rightarrow> json \<Rightarrow> memqueue_ins \<Rightarrow> (json \<times> memqueue_ins) option" where
  "add_pending bs m resp ins =
     do {
       x \<leftarrow> msgs ins m;
       mq \<leftarrow> queues ins (m_memqueue x);
       found \<leftarrow> json_object_object_get resp (q_q_id mq);
       (resp, ins) \<leftarrow>
         (case found of
            None \<Rightarrow>
              do {
                (obj, ins) \<leftarrow> queue_json bs (m_memqueue x) ins;
                resp \<leftarrow> json_object_object_add resp (q_q_id mq) obj;
                Some (resp, ins)
              }
          | Some _ \<Rightarrow> Some (resp, ins));
       if m_data_len x < 2 ^ 31 then
         do {
           resp \<leftarrow> object_modify resp (q_q_id mq) (\<lambda>obj. object_modify obj ''messages''
                     (\<lambda>arr. json_object_array_add arr
                        (json_object_new_string_len (m_data x) (unat (m_data_len x)))));
           Some (resp, ins)
         }
       else None
     }"

fun result_loop :: "addr list \<Rightarrow> addr list \<Rightarrow> json \<Rightarrow> memqueue_ins \<Rightarrow> (json \<times> memqueue_ins) option" where
  "result_loop bs [] resp ins = Some (resp, ins)"
| "result_loop bs (m # ms) resp ins =
     do { (resp, ins) \<leftarrow> add_pending bs m resp ins; result_loop bs ms resp ins }"

definition memqueue_create_result :: "addr \<Rightarrow> memqueue_ins \<Rightarrow> (json \<times> memqueue_ins) option" where
  "memqueue_create_result b ins =
     do {
       cb \<leftarrow> cli_binders ins b;
       result_loop (cb_memqueues cb) (cb_pending_msgs cb) json_object_new_object ins
     }"

text \<open>
  The cases of the \<open>switch\<close>; \<open>MEMQUEUE_MSG_ADDED\<close> falls through to \<open>MEMQUEUE_QUEUE_INFO\<close>. The
  argument is the queue or the poller.
\<close>

definition respond_body ::
  "memqueue_ret \<Rightarrow> addr option \<Rightarrow> cstring \<Rightarrow> json \<Rightarrow> memqueue_ins \<Rightarrow> (json \<times> memqueue_ins) option" where
  "respond_body ret ptr ret_desc resp ins =
     (if ret \<in> {MEMQUEUE_NOT_FOUND, MEMQUEUE_EXISTS, MEMQUEUE_TIMEOUT, MEMQUEUE_FULL} then
        do {
          resp \<leftarrow> json_object_object_add resp ''error'' (json_object_new_string ret_desc);
          Some (resp, ins)
        }
      else if ret = MEMQUEUE_MSGS then
        do {
          b \<leftarrow> ptr;
          (results, ins) \<leftarrow> memqueue_create_result b ins;
          resp \<leftarrow> json_object_object_add resp ''results'' results;
          Some (resp, ins)
        }
      else if ret \<in> {MEMQUEUE_MSG_ADDED, MEMQUEUE_QUEUE_INFO} then
        do {
          q \<leftarrow> ptr;
          mq \<leftarrow> queues ins q;
          resp \<leftarrow>
            (if ret = MEMQUEUE_MSG_ADDED then
               do {
                 resp \<leftarrow> json_object_object_add resp ''ret_desc'' (json_object_new_string ret_desc);
                 json_object_object_add resp ''rev'' (json_object_new_int (q_rev mq))
               }
             else Some resp);
          resp \<leftarrow> json_object_object_add resp ''ret_desc'' (json_object_new_string ret_desc);
          resp \<leftarrow> json_object_object_add resp ''rev'' (json_object_new_int (q_rev mq));
          resp \<leftarrow> json_object_object_add resp ''msgs_in_queue'' (json_object_new_int (q_msgs_in_queue mq));
          Some (resp, ins)
        }
      else Some (resp, ins))"

definition memqueue_respond ::
  "memqueue_ret \<Rightarrow> addr option \<Rightarrow> memqueue_ins \<Rightarrow> (response \<times> memqueue_ins) option" where
  "memqueue_respond ret ptr ins =
     do {
       (resp_code, ret_str, ret_desc) \<leftarrow> ret_entry ret;
       resp \<leftarrow> json_object_object_add json_object_new_object ''version''
                 (json_object_new_string ''memqueue 1.0'');
       resp \<leftarrow> json_object_object_add resp ''ret'' (json_object_new_string ret_str);
       (resp, ins) \<leftarrow> respond_body ret ptr ret_desc resp ins;
       Some ((resp_code, resp), ins)
     }"

subsection \<open>Queues\<close>

definition is_memqueue_full :: "addr \<Rightarrow> memqueue_ins \<Rightarrow> (int \<times> memqueue_ins) option" where
  "is_memqueue_full q ins =
     do {
       mq \<leftarrow> queues ins q;
       if q_max_size mq \<le> 0 then Some (0, ins)
       else if q_max_size mq > q_msgs_in_queue mq then Some (0, ins)
       else if q_max_size mq \<noteq> 0 \<and> q_msgs_in_queue mq \<ge> q_max_size mq \<and> q_drop_from_head mq \<noteq> 0 then
         do {
           m \<leftarrow> (case q_msg_queue mq of [] \<Rightarrow> None | m # _ \<Rightarrow> Some m);
           ins \<leftarrow> memqueue_msg_retain m ins;
           mq \<leftarrow> queues ins q;
           m \<leftarrow> (case q_msg_queue mq of [] \<Rightarrow> None | m # _ \<Rightarrow> Some m);
           ins \<leftarrow> memqueue_msg_release m ins;
           Some (0, ins)
         }
       else Some (1, ins)
     }"

text \<open>\<open>h_init\<close> with the next two allocations.\<close>

definition heap_h_init :: "32 word \<Rightarrow> memqueue_ins \<Rightarrow> addr h_hash option \<times> memqueue_ins" where
  "heap_h_init sz ins =
     (case calloc ins of
        (None, ins) \<Rightarrow> (None, ins)
      | (Some _, ins) \<Rightarrow> (case calloc ins of (b, ins) \<Rightarrow> (h_init True (b \<noteq> None) sz, ins)))"

text \<open>The new queue as \<open>memqueue_create\<close> fills it in.\<close>

definition new_queue :: "memqueue_create_args \<Rightarrow> cstring \<Rightarrow> addr h_hash \<Rightarrow> memqueue" where
  "new_queue args qid cons =
     \<lparr>q_rev = 0, q_ref_count = 0, q_max_size = ca_max_size args,
      q_drop_from_head = ca_drop_from_head args, q_q_id = qid, q_msg_queue = [],
      q_memqueue_binders = [], q_expiry_next = None, q_expiry = ca_expiry args,
      q_consumer_expiry = ca_consumer_expiry args, q_consumers = cons, q_expiry_node = None,
      q_msgs_in_queue = 0\<rparr>"

definition memqueue_create :: "memqueue_create_args \<Rightarrow> memqueue_ins \<Rightarrow> (addr option \<times> memqueue_ins) option" where
  "memqueue_create args ins =
     (case calloc ins of
        (None, ins) \<Rightarrow> Some (None, ins)
      | (Some q, ins) \<Rightarrow>
          (case heap_h_init 128 ins of
             (None, ins) \<Rightarrow> Some (None, ins)
           | (Some cons, ins) \<Rightarrow>
               do {
                 qid \<leftarrow> ca_q_id args;
                 (case calloc ins of
                    (None, ins) \<Rightarrow> Some (None, ins)
                  | (Some _, ins) \<Rightarrow>
                      do {
                        let ins = ins\<lparr>queues := (queues ins)(q \<mapsto> new_queue args qid cons)\<rparr>;
                        ins \<leftarrow> (if ca_expiry args > 0
                                then obj_sched_expire ins q (ca_expiry args) MEMQUEUE_TYPE
                                else Some ins);
                        ins \<leftarrow> memqueue_retain q ins;
                        (store, ins) \<leftarrow> heap_insert (queue_store ins) qid q ins;
                        Some (Some q, ins\<lparr>queue_store := store\<rparr>)
                      })
               }))"

subsection \<open>Polling\<close>

text \<open>
  The loop over the requested queues: how many were found, and how many of their messages match.
  A missing queue name is a \<open>NULL\<close> passed to \<open>h_get\<close>.
\<close>

definition poll_one :: "addr option \<Rightarrow> queue_arg \<Rightarrow> memqueue_ins \<Rightarrow> (int \<times> int \<times> memqueue_ins) option" where
  "poll_one b a ins =
     do {
       qid \<leftarrow> qa_q_id a;
       found \<leftarrow> h_get (queue_store ins) qid;
       (case found of
          None \<Rightarrow> Some (0, 0, ins)
        | Some q \<Rightarrow>
            do {
              mq \<leftarrow> queues ins q;
              ins \<leftarrow> (case qa_consumer_id a of
                        Some cid \<Rightarrow> if q_consumer_expiry mq \<noteq> 0
                                    then memqueue_refresh_consumer q cid ins else Some ins
                      | None \<Rightarrow> Some ins);
              ins \<leftarrow> memqueue_resched ins q;
              mq \<leftarrow> queues ins q;
              let rv = (if q_rev mq < qa_rev a then - 1 else qa_rev a);
              b \<leftarrow> b;
              (_, ins) \<leftarrow> memqueue_bind q b rv (qa_include_consumers a) ins;
              (n, ins) \<leftarrow> cli_binder_enqueue_msgs b q rv (qa_latest a) ins;
              Some (1, n, ins)
            })
     }"

fun poll_loop ::
  "addr option \<Rightarrow> queue_arg list \<Rightarrow> int \<Rightarrow> int \<Rightarrow> memqueue_ins \<Rightarrow> (int \<times> int \<times> memqueue_ins) option" where
  "poll_loop b [] bound n ins = Some (bound, n, ins)"
| "poll_loop b (a # as) bound n ins =
     do {
       (k, j, ins) \<leftarrow> poll_one b a ins;
       poll_loop b as (bound + k) (n + j) ins
     }"

text \<open>What a request comes to: an answer, or a poller that waits with a timeout.\<close>

datatype outcome = Answered response | Waiting addr

text \<open>After the wait, or at once when there are messages.\<close>

definition memqueue_poll_finish :: "addr \<Rightarrow> memqueue_ins \<Rightarrow> (response \<times> memqueue_ins) option" where
  "memqueue_poll_finish b ins =
     do {
       pending \<leftarrow> cli_binder_has_pending_msgs b ins;
       (resp, ins) \<leftarrow> (if pending then memqueue_respond MEMQUEUE_MSGS (Some b) ins
                      else memqueue_respond MEMQUEUE_TIMEOUT None ins);
       ins \<leftarrow> memqueue_unbind_all b ins;
       ins \<leftarrow> cli_binder_release_pending_msgs b ins;
       ins \<leftarrow> cli_binder_free (Some b) ins;
       Some (resp, ins)
     }"

definition memqueue_poll_queue :: "poll_args \<Rightarrow> memqueue_ins \<Rightarrow> (outcome \<times> memqueue_ins) option" where
  "memqueue_poll_queue user_args ins =
     (case cli_binder_create (word_of_int (pa_timeout user_args)) ins of
        (b, ins) \<Rightarrow>
          do {
            (bound, n, ins) \<leftarrow>
              (if nat (pa_total user_args) \<le> length (queue_args user_args)
               then poll_loop b (take (nat (pa_total user_args)) (queue_args user_args)) 0 0 ins
               else None);
            if bound = 0 then
              do {
                ins \<leftarrow> cli_binder_free b ins;
                (resp, ins) \<leftarrow> memqueue_respond MEMQUEUE_NOT_FOUND None ins;
                Some (Answered resp, ins)
              }
            else
              do {
                b \<leftarrow> b;
                if n = 0 then Some (Waiting b, ins)
                else do { (resp, ins) \<leftarrow> memqueue_poll_finish b ins; Some (Answered resp, ins) }
              }
          })"

subsection \<open>Handlers\<close>

text \<open>
  A handler gets the arguments of the path, the query string and the body of the request. The
  return value tells the router to go on with the next route when it is \<open>-2\<close>.
\<close>

type_synonym args = "cstring h_hash option"
type_synonym query = "cstring \<Rightarrow> cstring option"
type_synonym handled = "(outcome option \<times> int \<times> memqueue_ins) option"

text \<open>\<open>h_get(args, name)\<close> by a handler; the argument table may be \<open>NULL\<close>.\<close>

definition path_arg :: "args \<Rightarrow> cstring \<Rightarrow> cstring option option" where
  "path_arg args name = do { h \<leftarrow> args; h_get h name }"

definition on_queue_create :: "args \<Rightarrow> query \<Rightarrow> memqueue_ins \<Rightarrow> handled" where
  "on_queue_create args qs ins =
     do {
       user_args \<leftarrow> args_memqueue_create_populate qs args;
       qid \<leftarrow> ca_q_id user_args;
       found \<leftarrow> h_get (queue_store ins) qid;
       (case found of
          Some _ \<Rightarrow>
            do {
              (resp, ins) \<leftarrow> memqueue_respond MEMQUEUE_EXISTS None ins;
              Some (Some (Answered resp), 0, ins)
            }
        | None \<Rightarrow>
            do {
              (_, ins) \<leftarrow> memqueue_create user_args ins;
              (resp, ins) \<leftarrow> memqueue_respond MEMQUEUE_CREATED None ins;
              Some (Some (Answered resp), 0, ins)
            })
     }"

definition on_msg_post :: "args \<Rightarrow> query \<Rightarrow> string \<Rightarrow> memqueue_ins \<Rightarrow> handled" where
  "on_msg_post args qs body ins =
     do {
       q_id \<leftarrow> path_arg args ''q_id'';
       let expiry = (case qs ''expiry'' of Some s \<Rightarrow> atoi s | None \<Rightarrow> 0);
       qid \<leftarrow> q_id;
       found \<leftarrow> h_get (queue_store ins) qid;
       (case found of
          None \<Rightarrow>
            do {
              (resp, ins) \<leftarrow> memqueue_respond MEMQUEUE_NOT_FOUND None ins;
              Some (Some (Answered resp), 0, ins)
            }
        | Some q \<Rightarrow>
            do {
              (full, ins) \<leftarrow> is_memqueue_full q ins;
              (resp, ins) \<leftarrow>
                (if full \<noteq> 1 then
                   do {
                     (_, ins) \<leftarrow> memqueue_msg_create q expiry body (of_nat (length body)) ins;
                     memqueue_respond MEMQUEUE_MSG_ADDED (Some q) ins
                   }
                 else memqueue_respond MEMQUEUE_FULL None ins);
              ins \<leftarrow> memqueue_resched ins q;
              Some (Some (Answered resp), 0, ins)
            })
     }"

definition on_queue_info :: "args \<Rightarrow> memqueue_ins \<Rightarrow> handled" where
  "on_queue_info args ins =
     do {
       q_id \<leftarrow> path_arg args ''q_id'';
       qid \<leftarrow> q_id;
       found \<leftarrow> h_get (queue_store ins) qid;
       (resp, ins) \<leftarrow> (case found of
                         None \<Rightarrow> memqueue_respond MEMQUEUE_NOT_FOUND None ins
                       | Some q \<Rightarrow> memqueue_respond MEMQUEUE_QUEUE_INFO (Some q) ins);
       Some (Some (Answered resp), 0, ins)
     }"

definition on_queue_delete :: "args \<Rightarrow> memqueue_ins \<Rightarrow> handled" where
  "on_queue_delete args ins =
     do {
       q_id \<leftarrow> path_arg args ''q_id'';
       qid \<leftarrow> q_id;
       found \<leftarrow> h_get (queue_store ins) qid;
       (case found of
          None \<Rightarrow>
            do {
              (resp, ins) \<leftarrow> memqueue_respond MEMQUEUE_NOT_FOUND None ins;
              Some (Some (Answered resp), 0, ins)
            }
        | Some q \<Rightarrow>
            do {
              (resp, ins) \<leftarrow> memqueue_respond MEMQUEUE_DELETED None ins;
              ins \<leftarrow> memqueue_release q ins;
              Some (Some (Answered resp), 0, ins)
            })
     }"

text \<open>\<open>on_serv_file\<close> returns before it serves anything.\<close>

definition on_serv_file :: "args \<Rightarrow> memqueue_ins \<Rightarrow> handled" where
  "on_serv_file args ins = do { _ \<leftarrow> path_arg args ''filename''; Some (None, - 2, ins) }"

definition on_queue_poll :: "args \<Rightarrow> query \<Rightarrow> memqueue_ins \<Rightarrow> handled" where
  "on_queue_poll args qs ins =
     do {
       user_args \<leftarrow> args_memqueue_poll_populate qs args;
       (out, ins) \<leftarrow> memqueue_poll_queue user_args ins;
       Some (Some out, 0, ins)
     }"

definition on_multi_queue_poll :: "args \<Rightarrow> query \<Rightarrow> memqueue_ins \<Rightarrow> handled" where
  "on_multi_queue_poll args qs ins =
     do {
       user_args \<leftarrow> args_memqueue_poll_populate qs None;
       (out, ins) \<leftarrow> memqueue_poll_queue user_args ins;
       Some (Some out, 0, ins)
     }"

text \<open>\<open>memqueue_init\<close>: the store and the birth of the clock; the routes are in the router's theory.\<close>

definition memqueue_init :: "memqueue_ins \<Rightarrow> (int \<times> memqueue_ins)" where
  "memqueue_init ins =
     (case heap_h_init 128 ins of
        (None, ins) \<Rightarrow> (- 1, ins)
      | (Some h, ins) \<Rightarrow> (0, ins\<lparr>queue_store := h, birth := now ins\<rparr>))"

end
