(* ===== verification/Server.thy ===== *)
theory Server
  imports Router Json_Print Memqueue_Handlers
begin

text \<open>
  The whole server: the handlers of \<open>memqueue.c\<close> behind the router, with their answers printed as JSON
  and sent by the HTTP layer. A poll that waits gives up the processor: \<open>env\<close> stands for what the
  other threads do to the server until it is woken up or times out. Memory for the text of an
  answer is taken to be there, and writing an answer is taken not to block.
\<close>

datatype handler =
  H_serv_file | H_queue_poll | H_multi_queue_poll | H_queue_create | H_msg_post | H_queue_delete | H_queue_info

text \<open>The registrations of \<open>memqueue_init\<close>, in their order.\<close>

definition memqueue_routes :: "(cstring \<times> cstring \<times> handler) list" where
  "memqueue_routes =
     [(''GET'', ''/(?<filename>.+)/?'', H_serv_file),
      (''GET'', ''/(?<q_id>.+)/?'', H_queue_poll),
      (''GET'', ''/mpoll/?'', H_multi_queue_poll),
      (''PUT'', ''/(?<q_id>.+)/?'', H_queue_create),
      (''POST'', ''/(?<q_id>.*)/?'', H_msg_post),
      (''DELETE'', ''/(?<q_id>.*)/?'', H_queue_delete),
      (''HEAD'', ''/(?<q_id>.*)/?'', H_queue_info)]"

definition server_routes :: "(cstring \<Rightarrow> 're option) \<Rightarrow> ('re, handler) http_routes" where
  "server_routes compile =
     foldl (\<lambda>routes (method, path, cb). snd (http_route_on compile True method path cb routes))
       http_route_init memqueue_routes"

text \<open>The last step of \<open>memqueue_respond\<close>: the text of the answer and its length go to \<open>http_respond\<close>.\<close>

definition send_response :: "response \<Rightarrow> http_cli \<Rightarrow> http_cli option" where
  "send_response r c =
     do {
       s \<leftarrow> json_object_to_json_string [] (snd r);
       s \<leftarrow> s;
       (_, c) \<leftarrow> http_respond (fst r) (Some s) (of_nat (length s)) c;
       Some c
     }"

text \<open>An outcome: an answer is sent, a waiting poll is finished in the state the others leave.\<close>

definition finish ::
  "(memqueue_ins \<Rightarrow> memqueue_ins) \<Rightarrow> outcome option \<Rightarrow> http_cli \<Rightarrow> memqueue_ins \<Rightarrow> (http_cli \<times> memqueue_ins) option" where
  "finish env out c ins =
     (case out of
        None \<Rightarrow> Some (c, ins)
      | Some (Answered r) \<Rightarrow> do { c \<leftarrow> send_response r c; Some (c, ins) }
      | Some (Waiting b) \<Rightarrow>
          do { (r, ins) \<leftarrow> memqueue_poll_finish b (env ins); c \<leftarrow> send_response r c; Some (c, ins) })"

text \<open>The body of a request as the handlers read it, with \<open>http_get_body\<close> and \<open>http_get_body_len\<close>.\<close>

definition request_body :: "http_cli \<Rightarrow> char list option" where
  "request_body c =
     (let n = unat (http_get_body_len c) in
      if n = 0 then Some []
      else do { b \<leftarrow> http_get_body c; if n \<le> length b then Some (take n b) else None })"

text \<open>The arguments of the query string; a lookup in a table of the HTTP layer is defined.\<close>

definition request_query :: "http_cli \<Rightarrow> query" where
  "request_query c = (\<lambda>name. case http_get_querystring c name of Some v \<Rightarrow> v | None \<Rightarrow> None)"

definition call_handler ::
  "(memqueue_ins \<Rightarrow> memqueue_ins) \<Rightarrow> handler \<Rightarrow> args \<Rightarrow> http_cli \<Rightarrow> memqueue_ins \<Rightarrow>
   (int \<times> http_cli \<times> memqueue_ins) option" where
  "call_handler env h args c ins =
     do {
       body \<leftarrow> request_body c;
       (out, ret, ins) \<leftarrow>
         (case h of
            H_serv_file \<Rightarrow> on_serv_file args ins
          | H_queue_poll \<Rightarrow> on_queue_poll args (request_query c) ins
          | H_multi_queue_poll \<Rightarrow> on_multi_queue_poll args (request_query c) ins
          | H_queue_create \<Rightarrow> on_queue_create args (request_query c) ins
          | H_msg_post \<Rightarrow> on_msg_post args (request_query c) body ins
          | H_queue_delete \<Rightarrow> on_queue_delete args ins
          | H_queue_info \<Rightarrow> on_queue_info args ins);
       (c, ins) \<leftarrow> finish env out c ins;
       Some (ret, c, ins)
     }"

text \<open>A request of a connection, from the parsed header to the answer.\<close>

definition serve_request ::
  "(memqueue_ins \<Rightarrow> memqueue_ins) \<Rightarrow> (cstring \<Rightarrow> 're option) \<Rightarrow> ('re \<Rightarrow> cstring \<Rightarrow> (int \<times> int) list option) \<Rightarrow>
   ('re \<Rightarrow> (nat \<times> cstring) list) \<Rightarrow> http_cli \<Rightarrow> memqueue_ins \<Rightarrow> (int \<times> http_cli \<times> memqueue_ins) option" where
  "serve_request env compile exec names c ins =
     http_route_handle_request exec names (call_handler env) (server_routes compile) c ins"

end
