(* ===== verification/Http_Props.thy ===== *)
theory Http_Props
  imports Http
begin

text \<open>
  Properties of the HTTP server: the bytes of a response, its safety whatever allocations fail,
  the query string, the header of a request as it arrives in packets, and its body.
\<close>

subsection \<open>Tables of headers\<close>

definition tbl_ok :: "'v h_hash \<Rightarrow> bool" where
  "tbl_ok h \<longleftrightarrow> h_wf h \<and> order_next h = None"

lemma tbl_traverse: "tbl_ok h \<Longrightarrow> h_traverse (Suc (length (order_head h))) h = Some (h_entries h, h)"
  unfolding tbl_ok_def by (rule h_traverse_entries) (auto simp: h_entries_def)

lemma tbl_get: "tbl_ok h \<Longrightarrow> h_get h k = Some (map_of (h_entries h) k)"
  by (simp add: tbl_ok_def hh.get_entries)

lemma h_insert_any:
  assumes "tbl_ok h"
  shows "\<exists>r h'. h_insert ok h k v = Some (r, h') \<and> tbl_ok h'"
proof -
  have wf: "h_wf h" using assms by (simp add: tbl_ok_def)
  have "\<exists>r h'. h_insert ok h k v = Some (r, h') \<and> h_wf h'"
  proof (cases ok)
    case True
    then show ?thesis using hh.ins_new [OF wf, of k v] hh.ins_old [OF wf, of k] wf by (cases "map_of (h_entries h) k") auto
  next
    case False
    then show ?thesis using h_insert_nomem [OF wf] wf by auto
  qed
  then show ?thesis using assms h_insert_cursor [of ok h k v] by (fastforce simp: tbl_ok_def)
qed

text \<open>Adding an entry never fails to return; only the table and the coming allocations change.\<close>

lemma http_h_insert_any:
  assumes "tbl_ok h"
  shows "\<exists>h' l. http_h_insert h k v c = Some (h', c\<lparr>http_oom := l\<rparr>) \<and> tbl_ok h'"
proof (cases "map_of (h_entries h) k")
  case None
  obtain r h' where "h_insert (\<not> (http_oom c \<noteq> [] \<and> hd (http_oom c))) h k v = Some (r, h')" "tbl_ok h'"
    using h_insert_any [OF assms] by blast
  then show ?thesis using None assms by (auto simp: http_h_insert_def tbl_get http_alloc_def)
next
  case (Some w)
  then show ?thesis
    using assms by (intro exI [of _ h] exI [of _ "http_oom c"]) (simp add: http_h_insert_def tbl_get)
qed

lemma http_h_insert_new:
  assumes "tbl_ok h" "http_oom c = []" "map_of (h_entries h) k = None"
  shows "\<exists>h'. http_h_insert h k v c = Some (h', c) \<and> tbl_ok h' \<and> h_entries h' = h_entries h @ [(k, v)]"
proof -
  have "h_wf h" using assms(1) by (simp add: tbl_ok_def)
  from hh.ins_new [OF this assms(3), of v]
  obtain h' where h': "h_insert True h k v = Some (0, h')" "h_wf h'" "h_entries h' = h_entries h @ [(k, v)]" by blast
  have "order_next h' = None" using h_insert_cursor [OF h'(1)] assms(1) by (simp add: tbl_ok_def)
  with h' assms show ?thesis by (simp add: http_h_insert_def tbl_get http_alloc_ok tbl_ok_def)
qed

lemma http_add_header_new:
  assumes "resp_hdrs (resp c) = Some h" "tbl_ok h" "http_oom c = []" "map_of (h_entries h) k = None"
  shows "\<exists>h'. http_add_header c k v = Some (resp_update (resp_hdrs_update (\<lambda>_. Some h')) c) \<and> tbl_ok h' \<and>
    h_entries h' = h_entries h @ [(k, v)]"
  using http_h_insert_new [OF assms(2-4), of v] assms(1) by (auto simp: http_add_header_def)

lemma http_add_header_any:
  assumes "resp_hdrs (resp c) = Some h" "tbl_ok h"
  shows "\<exists>h' l. http_add_header c k v = Some (resp_update (resp_hdrs_update (\<lambda>_. Some h')) (c\<lparr>http_oom := l\<rparr>)) \<and> tbl_ok h'"
proof -
  obtain h' l where "http_h_insert h k v c = Some (h', c\<lparr>http_oom := l\<rparr>)" "tbl_ok h'"
    using http_h_insert_any [OF assms(2)] by blast
  then show ?thesis
    using assms(1) by (intro exI [of _ h'] exI [of _ l]) (simp add: http_add_header_def)
qed

subsection \<open>Responses\<close>

text \<open>The bytes of a response.\<close>

definition response_text :: "bool \<Rightarrow> cstring \<Rightarrow> cstring \<Rightarrow> (cstring \<times> cstring) list \<Rightarrow> char list \<Rightarrow> char list" where
  "response_text v11 num reason hs body =
     (if v11 then ''HTTP/1.1 '' else ''HTTP/1.0 '') @ num @ reason @ [LF] @
     concat (map (\<lambda>(k, v). k @ '': '' @ v @ [LF]) hs) @ [LF] @ body"

lemma respcodes_num: "map_of respcodes code = Some (reason, num, keep) \<Longrightarrow> length num = 4 \<and> code \<noteq> 0"
proof -
  have "list_all (\<lambda>(code, reason, num, keep). length num = 4 \<and> code \<noteq> 0) respcodes" by (simp add: respcodes_def)
  moreover assume "map_of respcodes code = Some (reason, num, keep)"
  then have "(code, reason, num, keep) \<in> set respcodes" by (rule map_of_SomeD)
  ultimately show ?thesis by (auto simp: list_all_iff)
qed

lemma concat_iovecs:
  "concat (concat (map (\<lambda>(k, v). [k, '': '', v, [LF]]) hs)) = concat (map (\<lambda>(k, v). k @ '': '' @ v @ [LF]) hs)"
  by (induction hs) auto

lemma length_iovecs: "length (hdr_iovecs c items) = 5 + 4 * length items"
  by (simp add: hdr_iovecs_def length_concat comp_def case_prod_beta sum_list_triv)

text \<open>The headers that the server itself adds to a response with a body.\<close>

definition own_headers :: "bool \<Rightarrow> 64 word \<Rightarrow> (cstring \<times> cstring) list" where
  "own_headers keep n = [(''Connection'', if keep then ''keep-alive'' else ''close''),
     (''Content-Length'', nat_dec (unat n)), (''Server'', ''express HTTP Server: 1.0'')]"

lemma respond_text:
  assumes st: "resp_state (resp c) = HTTP_HDR_BEGIN" "respcode (resp c) = 0" and h: "resp_hdrs (resp c) = Some h" "tbl_ok h"
    and fresh: "fst ` set (h_entries h) \<inter> {''Connection'', ''Content-Length'', ''Server''} = {}" and mem: "http_oom c = []"
    and code: "map_of respcodes code = Some (reason, num, keep)" and n: "n \<noteq> 0" "unat n \<le> length body"
  shows "\<exists>c'. http_respond code (Some body) n c = Some (0, c') \<and> resp_state (resp c') = HTTP_BODY_SENT \<and> req c' = req c \<and>
    sent c' = sent c @ response_text (http11 (cli_hdr c)) num reason (h_entries h @ own_headers keep n) (take (unat n) body)"
proof -
  have nk: "map_of (h_entries h) k = None" if "k \<in> {''Connection'', ''Content-Length'', ''Server''}" for k
    using fresh that unfolding map_of_eq_None_iff by blast
  let ?con = "(''Connection'', if keep then ''keep-alive'' else ''close'')" and ?len = "(''Content-Length'', nat_dec (unat n))"
  let ?c1 = "resp_update (\<lambda>r. r\<lparr>respcode := code, respcode_int := num, respcode_str := reason\<rparr>) c"
  obtain h1 where h1: "http_add_header ?c1 ''Connection'' (snd ?con) = Some (resp_update (resp_hdrs_update (\<lambda>_. Some h1)) ?c1)"
      "tbl_ok h1" "h_entries h1 = h_entries h @ [?con]"
    using http_add_header_new [of ?c1 h "''Connection''" "snd ?con"] h mem nk by auto
  let ?c2 = "resp_update (\<lambda>r. r\<lparr>resp_body := Some body, resp_body_len := n\<rparr>) (resp_update (resp_hdrs_update (\<lambda>_. Some h1)) ?c1)"
  obtain h2 where h2: "http_add_header ?c2 ''Content-Length'' (snd ?len) = Some (resp_update (resp_hdrs_update (\<lambda>_. Some h2)) ?c2)"
      "tbl_ok h2" "h_entries h2 = h_entries h1 @ [?len]"
    using http_add_header_new [of ?c2 h1 "''Content-Length''" "snd ?len"] h1 mem nk by auto
  let ?c3 = "resp_update (resp_hdrs_update (\<lambda>_. Some h2)) ?c2" and ?srv = "(''Server'', ''express HTTP Server: 1.0'')"
  obtain h3 where h3: "http_add_header ?c3 ''Server'' (snd ?srv) = Some (resp_update (resp_hdrs_update (\<lambda>_. Some h3)) ?c3)"
      "tbl_ok h3" "h_entries h3 = h_entries h2 @ [?srv]"
    using http_add_header_new [of ?c3 h2 "''Server''" "snd ?srv"] h1 h2 mem nk by auto
  have e: "h_entries h3 = h_entries h @ own_headers keep n" using h1(3) h2(3) h3(3) by (simp add: own_headers_def)
  have srv: "h_get h2 ''Server'' = Some None" using h2 h1 nk by (simp add: tbl_get)
  let ?c4 = "resp_update (resp_hdrs_update (\<lambda>_. Some h3)) (resp_update (resp_hdrs_update (\<lambda>_. Some h3)) ?c3)"
  have sc: "http_set_respcode code c = Some (resp_update (resp_hdrs_update (\<lambda>_. Some h1)) ?c1)"
    using st(2) code h1(1) by (simp add: http_set_respcode_def)
  have hc: "http_cli_resp_hdr_create ?c2 = Some (int (length (hdr_iovecs ?c4 (h_entries h3))), hdr_iovecs ?c4 (h_entries h3),
      6 + 4 * length (h_entries h3) + 1, ?c4)"
    using st(1) n(1) h2(1) h3(1) srv respcodes_num [OF code] tbl_traverse [OF h3(2)] mem
    by (simp add: http_cli_resp_hdr_create_def http_alloc_ok length_iovecs Let_def del: h_traverse.simps)
  have "concat (hdr_iovecs ?c4 (h_entries h3) @ [take (unat n) body]) =
      response_text (http11 (cli_hdr c)) num reason (h_entries h @ own_headers keep n) (take (unat n) body)"
    using respcodes_num [OF code] by (simp add: hdr_iovecs_def response_text_def concat_iovecs e)
  then show ?thesis
    using st(1) sc hc n length_iovecs [of ?c4 "h_entries h3"] by (simp add: http_respond_def Let_def)
qed

text \<open>A response returns whatever allocations fail, inside of its array of entries.\<close>

text \<open>A client whose response has a well-formed table of headers; \<open>answering c c'\<close>: nothing was sent
  between \<open>c\<close> and \<open>c'\<close>, and the state and the body of the response are the same.\<close>

definition resp_ok :: "http_cli \<Rightarrow> bool" where
  "resp_ok c \<longleftrightarrow> (\<exists>h. resp_hdrs (resp c) = Some h \<and> tbl_ok h)"

definition answering :: "http_cli \<Rightarrow> http_cli \<Rightarrow> bool" where
  "answering c c' \<longleftrightarrow> resp_ok c' \<and> sent c' = sent c \<and> req c' = req c \<and> resp_state (resp c') = resp_state (resp c) \<and>
     resp_body (resp c') = resp_body (resp c) \<and> resp_body_len (resp c') = resp_body_len (resp c)"

lemma answering_trans: "answering a b \<Longrightarrow> answering b c \<Longrightarrow> answering a c"
  by (simp add: answering_def)

lemma add_header_answering: "resp_ok c \<Longrightarrow> \<exists>c'. http_add_header c k v = Some c' \<and> answering c c' \<and> respcode (resp c') = respcode (resp c)"
  using http_add_header_any [of c _ k v] by (fastforce simp: resp_ok_def answering_def)

lemma set_respcode_answering: "resp_ok c \<Longrightarrow> \<exists>c'. http_set_respcode code c = Some c' \<and> answering c c' \<and> respcode (resp c') \<noteq> 0"
proof -
  assume ok: "resp_ok c"
  obtain code' reason num keep where e: "(case map_of respcodes code of Some (reason, num, dont_close) \<Rightarrow> (code, reason, num, dont_close)
      | None \<Rightarrow> (204, ''No Content'', ''204 '', False)) = (code', reason, num, keep)" by (metis surj_pair)
  then have n0: "code' \<noteq> 0" using respcodes_num by (fastforce split: option.splits)
  let ?c = "resp_update (\<lambda>r. r\<lparr>respcode := code', respcode_int := num, respcode_str := reason\<rparr>) c"
  have "resp_ok ?c" using ok by (simp add: resp_ok_def)
  then obtain c' where "http_add_header ?c ''Connection'' (if keep then ''keep-alive'' else ''close'') = Some c'" "answering ?c c'"
      "respcode (resp c') = code'"
    using add_header_answering [of ?c] by fastforce
  then show ?thesis
    using ok e n0 by (cases "respcode (resp c) = 0") (auto simp: http_set_respcode_def answering_def)
qed

lemma hdr_create_answering:
  assumes ok: "resp_ok c" and st: "resp_state (resp c) = HTTP_HDR_BEGIN"
  shows "\<exists>n iov size c'. http_cli_resp_hdr_create c = Some (n, iov, size, c') \<and> answering c c' \<and>
    (n < 1 \<or> length iov < size \<or> resp_body_len (resp c) = 0 \<and> length iov = size)"
proof -
  let ?n = "if resp_body_len (resp c) \<noteq> 0 then 6 else (4 :: nat)"
  obtain c1 where c1: "(if resp_body_len (resp c) \<noteq> 0 then
        do { c \<leftarrow> http_add_header c ''Content-Length'' (nat_dec (unat (resp_body_len (resp c)))); Some (4 + 2, c) }
      else do { c \<leftarrow> http_set_respcode 204 c; Some (4, c) }) = Some (?n, c1)" "answering c c1"
    using add_header_answering [OF ok, of "''Content-Length''" "nat_dec (unat (resp_body_len (resp c)))"]
      set_respcode_answering [OF ok, of 204] by (cases "resp_body_len (resp c) = 0") auto
  obtain c2 where c2: "(if respcode (resp c1) = 0 then http_set_respcode 200 c1 else Some c1) = Some c2" "answering c1 c2"
    using c1(2) set_respcode_answering [of c1 200] by (cases "respcode (resp c1) = 0") (auto simp: answering_def)
  obtain h2 where h2: "resp_hdrs (resp c2) = Some h2" "tbl_ok h2" using c2(2) by (auto simp: answering_def resp_ok_def)
  obtain c3 where c3: "(if map_of (h_entries h2) ''Server'' = None then http_add_header c2 ''Server'' ''express HTTP Server: 1.0''
      else Some c2) = Some c3" "answering c2 c3"
    using c2(2) add_header_answering [of c2 "''Server''" "''express HTTP Server: 1.0''"]
    by (cases "map_of (h_entries h2) ''Server''") (auto simp: answering_def)
  obtain h3 where h3: "resp_hdrs (resp c3) = Some h3" "tbl_ok h3" using c3(2) by (auto simp: answering_def resp_ok_def)
  have ans: "answering c c3" using c1(2) c2(2) c3(2) answering_trans by blast
  obtain okm where al: "http_alloc c3 = (okm, c3\<lparr>http_oom := tl (http_oom c3)\<rparr>)" by (simp add: http_alloc_def)
  let ?c4 = "resp_update (resp_hdrs_update (\<lambda>_. Some h3)) (c3\<lparr>http_oom := tl (http_oom c3)\<rparr>)"
  have a4: "answering c ?c4" using ans h3(2) by (simp add: answering_def resp_ok_def)
  have "http_cli_resp_hdr_create c = (if \<not> okm then Some (- 1, [], 0, ?c4)
     else Some (int (length (hdr_iovecs ?c4 (h_entries h3))), hdr_iovecs ?c4 (h_entries h3), ?n + 4 * length (h_entries h3) + 1, ?c4))"
    unfolding http_cli_resp_hdr_create_def c1(1)
    using st c2(1) h2 c3(1) h3 al tbl_traverse [OF h3(2)]
    by (simp add: tbl_get length_iovecs Let_def del: h_traverse.simps)
  then show ?thesis using a4 length_iovecs [of ?c4 "h_entries h3"] by (cases okm) auto
qed

lemma respond_safe:
  assumes ok: "resp_ok c" and n: "unat n \<le> length body" "resp_body_len (resp c) = 0"
  shows "\<exists>r c'. http_respond code (Some body) n c = Some (r, c') \<and> r \<in> {0, - 1} \<and> resp_ok c' \<and>
    (resp_state (resp c) \<noteq> HTTP_HDR_BEGIN \<longrightarrow> r = 0 \<and> c' = c) \<and>
    (resp_state (resp c) = HTTP_HDR_BEGIN \<and> r = 0 \<longrightarrow> resp_state (resp c') = HTTP_BODY_SENT) \<and>
    (r = - 1 \<longrightarrow> sent c' = sent c)"
proof (cases "resp_state (resp c) = HTTP_HDR_BEGIN")
  case False
  then show ?thesis using ok by (simp add: http_respond_def)
next
  case True
  obtain c1 where c1: "http_set_respcode code c = Some c1" "answering c c1" using set_respcode_answering [OF ok] by blast
  define c2 where "c2 = (if n \<noteq> 0 then resp_update (\<lambda>r. r\<lparr>resp_body := Some body, resp_body_len := n\<rparr>) c1 else c1)"
  have c2: "resp_ok c2" "resp_state (resp c2) = HTTP_HDR_BEGIN" "resp_body_len (resp c2) = n" "sent c2 = sent c"
      "n \<noteq> 0 \<Longrightarrow> resp_body (resp c2) = Some body"
    using c1(2) True n(2) by (auto simp: c2_def answering_def resp_ok_def)
  obtain m iov size c3 where c3: "http_cli_resp_hdr_create c2 = Some (m, iov, size, c3)" "answering c2 c3"
      "m < 1 \<or> length iov < size \<or> resp_body_len (resp c2) = 0 \<and> length iov = size"
    using hdr_create_answering [OF c2(1,2)] by blast
  show ?thesis
    using True c1(1) c3 c2 n
    by (auto simp: http_respond_def Let_def answering_def resp_ok_def simp flip: c2_def)
qed

subsection \<open>Query strings\<close>

text \<open>The text of a list of arguments.\<close>

fun query_text :: "(cstring \<times> cstring) list \<Rightarrow> cstring" where
  "query_text [] = []"
| "query_text [(k, v)] = k @ ''='' @ v"
| "query_text ((k, v) # kv # kvs) = k @ ''='' @ v @ ''&'' @ query_text (kv # kvs)"

lemma split_on_none: "x \<notin> set t \<Longrightarrow> split_on x t = [t]"
  by (induction t) auto

lemma split_on_append: "x \<notin> set t \<Longrightarrow> split_on x (t @ x # rest) = t # split_on x rest"
  by (induction t) auto

definition query_ok :: "(cstring \<times> cstring) list \<Rightarrow> bool" where
  "query_ok kvs \<longleftrightarrow> distinct (map fst kvs) \<and>
     (\<forall>(k, v) \<in> set kvs. CHR ''='' \<notin> set k \<and> CHR ''&'' \<notin> set k \<and> CHR ''&'' \<notin> set v)"

lemma strtok_query:
  assumes "query_ok kvs"
  shows "strtok (CHR ''&'') (query_text kvs) = map (\<lambda>(k, v). k @ ''='' @ v) kvs"
  using assms
proof (induction kvs rule: query_text.induct)
  case (2 k v)
  then show ?case by (simp add: strtok_def split_on_none query_ok_def)
next
  case (3 k v kv kvs)
  let ?amp = "CHR ''&''"
  have "?amp \<notin> set (k @ ''='' @ v)" using "3.prems" by (simp add: query_ok_def)
  from split_on_append [OF this, of "query_text (kv # kvs)"]
  have "split_on ?amp (query_text ((k, v) # kv # kvs)) = (k @ ''='' @ v) # split_on ?amp (query_text (kv # kvs))" by simp
  then show ?case using "3.IH" "3.prems" by (simp add: strtok_def query_ok_def)
qed (simp add: strtok_def)

lemma add_query_args_ok:
  assumes "tbl_ok h" "http_oom c = []" "query_ok kvs" "fst ` set (h_entries h) \<inter> fst ` set kvs = {}"
  shows "\<exists>h'. add_query_args (map (\<lambda>(k, v). k @ ''='' @ v) kvs) h c = Some (h', c) \<and> tbl_ok h' \<and>
    h_entries h' = h_entries h @ kvs"
  using assms
proof (induction kvs arbitrary: h)
  case (Cons kv kvs)
  obtain k v where kv: "kv = (k, v)" by (cases kv)
  have "map_of (h_entries h) k = None" using Cons.prems(4) kv unfolding map_of_eq_None_iff by auto
  from http_h_insert_new [OF Cons.prems(1,2) this, of v]
  obtain h1 where h1: "http_h_insert h k v c = Some (h1, c)" "tbl_ok h1" "h_entries h1 = h_entries h @ [(k, v)]" by blast
  have sc: "strchr (k @ CHR ''='' # v) (CHR ''='') = Some (length k)" using Cons.prems(3) kv by (simp add: query_ok_def)
  have "query_ok kvs" "fst ` set (h_entries h1) \<inter> fst ` set kvs = {}"
    using Cons.prems(3,4) kv h1(3) by (auto simp: query_ok_def)
  from Cons.IH [OF h1(2) Cons.prems(2) this] show ?case using kv h1 sc by auto
qed simp

lemma set_path_query:
  assumes "req_uri (req c) = Some (path @ ''?'' @ query_text kvs)" "CHR ''?'' \<notin> set path" "query_ok kvs"
    "query_string_args (req c) = Some h" "tbl_ok h" "h_entries h = []" "http_oom c = []"
  shows "\<exists>c'. http_set_path c = Some c' \<and> http_get_path c' = Some path \<and>
    (\<forall>k. http_get_querystring c' k = Some (map_of kvs k))"
proof -
  obtain h' where h': "add_query_args (map (\<lambda>(k, v). k @ ''='' @ v) kvs) h c = Some (h', c)" "tbl_ok h'" "h_entries h' = kvs"
    using add_query_args_ok [OF assms(5,7,3)] assms(6) by auto
  then show ?thesis
    using assms strtok_query [OF assms(3)]
    by (auto simp: http_set_path_def http_get_path_def http_get_querystring_def tbl_get Let_def)
qed

end
