(* ===== verification/Http_Recv_Props.thy ===== *)
theory Http_Recv_Props
  imports Http_Props Http_Parser_Props
begin

text \<open>
  Receiving: the header of a request is found however its text is cut into packets, and the bytes
  behind it are kept; a body of a known length is received as it is sent.
\<close>

subsection \<open>Searching for a string\<close>

lemma strstr_None_iff: "strstr s pat = None \<longleftrightarrow> (\<forall>i \<le> length s. take (length pat) (drop i s) \<noteq> pat)"
proof (induction s)
  case (Cons c s)
  show ?case
    by (auto simp: Cons.IH drop_Cons' split: if_splits)
qed auto

lemma strstr_Some_iff:
  "strstr s pat = Some i \<longleftrightarrow> i \<le> length s \<and> take (length pat) (drop i s) = pat \<and> (\<forall>j < i. take (length pat) (drop j s) \<noteq> pat)"
proof (induction s arbitrary: i)
  case (Cons c s)
  show ?case
    by (cases i) (auto simp: Cons.IH less_Suc_eq_0_disj)
qed auto

text \<open>An occurrence in a prefix is an occurrence that ends in the prefix.\<close>

lemma occurs_prefix:
  assumes "pat \<noteq> []"
  shows "take (length pat) (drop i (take n s)) = pat \<longleftrightarrow> take (length pat) (drop i s) = pat \<and> i + length pat \<le> n"
proof (cases "i + length pat \<le> n")
  case True
  then have "take (length pat) (drop i (take n s)) = take (length pat) (drop i s)"
    by (simp add: drop_take min_def)
  then show ?thesis using True by simp
next
  case False
  have "length (take (length pat) (drop i (take n s))) < length pat" using False assms by (cases pat) auto
  then show ?thesis using False by auto
qed

lemma strstr_prefix_None: "pat \<noteq> [] \<Longrightarrow> strstr s pat = None \<Longrightarrow> strstr (take n s) pat = None"
  unfolding strstr_None_iff using occurs_prefix [of pat _ n s] by auto

lemma strstr_prefix_Some:
  assumes "pat \<noteq> []" "strstr s pat = Some i"
  shows "strstr (take n s) pat = (if i + length pat \<le> n then Some i else None)"
proof (cases "i + length pat \<le> n")
  case True
  have o: "i \<le> length s" "take (length pat) (drop i s) = pat" "\<forall>j < i. take (length pat) (drop j s) \<noteq> pat"
    using assms(2) by (auto simp: strstr_Some_iff)
  have "strstr (take n s) pat = Some i"
    unfolding strstr_Some_iff occurs_prefix [OF assms(1)] using True o by auto
  then show ?thesis using True by simp
next
  case False
  have "strstr (take n s) pat = None"
    unfolding strstr_None_iff occurs_prefix [OF assms(1)] using False assms(2)
    by (auto simp: strstr_Some_iff)
  then show ?thesis using False by simp
qed

subsection \<open>The header\<close>

text \<open>
  The header of a request ends at its first empty line: with line ends of two characters, where
  no two line feeds meet before, or with line feeds only.
\<close>

definition header_ends :: "char list \<Rightarrow> nat \<Rightarrow> nat \<Rightarrow> bool" where
  "header_ends s e k \<longleftrightarrow>
     (k = 4 \<and> strstr s [CR, LF, CR, LF] = Some e \<and> strstr (take (e + 4) s) [LF, LF] = None) \<or>
     (k = 2 \<and> strstr s [CR, LF, CR, LF] = None \<and> strstr s [LF, LF] = Some e)"

lemma header_ends_prefix:
  assumes "header_ends s e k"
  shows "hdr_end (take n s) = (if e + k \<le> n then Some (e, k) else None)"
  using assms unfolding header_ends_def
proof
  assume a: "k = 4 \<and> strstr s [CR, LF, CR, LF] = Some e \<and> strstr (take (e + 4) s) [LF, LF] = None"
  show ?thesis
  proof (cases "e + 4 \<le> n")
    case True
    then show ?thesis using a strstr_prefix_Some [of "[CR, LF, CR, LF]" s e n] by (simp add: hdr_end_def)
  next
    case False
    then have "take n s = take n (take (e + 4) s)" by (simp add: min_def)
    then have "strstr (take n s) [LF, LF] = None" using a strstr_prefix_None [of "[LF, LF]" "take (e + 4) s" n] by simp
    then show ?thesis using a False strstr_prefix_Some [of "[CR, LF, CR, LF]" s e n] by (simp add: hdr_end_def)
  qed
next
  assume a: "k = 2 \<and> strstr s [CR, LF, CR, LF] = None \<and> strstr s [LF, LF] = Some e"
  then show ?thesis
    using strstr_prefix_None [of "[CR, LF, CR, LF]" s n] strstr_prefix_Some [of "[LF, LF]" s e n] by (simp add: hdr_end_def)
qed

lemma header_ends_length: "header_ends s e k \<Longrightarrow> e + k \<le> length s"
  using header_ends_prefix [of s e k "length s"] unfolding header_ends_def
  by (auto simp: strstr_Some_iff dest: arg_cong [where f = length] split: if_splits)

lemma drop_ws_none: "\<not> isspace (b ! 0) \<Longrightarrow> drop_ws b n = (b, n)"
  by (simp add: drop_ws_def skip_ws.simps)

lemma c_string_buffer:
  assumes "n < length b" "take n b = t" "NUL \<notin> set t"
  shows "c_string (b[n := NUL]) = Some t"
proof -
  have "b[n := NUL] = t @ NUL # drop (Suc n) b" using assms by (simp add: upd_conv_take_nth_drop)
  then show ?thesis using assms(3) by simp
qed

text \<open>The client after \<open>n\<close> bytes of the text have arrived.\<close>

definition got_header :: "char list \<Rightarrow> nat \<Rightarrow> nat \<Rightarrow> packet list \<Rightarrow> http_cli \<Rightarrow> bool" where
  "got_header s len n rest c \<longleftrightarrow> hdr_len (cli_hdr c) = len \<and> take len (hdr (cli_hdr c)) = take len s \<and>
     req_body (req c) = Some (take (n - len) (drop len s)) \<and> req_body_len (req c) = of_nat (n - len) \<and> incoming c = rest"

lemma hdr_done_ok:
  assumes "http_oom c = []" "take n (hdr (cli_hdr c)) = take n s" "len \<le> n"
  shows "\<exists>c'. hdr_done n len c = (0, c') \<and> got_header s len n (incoming c) c'"
proof -
  have "take (n - len) (drop len (hdr (cli_hdr c))) = take (n - len) (drop len s)"
    using assms(2,3) by (metis drop_take)
  moreover have "take len (hdr (cli_hdr c)) = take len s" using assms(2,3) by (metis min_absorb1 take_take)
  ultimately show ?thesis using assms(1) by (simp add: hdr_done_def http_alloc_def got_header_def)
qed

text \<open>One packet, behind leading white space.\<close>

lemma recv_hdr_step:
  assumes "http_recv (HTTP_MAX_HDR_LEN - recvd) c = (int (length d), d, c1)" "d \<noteq> []" "recvd < HTTP_MAX_HDR_LEN"
    and b: "b = take recvd (hdr (cli_hdr c1)) @ d @ drop (recvd + length d) (hdr (cli_hdr c1))"
    and ws: "(if recvd = 0 then drop_ws b (length d) else (b, length d)) = (b, length d)"
    and s: "recvd + length d < length b" "c_string (b[recvd + length d := NUL]) = Some t"
  shows "recv_hdr_loop recvd c =
    (let c2 = upd_hdr (hdr_update (\<lambda>_. b)) c1 in
     case hdr_end t of Some (e, k) \<Rightarrow> Some (hdr_done (recvd + length d) (e + k) c2)
     | None \<Rightarrow> recv_hdr_loop (recvd + length d) c2)"
proof -
  note r = recv_hdr_loop.simps [of recvd c]
  have dn: "length d \<noteq> 0" using assms(2) by simp
  show ?thesis
  proof (cases "recvd = 0")
    case True
    have "d @ drop (length d) (hdr (cli_hdr c1)) = b" using b True by simp
    then show ?thesis using assms(1,3) s dn ws unfolding True by (simp add: recv_hdr_loop.simps [of 0 c] Let_def)
  next
    case False
    then show ?thesis using assms(3) s dn by (simp add: r assms(1) Let_def flip: b split: option.split)
  qed
qed

lemma recv_hdr_loop_ok:
  assumes "header_ends s e k" "length s < HTTP_MAX_HDR_LEN" "NUL \<notin> set s" "\<not> isspace (hd s)"
    "length (hdr (cli_hdr c)) = HTTP_MAX_HDR_LEN" "take recvd (hdr (cli_hdr c)) = take recvd s" "recvd < e + k"
    "http_oom c = []" "incoming c = map Data ds @ rest" "concat ds = drop recvd s" "[] \<notin> set ds"
  shows "\<exists>c' n ds'. recv_hdr_loop recvd c = Some (0, c') \<and> e + k \<le> n \<and> n \<le> length s \<and> concat ds' = drop n s \<and>
    got_header s (e + k) n (map Data ds' @ rest) c'"
  using assms(5-)
proof (induction ds arbitrary: recvd c)
  case Nil
  then show ?case using header_ends_length [OF assms(1)] by simp
next
  case (Cons d ds)
  have d: "d \<noteq> []" "d = take (length d) (drop recvd s)" "concat ds = drop (recvd + length d) s" "recvd + length d \<le> length s"
  proof -
    show "d \<noteq> []" using Cons.prems(7) by auto
    show "d = take (length d) (drop recvd s)" using Cons.prems(6) by (metis append_eq_conv_conj concat.simps(2))
    show "concat ds = drop (recvd + length d) s" using Cons.prems(6) by (metis add.commute append_eq_conv_conj concat.simps(2) drop_drop)
    have "length (concat (d # ds)) = length s - recvd" using Cons.prems(6) by simp
    moreover have "recvd < length s" using Cons.prems(3) header_ends_length [OF assms(1)] by simp
    ultimately show "recvd + length d \<le> length s" by simp
  qed
  let ?n = "recvd + length d" and ?c1 = "c\<lparr>incoming := map Data ds @ rest\<rparr>"
  let ?b = "take recvd (hdr (cli_hdr c)) @ d @ drop ?n (hdr (cli_hdr c))"
  have rv: "http_recv (HTTP_MAX_HDR_LEN - recvd) c = (int (length d), d, ?c1)"
    using Cons.prems(5) d(4) assms(2) by (simp add: http_recv_def)
  have tb: "take ?n ?b = take ?n s" "length ?b = HTTP_MAX_HDR_LEN"
  proof -
    have "take recvd s @ d = take ?n s" by (subst d(2)) (simp add: take_add)
    moreover have lr: "length (take recvd (hdr (cli_hdr c))) = recvd" using Cons.prems(1) d(4) assms(2) by simp
    ultimately show "take ?n ?b = take ?n s" using Cons.prems(2) by simp
    show "length ?b = HTTP_MAX_HDR_LEN" using lr Cons.prems(1) d(4) assms(2) by simp
  qed
  have ws: "(if recvd = 0 then drop_ws ?b (length d) else (?b, length d)) = (?b, length d)"
  proof -
    have "?b ! 0 = hd s" if "recvd = 0"
      using that d(1,2) by (metis add_0 append_Nil drop0 hd_append2 hd_conv_nth hd_take length_greater_0_conv take0 Nil_is_append_conv)
    then show ?thesis using drop_ws_none [of ?b] assms(4) by auto
  qed
  let ?c2 = "upd_hdr (hdr_update (\<lambda>_. ?b)) ?c1"
  have n8: "?n < HTTP_MAX_HDR_LEN" "recvd < HTTP_MAX_HDR_LEN" using d(4) assms(2) by simp_all
  have cs: "c_string (?b[?n := NUL]) = Some (take ?n s)"
    by (rule c_string_buffer) (use tb n8 assms(3) in \<open>auto dest: in_set_takeD\<close>)
  have step: "recv_hdr_loop recvd c = (if e + k \<le> ?n then Some (hdr_done ?n (e + k) ?c2) else recv_hdr_loop ?n ?c2)"
    using recv_hdr_step [OF rv d(1) n8(2) _ ws _ cs] tb(2) n8(1) header_ends_prefix [OF assms(1), of ?n] by simp
  show ?case
  proof (cases "e + k \<le> ?n")
    case True
    obtain c' where "hdr_done ?n (e + k) ?c2 = (0, c')" "got_header s (e + k) ?n (map Data ds @ rest) c'"
      using hdr_done_ok [of ?c2 ?n s "e + k"] True tb Cons.prems(4) by auto
    then show ?thesis using step True d(3,4) by (intro exI [of _ c'] exI [of _ ?n] exI [of _ ds]) auto
  next
    case False
    then show ?thesis
      using Cons.IH [of ?c2 ?n] step tb Cons.prems(4,7) d(3) by auto
  qed
qed

subsection \<open>The body\<close>

lemma unat_u64: "n < 2 ^ 64 \<Longrightarrow> unat (of_nat n :: 64 word) = n"
  by (simp add: unat_of_nat take_bit_nat_eq_self)

lemma recv_exact_loop_ok:
  assumes "http_oom c = []" "incoming c = map Data ds @ rest" "req_body (req c) = Some b"
    "cnt_len (cli_hdr c) = of_nat (length b + length (concat ds))" "length b + length (concat ds) < 2 ^ 64"
    "\<forall>d \<in> set ds. d \<noteq> [] \<and> length d \<le> TCP_BUF_SIZE" "req_body_len (req c) = of_nat (length b)"
  shows "\<exists>c'. recv_exact_loop (of_nat (length b)) c = Some (0, c') \<and> req_body (req c') = Some (b @ concat ds) \<and>
    req_body_len (req c') = of_nat (length b + length (concat ds)) \<and> incoming c' = rest"
  using assms
proof (induction ds arbitrary: b c)
  case Nil
  then show ?case by (subst recv_exact_loop.simps) simp
next
  case (Cons d ds)
  have d: "d \<noteq> []" "length d \<le> TCP_BUF_SIZE" using Cons.prems(6) by auto
  have u: "unat (of_nat (length b) :: 64 word) = length b"
    using Cons.prems(5) by (intro unat_u64) simp
  have "unat (of_nat (length b + length (concat (d # ds))) :: 64 word) = length b + length (concat (d # ds))"
    by (rule unat_u64 [OF Cons.prems(5)])
  then have lt: "(of_nat (length b) :: 64 word) < cnt_len (cli_hdr c)"
    using Cons.prems(4) d(1) u by (simp add: word_less_nat_alt)
  let ?c1 = "c\<lparr>incoming := map Data ds @ rest\<rparr>"
  let ?c2 = "upd_req (\<lambda>r. r\<lparr>req_body := Some (b @ d), req_body_len := of_nat (length (b @ d))\<rparr>) ?c1"
  have rv: "http_recv TCP_BUF_SIZE c = (int (length d), d, ?c1)" using Cons.prems(2) d(2) by (simp add: http_recv_def)
  have wi: "(of_nat (length b) + word_of_int (int (length d)) :: 64 word) = of_nat (length (b @ d))" by simp
  have step: "recv_exact_loop (of_nat (length b)) c = recv_exact_loop (of_nat (length (b @ d))) ?c2"
    using lt rv Cons.prems(1,3) d(1) u
    by (subst recv_exact_loop.simps) (simp add: http_alloc_ok Let_def)
  have "\<exists>c'. recv_exact_loop (of_nat (length (b @ d))) ?c2 = Some (0, c') \<and> req_body (req c') = Some ((b @ d) @ concat ds) \<and>
    req_body_len (req c') = of_nat (length (b @ d) + length (concat ds)) \<and> incoming c' = rest"
    by (rule Cons.IH) (use Cons.prems in \<open>simp_all add: add.assoc\<close>)
  then show ?case unfolding step by (simp add: add.assoc)
qed

lemma recv_exact_ok:
  assumes "http_oom c = []" "incoming c = map Data ds @ rest" "req_body (req c) = Some b" "\<not> nolen (cli_hdr c)"
    "cnt_len (cli_hdr c) = of_nat (length b + length (concat ds))" "length b + length (concat ds) < 2 ^ 64"
    "\<forall>d \<in> set ds. d \<noteq> [] \<and> length d \<le> TCP_BUF_SIZE" "req_body_len (req c) = of_nat (length b)"
  shows "\<exists>c'. http_recv_exact c = Some (0, c') \<and> req_body (req c') = Some (b @ concat ds) \<and>
    req_body_len (req c') = of_nat (length b + length (concat ds)) \<and> incoming c' = rest"
proof (cases "ds = []")
  case True
  then show ?thesis using assms by (auto simp: http_recv_exact_def)
next
  case False
  then obtain d ds' where "ds = d # ds'" by (cases ds) auto
  then have "concat ds \<noteq> []" using assms(7) by auto
  have "(of_nat (length b) :: 64 word) \<noteq> of_nat (length b + length (concat ds))"
  proof
    assume "(of_nat (length b) :: 64 word) = of_nat (length b + length (concat ds))"
    then have "unat (of_nat (length b) :: 64 word) = unat (of_nat (length b + length (concat ds)) :: 64 word)" by simp
    moreover have "unat (of_nat (length b) :: 64 word) = length b"
      "unat (of_nat (length b + length (concat ds)) :: 64 word) = length b + length (concat ds)"
      using unat_u64 [OF assms(6)] unat_u64 [of "length b"] assms(6) by simp_all
    ultimately show False using \<open>concat ds \<noteq> []\<close> by (simp del: concat_eq_Nil_conv)
  qed
  then show ?thesis
    using recv_exact_loop_ok [OF assms(1-3,5-8)] assms(4,5,8) by (simp add: http_recv_exact_def)
qed

subsection \<open>Properties\<close>

text \<open>
  C12. A response with a known code and a body goes out as its status line, the headers set before,
  the headers of the server with the length of the body, an empty line and the body; the next
  response on the same request sends nothing.
\<close>

theorem http_respond_correct:
  assumes "resp_state (resp c) = HTTP_HDR_BEGIN" "respcode (resp c) = 0" "resp_hdrs (resp c) = Some h" "tbl_ok h"
    "fst ` set (h_entries h) \<inter> {''Connection'', ''Content-Length'', ''Server''} = {}" "http_oom c = []"
    "map_of respcodes code = Some (reason, num, keep)" "n \<noteq> 0" "unat n \<le> length body"
  shows "\<exists>c'. http_respond code (Some body) n c = Some (0, c') \<and> req c' = req c \<and>
    sent c' = sent c @ response_text (http11 (cli_hdr c)) num reason (h_entries h @ own_headers keep n) (take (unat n) body) \<and>
    (\<forall>code' body' n'. http_respond code' body' n' c' = Some (0, c'))"
proof -
  obtain c' where c': "http_respond code (Some body) n c = Some (0, c')" "resp_state (resp c') = HTTP_BODY_SENT" "req c' = req c"
    "sent c' = sent c @ response_text (http11 (cli_hdr c)) num reason (h_entries h @ own_headers keep n) (take (unat n) body)"
    using respond_text [OF assms] by blast
  then have "http_respond code' body' n' c' = Some (0, c')" for code' body' n' by (simp add: http_respond_def)
  with c' show ?thesis by blast
qed


text \<open>
  C27. The path and the arguments of a request target are read back from its text.
\<close>

theorem http_set_path_roundtrip:
  assumes "req_uri (req c) = Some (path @ ''?'' @ query_text kvs)" "CHR ''?'' \<notin> set path" "query_ok kvs"
    "query_string_args (req c) = Some h" "tbl_ok h" "h_entries h = []" "http_oom c = []"
  shows "\<exists>c'. http_set_path c = Some c' \<and> http_get_path c' = Some path \<and>
    (\<forall>k. http_get_querystring c' k = Some (map_of kvs k))"
  by (rule set_path_query [OF assms])

text \<open>
  C13. The header of a request is the same however its text is cut into packets: the buffer holds the
  text up to the first empty line, and the bytes behind it are the start of the body or still
  to come.
\<close>

theorem http_recv_hdr_packets:
  assumes "header_ends s e k" "length s < HTTP_MAX_HDR_LEN" "NUL \<notin> set s" "\<not> isspace (hd s)"
    "length (hdr (cli_hdr c)) = HTTP_MAX_HDR_LEN" "http_oom c = []" "incoming c = map Data ds @ rest" "concat ds = s" "[] \<notin> set ds"
  shows "\<exists>c' b ds'. http_recv_hdr c = Some (0, c') \<and> hdr_len (cli_hdr c') = e + k \<and>
    take (e + k) (hdr (cli_hdr c')) = take (e + k) s \<and> req_body (req c') = Some b \<and> req_body_len (req c') = of_nat (length b) \<and>
    incoming c' = map Data ds' @ rest \<and> b @ concat ds' = drop (e + k) s"
proof -
  let ?c = "upd_hdr (cnt_len_update (\<lambda>_. 0)) c"
  have ek: "0 < e + k" using assms(1) by (auto simp: header_ends_def)
  obtain c' n ds' where c': "recv_hdr_loop 0 ?c = Some (0, c')" "e + k \<le> n" "n \<le> length s" "concat ds' = drop n s"
      "got_header s (e + k) n (map Data ds' @ rest) c'"
    using recv_hdr_loop_ok [OF assms(1-4), of ?c 0 ds rest] ek assms(5-9) by auto
  let ?b = "take (n - (e + k)) (drop (e + k) s)"
  have "?b @ concat ds' = drop (e + k) s"
    using c'(2,4) by (metis append_take_drop_id drop_drop le_add_diff_inverse2)
  moreover have "length ?b = n - (e + k)" using c'(2,3) by simp
  ultimately show ?thesis using c'(1,5) by (auto simp: http_recv_hdr_def got_header_def)
qed

text \<open>
  C28. A body of known length is received completely, behind the part that came with the header, and
  what follows it stays unread.
\<close>

theorem http_recv_exact_correct:
  assumes "http_oom c = []" "incoming c = map Data ds @ rest" "req_body (req c) = Some b" "\<not> nolen (cli_hdr c)"
    "cnt_len (cli_hdr c) = of_nat (length b + length (concat ds))" "length b + length (concat ds) < 2 ^ 64"
    "\<forall>d \<in> set ds. d \<noteq> [] \<and> length d \<le> TCP_BUF_SIZE" "req_body_len (req c) = of_nat (length b)"
  shows "\<exists>c'. http_recv_exact c = Some (0, c') \<and> req_body (req c') = Some (b @ concat ds) \<and>
    req_body_len (req c') = of_nat (length b + length (concat ds)) \<and> incoming c' = rest"
  by (rule recv_exact_ok [OF assms])

text \<open>
  The reception of a chunked body never reads from the connection and never decodes a chunk: when
  it returns, it reports success and leaves the request as it was.
\<close>

lemma http_recv_chunked_undecoded:
  assumes "http_recv_chunked c = Some (r, c')"
  shows "r = 0 \<and> c' = c"
  using assms by (auto simp: http_recv_chunked_def bind_eq_Some_conv Let_def split: if_splits)

subsection \<open>Witnesses\<close>

lemma demo_tbl: "tbl_ok demo_table"
  by (simp add: tbl_ok_def demo_table_wf)

theorem http_respond_correct_witness:
  "\<exists>c'. http_respond 404 (Some ''none'') 4 (demo_cli [] 0) = Some (0, c') \<and>
    sent c' = response_text False ''404 '' ''Not Found'' (own_headers False 4) ''none''"
proof -
  have u: "unat (4 :: 64 word) = 4" by simp
  show ?thesis
    using http_respond_correct [of "demo_cli [] 0" demo_table 404 "''Not Found''" "''404 ''" False 4 "''none''"]
    by (auto simp: demo_cli_def demo_tbl demo_table_wf respcodes_def u)
qed


theorem http_set_path_roundtrip_witness:
  "\<exists>c'. http_set_path (req_update (req_uri_update (\<lambda>_. Some ''/q?rev=3&latest=1'')) (demo_cli [] 0)) = Some c' \<and>
    http_get_path c' = Some ''/q'' \<and> http_get_querystring c' ''rev'' = Some (Some ''3'') \<and>
    http_get_querystring c' ''expiry'' = Some None"
proof -
  let ?c = "req_update (req_uri_update (\<lambda>_. Some ''/q?rev=3&latest=1'')) (demo_cli [] 0)"
  show ?thesis
    using http_set_path_roundtrip [of ?c "''/q''" "[(''rev'', ''3''), (''latest'', ''1'')]" demo_table]
    by (auto simp: demo_cli_def demo_tbl demo_table_wf query_ok_def)
qed

definition demo_request :: http_cli where
  "demo_request = (demo_cli (replicate 8192 NUL) 0)\<lparr>incoming :=
     [Data ''GET / HT'', Data (''TP/1.1'' @ [CR]), Data [LF, CR], Data (LF # ''ab''), Data ''c'']\<rparr>"

theorem http_recv_hdr_packets_witness:
  "\<exists>c' b ds'. http_recv_hdr demo_request = Some (0, c') \<and> hdr_len (cli_hdr c') = 18 \<and>
    take 18 (hdr (cli_hdr c')) = ''GET / HTTP/1.1'' @ [CR, LF, CR, LF] \<and> req_body (req c') = Some b \<and>
    req_body_len (req c') = of_nat (length b) \<and> incoming c' = map Data ds' \<and> b @ concat ds' = ''abc''"
proof -
  let ?s = "''GET / HTTP/1.1'' @ [CR, LF, CR, LF] @ ''abc''"
  have "header_ends ?s 14 4" by (simp add: header_ends_def)
  then show ?thesis
    using http_recv_hdr_packets [of ?s 14 4 demo_request
        "[''GET / HT'', ''TP/1.1'' @ [CR], [LF, CR], LF # ''ab'', ''c'']" "[]"]
    by (simp add: demo_request_def demo_cli_def isspace_def)
qed

theorem http_recv_exact_correct_witness:
  "\<exists>c'. http_recv_exact ((upd_req (\<lambda>r. r\<lparr>req_body := Some ''ab'', req_body_len := 2, req_hdr := (req_hdr r)\<lparr>cnt_len := 5\<rparr>\<rparr>)
      (demo_cli [] 0))\<lparr>incoming := [Data ''c'', Data ''de'']\<rparr>) = Some (0, c') \<and>
    req_body (req c') = Some ''abcde'' \<and> incoming c' = []"
proof -
  let ?c = "(upd_req (\<lambda>r. r\<lparr>req_body := Some ''ab'', req_body_len := 2, req_hdr := (req_hdr r)\<lparr>cnt_len := 5\<rparr>\<rparr>)
      (demo_cli [] 0))\<lparr>incoming := [Data ''c'', Data ''de'']\<rparr>"
  show ?thesis
    using http_recv_exact_correct [of ?c "[''c'', ''de'']" "[]" "''ab''"] by (auto simp: demo_cli_def)
qed

definition demo_chunked :: http_cli where
  "demo_chunked = upd_req (\<lambda>r. r\<lparr>req_body := Some (''3'' @ [LF] @ ''abc''), req_body_len := 5\<rparr>)
     (demo_cli (''3'' @ [LF] @ ''abc'') 0)"

lemma http_recv_chunked_undecoded_witness:
  "http_recv_chunked demo_chunked = Some (0, demo_chunked)"
proof -
  have "http_recv_chunked demo_chunked \<noteq> None" by code_simp
  then obtain r c' where "http_recv_chunked demo_chunked = Some (r, c')" by fast
  with http_recv_chunked_undecoded [OF this] show ?thesis by simp
qed

end
