(* ===== verification/Answer_Type.thy ===== *)
theory Answer_Type
  imports Json_Print_Props Memqueue_Handlers
begin

text \<open>
  The type of the answers: whatever the server answers is a JSON object that can be printed, with
  distinct keys at every level, that begins with the version and the name of the result, under a
  code that the HTTP layer knows.
\<close>

text \<open>Strings and keys are C strings, and the keys of an object are distinct.\<close>

fun json_typed :: "json \<Rightarrow> bool" where
  "json_typed (JInt i) = True"
| "json_typed (JString s) = (NUL \<notin> set s)"
| "json_typed (JArray vs) = (\<forall>v \<in> set vs. json_typed v)"
| "json_typed (JObject kvs) =
     (distinct (map fst kvs) \<and> (\<forall>kv \<in> set kvs. NUL \<notin> set (fst kv) \<and> json_typed (snd kv)))"

lemma typed_ok: "json_typed j \<Longrightarrow> json_ok j"
  by (induction j rule: json_typed.induct) auto

lemma c_str_nonnul: "NUL \<notin> set (c_str s)"
  by (auto simp: c_str_def dest: set_takeWhileD)

lemma typed_new [simp]:
  "json_typed json_object_new_object" "json_typed json_object_new_array" "json_typed (json_object_new_int i)"
  "json_typed (json_object_new_string s)" "json_typed (json_object_new_string_len s n)"
  by (simp_all add: json_object_new_object_def json_object_new_array_def json_object_new_int_def
      json_object_new_string_def json_object_new_string_len_def c_str_nonnul)

lemma typed_add:
  assumes "json_object_object_add j k v = Some j'" "json_typed j" "json_typed v" "NUL \<notin> set k"
  shows "json_typed j'"
  using assms by (cases j) (auto simp: distinct_map_filter)

lemma typed_array_add: "json_object_array_add j v = Some j' \<Longrightarrow> json_typed j \<Longrightarrow> json_typed v \<Longrightarrow> json_typed j'"
  by (cases j) auto

lemma typed_modify:
  assumes "object_modify j k f = Some j'" "json_typed j" "\<And>v v'. f v = Some v' \<Longrightarrow> json_typed v \<Longrightarrow> json_typed v'"
  shows "json_typed j'"
proof (cases j)
  case (JObject kvs)
  then obtain v v' where v: "map_of kvs k = Some v" "f v = Some v'"
      "j' = JObject (map (\<lambda>(k0, w). if k0 = k then (k0, v') else (k0, w)) kvs)"
    using assms(1) by (auto split: option.splits Option.bind_splits)
  have "distinct (map fst (map (\<lambda>(k0, w). if k0 = k then (k0, v') else (k0, w)) kvs)) = distinct (map fst kvs)"
    by (rule arg_cong [of _ _ distinct]) auto
  moreover have "json_typed v'" using assms(2,3) v JObject map_of_SomeD [OF v(1)] by fastforce
  ultimately show ?thesis using assms(2) v(3) JObject by (auto simp del: map_map split: if_splits)
qed (use assms(1) in auto)

text \<open>The names of the queues are C strings.\<close>

definition names_ok :: "memqueue_ins \<Rightarrow> bool" where
  "names_ok ins \<longleftrightarrow> (\<forall>q mq. queues ins q = Some mq \<longrightarrow> NUL \<notin> set (q_q_id mq))"

lemma names_ok_upd:
  "upd_queue q f ins = Some ins' \<Longrightarrow> names_ok ins \<Longrightarrow> (\<And>mq. q_q_id (f mq) = q_q_id mq) \<Longrightarrow> names_ok ins'"
  by (auto simp: upd_queue_def names_ok_def split: Option.bind_splits if_splits)

lemma consumers_json_typed: "consumers_json h = Some (arr, h') \<Longrightarrow> json_typed arr"
  by (auto simp: consumers_json_def simp del: h_traverse.simps split: Option.bind_splits)

lemma queue_json_typed:
  assumes "queue_json bs q ins = Some (obj, ins')" "names_ok ins"
  shows "json_typed obj \<and> names_ok ins'"
proof -
  obtain mq o1 o2 inc where "queues ins q = Some mq"
    and o: "json_object_object_add json_object_new_object ''messages'' json_object_new_array = Some o1"
      "json_object_object_add o1 ''rev'' (json_object_new_int (q_rev mq)) = Some o2" "wants_consumers q bs ins = Some inc"
    and r: "(if inc then
         do {
           (arr, h) \<leftarrow> consumers_json (q_consumers mq);
           ins \<leftarrow> upd_queue q (q_consumers_update (\<lambda>_. h)) ins;
           obj \<leftarrow> json_object_object_add o2 ''consumers'' arr;
           Some (obj, ins)
         }
       else Some (o2, ins)) = Some (obj, ins')"
    using assms(1) unfolding queue_json_def Option.bind_eq_Some_conv by (elim exE conjE) (rule that)
  have "json_typed o1" by (rule typed_add [OF o(1)]) simp_all
  then have t: "json_typed o2" by (intro typed_add [OF o(2)]) simp_all
  show ?thesis
  proof (cases inc)
    case True
    then obtain arr h where c: "consumers_json (q_consumers mq) = Some (arr, h)"
        "upd_queue q (q_consumers_update (\<lambda>_. h)) ins = Some ins'" "json_object_object_add o2 ''consumers'' arr = Some obj"
      using r by (auto split: Option.bind_splits)
    have "json_typed obj" by (rule typed_add [OF c(3) t consumers_json_typed [OF c(1)]]) simp
    then show ?thesis using names_ok_upd [OF c(2) assms(2)] by simp
  qed (use r t assms(2) in auto)
qed

lemma add_pending_typed:
  assumes "add_pending bs m resp ins = Some (resp', ins')" "names_ok ins" "json_typed resp"
  shows "json_typed resp' \<and> names_ok ins'"
proof -
  obtain x mq found r1 where x: "msgs ins m = Some x" "queues ins (m_memqueue x) = Some mq"
      "json_object_object_get resp (q_q_id mq) = Some found"
      "(case found of
            None \<Rightarrow>
              do {
                (obj, ins) \<leftarrow> queue_json bs (m_memqueue x) ins;
                resp \<leftarrow> json_object_object_add resp (q_q_id mq) obj;
                Some (resp, ins)
              }
          | Some _ \<Rightarrow> Some (resp, ins)) = Some (r1, ins')"
      "object_modify r1 (q_q_id mq) (\<lambda>obj. object_modify obj ''messages''
                     (\<lambda>arr. json_object_array_add arr
                        (json_object_new_string_len (m_data x) (unat (m_data_len x))))) = Some resp'"
    using assms(1) unfolding add_pending_def Option.bind_eq_Some_conv
    by (auto simp: Option.bind_eq_Some_conv split: if_splits)
  have "NUL \<notin> set (q_q_id mq)" using assms(2) x(2) by (simp add: names_ok_def)
  then have r1: "json_typed r1 \<and> names_ok ins'"
    using x(4) assms(2,3) queue_json_typed typed_add by (auto split: option.splits Option.bind_splits; blast)
  have "json_typed resp'"
    by (rule typed_modify [OF x(5)]) (use r1 typed_modify typed_array_add typed_new in blast)+
  then show ?thesis using r1 by blast
qed

lemma result_loop_typed:
  assumes "result_loop bs ms resp ins = Some (resp', ins')" "names_ok ins" "json_typed resp"
  shows "json_typed resp' \<and> names_ok ins'"
  using assms
proof (induction ms arbitrary: resp ins)
  case (Cons m ms)
  then obtain r1 i1 where r: "add_pending bs m resp ins = Some (r1, i1)" "result_loop bs ms r1 i1 = Some (resp', ins')"
    by (auto split: Option.bind_splits)
  show ?case using Cons.IH [OF r(2)] add_pending_typed [OF r(1) Cons.prems(2,3)] by blast
qed simp

text \<open>What comes before stays in front when other keys are added.\<close>

definition begins :: "(cstring \<times> json) list \<Rightarrow> json \<Rightarrow> bool" where
  "begins kvs j \<longleftrightarrow> (\<exists>rest. j = JObject (kvs @ rest))"

lemma begins_add:
  assumes "json_object_object_add j k v = Some j'" "begins kvs j" "k \<notin> fst ` set kvs"
  shows "begins kvs j'"
proof -
  have "filter (\<lambda>(k', _). k' \<noteq> k) kvs = kvs" using assms(3) by (force simp: filter_id_conv)
  then show ?thesis using assms(1,2) by (auto simp: begins_def)
qed

lemma respond_body_typed:
  assumes "respond_body ret ptr desc resp ins = Some (resp', ins')" "names_ok ins" "json_typed resp"
    "begins kvs resp" "fst ` set kvs \<subseteq> {''version'', ''ret''}"
  shows "json_typed resp' \<and> begins kvs resp'"
proof -
  have add: "json_typed j' \<and> begins kvs j'"
    if "json_object_object_add j k v = Some j'" "json_typed j \<and> begins kvs j" "json_typed v" "NUL \<notin> set k" "k \<notin> {''version'', ''ret''}" for j k v j'
    using that typed_add [of j k v j'] begins_add [of j k v j' kvs] assms(5) by blast
  have start: "json_typed resp \<and> begins kvs resp" using assms(3,4) by blast
  consider "ret \<in> {MEMQUEUE_NOT_FOUND, MEMQUEUE_EXISTS, MEMQUEUE_TIMEOUT, MEMQUEUE_FULL}" | "ret = MEMQUEUE_MSGS"
    | "ret = MEMQUEUE_MSG_ADDED" | "ret = MEMQUEUE_QUEUE_INFO" | "ret \<in> {MEMQUEUE_CREATED, MEMQUEUE_DELETED, MEMQUEUE_OK}"
    by (cases ret) simp_all
  then show ?thesis
  proof cases
    case 1
    then have "json_object_object_add resp ''error'' (json_object_new_string desc) = Some resp'"
      using assms(1) by (auto simp: respond_body_def split: Option.bind_splits)
    from add [OF this start] show ?thesis by simp
  next
    case 2
    then obtain cb results i where r: "result_loop (cb_memqueues (cb :: cli_binder)) (cb_pending_msgs cb) json_object_new_object ins = Some (results, i)"
        "json_object_object_add resp ''results'' results = Some resp'"
      using assms(1) by (auto simp: respond_body_def memqueue_create_result_def split: Option.bind_splits)
    have "json_typed results" using result_loop_typed [OF r(1) assms(2)] by simp
    from add [OF r(2) start this] show ?thesis by simp
  next
    case 3
    then obtain mq r1 r2 r3 r4 where r: "json_object_object_add resp ''ret_desc'' (json_object_new_string desc) = Some r1"
        "json_object_object_add r1 ''rev'' (json_object_new_int (q_rev (mq :: memqueue))) = Some r2"
        "json_object_object_add r2 ''ret_desc'' (json_object_new_string desc) = Some r3"
        "json_object_object_add r3 ''rev'' (json_object_new_int (q_rev mq)) = Some r4"
        "json_object_object_add r4 ''msgs_in_queue'' (json_object_new_int (q_msgs_in_queue mq)) = Some resp'"
      using assms(1) by (auto simp: respond_body_def split: Option.bind_splits)
    have "json_typed r1 \<and> begins kvs r1" using add [OF r(1) start] by simp
    from add [OF r(2) this] have "json_typed r2 \<and> begins kvs r2" by simp
    from add [OF r(3) this] have "json_typed r3 \<and> begins kvs r3" by simp
    from add [OF r(4) this] have "json_typed r4 \<and> begins kvs r4" by simp
    from add [OF r(5) this] show ?thesis by simp
  next
    case 4
    then obtain mq r3 r4 where r: "json_object_object_add resp ''ret_desc'' (json_object_new_string desc) = Some r3"
        "json_object_object_add r3 ''rev'' (json_object_new_int (q_rev (mq :: memqueue))) = Some r4"
        "json_object_object_add r4 ''msgs_in_queue'' (json_object_new_int (q_msgs_in_queue mq)) = Some resp'"
      using assms(1) by (auto simp: respond_body_def split: Option.bind_splits)
    have "json_typed r3 \<and> begins kvs r3" using add [OF r(1) start] by simp
    from add [OF r(2) this] have "json_typed r4 \<and> begins kvs r4" by simp
    from add [OF r(3) this] show ?thesis by simp
  next
    case 5
    then show ?thesis using assms(1) start by (auto simp: respond_body_def)
  qed
qed

text \<open>
  C19. Every answer of the server is well typed: a JSON object whose first members are the version and
  the name of the result, with distinct keys at every level and strings that can be printed, sent
  under one of the codes 200, 404 and 408.
\<close>

theorem memqueue_respond_typed:
  assumes "memqueue_respond ret ptr ins = Some ((code, j), ins')" "names_ok ins"
  shows "json_typed j \<and> json_ok j \<and> code \<in> {200, 404, 408} \<and>
    (\<exists>name rest. j = JObject ((''version'', JString ''memqueue 1.0'') # (''ret'', JString name) # rest))"
proof -
  obtain name desc where e: "ret_entry ret = Some (code, name, desc)" and b:
      "respond_body ret ptr desc (JObject [(''version'', JString ''memqueue 1.0''), (''ret'', json_object_new_string name)]) ins = Some (j, ins')"
    using assms(1) by (auto simp: memqueue_respond_def json_object_new_object_def json_object_new_string_def [of "''memqueue 1.0''"]
        c_str_def [of "''memqueue 1.0''"] split: Option.bind_splits)
  let ?kvs = "[(''version'', JString ''memqueue 1.0''), (''ret'', json_object_new_string name)]"
  have "json_typed (JObject ?kvs)" "begins ?kvs (JObject ?kvs)" "fst ` set ?kvs \<subseteq> {''version'', ''ret''}"
    by (simp_all add: begins_def)
  from respond_body_typed [OF b assms(2) this] have "json_typed j" "begins ?kvs j" by blast+
  moreover have "code \<in> {200, 404, 408}" using e by (cases ret) auto
  ultimately show ?thesis using typed_ok by (auto simp: begins_def json_object_new_string_def)
qed

theorem memqueue_respond_typed_witness:
  "memqueue_respond MEMQUEUE_TIMEOUT None memqueue_ins0 = Some ((408, JObject [(''version'', JString ''memqueue 1.0''),
      (''ret'', JString ''MEMQUEUE_TIMEOUT''), (''error'', JString ''poll timed out'')]), memqueue_ins0) \<and>
   json_typed (JObject [(''version'', JString ''memqueue 1.0''),
      (''ret'', JString ''MEMQUEUE_TIMEOUT''), (''error'', JString ''poll timed out'')])"
proof -
  have "names_ok memqueue_ins0" by (simp add: names_ok_def memqueue_ins0_def)
  moreover have "memqueue_respond MEMQUEUE_TIMEOUT None memqueue_ins0 = Some ((408, JObject [(''version'', JString ''memqueue 1.0''),
      (''ret'', JString ''MEMQUEUE_TIMEOUT''), (''error'', JString ''poll timed out'')]), memqueue_ins0)"
    by (simp add: memqueue_respond_def respond_body_def json_object_new_object_def json_object_new_string_def c_str_def)
  ultimately show ?thesis using memqueue_respond_typed by blast
qed

end
