(* ===== verification/Memqueue_Inv.thy ===== *)
theory Memqueue_Inv
  imports Memqueue_Handlers Expiry_Props
begin

text \<open>
  The invariant of the queue server and its preservation by the operations on reference counts:
  the messages of a queue are live, distinct and ordered by revision; every counted reference to
  a queue or a message is accounted for, so that an object is freed exactly when its last
  reference goes.
\<close>

subsection \<open>The invariant\<close>

definition ref_of :: "memqueue_ins \<Rightarrow> addr \<Rightarrow> int" where
  "ref_of ins m = (case msgs ins m of Some x \<Rightarrow> m_ref_count x | None \<Rightarrow> 0)"

definition rev_of :: "memqueue_ins \<Rightarrow> addr \<Rightarrow> int" where
  "rev_of ins m = (case msgs ins m of Some x \<Rightarrow> m_rev x | None \<Rightarrow> 0)"

text \<open>The messages of one queue.\<close>

definition msg_ok :: "memqueue_ins \<Rightarrow> addr \<Rightarrow> memqueue \<Rightarrow> bool" where
  "msg_ok ins q mq \<longleftrightarrow>
     distinct (q_msg_queue mq) \<and>
     (\<forall>m \<in> set (q_msg_queue mq). \<exists>x. msgs ins m = Some x \<and> m_memqueue x = q \<and> m_rev x \<le> q_rev mq) \<and>
     sorted_wrt (<) (map (rev_of ins) (q_msg_queue mq)) \<and>
     q_msgs_in_queue mq = int (length (q_msg_queue mq)) \<and> 0 \<le> q_rev mq"

text \<open>The consumers of one queue.\<close>

definition cons_ok :: "memqueue_ins \<Rightarrow> addr \<Rightarrow> memqueue \<Rightarrow> bool" where
  "cons_ok ins q mq \<longleftrightarrow>
     h_wf (q_consumers mq) \<and> order_next (q_consumers mq) = None \<and>
     (\<forall>(k, c) \<in> set (h_entries (q_consumers mq)).
        \<exists>cn. consumers ins c = Some cn \<and> c_memqueue cn = q \<and> c_consumer_id cn = k)"

definition store_ok :: "memqueue_ins \<Rightarrow> bool" where
  "store_ok ins \<longleftrightarrow>
     h_wf (queue_store ins) \<and> order_next (queue_store ins) = None \<and>
     (\<forall>(k, q) \<in> set (h_entries (queue_store ins)). \<exists>mq. queues ins q = Some mq \<and> q_q_id mq = k)"

definition fresh_ok :: "memqueue_ins \<Rightarrow> bool" where
  "fresh_ok ins \<longleftrightarrow>
     (\<forall>a. a \<in> dom (queues ins) \<union> dom (msgs ins) \<union> dom (consumers ins) \<union> dom (binders ins) \<union>
          dom (cli_binders ins) \<longrightarrow> a < next_addr ins)"

text \<open>A counted message is in the list of its live queue.\<close>

definition owner_ok :: "memqueue_ins \<Rightarrow> bool" where
  "owner_ok ins \<longleftrightarrow>
     (\<forall>m x. msgs ins m = Some x \<longrightarrow> 0 \<le> m_ref_count x \<and>
        (0 < m_ref_count x \<longrightarrow> (\<exists>mq. queues ins (m_memqueue x) = Some mq \<and> m \<in> set (q_msg_queue mq))))"

definition mq_struct :: "memqueue_ins \<Rightarrow> bool" where
  "mq_struct ins \<longleftrightarrow>
     (\<forall>q mq. queues ins q = Some mq \<longrightarrow> msg_ok ins q mq \<and> cons_ok ins q mq) \<and>
     store_ok ins \<and> fresh_ok ins \<and> owner_ok ins"

text \<open>
  \<open>d q\<close> is the number of references to the queue \<open>q\<close> that are not due to references to its messages:
  its own lifetime and its consumers.
\<close>

definition ref_ok :: "(addr \<Rightarrow> int) \<Rightarrow> memqueue_ins \<Rightarrow> bool" where
  "ref_ok d ins \<longleftrightarrow>
     (\<forall>q mq. queues ins q = Some mq \<longrightarrow> q_ref_count mq = d q + sum_list (map (ref_of ins) (q_msg_queue mq)))"

text \<open>The live consumers of a queue, each of which keeps a reference to it.\<close>

definition consumers_of :: "memqueue_ins \<Rightarrow> addr \<Rightarrow> addr set" where
  "consumers_of ins q = {c. \<exists>cn. consumers ins c = Some cn \<and> c_memqueue cn = q}"

definition hold_ok :: "(addr \<Rightarrow> int) \<Rightarrow> memqueue_ins \<Rightarrow> bool" where
  "hold_ok d ins \<longleftrightarrow> (\<forall>q. finite (consumers_of ins q) \<and>
     (q \<in> dom (queues ins) \<longrightarrow> int (card (consumers_of ins q)) \<le> d q))"

text \<open>Room for \<open>k\<close> more increments of each counter of type \<open>int\<close>.\<close>

definition room :: "nat \<Rightarrow> memqueue_ins \<Rightarrow> bool" where
  "room k ins \<longleftrightarrow>
     (\<forall>q mq. queues ins q = Some mq \<longrightarrow>
        q_ref_count mq + int k < 2 ^ 31 \<and> q_rev mq + int k < 2 ^ 31 \<and> q_msgs_in_queue mq + int k < 2 ^ 31) \<and>
     (\<forall>m x. msgs ins m = Some x \<longrightarrow> m_ref_count x + int k < 2 ^ 31)"

lemma room_mono: "room k ins \<Longrightarrow> j \<le> k \<Longrightarrow> room j ins"
  unfolding room_def by force

lemma int_incr_ok: "n + int (Suc k) < 2 ^ 31 \<Longrightarrow> int_incr n = Some (n + 1)"
  by (simp add: int_incr_def)

lemma ref_of_Some [simp]: "msgs ins m = Some x \<Longrightarrow> ref_of ins m = m_ref_count x"
  by (simp add: ref_of_def)

lemma rev_of_Some [simp]: "msgs ins m = Some x \<Longrightarrow> rev_of ins m = m_rev x"
  by (simp add: rev_of_def)

subsection \<open>Retaining\<close>

lemma memqueue_retain_ok:
  assumes "queues ins q = Some mq" "room (Suc k) ins"
  shows "memqueue_retain q ins =
    Some (ins\<lparr>queues := (queues ins)(q \<mapsto> mq\<lparr>q_ref_count := q_ref_count mq + 1\<rparr>)\<rparr>)"
  using assms int_incr_ok [of "q_ref_count mq" k] unfolding room_def
  by (auto simp: memqueue_retain_def upd_queue_def)

lemma memqueue_msg_retain_ok:
  assumes "msgs ins m = Some x" "queues ins (m_memqueue x) = Some mq" "room (Suc k) ins"
  shows "memqueue_msg_retain m ins =
    Some (ins\<lparr>msgs := (msgs ins)(m \<mapsto> x\<lparr>m_ref_count := m_ref_count x + 1\<rparr>),
              queues := (queues ins)(m_memqueue x \<mapsto> mq\<lparr>q_ref_count := q_ref_count mq + 1\<rparr>)\<rparr>)"
  using assms int_incr_ok [of "m_ref_count x" k] int_incr_ok [of "q_ref_count mq" k] unfolding room_def
  by (auto simp: memqueue_msg_retain_def memqueue_retain_def upd_queue_def upd_msg_def)

text \<open>Updates of counters leave the structure alone.\<close>

lemma msg_ok_cong:
  assumes "msg_ok ins q mq" "q_msg_queue mq' = q_msg_queue mq" "q_rev mq' = q_rev mq"
    "q_msgs_in_queue mq' = q_msgs_in_queue mq"
    "\<And>m x. m \<in> set (q_msg_queue mq) \<Longrightarrow> msgs ins m = Some x \<Longrightarrow>
       \<exists>y. msgs ins' m = Some y \<and> m_memqueue y = m_memqueue x \<and> m_rev y = m_rev x"
  shows "msg_ok ins' q mq'"
proof -
  have r: "rev_of ins' m = rev_of ins m" if "m \<in> set (q_msg_queue mq)" for m
    using assms(1) assms(5) [OF that] that unfolding msg_ok_def by fastforce
  then have "map (rev_of ins') (q_msg_queue mq) = map (rev_of ins) (q_msg_queue mq)" by simp
  then show ?thesis
    using assms unfolding msg_ok_def by (simp del: map_eq_conv) metis
qed

lemma cons_ok_cong:
  "cons_ok ins q mq \<Longrightarrow> q_consumers mq' = q_consumers mq \<Longrightarrow> consumers ins' = consumers ins \<Longrightarrow>
   cons_ok ins' q mq'"
  by (simp add: cons_ok_def)

text \<open>
  \<open>counts_only ins ins'\<close>: queues and messages differ at most in their reference counts and in the
  mark \<open>new\<close>; consumers and the store are the same.
\<close>

definition counts_only :: "memqueue_ins \<Rightarrow> memqueue_ins \<Rightarrow> bool" where
  "counts_only ins ins' \<longleftrightarrow>
     (\<forall>a. map_option (q_ref_count_update (\<lambda>_. 0)) (queues ins' a) =
          map_option (q_ref_count_update (\<lambda>_. 0)) (queues ins a)) \<and>
     (\<forall>a. map_option (\<lambda>x. x\<lparr>m_ref_count := 0, m_new := 0\<rparr>) (msgs ins' a) =
          map_option (\<lambda>x. x\<lparr>m_ref_count := 0, m_new := 0\<rparr>) (msgs ins a)) \<and>
     consumers ins' = consumers ins \<and> queue_store ins' = queue_store ins \<and>
     dom (binders ins') = dom (binders ins) \<and> dom (cli_binders ins') = dom (cli_binders ins) \<and>
     next_addr ins \<le> next_addr ins'"

lemma counts_only_queue:
  assumes "counts_only ins ins'" "queues ins' q = Some mq'"
  obtains mq where "queues ins q = Some mq" "mq' = mq\<lparr>q_ref_count := q_ref_count mq'\<rparr>"
proof -
  have "map_option (q_ref_count_update (\<lambda>_. 0)) (queues ins q) = Some (mq'\<lparr>q_ref_count := 0\<rparr>)"
    using assms unfolding counts_only_def by (metis option.simps(9))
  then obtain mq where mq: "queues ins q = Some mq" "mq\<lparr>q_ref_count := 0\<rparr> = mq'\<lparr>q_ref_count := 0\<rparr>" by auto
  then have "mq' = mq\<lparr>q_ref_count := q_ref_count mq'\<rparr>" by (cases mq; cases mq') simp
  with mq show thesis by (intro that)
qed

lemma counts_only_msg:
  assumes "counts_only ins ins'" "msgs ins m = Some x"
  obtains y where "msgs ins' m = Some y" "y = x\<lparr>m_ref_count := m_ref_count y, m_new := m_new y\<rparr>"
proof -
  have "map_option (\<lambda>x. x\<lparr>m_ref_count := 0, m_new := 0\<rparr>) (msgs ins' m) = Some (x\<lparr>m_ref_count := 0, m_new := 0\<rparr>)"
    using assms unfolding counts_only_def by (metis option.simps(9))
  then obtain y where y: "msgs ins' m = Some y"
      "y\<lparr>m_ref_count := 0, m_new := 0\<rparr> = x\<lparr>m_ref_count := 0, m_new := 0\<rparr>" by auto
  then have "y = x\<lparr>m_ref_count := m_ref_count y, m_new := m_new y\<rparr>" by (cases x; cases y) simp
  with y show thesis by (intro that)
qed

lemma counts_only_refl [simp]: "counts_only ins ins"
  by (simp add: counts_only_def)

lemma counts_only_trans: "counts_only a b \<Longrightarrow> counts_only b c \<Longrightarrow> counts_only a c"
  by (simp add: counts_only_def)

lemma counts_only_dom:
  assumes "counts_only ins ins'"
  shows "dom (queues ins') = dom (queues ins)" "dom (msgs ins') = dom (msgs ins)"
  using assms unfolding counts_only_def by (auto simp: dom_def) (metis map_option_eq_Some option.exhaust)+

lemma mq_struct_counts:
  assumes s: "mq_struct ins" and c: "counts_only ins ins'" and o: "owner_ok ins'"
  shows "mq_struct ins'"
  unfolding mq_struct_def
proof (intro conjI allI impI o)
  fix q mq' assume q': "queues ins' q = Some mq'"
  obtain mq where mq: "queues ins q = Some mq" "mq' = mq\<lparr>q_ref_count := q_ref_count mq'\<rparr>"
    using counts_only_queue [OF c q'] .
  then have fields: "q_msg_queue mq' = q_msg_queue mq" "q_rev mq' = q_rev mq"
    "q_msgs_in_queue mq' = q_msgs_in_queue mq" "q_consumers mq' = q_consumers mq"
    by (metis memqueue.select_convs memqueue.surjective memqueue.update_convs(2))+
  have ok: "msg_ok ins q mq" "cons_ok ins q mq" using s mq(1) unfolding mq_struct_def by auto
  show "msg_ok ins' q mq'"
  proof (rule msg_ok_cong [OF ok(1) fields(1-3)])
    fix m x assume "msgs ins m = Some x"
    from counts_only_msg [OF c this]
    show "\<exists>y. msgs ins' m = Some y \<and> m_memqueue y = m_memqueue x \<and> m_rev y = m_rev x"
      by (metis msg.select_convs(4,6) msg.surjective msg.update_convs(3,5))
  qed
  show "cons_ok ins' q mq'"
    using c by (intro cons_ok_cong [OF ok(2) fields(4)]) (simp add: counts_only_def)
next
  show "store_ok ins'"
    unfolding store_ok_def
  proof (intro conjI ballI)
    have st: "store_ok ins" "queue_store ins' = queue_store ins"
      using s c by (auto simp: mq_struct_def counts_only_def)
    then show "h_wf (queue_store ins')" "order_next (queue_store ins') = None"
      by (auto simp: store_ok_def)
    fix e assume e: "e \<in> set (h_entries (queue_store ins'))"
    obtain k q where kq: "e = (k, q)" by fastforce
    then obtain mq where mq: "queues ins q = Some mq" "q_q_id mq = k" using st e by (auto simp: store_ok_def)
    then obtain mq' where mq': "queues ins' q = Some mq'" using counts_only_dom(1) [OF c] by blast
    from counts_only_queue [OF c mq'] mq have "q_q_id mq' = k"
      by (metis memqueue.select_convs(5) memqueue.surjective memqueue.update_convs(2) option.inject)
    then show "case e of (k, q) \<Rightarrow> \<exists>mq. queues ins' q = Some mq \<and> q_q_id mq = k"
      using kq mq' by simp
  qed
  show "fresh_ok ins'"
    using s c counts_only_dom [OF c] unfolding mq_struct_def fresh_ok_def counts_only_def
    by (metis (no_types, opaque_lifting) order_less_le_trans)
qed

lemma sum_list_upd:
  "distinct l \<Longrightarrow> sum_list (map (f(m := v)) l) =
     sum_list (map f l) + (if m \<in> set l then v - f m else (0 :: int))"
  by (induction l) auto

text \<open>What the operations need to know of a counted message.\<close>

lemma counted_msg:
  assumes "mq_struct ins" "msgs ins m = Some x" "0 < m_ref_count x"
  obtains mq where "queues ins (m_memqueue x) = Some mq" "m \<in> set (q_msg_queue mq)"
    "distinct (q_msg_queue mq)"
  using assms that unfolding mq_struct_def owner_ok_def msg_ok_def by blast

lemma msg_in_own_queue:
  "mq_struct ins \<Longrightarrow> queues ins q = Some mq \<Longrightarrow> m \<in> set (q_msg_queue mq) \<Longrightarrow>
   \<exists>x. msgs ins m = Some x \<and> m_memqueue x = q \<and> 0 \<le> m_ref_count x"
  unfolding mq_struct_def msg_ok_def owner_ok_def by blast

lemma struct_distinct:
  "mq_struct ins \<Longrightarrow> queues ins q = Some mq \<Longrightarrow> distinct (q_msg_queue mq)"
  by (simp add: mq_struct_def msg_ok_def)

text \<open>A change of the count of one message, with its queue's count changed alike.\<close>

lemma ref_ok_msg_count:
  assumes s: "mq_struct ins" and r: "ref_ok d ins" and x: "msgs ins m = Some x"
    and q: "queues ins (m_memqueue x) = Some mq" and m: "m \<in> set (q_msg_queue mq)"
    and ms: "msgs ins' = (msgs ins)(m \<mapsto> y)" and y: "m_ref_count y = m_ref_count x + j"
    and qs: "queues ins' = (queues ins)(m_memqueue x \<mapsto> mq\<lparr>q_ref_count := q_ref_count mq + i\<rparr>)"
  shows "ref_ok (d(m_memqueue x := d (m_memqueue x) + i - j)) ins'"
  unfolding ref_ok_def
proof (intro allI impI)
  fix q' mq' assume q': "queues ins' q' = Some mq'"
  have rf: "ref_of ins' = (ref_of ins)(m := m_ref_count x + j)"
    using x ms y by (auto simp: ref_of_def fun_eq_iff)
  show "q_ref_count mq' = (d(m_memqueue x := d (m_memqueue x) + i - j)) q' +
      sum_list (map (ref_of ins') (q_msg_queue mq'))"
  proof (cases "q' = m_memqueue x")
    case True
    then have mq': "mq' = mq\<lparr>q_ref_count := q_ref_count mq + i\<rparr>" using q' qs by simp
    have "q_ref_count mq = d q' + sum_list (map (ref_of ins) (q_msg_queue mq))"
      using r q True unfolding ref_ok_def by blast
    then show ?thesis
      using True m x struct_distinct [OF s q] unfolding rf mq' by (simp add: sum_list_upd)
  next
    case False
    then have old: "queues ins q' = Some mq'" using q' qs by simp
    have "m \<notin> set (q_msg_queue mq')"
      using msg_in_own_queue [OF s old, of m] x False by auto
    then show ?thesis
      using False r old struct_distinct [OF s old] unfolding rf by (simp add: sum_list_upd ref_ok_def)
  qed
qed

lemma msg_retain_inv:
  assumes s: "mq_struct ins" and r: "ref_ok d ins" and x: "msgs ins m = Some x"
    and q: "queues ins (m_memqueue x) = Some mq" and m: "m \<in> set (q_msg_queue mq)"
    and rm: "room (Suc k) ins"
  shows "\<exists>ins'. memqueue_msg_retain m ins = Some ins' \<and> mq_struct ins' \<and> ref_ok d ins' \<and>
    counts_only ins ins' \<and> room k ins' \<and> cli_binders ins' = cli_binders ins \<and> binders ins' = binders ins \<and>
    msgs ins' = (msgs ins)(m \<mapsto> x\<lparr>m_ref_count := m_ref_count x + 1\<rparr>) \<and> oom ins' = oom ins \<and>
    signals ins' = signals ins"
proof -
  define ins' where "ins' = ins\<lparr>msgs := (msgs ins)(m \<mapsto> x\<lparr>m_ref_count := m_ref_count x + 1\<rparr>),
              queues := (queues ins)(m_memqueue x \<mapsto> mq\<lparr>q_ref_count := q_ref_count mq + 1\<rparr>)\<rparr>"
  have c: "counts_only ins ins'" using x q by (auto simp: counts_only_def ins'_def)
  have o: "owner_ok ins'"
    using s x q m unfolding mq_struct_def owner_ok_def ins'_def by (auto split: if_splits) fastforce+
  have "ref_ok (d(m_memqueue x := d (m_memqueue x) + 1 - 1)) ins'"
    by (rule ref_ok_msg_count [OF s r x q m]) (auto simp: ins'_def)
  then have "ref_ok d ins'" by simp
  moreover have "room k ins'" using rm x q unfolding room_def ins'_def by force
  ultimately show ?thesis
    using memqueue_msg_retain_ok [OF x q rm] mq_struct_counts [OF s c o] c
    by (intro exI [of _ ins']) (simp add: ins'_def)
qed

subsection \<open>Releasing\<close>

lemma memqueue_release_keep:
  assumes "queues ins q = Some mq" "1 < q_ref_count mq"
  shows "memqueue_release q ins =
    Some (ins\<lparr>queues := (queues ins)(q \<mapsto> mq\<lparr>q_ref_count := q_ref_count mq - 1\<rparr>)\<rparr>)"
  using assms by (simp add: memqueue_release_def upd_queue_def Let_def)

text \<open>The last reference: the queue has no consumers left and leaves the store and the heap.\<close>

lemma memqueue_release_last:
  assumes s: "mq_struct ins" and q: "queues ins q = Some mq" "q_ref_count mq = 1"
    and cons: "consumers_of ins q = {}"
  shows "\<exists>store. memqueue_release q ins =
      Some (ins\<lparr>queue_store := store, queues := (queues ins)(q := None)\<rparr>) \<and>
    h_wf store \<and> order_next store = None \<and>
    h_entries store = filter (\<lambda>e. fst e \<noteq> q_q_id mq) (h_entries (queue_store ins))"
proof -
  have st: "h_wf (queue_store ins)" "order_next (queue_store ins) = None"
    using s by (auto simp: mq_struct_def store_ok_def)
  obtain rr store where h: "h_remove (queue_store ins) (q_q_id mq) = Some (rr, store)" "h_wf store"
      "h_entries store = filter (\<lambda>e. fst e \<noteq> q_q_id mq) (h_entries (queue_store ins))"
    using hh.rem_entries [OF st(1)] by metis
  have cur: "order_next store = None"
    using h(1) st(2) by (auto simp: h_remove_def bind_eq_Some_conv split: option.splits)
  have ck: "cons_ok ins q mq" using s q(1) by (simp add: mq_struct_def)
  then have e: "h_entries (q_consumers mq) = []"
    using cons unfolding cons_ok_def consumers_of_def by (cases "h_entries (q_consumers mq)") auto
  then have "length (order_head (q_consumers mq)) = 0" by (simp add: h_entries_def)
  then have t: "h_traverse (Suc (length (order_head (q_consumers mq)))) (q_consumers mq) =
      Some ([], q_consumers mq)"
    using h_traverse_entries [of "q_consumers mq" "Suc 0"] ck e by (simp add: cons_ok_def)
  have f: "h_free (q_consumers mq) = Some Map.empty" using ck by (intro h_free_all) (simp add: cons_ok_def)
  have "memqueue_release q ins = Some (ins\<lparr>queue_store := store, queues := (queues ins)(q := None)\<rparr>)"
    using q h(1) t f by (simp add: memqueue_release_def upd_queue_def Let_def)
  then show ?thesis using h cur by blast
qed

lemma sum_refs_nonneg:
  "mq_struct ins \<Longrightarrow> queues ins q = Some mq \<Longrightarrow> 0 \<le> sum_list (map (ref_of ins) (q_msg_queue mq))"
  by (rule sum_list_nonneg) (auto dest: msg_in_own_queue)

text \<open>Removing a queue, none of whose messages is counted.\<close>

lemma mq_struct_free_queue:
  assumes s: "mq_struct ins" and q: "queues ins q = Some mq"
    and z: "\<And>m. m \<in> set (q_msg_queue mq) \<Longrightarrow> ref_of ins m = 0"
    and st: "h_wf store" "order_next store = None"
      "h_entries store = filter (\<lambda>e. fst e \<noteq> q_q_id mq) (h_entries (queue_store ins))"
  shows "mq_struct (ins\<lparr>queue_store := store, queues := (queues ins)(q := None)\<rparr>)" (is "mq_struct ?i")
proof -
  have "store_ok ?i"
    using s q st unfolding mq_struct_def store_ok_def by fastforce
  moreover have "owner_ok ?i"
    unfolding owner_ok_def
  proof (intro allI impI)
    fix m x assume mx: "msgs ?i m = Some x"
    have "m_memqueue x \<noteq> q" if "0 < m_ref_count x"
    proof
      assume "m_memqueue x = q"
      then have "m \<in> set (q_msg_queue mq)"
        using s mx that q unfolding mq_struct_def owner_ok_def by fastforce
      from z [OF this] mx that show False by simp
    qed
    then show "0 \<le> m_ref_count x \<and>
        (0 < m_ref_count x \<longrightarrow> (\<exists>mq. queues ?i (m_memqueue x) = Some mq \<and> m \<in> set (q_msg_queue mq)))"
      using s mx unfolding mq_struct_def owner_ok_def by fastforce
  qed
  moreover have "fresh_ok ?i" using s by (auto simp: mq_struct_def fresh_ok_def split: if_splits)
  moreover have "msg_ok ?i q' mq' \<and> cons_ok ?i q' mq'" if "queues ?i q' = Some mq'" for q' mq'
    using s that unfolding mq_struct_def msg_ok_def cons_ok_def rev_of_def by (auto split: if_splits)
  ultimately show ?thesis unfolding mq_struct_def by blast
qed

lemma sum_list_zero:
  assumes "\<And>x. x \<in> set xs \<Longrightarrow> 0 \<le> f x" "sum_list (map f xs) \<le> (0 :: int)" "x \<in> set xs"
  shows "f x = 0"
proof -
  have "f x \<le> sum_list (map f xs)" using assms(1,3) by (intro member_le_sum_list) auto
  with assms show ?thesis by (metis order.trans order_antisym)
qed

definition after_release :: "addr \<Rightarrow> memqueue_ins \<Rightarrow> memqueue \<Rightarrow> addr \<Rightarrow> memqueue option" where
  "after_release q ins mq =
     (queues ins)(q := (if q_ref_count mq = 1 then None else Some (mq\<lparr>q_ref_count := q_ref_count mq - 1\<rparr>)))"

lemma memqueue_release_inv:
  assumes s: "mq_struct ins" and r: "ref_ok d ins" and q: "queues ins q = Some mq"
    and cons: "finite (consumers_of ins q)" "int (card (consumers_of ins q)) \<le> d q - 1"
  shows "\<exists>store. memqueue_release q ins =
      Some (ins\<lparr>queue_store := store, queues := after_release q ins mq\<rparr>) \<and>
    (q_ref_count mq \<noteq> 1 \<longrightarrow> store = queue_store ins) \<and>
    mq_struct (ins\<lparr>queue_store := store, queues := after_release q ins mq\<rparr>) \<and>
    ref_ok (d(q := d q - 1)) (ins\<lparr>queue_store := store, queues := after_release q ins mq\<rparr>)"
proof -
  have sum: "q_ref_count mq = d q + sum_list (map (ref_of ins) (q_msg_queue mq))"
    using r q by (simp add: ref_ok_def)
  have nn: "0 \<le> sum_list (map (ref_of ins) (q_msg_queue mq))" using sum_refs_nonneg [OF s q] .
  have rf: "ref_of (ins\<lparr>queue_store := st, queues := qs\<rparr>) = ref_of ins" for st qs
    by (simp add: ref_of_def fun_eq_iff)
  show ?thesis
  proof (cases "q_ref_count mq = 1")
    case True
    then have "card (consumers_of ins q) = 0" and z: "sum_list (map (ref_of ins) (q_msg_queue mq)) \<le> 0"
      using cons(2) sum nn by linarith+
    then have c0: "consumers_of ins q = {}" using cons(1) by simp
    have "ref_of ins m = 0" if "m \<in> set (q_msg_queue mq)" for m
      by (rule sum_list_zero [OF _ z that]) (use msg_in_own_queue [OF s q] in fastforce)
    moreover obtain store where st: "memqueue_release q ins =
        Some (ins\<lparr>queue_store := store, queues := (queues ins)(q := None)\<rparr>)" "h_wf store"
        "order_next store = None"
        "h_entries store = filter (\<lambda>e. fst e \<noteq> q_q_id mq) (h_entries (queue_store ins))"
      using memqueue_release_last [OF s q True c0] by blast
    ultimately have "mq_struct (ins\<lparr>queue_store := store, queues := (queues ins)(q := None)\<rparr>)"
      by (intro mq_struct_free_queue [OF s q])
    moreover have "ref_ok (d(q := d q - 1)) (ins\<lparr>queue_store := store, queues := (queues ins)(q := None)\<rparr>)"
      using r unfolding ref_ok_def rf by auto
    ultimately show ?thesis using st(1) True by (auto simp: after_release_def)
  next
    case False
    then have gt: "1 < q_ref_count mq" using cons sum nn by linarith
    let ?i = "ins\<lparr>queue_store := queue_store ins, queues := after_release q ins mq\<rparr>"
    have "counts_only ins ?i" using False q by (auto simp: counts_only_def after_release_def)
    moreover have "owner_ok ?i"
      using s q False unfolding mq_struct_def owner_ok_def after_release_def by (auto split: if_splits) fastforce
    ultimately have "mq_struct ?i" by (rule mq_struct_counts [OF s])
    moreover have "ref_ok (d(q := d q - 1)) ?i"
      using r sum False unfolding ref_ok_def rf by (auto simp: after_release_def)
    ultimately show ?thesis
      using memqueue_release_keep [OF q gt] False by (auto simp: after_release_def)
  qed
qed

text \<open>The queue of a message whose last reference goes, before the queue itself is released.\<close>

definition drop_msg :: "addr \<Rightarrow> memqueue \<Rightarrow> memqueue" where
  "drop_msg m mq = mq\<lparr>q_msg_queue := remove1 m (q_msg_queue mq),
                       q_msgs_in_queue := q_msgs_in_queue mq - 1\<rparr>"

lemma sorted_wrt_remove1: "sorted_wrt R (map f xs) \<Longrightarrow> sorted_wrt R (map f (remove1 m xs))"
  by (induction xs) (auto dest: notin_set_remove1)

lemma drop_msg_inv:
  assumes s: "mq_struct ins" and r: "ref_ok d ins" and x: "msgs ins m = Some x" "m_ref_count x = 1"
    and q: "queues ins (m_memqueue x) = Some mq" and m: "m \<in> set (q_msg_queue mq)"
  defines "i \<equiv> ins\<lparr>msgs := (msgs ins)(m \<mapsto> x\<lparr>m_new := 0, m_ref_count := 0\<rparr>),
                   queues := (queues ins)(m_memqueue x \<mapsto> drop_msg m mq)\<rparr>"
  shows "mq_struct i" "ref_ok (d(m_memqueue x := d (m_memqueue x) + 1)) i"
proof -
  let ?q = "m_memqueue x"
  have dist: "distinct (q_msg_queue mq)" using struct_distinct [OF s q] .
  have only: "m \<notin> set (q_msg_queue mq')" if "queues ins q' = Some mq'" "q' \<noteq> ?q" for q' mq'
    using msg_in_own_queue [OF s that(1), of m] x(1) that(2) by auto
  have rv: "rev_of i = rev_of ins" using x(1) by (auto simp: rev_of_def i_def fun_eq_iff)
  have ok: "\<And>q' mq'. queues ins q' = Some mq' \<Longrightarrow> msg_ok ins q' mq' \<and> cons_ok ins q' mq'"
    using s by (simp add: mq_struct_def)
  have "msg_ok i q' mq' \<and> cons_ok i q' mq'" if q': "queues i q' = Some mq'" for q' mq'
  proof (cases "q' = ?q")
    case True
    then have mq': "mq' = drop_msg m mq" using q' by (simp add: i_def)
    have o: "msg_ok ins ?q mq" "cons_ok ins ?q mq" using ok [OF q] by auto
    have "set (q_msg_queue mq') = set (q_msg_queue mq) - {m}" using dist by (simp add: mq' drop_msg_def)
    moreover have "int (length (q_msg_queue mq)) - 1 = int (length (remove1 m (q_msg_queue mq)))"
    proof -
      have "length (remove1 m (q_msg_queue mq)) = length (q_msg_queue mq) - 1" using m by (simp add: length_remove1)
      then show ?thesis using length_pos_if_in_set [OF m] by linarith
    qed
    ultimately have "msg_ok i q' mq'"
      using o(1) m dist True unfolding msg_ok_def rv mq' drop_msg_def
      by (auto simp: i_def sorted_wrt_remove1)
    then show ?thesis using o(2) True by (auto simp: cons_ok_def mq' drop_msg_def i_def)
  next
    case False
    then have old: "queues ins q' = Some mq'" using q' by (simp add: i_def)
    then show ?thesis using ok [OF old] only [OF old False] unfolding msg_ok_def cons_ok_def rv
      by (auto simp: i_def)
  qed
  moreover have "store_ok i"
    using s q unfolding mq_struct_def store_ok_def by (auto simp: i_def drop_msg_def split: if_splits)
  moreover have "fresh_ok i" using s x(1) q by (auto simp: mq_struct_def fresh_ok_def i_def)
  moreover have "owner_ok i"
    using s x q dist unfolding mq_struct_def owner_ok_def by (auto simp: i_def drop_msg_def) (metis option.inject)
  ultimately show "mq_struct i" unfolding mq_struct_def by blast
  have rf: "ref_of i = (ref_of ins)(m := 0)" by (auto simp: ref_of_def i_def fun_eq_iff)
  show "ref_ok (d(?q := d ?q + 1)) i"
    unfolding ref_ok_def
  proof (intro allI impI)
    fix q' mq' assume q': "queues i q' = Some mq'"
    show "q_ref_count mq' = (d(?q := d ?q + 1)) q' + sum_list (map (ref_of i) (q_msg_queue mq'))"
    proof (cases "q' = ?q")
      case True
      have "m \<notin> set (remove1 m (q_msg_queue mq))" using dist by simp
      then have "sum_list (map (ref_of i) (remove1 m (q_msg_queue mq))) =
          sum_list (map (ref_of ins) (remove1 m (q_msg_queue mq)))"
        unfolding rf by (metis map_fun_upd)
      also have "\<dots> = sum_list (map (ref_of ins) (q_msg_queue mq)) - 1"
        using sum_list_map_remove1 [OF m, of "ref_of ins"] x by simp
      finally have e: "sum_list (map (ref_of i) (remove1 m (q_msg_queue mq))) =
          sum_list (map (ref_of ins) (q_msg_queue mq)) - 1" .
      have "mq' = drop_msg m mq" using True q' by (simp add: i_def)
      then show ?thesis using e True r q by (simp add: drop_msg_def ref_ok_def)
    next
      case False
      then have old: "queues ins q' = Some mq'" using q' by (simp add: i_def)
      then show ?thesis
        using r False only [OF old False] unfolding rf ref_ok_def by (metis fun_upd_apply map_fun_upd)
    qed
  qed
qed

lemma mq_struct_free_msg:
  assumes s: "mq_struct ins" and m: "\<And>q mq. queues ins q = Some mq \<Longrightarrow> m \<notin> set (q_msg_queue mq)"
  shows "mq_struct (memqueue_msg_free m ins)" "ref_ok d ins \<Longrightarrow> ref_ok d (memqueue_msg_free m ins)"
proof -
  let ?i = "memqueue_msg_free m ins"
  have eq: "map (rev_of ?i) (q_msg_queue mq) = map (rev_of ins) (q_msg_queue mq)"
    "map (ref_of ?i) (q_msg_queue mq) = map (ref_of ins) (q_msg_queue mq)" if "queues ins q = Some mq" for q mq
    using m [OF that] by (auto simp: memqueue_msg_free_def rev_of_def ref_of_def)
  have "msg_ok ?i q mq \<and> cons_ok ?i q mq" if "queues ?i q = Some mq" for q mq
  proof -
    have q: "queues ins q = Some mq" using that by (simp add: memqueue_msg_free_def)
    then have "msg_ok ins q mq" "cons_ok ins q mq" using s by (auto simp: mq_struct_def)
    then show ?thesis
      using m [OF q] eq(1) [OF q] unfolding msg_ok_def cons_ok_def
      by (auto simp: memqueue_msg_free_def simp del: map_eq_conv)
  qed
  then show "mq_struct ?i"
    using s unfolding mq_struct_def store_ok_def fresh_ok_def owner_ok_def
    by (auto simp: memqueue_msg_free_def split: if_splits)
  show "ref_ok d ?i" if "ref_ok d ins"
    using that eq(2) unfolding ref_ok_def by (auto simp: memqueue_msg_free_def simp del: map_eq_conv)
qed

text \<open>
  The state after the release of a message: the message is freed, or its count drops and the mark
  \<open>new\<close> is cleared; its queue drops the freed message and loses one reference, which may free the
  queue; nothing else changes but the store.
\<close>

definition msg_after :: "msg \<Rightarrow> msg option" where
  "msg_after x = (if m_ref_count x = 1 then None
                  else Some (x\<lparr>m_new := 0, m_ref_count := m_ref_count x - 1\<rparr>))"

definition queue_after :: "addr \<Rightarrow> msg \<Rightarrow> memqueue \<Rightarrow> memqueue option" where
  "queue_after m x mq =
     (let mq1 = (if m_ref_count x = 1 then drop_msg m mq else mq)
      in if q_ref_count mq = 1 then None else Some (mq1\<lparr>q_ref_count := q_ref_count mq - 1\<rparr>))"

lemma msg_release_inv:
  assumes s: "mq_struct ins" and r: "ref_ok d ins" and x: "msgs ins m = Some x" "0 < m_ref_count x"
    and q: "queues ins (m_memqueue x) = Some mq"
    and cons: "finite (consumers_of ins (m_memqueue x))"
      "int (card (consumers_of ins (m_memqueue x))) \<le> d (m_memqueue x)"
  shows "\<exists>store ins'. memqueue_msg_release m ins = Some ins' \<and> mq_struct ins' \<and> ref_ok d ins' \<and>
    ins' = ins\<lparr>msgs := (msgs ins)(m := msg_after x), queue_store := store,
               queues := (queues ins)(m_memqueue x := queue_after m x mq)\<rparr> \<and>
    (q_ref_count mq \<noteq> 1 \<longrightarrow> store = queue_store ins)"
proof -
  let ?q = "m_memqueue x"
  let ?d = "d(?q := d ?q + 1)"
  have m: "m \<in> set (q_msg_queue mq)" using counted_msg [OF s x] q by auto
  show ?thesis
  proof (cases "m_ref_count x = 1")
    case True
    define i where "i = ins\<lparr>msgs := (msgs ins)(m \<mapsto> x\<lparr>m_new := 0, m_ref_count := 0\<rparr>),
                   queues := (queues ins)(?q \<mapsto> drop_msg m mq)\<rparr>"
    have s1: "mq_struct i" "ref_ok ?d i"
      using drop_msg_inv [OF s r x(1) True q m] unfolding i_def by auto
    have ci: "consumers_of i ?q = consumers_of ins ?q" by (simp add: consumers_of_def i_def)
    have qi: "queues i ?q = Some (drop_msg m mq)" by (simp add: i_def)
    obtain store where st: "memqueue_release ?q i =
          Some (i\<lparr>queue_store := store, queues := after_release ?q i (drop_msg m mq)\<rparr>)"
        "q_ref_count (drop_msg m mq) \<noteq> 1 \<longrightarrow> store = queue_store i"
        "mq_struct (i\<lparr>queue_store := store, queues := after_release ?q i (drop_msg m mq)\<rparr>)"
        "ref_ok (?d(?q := ?d ?q - 1)) (i\<lparr>queue_store := store, queues := after_release ?q i (drop_msg m mq)\<rparr>)"
      using memqueue_release_inv [OF s1 qi] cons unfolding ci by auto
    let ?j = "i\<lparr>queue_store := store, queues := after_release ?q i (drop_msg m mq)\<rparr>"
    have gone: "m \<notin> set (q_msg_queue mq')" if "queues ?j q' = Some mq'" for q' mq'
      using that struct_distinct [OF s q] msg_in_own_queue [OF s, of q' mq' m] x(1)
      by (auto simp: after_release_def i_def drop_msg_def split: if_splits)
    have "mq_struct (memqueue_msg_free m ?j)" "ref_ok d (memqueue_msg_free m ?j)"
      using mq_struct_free_msg [OF st(3) gone] st(4) by auto
    moreover have "memqueue_msg_release m ins = Some (memqueue_msg_free m ?j)"
      using True x q m st(1) by (simp add: memqueue_msg_release_def upd_msg_def upd_queue_def
          Let_def i_def drop_msg_def)
    moreover have "memqueue_msg_free m ?j = ins\<lparr>msgs := (msgs ins)(m := msg_after x),
        queue_store := store, queues := (queues ins)(?q := queue_after m x mq)\<rparr>"
      using True by (simp add: memqueue_msg_free_def i_def after_release_def drop_msg_def
          msg_after_def queue_after_def Let_def)
    ultimately show ?thesis using st(2) by (auto simp: i_def drop_msg_def)
  next
    case False
    define i where "i = ins\<lparr>msgs := (msgs ins)(m \<mapsto> x\<lparr>m_new := 0, m_ref_count := m_ref_count x - 1\<rparr>)\<rparr>"
    have c: "counts_only ins i" using x by (auto simp: counts_only_def i_def)
    have "owner_ok i" using s x q m False unfolding mq_struct_def owner_ok_def i_def by auto
    then have s1: "mq_struct i" by (rule mq_struct_counts [OF s c])
    have "ref_ok (d(?q := d ?q + 0 - (- 1))) i"
      by (rule ref_ok_msg_count [OF s r x(1) q m]) (use q in \<open>auto simp: i_def fun_upd_idem\<close>)
    then have r1: "ref_ok ?d i" by simp
    have ci: "consumers_of i ?q = consumers_of ins ?q" by (simp add: consumers_of_def i_def)
    have qi: "queues i ?q = Some mq" using q by (simp add: i_def)
    obtain store where st: "memqueue_release ?q i =
          Some (i\<lparr>queue_store := store, queues := after_release ?q i mq\<rparr>)"
        "q_ref_count mq \<noteq> 1 \<longrightarrow> store = queue_store i"
        "mq_struct (i\<lparr>queue_store := store, queues := after_release ?q i mq\<rparr>)"
        "ref_ok (?d(?q := ?d ?q - 1)) (i\<lparr>queue_store := store, queues := after_release ?q i mq\<rparr>)"
      using memqueue_release_inv [OF s1 r1 qi] cons unfolding ci by auto
    have "memqueue_msg_release m ins = Some (i\<lparr>queue_store := store, queues := after_release ?q i mq\<rparr>)"
      using False x q st(1) by (simp add: memqueue_msg_release_def upd_msg_def Let_def i_def)
    moreover have "i\<lparr>queue_store := store, queues := after_release ?q i mq\<rparr> =
        ins\<lparr>msgs := (msgs ins)(m := msg_after x), queue_store := store,
            queues := (queues ins)(?q := queue_after m x mq)\<rparr>"
      using False by (simp add: i_def after_release_def msg_after_def queue_after_def Let_def)
    ultimately show ?thesis using st by (auto simp: i_def)
  qed
qed

end
