(* ===== verification/Memqueue_Proofs.thy ===== *)
theory Memqueue_Proofs
  imports Memqueue_Inv
begin

text \<open>
  Delivery of messages: the pending messages of the pollers are counted references, so a message
  lives as long as a poller has yet to answer with it. The theory shows what the loops of
  \<open>memqueue.c\<close> do with the lists of pending messages and that they keep the invariant.
\<close>

subsection \<open>Pending messages\<close>

definition pending :: "memqueue_ins \<Rightarrow> addr \<Rightarrow> addr list" where
  "pending ins b = (case cli_binders ins b of Some cb \<Rightarrow> cb_pending_msgs cb | None \<Rightarrow> [])"

definition pend_count :: "memqueue_ins \<Rightarrow> addr \<Rightarrow> nat" where
  "pend_count ins m = (\<Sum>b < next_addr ins. count_list (pending ins b) m)"

text \<open>\<open>h m\<close> is the number of references to the message \<open>m\<close> that are not due to pollers.\<close>

definition pend_ok :: "(addr \<Rightarrow> int) \<Rightarrow> memqueue_ins \<Rightarrow> bool" where
  "pend_ok h ins \<longleftrightarrow>
     (\<forall>m x. msgs ins m = Some x \<longrightarrow> 0 \<le> h m \<and> m_ref_count x = h m + int (pend_count ins m)) \<and>
     (\<forall>b m. m \<in> set (pending ins b) \<longrightarrow> m \<in> dom (msgs ins))"

definition mq_inv :: "(addr \<Rightarrow> int) \<Rightarrow> (addr \<Rightarrow> int) \<Rightarrow> memqueue_ins \<Rightarrow> bool" where
  "mq_inv d h ins \<longleftrightarrow> mq_struct ins \<and> ref_ok d ins \<and> hold_ok d ins \<and> pend_ok h ins"

lemma pending_Some [simp]: "cli_binders ins b = Some cb \<Longrightarrow> pending ins b = cb_pending_msgs cb"
  by (simp add: pending_def)

lemma pending_bound: "fresh_ok ins \<Longrightarrow> pending ins b \<noteq> [] \<Longrightarrow> b < next_addr ins"
  by (auto simp: pending_def fresh_ok_def split: option.splits)

text \<open>The count may be taken over any range that covers the pollers.\<close>

lemma pend_count_ext:
  assumes "fresh_ok ins" "next_addr ins \<le> n"
  shows "pend_count ins m = (\<Sum>b < n. count_list (pending ins b) m)"
  unfolding pend_count_def
proof (rule sum.mono_neutral_left)
  show "\<forall>b \<in> {..<n} - {..<next_addr ins}. count_list (pending ins b) m = 0"
    using pending_bound [OF assms(1)] by (metis DiffD2 count_list.simps(1) lessThan_iff)
qed (use assms(2) in auto)

lemma pend_count_zero: "fresh_ok ins \<Longrightarrow> pend_count ins m = 0 \<longleftrightarrow> (\<forall>b. m \<notin> set (pending ins b))"
proof -
  assume f: "fresh_ok ins"
  have "b < next_addr ins" if "m \<in> set (pending ins b)" for b
    using pending_bound [OF f, of b] that by (cases "pending ins b") auto
  then show ?thesis unfolding pend_count_def by (auto simp: count_list_0_iff)
qed

lemma pend_count_upd:
  assumes f: "fresh_ok ins" "fresh_ok ins'" and n: "next_addr ins \<le> next_addr ins'"
    and p: "\<And>b'. pending ins' b' = (if b' = b then l else pending ins b')" and b: "b < next_addr ins'"
  shows "pend_count ins' m + count_list (pending ins b) m = pend_count ins m + count_list l m"
proof -
  let ?N = "{..<next_addr ins'} - {b}"
  have "pend_count ins' m = count_list l m + (\<Sum>b' \<in> ?N. count_list (pending ins b') m)"
    unfolding pend_count_def using b by (subst sum.remove [of _ b]) (auto simp: p intro!: sum.cong)
  moreover have "pend_count ins m = count_list (pending ins b) m + (\<Sum>b' \<in> ?N. count_list (pending ins b') m)"
    unfolding pend_count_ext [OF f(1) n] using b by (subst sum.remove [of _ b]) auto
  ultimately show ?thesis by simp
qed

subsection \<open>One delivery\<close>

text \<open>Everything but counters and pending messages stays: a delivery is quiet.\<close>

definition quiet :: "memqueue_ins \<Rightarrow> memqueue_ins \<Rightarrow> bool" where
  "quiet ins ins' \<longleftrightarrow> counts_only ins ins' \<and> binders ins' = binders ins \<and>
     (\<forall>m. map_option m_new (msgs ins' m) = map_option m_new (msgs ins m)) \<and>
     (\<forall>b. map_option (cb_pending_msgs_update (\<lambda>_. [])) (cli_binders ins' b) =
          map_option (cb_pending_msgs_update (\<lambda>_. [])) (cli_binders ins b)) \<and>
     rb ins' = rb ins \<and> enodes ins' = enodes ins \<and> (\<forall>ty. exp_root ty ins' = exp_root ty ins) \<and>
     birth ins' = birth ins \<and> now ins' = now ins \<and> unique_msg_id ins' = unique_msg_id ins \<and>
     freed_writes ins' = freed_writes ins"

lemma quiet_refl [simp]: "quiet ins ins"
  by (auto simp: quiet_def)

lemma quiet_trans: "quiet a b \<Longrightarrow> quiet b c \<Longrightarrow> quiet a c"
  unfolding quiet_def using counts_only_trans [of a b c] by simp

lemma hold_ok_cong:
  "hold_ok d ins \<Longrightarrow> consumers ins' = consumers ins \<Longrightarrow> dom (queues ins') \<subseteq> dom (queues ins) \<Longrightarrow> hold_ok d ins'"
  unfolding hold_ok_def consumers_of_def by (simp add: subset_iff)

lemma struct_same:
  assumes "mq_struct ins" "queues ins' = queues ins" "msgs ins' = msgs ins" "consumers ins' = consumers ins"
    "queue_store ins' = queue_store ins" "dom (binders ins') = dom (binders ins)"
    "dom (cli_binders ins') = dom (cli_binders ins)" "next_addr ins \<le> next_addr ins'"
  shows "mq_struct ins'"
proof (rule mq_struct_counts [OF assms(1)])
  show "counts_only ins ins'" using assms by (simp add: counts_only_def)
  show "owner_ok ins'" using assms by (simp add: mq_struct_def owner_ok_def)
qed

lemma ref_ok_same: "ref_ok d ins \<Longrightarrow> queues ins' = queues ins \<Longrightarrow> msgs ins' = msgs ins \<Longrightarrow> ref_ok d ins'"
  by (simp add: ref_ok_def ref_of_def [abs_def])

lemma room_same: "room k ins \<Longrightarrow> queues ins' = queues ins \<Longrightarrow> msgs ins' = msgs ins \<Longrightarrow> room k ins'"
  by (simp add: room_def)

lemma calloc_ok:
  "oom ins = [] \<Longrightarrow> calloc ins = (Some (next_addr ins), ins\<lparr>next_addr := Suc (next_addr ins)\<rparr>)"
  by (simp add: calloc_def)

lemma enqueue_step:
  assumes inv: "mq_inv d h ins" and mem: "oom ins = []" and b: "cli_binders ins b = Some cb"
    and q: "queues ins q = Some mq" "m \<in> set (q_msg_queue mq)" and rm: "room (Suc k) ins"
  shows "\<exists>ins'. cli_binder_enqueue_msg b m ins = Some (0, ins') \<and> mq_inv d h ins' \<and> quiet ins ins' \<and>
    room k ins' \<and> oom ins' = [] \<and> signals ins' = signals ins \<and>
    cli_binders ins' = (cli_binders ins)(b \<mapsto> cb\<lparr>cb_pending_msgs := cb_pending_msgs cb @ [m]\<rparr>)"
proof -
  have s: "mq_struct ins" and r: "ref_ok d ins" and hd: "hold_ok d ins" and p: "pend_ok h ins"
    using inv by (auto simp: mq_inv_def)
  let ?cb = "cb\<lparr>cb_pending_msgs := cb_pending_msgs cb @ [m]\<rparr>"
  define i where "i = ins\<lparr>next_addr := Suc (next_addr ins), cli_binders := (cli_binders ins)(b \<mapsto> ?cb)\<rparr>"
  have si: "mq_struct i" using b by (intro struct_same [OF s]) (auto simp: i_def)
  have ri: "ref_ok d i" "room (Suc k) i"
    by (rule ref_ok_same [OF r] room_same [OF rm], simp_all add: i_def)+
  obtain x where x: "msgs ins m = Some x" "m_memqueue x = q" using msg_in_own_queue [OF s q] by blast
  have xi: "msgs i m = Some x" "queues i (m_memqueue x) = Some mq" using x q by (simp_all add: i_def)
  obtain ins' where i': "memqueue_msg_retain m i = Some ins'" "mq_struct ins'" "ref_ok d ins'"
      "counts_only i ins'" "room k ins'" "cli_binders ins' = cli_binders i" "binders ins' = binders i"
      "msgs ins' = (msgs i)(m \<mapsto> x\<lparr>m_ref_count := m_ref_count x + 1\<rparr>)" "oom ins' = oom i"
      "signals ins' = signals i"
    using msg_retain_inv [OF si ri(1) xi q(2) ri(2)] by blast
  have fr: "ins' = i\<lparr>msgs := (msgs i)(m \<mapsto> x\<lparr>m_ref_count := m_ref_count x + 1\<rparr>),
      queues := (queues i)(m_memqueue x \<mapsto> mq\<lparr>q_ref_count := q_ref_count mq + 1\<rparr>)\<rparr>"
    using memqueue_msg_retain_ok [OF xi ri(2)] i'(1) by simp
  have res: "cli_binder_enqueue_msg b m ins = Some (0, ins')"
    using mem b i'(1) by (simp add: cli_binder_enqueue_msg_def calloc_ok upd_cli_def i_def)
  have co: "counts_only ins ins'"
    using i'(4) b by (auto simp: counts_only_def i_def)
  have hk: "hold_ok d ins'"
    using hd counts_only_dom(1) [OF co] co by (intro hold_ok_cong [OF hd]) (auto simp: counts_only_def)
  have cl: "cli_binders ins' = (cli_binders ins)(b \<mapsto> ?cb)" using i'(6) by (simp add: i_def)
  have pd: "pending ins' b' = (if b' = b then cb_pending_msgs cb @ [m] else pending ins b')" for b'
    by (simp add: pending_def cl)
  have fo: "fresh_ok ins" "fresh_ok ins'" using s i'(2) by (auto simp: mq_struct_def)
  have bn: "b < next_addr ins'" using fo(2) cl by (auto simp: fresh_ok_def)
  have pc: "pend_count ins' m' = pend_count ins m' + (if m' = m then 1 else 0)" for m'
    using pend_count_upd [OF fo _ pd bn, of m'] co b by (auto simp: counts_only_def)
  have ms: "msgs ins' = (msgs ins)(m \<mapsto> x\<lparr>m_ref_count := m_ref_count x + 1\<rparr>)"
    using i'(8) by (simp add: i_def)
  have "pend_ok h ins'"
    unfolding pend_ok_def
  proof (intro conjI allI impI)
    fix m' y assume "msgs ins' m' = Some y"
    then show "0 \<le> h m'" "m_ref_count y = h m' + int (pend_count ins' m')"
      using p x(1) unfolding pend_ok_def pc ms by (auto split: if_splits)
  next
    fix b' m' assume "m' \<in> set (pending ins' b')"
    then have "m' = m \<or> m' \<in> set (pending ins b')" using b unfolding pd by (auto split: if_splits)
    then show "m' \<in> dom (msgs ins')" using p unfolding pend_ok_def ms by auto
  qed
  moreover have "quiet ins ins'"
  proof -
    have "rb ins' = rb ins \<and> enodes ins' = enodes ins \<and> (\<forall>ty. exp_root ty ins' = exp_root ty ins) \<and>
     birth ins' = birth ins \<and> now ins' = now ins \<and> unique_msg_id ins' = unique_msg_id ins \<and>
     freed_writes ins' = freed_writes ins"
      unfolding fr i_def exp_root_def by (simp split: obj_type.split)
    moreover have "map_option m_new (msgs ins' m') = map_option m_new (msgs ins m')" for m'
      using i'(8) x(1) by (simp add: i_def)
    ultimately show ?thesis using co i'(7) cl b by (simp add: quiet_def i_def)
  qed
  ultimately show ?thesis
    using res i'(2,3,5,9,10) hk mem cl unfolding mq_inv_def by (auto simp: i_def)
qed

lemma cond_signal_simps [simp]:
  "queues (cond_signal c ins) = queues ins" "msgs (cond_signal c ins) = msgs ins"
  "binders (cond_signal c ins) = binders ins" "cli_binders (cond_signal c ins) = cli_binders ins"
  "oom (cond_signal c ins) = oom ins" "signals (cond_signal c ins) = signals ins @ [c]"
  "consumers (cond_signal c ins) = consumers ins" "next_addr (cond_signal c ins) = next_addr ins"
  by (simp_all add: cond_signal_def)

lemma counts_only_queue_fwd:
  assumes "counts_only ins ins'" "queues ins q = Some mq"
  shows "\<exists>n. queues ins' q = Some (mq\<lparr>q_ref_count := n\<rparr>)"
proof -
  obtain mq' where "queues ins' q = Some mq'" using counts_only_dom(1) [OF assms(1)] assms(2) by blast
  with counts_only_queue [OF assms(1) this] assms(2) show ?thesis by (metis option.inject)
qed

lemma quiet_list:
  assumes "quiet ins ins'" "queues ins q = Some mq"
  shows "\<exists>mq'. queues ins' q = Some mq' \<and> q_msg_queue mq' = q_msg_queue mq \<and> q_rev mq' = q_rev mq \<and>
    q_memqueue_binders mq' = q_memqueue_binders mq"
  using counts_only_queue_fwd [of ins ins' q mq] assms unfolding quiet_def by auto

lemma quiet_msg:
  assumes "quiet ins ins'" "msgs ins m = Some x"
  shows "\<exists>y. msgs ins' m = Some y \<and> m_rev y = m_rev x \<and> m_new y = m_new x \<and> m_data y = m_data x \<and>
    m_data_len y = m_data_len x \<and> m_memqueue y = m_memqueue x"
proof -
  obtain y where y: "msgs ins' m = Some y" "y = x\<lparr>m_ref_count := m_ref_count y, m_new := m_new y\<rparr>"
    using counts_only_msg assms unfolding quiet_def by blast
  have "map_option m_new (msgs ins' m) = map_option m_new (msgs ins m)"
    using assms(1) by (simp add: quiet_def)
  then have "m_new y = m_new x" using y(1) assms(2) by simp
  moreover have "m_rev y = m_rev x \<and> m_data y = m_data x \<and> m_data_len y = m_data_len x \<and> m_memqueue y = m_memqueue x"
    by (subst (1 2 3 4) y(2)) simp
  ultimately show ?thesis using y(1) by blast
qed

lemma quiet_cli:
  assumes "quiet ins ins'" "cli_binders ins b = Some cb"
  shows "\<exists>cb'. cli_binders ins' b = Some cb'"
  using assms unfolding quiet_def counts_only_def by blast

lemma mq_inv_signal [simp]: "mq_inv d h (cond_signal c ins) = mq_inv d h ins"
  "room k (cond_signal c ins) = room k ins" "quiet i (cond_signal c ins) = quiet i ins"
  "pending (cond_signal c ins) = pending ins"
  by (auto simp: mq_inv_def mq_struct_def msg_ok_def cons_ok_def store_ok_def fresh_ok_def owner_ok_def
      ref_ok_def hold_ok_def consumers_of_def pend_ok_def pend_count_def pending_def [abs_def] room_def
      cond_signal_def rev_of_def [abs_def] ref_of_def [abs_def] quiet_def counts_only_def exp_root_def
      split: obj_type.splits)

subsection \<open>Delivery of a new message\<close>

text \<open>The pollers that a message of revision \<open>rv\<close> is for, one entry per binding.\<close>

definition receivers :: "memqueue_ins \<Rightarrow> int \<Rightarrow> addr list \<Rightarrow> addr list" where
  "receivers ins rv ts =
     map (\<lambda>t. b_cli_binder (the (binders ins t))) (filter (\<lambda>t. b_rev (the (binders ins t)) \<le> rv) ts)"

lemma deliver_loop_ok:
  assumes "mq_inv d h ins" "oom ins = []" "room (length ts + k) ins"
    "queues ins q = Some mq" "m \<in> set (q_msg_queue mq)"
    "\<And>t. t \<in> set ts \<Longrightarrow> \<exists>bd cb. binders ins t = Some bd \<and> cli_binders ins (b_cli_binder bd) = Some cb"
  shows "\<exists>ins'. deliver_loop rv m ts ins = Some ins' \<and> mq_inv d h ins' \<and> quiet ins ins' \<and>
    room k ins' \<and> oom ins' = [] \<and> signals ins' = signals ins @ map Some (receivers ins rv ts) \<and>
    (\<forall>b. pending ins' b = pending ins b @ replicate (count_list (receivers ins rv ts) b) m)"
  using assms
proof (induction ts arbitrary: ins mq)
  case Nil
  then show ?case by (auto simp: receivers_def)
next
  case (Cons t ts)
  obtain bd cb where t: "binders ins t = Some bd" "cli_binders ins (b_cli_binder bd) = Some cb"
    using Cons.prems(6) by force
  show ?case
  proof (cases "b_rev bd \<le> rv")
    case False
    have "room (length ts + k) ins" using Cons.prems(3) by (rule room_mono) simp
    with Cons.IH [OF Cons.prems(1,2) this Cons.prems(4,5)] Cons.prems(6) t(1) False
    show ?thesis by (simp add: receivers_def)
  next
    case True
    let ?b = "b_cli_binder bd"
    obtain i where i: "cli_binder_enqueue_msg ?b m ins = Some (0, i)" "mq_inv d h i" "quiet ins i"
        "room (length ts + k) i" "oom i = []" "signals i = signals ins"
        "cli_binders i = (cli_binders ins)(?b \<mapsto> cb\<lparr>cb_pending_msgs := cb_pending_msgs cb @ [m]\<rparr>)"
      using enqueue_step [OF Cons.prems(1,2) t(2) Cons.prems(4,5), of "length ts + k"] Cons.prems(3) by auto
    let ?j = "cond_signal (Some ?b) i"
    have j: "mq_inv d h ?j" "quiet ins ?j" "room (length ts + k) ?j" "oom ?j = []"
        "signals ?j = signals ins @ [Some ?b]"
      using i by simp_all
    have bj: "binders ?j = binders ins" using j(2) by (simp add: quiet_def)
    obtain mq' where mq': "queues ?j q = Some mq'" "m \<in> set (q_msg_queue mq')"
      using quiet_list [OF j(2) Cons.prems(4)] Cons.prems(5) by auto
    have "\<exists>bd cb. binders ?j t' = Some bd \<and> cli_binders ?j (b_cli_binder bd) = Some cb" if "t' \<in> set ts" for t'
      using Cons.prems(6) [of t'] that quiet_cli [OF j(2)] unfolding bj by force
    then obtain ins' where r: "deliver_loop rv m ts ?j = Some ins'" "mq_inv d h ins'" "quiet ?j ins'"
        "room k ins'" "oom ins' = []" "signals ins' = signals ?j @ map Some (receivers ?j rv ts)"
        "\<forall>b. pending ins' b = pending ?j b @ replicate (count_list (receivers ?j rv ts) b) m"
      using Cons.IH [OF j(1,4,3) mq'] by blast
    have rec: "receivers ?j rv ts = receivers ins rv ts" "receivers ins rv (t # ts) = ?b # receivers ins rv ts"
      using bj t(1) True by (simp_all add: receivers_def)
    have "pending ?j b = pending ins b @ (if b = ?b then [m] else [])" for b
      using t(2) i(7) by (simp add: pending_def)
    then have "pending ins' b = pending ins b @ replicate (count_list (receivers ins rv (t # ts)) b) m" for b
      using r(7) rec by (simp add: replicate_append_same)
    moreover have "deliver_loop rv m (t # ts) ins = Some ins'"
      using t True i(1,7) r(1) by (simp add: cli_wakeup_def)
    ultimately show ?thesis
      using r(2-6) rec j(5) quiet_trans [OF j(2) r(3)] by auto
  qed
qed

subsection \<open>Messages for a poll\<close>

text \<open>The messages of a list that a poll for \<open>rv\<close> gets, in the order of the list.\<close>

definition selected :: "memqueue_ins \<Rightarrow> int \<Rightarrow> int \<Rightarrow> addr list \<Rightarrow> addr list" where
  "selected ins rv latest ms =
     filter (\<lambda>m. case msgs ins m of
                   Some x \<Rightarrow> rv < m_rev x \<or> (latest \<noteq> 0 \<and> m_new x = 1)
                 | None \<Rightarrow> False) ms"

lemma selected_quiet:
  assumes "quiet ins ins'" "set ms \<subseteq> dom (msgs ins)"
  shows "selected ins' rv latest ms = selected ins rv latest ms"
  unfolding selected_def
proof (rule filter_cong [OF refl])
  fix m assume "m \<in> set ms"
  then obtain x where x: "msgs ins m = Some x" using assms(2) by blast
  then show "(case msgs ins' m of Some x \<Rightarrow> rv < m_rev x \<or> (latest \<noteq> 0 \<and> m_new x = 1) | None \<Rightarrow> False) =
    (case msgs ins m of Some x \<Rightarrow> rv < m_rev x \<or> (latest \<noteq> 0 \<and> m_new x = 1) | None \<Rightarrow> False)"
    using quiet_msg [OF assms(1) x] by auto
qed

lemma enqueue_loop_ok:
  assumes "mq_inv d h ins" "oom ins = []" "room (length ms + k) ins" "cli_binders ins b = Some cb"
    "queues ins q = Some mq" "set ms \<subseteq> set (q_msg_queue mq)"
  shows "\<exists>ins'. enqueue_loop b rv latest ms n ins =
      Some (n + int (length (selected ins rv latest ms)), ins') \<and> mq_inv d h ins' \<and> quiet ins ins' \<and>
    room k ins' \<and> oom ins' = [] \<and> signals ins' = signals ins \<and>
    (\<forall>b'. pending ins' b' = pending ins b' @ (if b' = b then selected ins rv latest ms else []))"
  using assms
proof (induction ms arbitrary: ins mq n cb)
  case Nil
  then show ?case by (simp add: selected_def)
next
  case (Cons m ms)
  have s: "mq_struct ins" using Cons.prems(1) by (simp add: mq_inv_def)
  have live: "set (m # ms) \<subseteq> dom (msgs ins)"
    using msg_in_own_queue [OF s Cons.prems(5)] Cons.prems(6) by blast
  then obtain x where x: "msgs ins m = Some x" by auto
  show ?case
  proof (cases "rv < m_rev x \<or> (latest \<noteq> 0 \<and> m_new x = 1)")
    case False
    have rm: "room (length ms + k) ins" using Cons.prems(3) by (rule room_mono) simp
    have e: "selected ins rv latest (m # ms) = selected ins rv latest ms"
      "enqueue_loop b rv latest (m # ms) n ins = enqueue_loop b rv latest ms n ins"
      using x False by (auto simp: selected_def)
    show ?thesis
      unfolding e by (rule Cons.IH [OF Cons.prems(1,2) rm Cons.prems(4,5)]) (use Cons.prems(6) in simp)
  next
    case True
    obtain i where i: "cli_binder_enqueue_msg b m ins = Some (0, i)" "mq_inv d h i" "quiet ins i"
        "room (length ms + k) i" "oom i = []" "signals i = signals ins"
        "cli_binders i = (cli_binders ins)(b \<mapsto> cb\<lparr>cb_pending_msgs := cb_pending_msgs cb @ [m]\<rparr>)"
      using enqueue_step [OF Cons.prems(1,2,4,5), of m "length ms + k"] Cons.prems(3,6) by auto
    obtain mq' where mq': "queues i q = Some mq'" "q_msg_queue mq' = q_msg_queue mq"
      using quiet_list [OF i(3) Cons.prems(5)] by blast
    have cb: "cli_binders i b = Some (cb\<lparr>cb_pending_msgs := cb_pending_msgs cb @ [m]\<rparr>)" using i(7) by simp
    have sel: "selected i rv latest ms = selected ins rv latest ms"
      using live by (intro selected_quiet [OF i(3)]) simp
    obtain ins' where r: "enqueue_loop b rv latest ms (n + 1) i =
          Some (n + 1 + int (length (selected i rv latest ms)), ins')" "mq_inv d h ins'" "quiet i ins'"
        "room k ins'" "oom ins' = []" "signals ins' = signals i"
        "\<forall>b'. pending ins' b' = pending i b' @ (if b' = b then selected i rv latest ms else [])"
      using Cons.IH [OF i(2,5,4) cb mq'(1), of "n + 1"] Cons.prems(6) mq'(2) by auto
    have hd: "selected ins rv latest (m # ms) = m # selected ins rv latest ms"
      using True x by (simp add: selected_def)
    have "pending i b' = pending ins b' @ (if b' = b then [m] else [])" for b'
      using Cons.prems(4) i(7) by (simp add: pending_def)
    then have "pending ins' b' = pending ins b' @ (if b' = b then selected ins rv latest (m # ms) else [])" for b'
      using r(7) sel hd by simp
    then show ?thesis
      using x True i(1,6) r sel hd quiet_trans [OF i(3) r(3)] by auto
  qed
qed

end
