(* ===== verification/Memqueue_Create.thy ===== *)
theory Memqueue_Create
  imports Memqueue_Proofs
begin

text \<open>
  Creation of messages: the whole invariant \<open>srv_inv\<close> of the server, which adds the scheduler's
  invariant to that of the queues, and the proof that \<open>memqueue_msg_create\<close> keeps it, appends
  exactly one message with the next revision, and delivers it to the bound pollers.
\<close>

subsection \<open>Scheduling and the queues\<close>

lemma core_cases:
  assumes "map_option f y = map_option f x" "\<And>a b. f a = f b \<Longrightarrow> \<exists>u v. a = upd b u v"
  shows "(x = None \<and> y = None) \<or> (\<exists>a u v. x = Some a \<and> y = Some (upd a u v))"
  using assms by (cases x; cases y) auto

lemma sched_frame_queue:
  assumes "sched_frame ins ins'"
  shows "(queues ins q = None \<and> queues ins' q = None) \<or>
    (\<exists>mq u v. queues ins q = Some mq \<and> queues ins' q = Some (mq\<lparr>q_expiry_next := u, q_expiry_node := v\<rparr>))"
proof (rule core_cases [where f = q_core])
  show "map_option q_core (queues ins' q) = map_option q_core (queues ins q)"
    using assms by (simp add: sched_frame_def)
  show "\<exists>u v. a = b\<lparr>q_expiry_next := u, q_expiry_node := v\<rparr>" if "q_core a = q_core b" for a b
    using that by (cases a; cases b) (simp add: q_core_def)
qed

lemma sched_frame_msg:
  assumes "sched_frame ins ins'"
  shows "(msgs ins m = None \<and> msgs ins' m = None) \<or>
    (\<exists>x u v. msgs ins m = Some x \<and> msgs ins' m = Some (x\<lparr>m_expiry_next := u, m_expiry_node := v\<rparr>))"
proof (rule core_cases [where f = m_core])
  show "map_option m_core (msgs ins' m) = map_option m_core (msgs ins m)"
    using assms by (simp add: sched_frame_def)
  show "\<exists>u v. a = b\<lparr>m_expiry_next := u, m_expiry_node := v\<rparr>" if "m_core a = m_core b" for a b
    using that by (cases a; cases b) (simp add: m_core_def)
qed

lemma sched_frame_consumer:
  assumes "sched_frame ins ins'"
  shows "(consumers ins c = None \<and> consumers ins' c = None) \<or>
    (\<exists>x u v. consumers ins c = Some x \<and> consumers ins' c = Some (x\<lparr>c_expiry_next := u, c_expiry_node := v\<rparr>))"
proof (rule core_cases [where f = c_core])
  show "map_option c_core (consumers ins' c) = map_option c_core (consumers ins c)"
    using assms by (simp add: sched_frame_def)
  show "\<exists>u v. a = b\<lparr>c_expiry_next := u, c_expiry_node := v\<rparr>" if "c_core a = c_core b" for a b
    using that by (cases a; cases b) (simp add: c_core_def)
qed

lemma sched_frame_back:
  assumes "sched_frame ins ins'"
  shows "queues ins' q = Some mq' \<Longrightarrow>
      \<exists>mq u v. queues ins q = Some mq \<and> mq' = mq\<lparr>q_expiry_next := u, q_expiry_node := v\<rparr>"
    "msgs ins' m = Some y \<Longrightarrow> \<exists>x u v. msgs ins m = Some x \<and> y = x\<lparr>m_expiry_next := u, m_expiry_node := v\<rparr>"
    "consumers ins' c = Some cn' \<Longrightarrow>
      \<exists>cn u v. consumers ins c = Some cn \<and> cn' = cn\<lparr>c_expiry_next := u, c_expiry_node := v\<rparr>"
  using sched_frame_queue [OF assms, of q] sched_frame_msg [OF assms, of m]
    sched_frame_consumer [OF assms, of c] by auto

lemma sched_frame_fwd:
  assumes "sched_frame ins ins'"
  shows "queues ins q = Some mq \<Longrightarrow> \<exists>u v. queues ins' q = Some (mq\<lparr>q_expiry_next := u, q_expiry_node := v\<rparr>)"
    "msgs ins m = Some x \<Longrightarrow> \<exists>u v. msgs ins' m = Some (x\<lparr>m_expiry_next := u, m_expiry_node := v\<rparr>)"
    "consumers ins c = Some cn \<Longrightarrow>
      \<exists>u v. consumers ins' c = Some (cn\<lparr>c_expiry_next := u, c_expiry_node := v\<rparr>)"
  using sched_frame_queue [OF assms, of q] sched_frame_msg [OF assms, of m]
    sched_frame_consumer [OF assms, of c] by auto

lemma sched_frame_refs:
  assumes "sched_frame ins ins'"
  shows "ref_of ins' = ref_of ins" "rev_of ins' = rev_of ins" "pending ins' = pending ins"
    "consumers_of ins' = consumers_of ins" "dom (queues ins') = dom (queues ins)"
    "dom (msgs ins') = dom (msgs ins)" "dom (consumers ins') = dom (consumers ins)"
proof -
  show "ref_of ins' = ref_of ins"
  proof
    show "ref_of ins' m = ref_of ins m" for m
      using sched_frame_msg [OF assms, of m] by (auto simp: ref_of_def)
  qed
  show "rev_of ins' = rev_of ins"
  proof
    show "rev_of ins' m = rev_of ins m" for m
      using sched_frame_msg [OF assms, of m] by (auto simp: rev_of_def)
  qed
  show "pending ins' = pending ins" using assms by (simp add: pending_def [abs_def] sched_frame_def)
  have c: "(\<exists>cn. consumers ins' c = Some cn \<and> c_memqueue cn = q) \<longleftrightarrow>
      (\<exists>cn. consumers ins c = Some cn \<and> c_memqueue cn = q)" for c q
    using sched_frame_consumer [OF assms, of c] by auto
  show "consumers_of ins' = consumers_of ins" unfolding consumers_of_def c ..
  have "queues ins' a = None \<longleftrightarrow> queues ins a = None" "msgs ins' a = None \<longleftrightarrow> msgs ins a = None"
    "consumers ins' a = None \<longleftrightarrow> consumers ins a = None" for a
    using sched_frame_queue [OF assms, of a] sched_frame_msg [OF assms, of a]
      sched_frame_consumer [OF assms, of a] by auto
  then show "dom (queues ins') = dom (queues ins)" "dom (msgs ins') = dom (msgs ins)"
    "dom (consumers ins') = dom (consumers ins)" by (simp_all add: dom_def)
qed

lemma sched_frame_struct:
  assumes f: "sched_frame ins ins'" and s: "mq_struct ins"
  shows "mq_struct ins'"
  unfolding mq_struct_def
proof (intro conjI allI impI)
  note R = sched_frame_refs [OF f]
  fix q mq' assume q': "queues ins' q = Some mq'"
  then obtain mq u v where q: "queues ins q = Some mq" "mq' = mq\<lparr>q_expiry_next := u, q_expiry_node := v\<rparr>"
    using sched_frame_queue [OF f, of q] by auto
  have ok: "msg_ok ins q mq" "cons_ok ins q mq" using s q(1) by (auto simp: mq_struct_def)
  show "msg_ok ins' q mq'"
  proof (rule msg_ok_cong [OF ok(1)])
    fix m x assume "msgs ins m = Some x"
    then show "\<exists>y. msgs ins' m = Some y \<and> m_memqueue y = m_memqueue x \<and> m_rev y = m_rev x"
      using sched_frame_msg [OF f, of m] by auto
  qed (simp_all add: q(2))
  show "cons_ok ins' q mq'"
    using ok(2) unfolding cons_ok_def q(2) by (auto dest!: sched_frame_fwd(3) [OF f] bspec)
next
  have "queue_store ins' = queue_store ins" using f by (simp add: sched_frame_def)
  then show "store_ok ins'"
    using s unfolding mq_struct_def store_ok_def by (auto dest!: sched_frame_fwd(1) [OF f] bspec)
  show "fresh_ok ins'"
    using s f sched_frame_refs(5-7) [OF f] unfolding mq_struct_def fresh_ok_def sched_frame_def
    by (metis (no_types, lifting) order_less_le_trans)
  show "owner_ok ins'"
    unfolding owner_ok_def
  proof (intro allI impI)
    fix m y assume "msgs ins' m = Some y"
    then obtain x u v where x: "msgs ins m = Some x" "y = x\<lparr>m_expiry_next := u, m_expiry_node := v\<rparr>"
      using sched_frame_msg [OF f, of m] by auto
    then have "0 \<le> m_ref_count x \<and> (0 < m_ref_count x \<longrightarrow>
        (\<exists>mq. queues ins (m_memqueue x) = Some mq \<and> m \<in> set (q_msg_queue mq)))"
      using s by (auto simp: mq_struct_def owner_ok_def)
    then show "0 \<le> m_ref_count y \<and> (0 < m_ref_count y \<longrightarrow>
        (\<exists>mq. queues ins' (m_memqueue y) = Some mq \<and> m \<in> set (q_msg_queue mq)))"
      using sched_frame_queue [OF f, of "m_memqueue x"] x(2) by auto
  qed
qed

lemma sched_frame_mq_inv:
  assumes f: "sched_frame ins ins'" and i: "mq_inv d h ins"
  shows "mq_inv d h ins'"
proof -
  note R = sched_frame_refs [OF f]
  have s: "mq_struct ins" "mq_struct ins'" using i sched_frame_struct [OF f] by (auto simp: mq_inv_def)
  have "ref_ok d ins'"
    using i unfolding mq_inv_def ref_ok_def R(1) by (auto dest!: sched_frame_back(1) [OF f])
  moreover have "hold_ok d ins'" using i unfolding mq_inv_def hold_ok_def R(4,5) by blast
  moreover have pc: "pend_count ins' = pend_count ins"
    using s f by (auto simp: fun_eq_iff mq_struct_def sched_frame_def
        pend_count_ext [of ins "next_addr ins'"] pend_count_def [of ins'] R(3))
  moreover have "pend_ok h ins'"
    using i unfolding mq_inv_def pend_ok_def pc R(3,6) by (auto dest!: sched_frame_back(2) [OF f])
  ultimately show ?thesis using s by (simp add: mq_inv_def)
qed

lemma sched_frame_room:
  assumes f: "sched_frame ins ins'" and "room k ins"
  shows "room k ins'"
  using assms(2) unfolding room_def by (auto dest!: sched_frame_back(1,2) [OF f])

text \<open>Conversely, what does not touch the links of the scheduler keeps its invariant.\<close>

lemma sched_inv_links:
  assumes "sched_inv ins" "rb ins' = rb ins" "enodes ins' = enodes ins"
    "\<And>ty. exp_root ty ins' = exp_root ty ins" "next_addr ins \<le> next_addr ins'"
    "\<And>ty obj a. get_expiry_next ty obj ins' = Some (Some a) \<longleftrightarrow> get_expiry_next ty obj ins = Some (Some a)"
  shows "sched_inv ins'"
proof -
  obtain xs where "sched_with xs ins" using assms(1) by (auto simp: sched_inv_def)
  then have "sched_with xs ins'"
    using assms(2-6) unfolding sched_with_def sched_pre_def
    by (simp only: assms(2-4,6)) (meson order_less_le_trans)
  then show ?thesis by (auto simp: sched_inv_def)
qed

lemma counts_only_next:
  assumes "counts_only ins ins'"
  shows "get_expiry_next ty obj ins' = get_expiry_next ty obj ins"
proof (cases ty)
  case MSG_TYPE
  have "map_option m_expiry_next (map_option (\<lambda>x. x\<lparr>m_ref_count := 0, m_new := 0\<rparr>) (msgs ins' obj)) =
    map_option m_expiry_next (map_option (\<lambda>x. x\<lparr>m_ref_count := 0, m_new := 0\<rparr>) (msgs ins obj))"
    using assms by (simp add: counts_only_def)
  then show ?thesis using MSG_TYPE by (simp add: get_expiry_next_def option.map_comp comp_def)
next
  case MEMQUEUE_TYPE
  have "map_option q_expiry_next (map_option (q_ref_count_update (\<lambda>_. 0)) (queues ins' obj)) =
    map_option q_expiry_next (map_option (q_ref_count_update (\<lambda>_. 0)) (queues ins obj))"
    using assms by (simp add: counts_only_def)
  then show ?thesis using MEMQUEUE_TYPE by (simp add: get_expiry_next_def option.map_comp comp_def)
next
  case CONSUMER_TYPE
  then show ?thesis using assms by (simp add: get_expiry_next_def counts_only_def)
qed

lemma quiet_sched: "quiet ins ins' \<Longrightarrow> same_sched ins ins'"
  using counts_only_next [of ins ins'] by (auto simp: quiet_def same_sched_def counts_only_def)

text \<open>A scheduled object is held: by one reference of its own.\<close>

definition held_ok :: "(addr \<Rightarrow> int) \<Rightarrow> (addr \<Rightarrow> int) \<Rightarrow> memqueue_ins \<Rightarrow> bool" where
  "held_ok d h ins \<longleftrightarrow>
     (\<forall>m. is_sched ins MSG_TYPE m \<longrightarrow> 1 \<le> h m) \<and>
     (\<forall>q. is_sched ins MEMQUEUE_TYPE q \<longrightarrow> int (card (consumers_of ins q)) + 1 \<le> d q)"

definition srv_inv :: "(addr \<Rightarrow> int) \<Rightarrow> (addr \<Rightarrow> int) \<Rightarrow> memqueue_ins \<Rightarrow> bool" where
  "srv_inv d h ins \<longleftrightarrow> mq_inv d h ins \<and> sched_inv ins \<and> held_ok d h ins"

lemma quiet_srv_inv:
  assumes "quiet ins ins'" "srv_inv d h ins" "mq_inv d h ins'"
  shows "srv_inv d h ins'"
proof -
  have ss: "same_sched ins ins'" using quiet_sched [OF assms(1)] .
  have "sched_inv ins'" using assms(2) same_sched_with [OF ss] by (auto simp: srv_inv_def sched_inv_def)
  moreover have "consumers_of ins' = consumers_of ins"
    using assms(1) by (simp add: quiet_def counts_only_def consumers_of_def [abs_def])
  ultimately show ?thesis
    using assms(2,3) ss by (simp add: srv_inv_def held_ok_def is_sched_def same_sched_def)
qed

subsection \<open>A new message\<close>

lemma fresh_ok_iff:
  "fresh_ok ins \<longleftrightarrow>
     (\<forall>a x. queues ins a = Some x \<longrightarrow> a < next_addr ins) \<and> (\<forall>a x. msgs ins a = Some x \<longrightarrow> a < next_addr ins) \<and>
     (\<forall>a x. consumers ins a = Some x \<longrightarrow> a < next_addr ins) \<and> (\<forall>a x. binders ins a = Some x \<longrightarrow> a < next_addr ins) \<and>
     (\<forall>a x. cli_binders ins a = Some x \<longrightarrow> a < next_addr ins)"
  unfolding fresh_ok_def by blast

text \<open>The message exists, uncounted and not in the list yet, and the queue has the next revision.\<close>

lemma fresh_msg:
  "mq_inv d h ins \<Longrightarrow> next_addr ins \<le> m \<Longrightarrow> msgs ins m = None \<and> (\<forall>b. m \<notin> set (pending ins b)) \<and>
     (\<forall>q mq. queues ins q = Some mq \<longrightarrow> m \<notin> set (q_msg_queue mq))"
proof -
  assume i: "mq_inv d h ins" and n: "next_addr ins \<le> m"
  then have "fresh_ok ins" by (simp add: mq_inv_def mq_struct_def)
  then have no: "msgs ins m = None" using n unfolding fresh_ok_iff by (cases "msgs ins m") auto
  moreover have "\<forall>b. m \<notin> set (pending ins b)" using i no by (auto simp: mq_inv_def pend_ok_def)
  moreover have "\<forall>q mq. queues ins q = Some mq \<longrightarrow> m \<notin> set (q_msg_queue mq)"
    using i no msg_in_own_queue [of ins _ _ m] by (fastforce simp: mq_inv_def)
  ultimately show ?thesis by blast
qed

lemma add_msg_inv:
  fixes u :: "64 word"
  assumes i: "mq_inv d h ins" and q: "queues ins q = Some mq" and m: "next_addr ins \<le> m" "m < n"
    and x: "m_ref_count x = 0"
  defines "i1 \<equiv> ins\<lparr>next_addr := n, queues := (queues ins)(q \<mapsto> mq\<lparr>q_rev := q_rev mq + 1\<rparr>),
                   unique_msg_id := u, msgs := (msgs ins)(m \<mapsto> x)\<rparr>"
  shows "mq_inv d (h(m := 0)) i1"
proof -
  have s: "mq_struct ins" using i by (simp add: mq_inv_def)
  have new: "msgs ins m = None" "\<And>b. m \<notin> set (pending ins b)"
    "\<And>q' mq'. queues ins q' = Some mq' \<Longrightarrow> m \<notin> set (q_msg_queue mq')"
    using fresh_msg [OF i m(1)] by auto
  have eqs: "map (rev_of i1) (q_msg_queue mq') = map (rev_of ins) (q_msg_queue mq')"
    "map (ref_of i1) (q_msg_queue mq') = map (ref_of ins) (q_msg_queue mq')"
    if "queues ins q' = Some mq'" for q' mq'
    using new(3) [OF that] by (auto simp: i1_def rev_of_def ref_of_def)
  have "msg_ok i1 q' mq' \<and> cons_ok i1 q' mq'" if q': "queues i1 q' = Some mq'" for q' mq'
  proof -
    obtain mq0 where o: "queues ins q' = Some mq0" "mq' = (if q' = q then mq0\<lparr>q_rev := q_rev mq0 + 1\<rparr> else mq0)"
      using q' q by (auto simp: i1_def split: if_splits)
    have ok: "msg_ok ins q' mq0" "cons_ok ins q' mq0" using s o(1) by (auto simp: mq_struct_def)
    have "\<exists>y. msgs i1 a = Some y \<and> m_memqueue y = q' \<and> m_rev y \<le> q_rev mq'" if "a \<in> set (q_msg_queue mq0)" for a
      using ok(1) that new(3) [OF o(1)] o(2) unfolding msg_ok_def by (fastforce simp: i1_def)
    then have "msg_ok i1 q' mq'"
      using ok(1) eqs(1) [OF o(1)] o(2) unfolding msg_ok_def by (auto simp del: map_eq_conv)
    then show ?thesis using ok(2) o(2) by (auto simp: cons_ok_def i1_def)
  qed
  moreover have "store_ok i1" using s q by (auto simp: mq_struct_def store_ok_def i1_def split: if_splits)
  moreover have "fresh_ok i1"
    using s m q less_trans less_le_trans [of _ "next_addr ins" m]
    unfolding mq_struct_def fresh_ok_iff by (auto simp: i1_def split: if_splits)
  moreover have "owner_ok i1" using s x q unfolding mq_struct_def owner_ok_def by (auto simp: i1_def) (metis option.inject)
  ultimately have s1: "mq_struct i1" by (simp add: mq_struct_def)
  have "ref_ok d i1"
    using i q eqs(2) unfolding mq_inv_def ref_ok_def by (auto simp: i1_def simp del: map_eq_conv)
  moreover have "hold_ok d i1"
    using i q by (auto simp: mq_inv_def hold_ok_def consumers_of_def i1_def)
  moreover have pd: "pending i1 = pending ins" by (simp add: pending_def [abs_def] i1_def)
  have pc: "pend_count i1 = pend_count ins"
    using s m by (auto simp: fun_eq_iff mq_struct_def pend_count_ext [of ins n] pend_count_def [of i1] pd)
      (simp add: i1_def)
  have "pend_count ins m = 0" using new(2) s by (simp add: pend_count_zero mq_struct_def)
  then have "pend_ok (h(m := 0)) i1"
    using i x unfolding mq_inv_def pend_ok_def pc pd by (auto simp: i1_def)
  ultimately show ?thesis using s1 by (simp add: mq_inv_def)
qed

text \<open>The message enters the list with \<open>r\<close> references of its own.\<close>

lemma insert_msg_inv:
  assumes i: "mq_inv d h ins" and q: "queues ins q = Some mq" and x: "msgs ins m = Some x"
    "m_ref_count x = 0" "m_memqueue x = q" "m_rev x = q_rev mq" and hm: "h m = 0" and r: "0 \<le> r"
    and new: "\<And>q' mq'. queues ins q' = Some mq' \<Longrightarrow> m \<notin> set (q_msg_queue mq')"
    and last: "\<And>a. a \<in> set (q_msg_queue mq) \<Longrightarrow> rev_of ins a < q_rev mq"
  defines "j \<equiv> ins\<lparr>msgs := (msgs ins)(m \<mapsto> x\<lparr>m_ref_count := r\<rparr>),
      queues := (queues ins)(q \<mapsto> mq\<lparr>q_ref_count := q_ref_count mq + r, q_msg_queue := q_msg_queue mq @ [m],
                                     q_msgs_in_queue := q_msgs_in_queue mq + 1\<rparr>)\<rparr>"
  shows "mq_inv d (h(m := r)) j"
proof -
  have s: "mq_struct ins" using i by (simp add: mq_inv_def)
  have rv: "rev_of j = rev_of ins" using x(1) by (auto simp: j_def rev_of_def fun_eq_iff)
  have rf: "ref_of j = (ref_of ins)(m := r)" by (auto simp: j_def ref_of_def fun_eq_iff)
  have "msg_ok j q' mq' \<and> cons_ok j q' mq'" if q': "queues j q' = Some mq'" for q' mq'
  proof (cases "q' = q")
    case True
    have ok: "msg_ok ins q mq" "cons_ok ins q mq" using s q by (auto simp: mq_struct_def)
    have "mq' = mq\<lparr>q_ref_count := q_ref_count mq + r, q_msg_queue := q_msg_queue mq @ [m],
        q_msgs_in_queue := q_msgs_in_queue mq + 1\<rparr>" using True q' by (simp add: j_def)
    then show ?thesis
      using ok True x last new [OF q] unfolding msg_ok_def cons_ok_def rv
      by (auto simp: j_def sorted_wrt_append)
  next
    case False
    then have o: "queues ins q' = Some mq'" using q' by (simp add: j_def)
    then have "msg_ok ins q' mq'" "cons_ok ins q' mq'" using s by (auto simp: mq_struct_def)
    then show ?thesis using new [OF o] unfolding msg_ok_def cons_ok_def rv by (auto simp: j_def)
  qed
  moreover have "store_ok j" using s q by (auto simp: mq_struct_def store_ok_def j_def split: if_splits)
  moreover have "fresh_ok j"
    using s q x(1) unfolding mq_struct_def fresh_ok_iff by (auto simp: j_def split: if_splits)
  moreover have "owner_ok j"
    using s x q r unfolding mq_struct_def owner_ok_def by (auto simp: j_def) (metis option.inject)
  ultimately have s1: "mq_struct j" by (simp add: mq_struct_def)
  have "ref_ok d j"
    unfolding ref_ok_def
  proof (intro allI impI)
    fix q' mq' assume q': "queues j q' = Some mq'"
    have old: "map ((ref_of ins)(m := r)) (q_msg_queue mq0) = map (ref_of ins) (q_msg_queue mq0)"
      if "queues ins q0 = Some mq0" for q0 mq0 using new [OF that] by auto
    show "q_ref_count mq' = d q' + sum_list (map (ref_of j) (q_msg_queue mq'))"
      using i q q' old [of q' mq'] old [OF q] unfolding rf mq_inv_def ref_ok_def
      by (auto simp: j_def simp del: map_eq_conv split: if_splits)
  qed
  moreover have "hold_ok d j" using i q by (auto simp: mq_inv_def hold_ok_def consumers_of_def j_def)
  moreover have pd: "pending j = pending ins" by (simp add: pending_def [abs_def] j_def)
  have pc: "pend_count j = pend_count ins" by (simp add: pend_count_def [abs_def] pd) (simp add: j_def)
  have "m_ref_count x = h m + int (pend_count ins m)" using i x(1) by (simp add: mq_inv_def pend_ok_def)
  then have "pend_count ins m = 0" using x(2) hm by simp
  then have "pend_ok (h(m := r)) j"
    using i r x(1) unfolding mq_inv_def pend_ok_def pc pd by (auto simp: j_def)
  ultimately show ?thesis using s1 by (simp add: mq_inv_def)
qed

lemma is_sched_deadline: "sched_inv ins \<Longrightarrow> is_sched ins ty obj \<longleftrightarrow> deadline ins ty obj \<noteq> None"
proof -
  assume "sched_inv ins"
  then obtain xs where pre: "sched_pre xs ins" by (auto simp: sched_inv_def sched_with_def)
  have "\<exists>e. enodes ins a = Some e" if "get_expiry_next ty obj ins = Some (Some a)" for a
    using sched_pre_node [OF pre sched_preD(6) [OF pre that]] .
  then show ?thesis unfolding is_sched_def by (fastforce simp: deadline_Some)
qed

definition own_refs :: "int \<Rightarrow> int" where
  "own_refs msecs = (if msecs > 0 \<or> msecs = - 1 then 1 else 0)"

text \<open>The state after \<open>r\<close> references to a message and its queue.\<close>

definition retained :: "addr \<Rightarrow> msg \<Rightarrow> addr \<Rightarrow> memqueue \<Rightarrow> int \<Rightarrow> memqueue_ins \<Rightarrow> memqueue_ins" where
  "retained m x q mq r ins =
     ins\<lparr>msgs := (msgs ins)(m \<mapsto> x\<lparr>m_ref_count := m_ref_count x + r\<rparr>),
         queues := (queues ins)(q \<mapsto> mq\<lparr>q_ref_count := q_ref_count mq + r\<rparr>)\<rparr>"

lemma retained_0: "msgs ins m = Some x \<Longrightarrow> queues ins q = Some mq \<Longrightarrow> retained m x q mq 0 ins = ins"
  by (simp add: retained_def fun_upd_idem)

text \<open>Scheduling a message does not touch the queues.\<close>

lemma expire_msg_queues: "obj_sched_expire ins m ms MSG_TYPE = Some i \<Longrightarrow> queues i = queues ins"
  by (auto simp: obj_sched_expire_def sched_new_node_def expiry_link_def set_exp_root_def set_expiry_next_def
      set_expiry_node_def new_expiry_node_def calloc_def cond_signal_def upd_enode_def upd_msg_def Let_def
      bind_eq_Some_conv split: option.splits if_splits prod.splits)

lemma msg_sched_ok:
  assumes sv: "sched_inv ins" and idle: "is_idle ins MSG_TYPE m" and mem: "oom ins = []"
    and x: "msgs ins m = Some x" "m_memqueue x = q" and q: "queues ins q = Some mq" and rm: "room (Suc k) ins"
  shows "\<exists>i y. sched_frame ins i \<and> sched_inv i \<and> oom i = [] \<and> msgs i m = Some y \<and> queues i = queues ins \<and>
    msg_sched m msecs ins = Some (retained m y q mq (own_refs msecs) i) \<and>
    deadline i = (if msecs > 0 then (deadline ins)(MSG_TYPE := (deadline ins MSG_TYPE)
       (m \<mapsto> now_ms ins + word_of_int msecs)) else deadline ins)"
proof (cases "msecs > 0")
  case True
  obtain i where i: "obj_sched_expire ins m (word_of_int msecs) MSG_TYPE = Some i" "sched_inv i" "oom i = []"
      "deadline i = (deadline ins)(MSG_TYPE := (deadline ins MSG_TYPE)(m \<mapsto> now_ms ins + word_of_int msecs))"
    using exp.sched_law [of ins MSG_TYPE m "word_of_int msecs"] sv idle mem by blast
  have f: "sched_frame ins i" using sched_frame_expire [OF i(1)] .
  obtain y where y: "msgs i m = Some y" "m_memqueue y = q" using sched_frame_fwd(2) [OF f x(1)] x(2) by auto
  have qi: "queues i = queues ins" using expire_msg_queues [OF i(1)] .
  have "memqueue_msg_retain m i = Some (retained m y q mq 1 i)"
    using memqueue_msg_retain_ok [OF y(1) _ sched_frame_room [OF f rm]] q qi y(2) by (simp add: retained_def)
  then have "msg_sched m msecs ins = Some (retained m y q mq 1 i)"
    using True i(1) by (simp add: msg_sched_def)
  then show ?thesis using True f i y qi by (auto simp: own_refs_def)
next
  case False
  show ?thesis
  proof (cases "msecs = - 1")
    case True
    have "memqueue_msg_retain m ins = Some (retained m x q mq 1 ins)"
      using memqueue_msg_retain_ok [OF x(1) _ rm] q x(2) by (simp add: retained_def)
    then show ?thesis
      using True sv mem x q by (intro exI [of _ ins] exI [of _ x]) (simp add: msg_sched_def own_refs_def)
  next
    case no: False
    have "msg_sched m msecs ins = Some (retained m x q mq 0 ins)"
      using False no retained_0 [OF x(1) q] by (simp add: msg_sched_def)
    then show ?thesis
      using False no sv mem x(1) q by (intro exI [of _ ins] exI [of _ x]) (simp add: own_refs_def)
  qed
qed

lemma deadline_links:
  assumes "enodes ins' = enodes ins"
    "\<And>ty obj a. get_expiry_next ty obj ins' = Some (Some a) \<longleftrightarrow> get_expiry_next ty obj ins = Some (Some a)"
  shows "deadline ins' = deadline ins"
proof (intro ext)
  fix ty obj
  have "deadline ins' ty obj = Some d \<longleftrightarrow> deadline ins ty obj = Some d" for d
    by (simp only: deadline_Some assms)
  then show "deadline ins' ty obj = deadline ins ty obj" by (metis not_Some_eq)
qed

text \<open>The bindings of a queue lead to live pollers.\<close>

definition bound_live :: "memqueue_ins \<Rightarrow> memqueue \<Rightarrow> bool" where
  "bound_live ins mq \<longleftrightarrow> (\<forall>t \<in> set (q_memqueue_binders mq).
     \<exists>bd cb. binders ins t = Some bd \<and> cli_binders ins (b_cli_binder bd) = Some cb)"

text \<open>Each counter of one queue and one message grows by at most one.\<close>

lemma room_upd:
  assumes "room (Suc k) ins" "queues ins q = Some mq"
    "q_ref_count mq' \<le> q_ref_count mq + 1" "q_rev mq' \<le> q_rev mq + 1"
    "q_msgs_in_queue mq' \<le> q_msgs_in_queue mq + 1" "0 \<le> q_msgs_in_queue mq" "m_ref_count x \<le> 1"
  shows "room k (ins\<lparr>queues := (queues ins)(q \<mapsto> mq'), msgs := (msgs ins)(m \<mapsto> x)\<rparr>)"
proof -
  have "q_ref_count mq + int k + 1 < 2 ^ 31" "q_rev mq + int k + 1 < 2 ^ 31"
    "q_msgs_in_queue mq + int k + 1 < 2 ^ 31"
    using assms(1,2) by (auto simp: room_def algebra_simps)
  then have "q_ref_count mq' + int k < 2 ^ 31" "q_rev mq' + int k < 2 ^ 31"
    "q_msgs_in_queue mq' + int k < 2 ^ 31" "m_ref_count x + int k < 2 ^ 31"
    using assms(3-7) by linarith+
  moreover have "room k ins" by (rule room_mono [OF assms(1)]) simp
  ultimately show ?thesis unfolding room_def by simp
qed

text \<open>The queues, their consumers and the bindings stay.\<close>

definition same_shape :: "memqueue_ins \<Rightarrow> memqueue_ins \<Rightarrow> bool" where
  "same_shape ins ins' \<longleftrightarrow>
     (\<forall>q. map_option q_memqueue_binders (queues ins' q) = map_option q_memqueue_binders (queues ins q)) \<and>
     (\<forall>b. map_option cb_memqueues (cli_binders ins' b) = map_option cb_memqueues (cli_binders ins b)) \<and>
     binders ins' = binders ins \<and> consumers_of ins' = consumers_of ins \<and> queue_store ins' = queue_store ins \<and>
     next_addr ins \<le> next_addr ins'"

lemma same_shape_trans: "same_shape a b \<Longrightarrow> same_shape b c \<Longrightarrow> same_shape a c"
  by (simp add: same_shape_def)

lemma sched_frame_shape:
  assumes "sched_frame ins ins'"
  shows "same_shape ins ins'"
proof -
  have "map_option q_memqueue_binders (queues ins' q) = map_option q_memqueue_binders (queues ins q)" for q
    using sched_frame_queue [OF assms, of q] by auto
  then show ?thesis
    using assms sched_frame_refs(4) [OF assms] by (simp add: same_shape_def sched_frame_def)
qed

lemma quiet_shape:
  assumes "quiet ins ins'"
  shows "same_shape ins ins'"
proof -
  have "map_option q_memqueue_binders (map_option (q_ref_count_update (\<lambda>_. 0)) (queues ins' q)) =
      map_option q_memqueue_binders (map_option (q_ref_count_update (\<lambda>_. 0)) (queues ins q))" for q
    using assms by (simp add: quiet_def counts_only_def)
  moreover have "map_option cb_memqueues (map_option (cb_pending_msgs_update (\<lambda>_. [])) (cli_binders ins' b)) =
      map_option cb_memqueues (map_option (cb_pending_msgs_update (\<lambda>_. [])) (cli_binders ins b))" for b
    using assms by (simp add: quiet_def)
  ultimately show ?thesis
    using assms by (simp add: same_shape_def option.map_comp comp_def quiet_def counts_only_def consumers_of_def [abs_def])
qed

text \<open>The state when the message has entered the list, before it is delivered.\<close>

lemma msg_create_listed:
  fixes ins data data_len msecs
  assumes inv: "srv_inv d h ins" and mem: "oom ins = []" and q: "queues ins q = Some mq"
    and rm: "room (Suc (Suc k)) ins"
  defines "m \<equiv> Suc (next_addr ins)"
  shows "\<exists>j x mq'. memqueue_msg_create q msecs data data_len ins =
      do { i \<leftarrow> deliver_loop (q_rev mq + 1) m (q_memqueue_binders mq) j; Some (0, i) } \<and>
    srv_inv d (h(m := own_refs msecs)) j \<and> oom j = [] \<and> room k j \<and>
    binders j = binders ins \<and> cli_binders j = cli_binders ins \<and>
    queues j = (queues ins)(q \<mapsto> mq') \<and> (\<exists>n. mq' = mq\<lparr>q_rev := q_rev mq + 1,
       q_msg_queue := q_msg_queue mq @ [m], q_msgs_in_queue := q_msgs_in_queue mq + 1, q_ref_count := n\<rparr>) \<and>
    msgs j m = Some x \<and> m_rev x = q_rev mq + 1 \<and> m_data x = data \<and> m_data_len x = data_len \<and> m_new x = 1 \<and>
    (\<forall>ty obj. deadline j ty obj = (if msecs > 0 \<and> ty = MSG_TYPE \<and> obj = m
       then Some (now_ms ins + word_of_int msecs) else deadline ins ty obj)) \<and>
    same_shape ins j"
proof -
  have mi: "mq_inv d h ins" and si: "sched_inv ins" and hi: "held_ok d h ins"
    using inv by (auto simp: srv_inv_def)
  define mq1 where "mq1 = mq\<lparr>q_rev := q_rev mq + 1\<rparr>"
  define x1 where "x1 = new_msg mq1 q msecs data data_len (unique_msg_id ins + 1)"
  define i1 where "i1 = ins\<lparr>next_addr := Suc m, queues := (queues ins)(q \<mapsto> mq1),
                   unique_msg_id := unique_msg_id ins + 1, msgs := (msgs ins)(m \<mapsto> x1)\<rparr>"
  have x1: "m_ref_count x1 = 0" "m_memqueue x1 = q" "m_rev x1 = q_rev mq + 1" "m_expiry_next x1 = None"
    "m_data x1 = data" "m_data_len x1 = data_len" "m_new x1 = 1"
    by (simp_all add: x1_def new_msg_def mq1_def)
  have fresh: "msgs ins m = None" "\<And>q' mq'. queues ins q' = Some mq' \<Longrightarrow> m \<notin> set (q_msg_queue mq')"
    using fresh_msg [OF mi, of m] by (auto simp: m_def)
  have inv1: "mq_inv d (h(m := 0)) i1"
    unfolding i1_def mq1_def by (rule add_msg_inv [OF mi q _ _ x1(1)]) (auto simp: m_def)
  have nx1: "get_expiry_next ty obj i1 = Some (Some a) \<longleftrightarrow> get_expiry_next ty obj ins = Some (Some a)" for ty obj a
    using q fresh(1) x1(4) by (cases ty) (auto simp: get_expiry_next_def i1_def mq1_def)
  have s1: "sched_inv i1"
    by (rule sched_inv_links [OF si _ _ _ _ nx1]) (auto simp: i1_def exp_root_def m_def split: obj_type.split)
  have dl1: "deadline i1 = deadline ins" by (rule deadline_links [OF _ nx1]) (simp add: i1_def)
  have mok: "msg_ok ins q mq" using mi q by (simp add: mq_inv_def mq_struct_def)
  have rm1: "room (Suc k) i1"
    using room_upd [OF rm q, of mq1 x1 m] mok x1(1)
    by (simp add: i1_def mq1_def msg_ok_def room_def)
  have idle: "is_idle i1 MSG_TYPE m" by (simp add: is_idle_def get_expiry_next_def i1_def x1(4))
  have xq1: "msgs i1 m = Some x1" "queues i1 q = Some mq1" "oom i1 = []" using mem by (simp_all add: i1_def)
  obtain i y where i: "sched_frame i1 i" "sched_inv i" "oom i = []" "msgs i m = Some y" "queues i = queues i1"
      "msg_sched m msecs i1 = Some (retained m y q mq1 (own_refs msecs) i)"
      "deadline i = (if msecs > 0 then (deadline i1)(MSG_TYPE := (deadline i1 MSG_TYPE)
         (m \<mapsto> now_ms i1 + word_of_int msecs)) else deadline i1)"
    using msg_sched_ok [OF s1 idle xq1(3,1) x1(2) xq1(2) rm1] by blast
  let ?r = "own_refs msecs"
  have r0: "0 \<le> ?r" "?r \<le> 1" by (simp_all add: own_refs_def)
  obtain u v where y: "y = x1\<lparr>m_expiry_next := u, m_expiry_node := v\<rparr>"
    using sched_frame_fwd(2) [OF i(1) xq1(1)] i(4) by auto
  have qi: "queues i q = Some mq1" using i(5) xq1(2) by simp
  have inv2: "mq_inv d (h(m := 0)) i" using sched_frame_mq_inv [OF i(1) inv1] .
  have rm2: "room (Suc k) i" using sched_frame_room [OF i(1) rm1] .
  define mq3 where "mq3 = mq1\<lparr>q_ref_count := q_ref_count mq1 + ?r, q_msg_queue := q_msg_queue mq1 @ [m],
      q_msgs_in_queue := q_msgs_in_queue mq1 + 1\<rparr>"
  define j where "j = i\<lparr>msgs := (msgs i)(m \<mapsto> y\<lparr>m_ref_count := ?r\<rparr>), queues := (queues i)(q \<mapsto> mq3)\<rparr>"
  have new2: "m \<notin> set (q_msg_queue mq')" if "queues i q' = Some mq'" for q' mq'
    using sched_frame_back(1) [OF i(1) that] fresh(2) [of q'] fresh(2) [OF q]
    by (auto simp: i1_def mq1_def split: if_splits)
  have last: "rev_of i a < q_rev mq1" if "a \<in> set (q_msg_queue mq1)" for a
    using mok that fresh(2) [OF q] unfolding sched_frame_refs(2) [OF i(1)] msg_ok_def
    by (fastforce simp: rev_of_def mq1_def i1_def)
  have inv3: "mq_inv d ((h(m := 0))(m := ?r)) j"
    unfolding j_def mq3_def
    by (rule insert_msg_inv [OF inv2 qi i(4) _ _ _ _ r0(1) new2 last])
      (simp_all add: y x1 mq1_def)
  have nx: "get_expiry_next ty obj j = get_expiry_next ty obj i" for ty obj
    using i(4) qi by (cases ty) (auto simp: get_expiry_next_def j_def mq3_def)
  have s3: "sched_inv j"
    by (rule sched_inv_links [OF i(2)])
      (simp_all add: nx, simp_all add: j_def exp_root_def split: obj_type.split)
  have dlj: "deadline j = deadline i" by (rule deadline_links) (simp_all add: nx, simp add: j_def)
  have nowi: "now_ms i1 = now_ms ins" by (simp add: now_ms_def i1_def)
  have dl: "deadline j ty obj = (if msecs > 0 \<and> ty = MSG_TYPE \<and> obj = m
       then Some (now_ms ins + word_of_int msecs) else deadline ins ty obj)" for ty obj
    unfolding dlj i(7) dl1 nowi by auto
  have cj: "consumers_of j = consumers_of ins"
    using sched_frame_refs(4) [OF i(1)] by (auto simp: consumers_of_def [abs_def] j_def i1_def fun_eq_iff)
  have "deadline ins MSG_TYPE m = None" using fresh(1) by (simp add: deadline_def get_expiry_next_def)
  then have "held_ok d (h(m := ?r)) j"
    using hi dl unfolding held_ok_def is_sched_deadline [OF s3] is_sched_deadline [OF si] cj
    by (auto simp: own_refs_def split: if_splits)
  then have sj: "srv_inv d (h(m := ?r)) j" using inv3 s3 by (simp add: srv_inv_def)
  have "0 \<le> q_msgs_in_queue mq1" using mok by (simp add: mq1_def msg_ok_def)
  then have "room k (i\<lparr>queues := (queues i)(q \<mapsto> mq3), msgs := (msgs i)(m \<mapsto> y\<lparr>m_ref_count := ?r\<rparr>)\<rparr>)"
    by (intro room_upd [OF rm2 qi]) (use r0 in \<open>simp_all add: mq3_def\<close>)
  then have rj: "room k j" unfolding room_def j_def by simp
  have "q_rev mq + int (Suc (Suc k)) < 2 ^ 31" "q_msgs_in_queue mq1 + int (Suc k) < 2 ^ 31"
    using rm q rm2 qi unfolding room_def by blast+
  then have inc: "int_incr (q_rev mq) = Some (q_rev mq + 1)"
    "int_incr (q_msgs_in_queue mq1) = Some (q_msgs_in_queue mq1 + 1)"
    using int_incr_ok [of "q_rev mq" "Suc k"] int_incr_ok [of "q_msgs_in_queue mq1" k] by auto
  have res: "memqueue_msg_create q msecs data data_len ins =
      do { i \<leftarrow> deliver_loop (q_rev mq + 1) m (q_memqueue_binders mq) j; Some (0, i) }"
  proof -
    have c: "calloc ins = (Some (next_addr ins), ins\<lparr>next_addr := m\<rparr>)"
      "calloc (ins\<lparr>next_addr := m\<rparr>) = (Some m, ins\<lparr>next_addr := Suc m\<rparr>)"
      using mem by (simp_all add: calloc_def m_def)
    have st: "ins\<lparr>next_addr := Suc m, queues := (queues ins)(q \<mapsto> mq\<lparr>q_rev := q_rev mq + 1\<rparr>),
        unique_msg_id := unique_msg_id ins + 1,
        msgs := (msgs ins)(m \<mapsto> new_msg (mq\<lparr>q_rev := q_rev mq + 1\<rparr>) q msecs data data_len (unique_msg_id ins + 1))\<rparr> = i1"
      by (simp add: i1_def x1_def mq1_def)
    have up: "upd_queue q (\<lambda>mq. mq\<lparr>q_msg_queue := q_msg_queue mq @ [m], q_msgs_in_queue := q_msgs_in_queue mq1 + 1\<rparr>)
        (retained m y q mq1 ?r i) = Some j"
      by (simp add: upd_queue_def retained_def j_def mq3_def y x1(1))
    have q2: "queues (retained m y q mq1 ?r i) q = Some (mq1\<lparr>q_ref_count := q_ref_count mq1 + ?r\<rparr>)"
      by (simp add: retained_def)
    have rvb: "q_rev mq1 = q_rev mq + 1" "q_memqueue_binders mq1 = q_memqueue_binders mq"
      by (simp_all add: mq1_def)
    show ?thesis
      unfolding memqueue_msg_create_def
      using q inc by (simp add: c st i(6) q2 up rvb Let_def)
  qed
  have sh: "same_shape ins j"
    using same_shape_trans [of ins i1 i] sched_frame_shape [OF i(1)] q qi cj
    by (auto simp: same_shape_def i1_def j_def m_def mq1_def mq3_def consumers_of_def [abs_def])
  have mq3: "mq3 = mq\<lparr>q_rev := q_rev mq + 1, q_msg_queue := q_msg_queue mq @ [m],
      q_msgs_in_queue := q_msgs_in_queue mq + 1, q_ref_count := q_ref_count mq + ?r\<rparr>"
    by (cases mq) (simp add: mq3_def mq1_def)
  have qj: "queues j = (queues ins)(q \<mapsto> mq3)" using i(5) by (simp add: j_def i1_def)
  have fj: "binders j = binders ins" "cli_binders j = cli_binders ins" "oom j = []" "msgs j m = Some (y\<lparr>m_ref_count := ?r\<rparr>)"
    using i(1,3) by (simp_all add: j_def i1_def sched_frame_def)
  show ?thesis
    by (intro exI [of _ j] exI [of _ "y\<lparr>m_ref_count := ?r\<rparr>"] exI [of _ mq3] conjI exI [of _ "q_ref_count mq + ?r"] allI
        res sj rj dl sh mq3 qj fj) (simp_all add: y x1)
qed

text \<open>The whole operation: the listed message is delivered to the bound pollers.\<close>

lemma memqueue_msg_create_ok:
  fixes ins data data_len msecs
  assumes inv: "srv_inv d h ins" and mem: "oom ins = []" and q: "queues ins q = Some mq"
    and live: "bound_live ins mq" and rm: "room (length (q_memqueue_binders mq) + k + 2) ins"
  defines "m \<equiv> Suc (next_addr ins)"
  shows "\<exists>ins' x n w. memqueue_msg_create q msecs data data_len ins = Some (0, ins') \<and>
    srv_inv d (h(m := own_refs msecs)) ins' \<and> oom ins' = [] \<and> room k ins' \<and>
    queues ins' q = Some (mq\<lparr>q_rev := q_rev mq + 1, q_msg_queue := q_msg_queue mq @ [m],
       q_msgs_in_queue := q_msgs_in_queue mq + 1, q_ref_count := n\<rparr>) \<and> binders ins' = binders ins \<and>
    msgs ins' m = Some x \<and> m_rev x = q_rev mq + 1 \<and> m_data x = data \<and> m_data_len x = data_len \<and> m_new x = 1 \<and>
    (\<forall>b. pending ins' b = pending ins b @
       replicate (count_list (receivers ins (q_rev mq + 1) (q_memqueue_binders mq)) b) m) \<and>
    signals ins' = w @ map Some (receivers ins (q_rev mq + 1) (q_memqueue_binders mq)) \<and>
    (\<forall>ty obj. deadline ins' ty obj = (if msecs > 0 \<and> ty = MSG_TYPE \<and> obj = m
       then Some (now_ms ins + word_of_int msecs) else deadline ins ty obj)) \<and>
    (\<forall>q' mq0. q' \<noteq> q \<and> queues ins q' = Some mq0 \<longrightarrow> (\<exists>n. queues ins' q' = Some (mq0\<lparr>q_ref_count := n\<rparr>))) \<and>
    same_shape ins ins'"
proof -
  let ?ts = "q_memqueue_binders mq" and ?h = "h(m := own_refs msecs)"
  have "room (Suc (Suc (length ?ts + k))) ins" using rm by simp
  then obtain j x mq' where j: "memqueue_msg_create q msecs data data_len ins =
      do { i \<leftarrow> deliver_loop (q_rev mq + 1) m ?ts j; Some (0, i) }"
    "srv_inv d ?h j" "oom j = []" "room (length ?ts + k) j" "binders j = binders ins" "cli_binders j = cli_binders ins"
    "queues j = (queues ins)(q \<mapsto> mq')" "\<exists>n. mq' = mq\<lparr>q_rev := q_rev mq + 1,
       q_msg_queue := q_msg_queue mq @ [m], q_msgs_in_queue := q_msgs_in_queue mq + 1, q_ref_count := n\<rparr>" "msgs j m = Some x" "m_rev x = q_rev mq + 1" "m_data x = data"
    "m_data_len x = data_len" "m_new x = 1"
    "\<And>ty obj. deadline j ty obj = (if msecs > 0 \<and> ty = MSG_TYPE \<and> obj = m
       then Some (now_ms ins + word_of_int msecs) else deadline ins ty obj)"
    "same_shape ins j"
    using msg_create_listed [OF inv mem q, of "length ?ts + k" msecs data data_len] unfolding m_def by blast
  have qj: "queues j q = Some mq'" using j(7) by simp
  have "mq_inv d ?h j" using j(2) by (simp add: srv_inv_def)
  moreover have "m \<in> set (q_msg_queue mq')" using j(8) by auto
  moreover have "\<exists>bd cb. binders j t = Some bd \<and> cli_binders j (b_cli_binder bd) = Some cb" if "t \<in> set ?ts" for t
    using live that unfolding j(5,6) bound_live_def by blast
  ultimately obtain i where i: "deliver_loop (q_rev mq + 1) m ?ts j = Some i" "mq_inv d ?h i" "quiet j i" "room k i"
      "oom i = []" "signals i = signals j @ map Some (receivers j (q_rev mq + 1) ?ts)"
      "\<forall>b. pending i b = pending j b @ replicate (count_list (receivers j (q_rev mq + 1) ?ts) b) m"
    using deliver_loop_ok [of d ?h j ?ts k q mq' m "q_rev mq + 1"] j(3,4) qj by blast
  have rc: "receivers j = receivers ins" "pending j = pending ins"
    using j(5,6) by (simp_all add: receivers_def [abs_def] pending_def [abs_def])
  have co: "counts_only j i" using i(3) by (simp add: quiet_def)
  obtain n where n: "queues i q = Some (mq\<lparr>q_rev := q_rev mq + 1, q_msg_queue := q_msg_queue mq @ [m],
       q_msgs_in_queue := q_msgs_in_queue mq + 1, q_ref_count := n\<rparr>)"
    using counts_only_queue_fwd [OF co qj] j(8) by auto
  obtain y where y: "msgs i m = Some y" "m_rev y = m_rev x" "m_new y = m_new x" "m_data y = m_data x" "m_data_len y = m_data_len x"
    using quiet_msg [OF i(3) j(9)] by blast
  have dl: "deadline i = deadline j" using same_sched_deadline [OF quiet_sched [OF i(3)]] by auto
  have bi: "binders i = binders ins" using i(3) j(5) by (simp add: quiet_def)
  have oth: "\<exists>n. queues i q' = Some (mq0\<lparr>q_ref_count := n\<rparr>)" if "q' \<noteq> q \<and> queues ins q' = Some mq0" for q' mq0
    using counts_only_queue_fwd [OF co, of q' mq0] j(7) that by auto
  show ?thesis
    by (intro exI [of _ i] exI [of _ y] exI [of _ n] exI [of _ "signals j"] conjI allI impI oth)
      (use j(1,10-14) i(1,4-7) rc n y dl bi quiet_srv_inv [OF i(3) j(2) i(2)]
          same_shape_trans [OF j(15) quiet_shape [OF i(3)]] in simp_all)
qed

end
