(* ===== verification/Memqueue_Queue.thy ===== *)
theory Memqueue_Queue
  imports Memqueue_Create Memqueue_Handlers
begin

text \<open>
  Start of the server and creation of queues: \<open>memqueue_init\<close> establishes the invariant of the
  server, and \<open>memqueue_create\<close> keeps it, enters the queue into the store and schedules it.
\<close>

subsection \<open>Start\<close>

lemma heap_h_init_ok:
  assumes "oom ins = []"
  shows "\<exists>h. heap_h_init 128 ins = (Some h, ins\<lparr>next_addr := next_addr ins + 2\<rparr>) \<and> h_wf h \<and> h_entries h = [] \<and>
    order_next h = None"
proof -
  obtain h :: "addr h_hash" where h: "h_init True True 128 = Some h" "h_wf h" "h_entries h = []" "order_next h = None"
    using h_init_wf [of 128] by auto
  have "heap_h_init 128 ins = (Some h, ins\<lparr>next_addr := next_addr ins + 2\<rparr>)"
    using assms h(1) by (simp add: heap_h_init_def calloc_def)
  with h show ?thesis by blast
qed

lemma memqueue_init_ok:
  assumes "ins = memqueue_ins0\<lparr>now := t\<rparr>"
  shows "\<exists>i. memqueue_init ins = (0, i) \<and> srv_inv (\<lambda>_. 0) (\<lambda>_. 0) i \<and> oom i = [] \<and> now i = t \<and>
    queues i = Map.empty \<and> msgs i = Map.empty \<and> consumers i = Map.empty \<and> binders i = Map.empty \<and>
    cli_binders i = Map.empty \<and> h_entries (queue_store i) = []"
proof -
  have "oom ins = []" using assms by (simp add: memqueue_ins0_def)
  then obtain h where h: "heap_h_init 128 ins = (Some h, ins\<lparr>next_addr := next_addr ins + 2\<rparr>)" "h_wf h"
      "h_entries h = []" "order_next h = None"
    using heap_h_init_ok by blast
  define i where "i = ins\<lparr>next_addr := next_addr ins + 2, queue_store := h, birth := now ins\<rparr>"
  have "memqueue_init ins = (0, i)" using h(1) by (simp add: memqueue_init_def i_def)
  moreover have f: "oom i = []" "now i = t" "queues i = Map.empty" "msgs i = Map.empty" "consumers i = Map.empty"
    "binders i = Map.empty" "cli_binders i = Map.empty" "enodes i = Map.empty" "memqueue_expiry i = None"
    "msg_expiry i = None" "consumer_expiry i = None" "queue_store i = h"
    using assms by (simp_all add: i_def memqueue_ins0_def)
  moreover have n: "get_expiry_next ty obj i = None" for ty obj
    using f by (cases ty) (simp_all add: get_expiry_next_def)
  have "sched_inv i" by (rule sched_inv_empty) (use f n in auto)
  moreover have "mq_inv (\<lambda>_. 0) (\<lambda>_. 0) i"
    using f h by (simp add: mq_inv_def mq_struct_def store_ok_def fresh_ok_def owner_ok_def ref_ok_def hold_ok_def
        consumers_of_def pend_ok_def pending_def)
  moreover have "held_ok (\<lambda>_. 0) (\<lambda>_. 0) i" using n by (simp add: held_ok_def is_sched_def)
  ultimately show ?thesis using h(3) by (auto simp: srv_inv_def)
qed

subsection \<open>A new queue\<close>

text \<open>No consumer refers to an address that was never allocated.\<close>

definition cons_known :: "memqueue_ins \<Rightarrow> bool" where
  "cons_known ins \<longleftrightarrow> (\<forall>c cn. consumers ins c = Some cn \<longrightarrow> c_memqueue cn < next_addr ins)"

lemma cons_known_iff: "cons_known ins \<longleftrightarrow> (\<forall>q. consumers_of ins q \<noteq> {} \<longrightarrow> q < next_addr ins)"
  unfolding cons_known_def consumers_of_def by blast

lemma cons_known_mono:
  "cons_known ins \<Longrightarrow> consumers_of ins' = consumers_of ins \<Longrightarrow> next_addr ins \<le> next_addr ins' \<Longrightarrow> cons_known ins'"
  unfolding cons_known_iff by (metis less_le_trans)

lemma new_queue_fields [simp]:
  "q_ref_count (new_queue args qid cons) = 0" "q_msg_queue (new_queue args qid cons) = []"
  "q_rev (new_queue args qid cons) = 0" "q_msgs_in_queue (new_queue args qid cons) = 0"
  "q_consumers (new_queue args qid cons) = cons" "q_q_id (new_queue args qid cons) = qid"
  "q_expiry_next (new_queue args qid cons) = None" "q_memqueue_binders (new_queue args qid cons) = []"
  "q_max_size (new_queue args qid cons) = ca_max_size args" "q_expiry (new_queue args qid cons) = ca_expiry args"
  by (simp_all add: new_queue_def)

lemma add_queue_inv:
  fixes args :: memqueue_create_args and qid :: cstring
  assumes i: "mq_inv d h ins" and q: "next_addr ins \<le> q" "q < n" and ck: "cons_known ins"
    and c: "h_wf cons" "h_entries cons = []" "order_next cons = None"
  defines "i1 \<equiv> ins\<lparr>next_addr := n, queues := (queues ins)(q \<mapsto> new_queue args qid cons)\<rparr>"
  shows "mq_inv (d(q := 0)) h i1"
proof -
  have s: "mq_struct ins" using i by (simp add: mq_inv_def)
  have fresh: "queues ins q = None"
    using s q(1) unfolding mq_struct_def fresh_ok_iff by (cases "queues ins q") auto
  have rv: "rev_of i1 = rev_of ins" "ref_of i1 = ref_of ins"
    by (simp_all add: rev_of_def [abs_def] ref_of_def [abs_def] i1_def)
  have "msg_ok i1 q' mq' \<and> cons_ok i1 q' mq'" if "queues i1 q' = Some mq'" for q' mq'
  proof (cases "q' = q")
    case True
    then have "mq' = new_queue args qid cons" using that by (simp add: i1_def)
    then show ?thesis using c by (simp add: msg_ok_def cons_ok_def)
  next
    case False
    then have "queues ins q' = Some mq'" using that by (simp add: i1_def)
    then have "msg_ok ins q' mq'" "cons_ok ins q' mq'" using s by (auto simp: mq_struct_def)
    then show ?thesis unfolding msg_ok_def cons_ok_def rv by (simp add: i1_def)
  qed
  moreover have "store_ok i1"
    using s fresh unfolding mq_struct_def store_ok_def by (fastforce simp: i1_def)
  moreover have "fresh_ok i1"
    using s q less_trans less_le_trans [of _ "next_addr ins" q]
    unfolding mq_struct_def fresh_ok_iff by (auto simp: i1_def split: if_splits)
  moreover have "owner_ok i1"
    using s fresh unfolding mq_struct_def owner_ok_def by (auto simp: i1_def) (metis option.distinct(1))
  ultimately have s1: "mq_struct i1" by (simp add: mq_struct_def)
  have "ref_ok (d(q := 0)) i1" using i unfolding mq_inv_def ref_ok_def rv by (auto simp: i1_def)
  moreover have "consumers_of i1 q = {}" using ck q(1) by (force simp: consumers_of_def cons_known_def i1_def)
  then have "hold_ok (d(q := 0)) i1"
    using i by (auto simp: mq_inv_def hold_ok_def consumers_of_def i1_def)
  moreover have pd: "pending i1 = pending ins" by (simp add: pending_def [abs_def] i1_def)
  have pc: "pend_count i1 = pend_count ins"
    using s q by (auto simp: fun_eq_iff mq_struct_def pend_count_ext [of ins n] pend_count_def [of i1] pd)
      (simp add: i1_def)
  have "pend_ok h i1" using i unfolding mq_inv_def pend_ok_def pc pd by (simp add: i1_def)
  ultimately show ?thesis using s1 by (simp add: mq_inv_def)
qed

text \<open>The reference that a queue has from its creation, and its entry in the store.\<close>

lemma store_queue_inv:
  assumes i: "mq_inv d h ins" and q: "queues ins q = Some mq" "q_q_id mq = qid"
    and st: "h_wf store" "order_next store = None" "h_entries store = h_entries (queue_store ins) @ [(qid, q)]"
    and n: "next_addr ins \<le> n"
  defines "j \<equiv> ins\<lparr>queues := (queues ins)(q \<mapsto> mq\<lparr>q_ref_count := q_ref_count mq + 1\<rparr>), next_addr := n,
                  queue_store := store\<rparr>"
  shows "mq_inv (d(q := d q + 1)) h j"
proof -
  have s: "mq_struct ins" using i by (simp add: mq_inv_def)
  have rv: "rev_of j = rev_of ins" "ref_of j = ref_of ins"
    by (simp_all add: rev_of_def [abs_def] ref_of_def [abs_def] j_def)
  have "msg_ok j q' mq' \<and> cons_ok j q' mq'" if j: "queues j q' = Some mq'" for q' mq'
  proof -
    obtain mq0 where o: "queues ins q' = Some mq0" "mq' = (if q' = q then mq0\<lparr>q_ref_count := q_ref_count mq0 + 1\<rparr> else mq0)"
      using j q(1) by (auto simp: j_def split: if_splits)
    then have "msg_ok ins q' mq0" "cons_ok ins q' mq0" using s by (auto simp: mq_struct_def)
    then show ?thesis using o(2) unfolding msg_ok_def cons_ok_def rv by (cases "q' = q") (simp_all add: j_def)
  qed
  moreover have "store_ok j"
    using s st q unfolding mq_struct_def store_ok_def by (auto simp: j_def split: if_splits)
  moreover have "fresh_ok j"
    using s q n less_le_trans [of _ "next_addr ins" n] unfolding mq_struct_def fresh_ok_iff
    by (auto simp: j_def split: if_splits)
  moreover have "owner_ok j"
    using s q unfolding mq_struct_def owner_ok_def by (auto simp: j_def) (metis option.inject)
  ultimately have s1: "mq_struct j" by (simp add: mq_struct_def)
  have "ref_ok (d(q := d q + 1)) j" using i q unfolding mq_inv_def ref_ok_def rv by (auto simp: j_def)
  moreover have "hold_ok (d(q := d q + 1)) j"
    using i q by (auto simp: mq_inv_def hold_ok_def consumers_of_def j_def)
  moreover have pd: "pending j = pending ins" by (simp add: pending_def [abs_def] j_def)
  have pc: "pend_count j = pend_count ins"
    using s n by (auto simp: fun_eq_iff mq_struct_def pend_count_ext [of ins n] pend_count_def [of j] pd) (simp add: j_def)
  have "pend_ok h j" using i unfolding mq_inv_def pend_ok_def pc pd by (simp add: j_def)
  ultimately show ?thesis using s1 by (simp add: mq_inv_def)
qed

lemma memqueue_create_ok:
  fixes ins args
  assumes inv: "srv_inv d h ins" and mem: "oom ins = []" and ck: "cons_known ins" and qid: "ca_q_id args = Some qid"
    and new: "map_of (h_entries (queue_store ins)) qid = None"
  defines "q \<equiv> next_addr ins"
  shows "\<exists>j mq u v. memqueue_create args ins = Some (Some q, j) \<and> srv_inv (d(q := 1)) h j \<and> oom j = [] \<and>
    queues ins q = None \<and> queues j q = Some mq \<and> mq = (new_queue args qid (q_consumers mq))\<lparr>q_ref_count := 1,
      q_expiry_next := u, q_expiry_node := v\<rparr> \<and>
    h_entries (queue_store j) = h_entries (queue_store ins) @ [(qid, q)] \<and> h_wf (queue_store j) \<and>
    (\<forall>q' mq0. queues ins q' = Some mq0 \<longrightarrow> (\<exists>u v. queues j q' = Some (mq0\<lparr>q_expiry_next := u, q_expiry_node := v\<rparr>))) \<and>
    binders j = binders ins \<and> cli_binders j = cli_binders ins \<and> now j = now ins \<and>
    (\<forall>ty obj. deadline j ty obj = (if ca_expiry args > 0 \<and> ty = MEMQUEUE_TYPE \<and> obj = q
       then Some (now_ms ins + ca_expiry args) else deadline ins ty obj)) \<and>
    cons_known j \<and> (\<forall>k. room k ins \<and> k < 2 ^ 31 - 1 \<longrightarrow> room k j) \<and>
    dom (queues j) = insert q (dom (queues ins)) \<and> consumers_of j = consumers_of ins \<and> pending j = pending ins \<and>
    (ca_expiry args = 0 \<longrightarrow> u = None \<and> v = None)"
proof -
  have mi: "mq_inv d h ins" and si: "sched_inv ins" and hi: "held_ok d h ins" and s: "mq_struct ins"
    using inv by (auto simp: srv_inv_def mq_inv_def)
  let ?i0 = "ins\<lparr>next_addr := Suc q\<rparr>"
  obtain cons where cons: "heap_h_init 128 ?i0 = (Some cons, ?i0\<lparr>next_addr := next_addr ?i0 + 2\<rparr>)" "h_wf cons"
      "h_entries cons = []" "order_next cons = None"
    using heap_h_init_ok [of ?i0] mem by auto
  define i1 where "i1 = ins\<lparr>next_addr := q + 4, queues := (queues ins)(q \<mapsto> new_queue args qid cons)\<rparr>"
  have fresh: "queues ins q = None"
    using s unfolding mq_struct_def fresh_ok_iff by (cases "queues ins q") (auto simp: q_def)
  have inv1: "mq_inv (d(q := 0)) h i1"
    unfolding i1_def by (rule add_queue_inv [OF mi _ _ ck cons(2-4)]) (auto simp: q_def)
  have nx1: "get_expiry_next ty obj i1 = Some (Some a) \<longleftrightarrow> get_expiry_next ty obj ins = Some (Some a)" for ty obj a
    using fresh by (cases ty) (auto simp: get_expiry_next_def i1_def)
  have s1: "sched_inv i1"
    by (rule sched_inv_links [OF si _ _ _ _ nx1]) (auto simp: i1_def exp_root_def q_def split: obj_type.split)
  have dl1: "deadline i1 = deadline ins" by (rule deadline_links [OF _ nx1]) (simp add: i1_def)
  have idle: "is_idle i1 MEMQUEUE_TYPE q" by (simp add: is_idle_def get_expiry_next_def i1_def)
  have mem1: "oom i1 = []" using mem by (simp add: i1_def)
  obtain i where i: "(if ca_expiry args > 0 then obj_sched_expire i1 q (ca_expiry args) MEMQUEUE_TYPE else Some i1) = Some i"
      "sched_frame i1 i" "sched_inv i" "oom i = []"
      "\<And>ty obj. deadline i ty obj = (if ca_expiry args > 0 \<and> ty = MEMQUEUE_TYPE \<and> obj = q
         then Some (now_ms ins + ca_expiry args) else deadline ins ty obj)"
  proof (cases "ca_expiry args > 0")
    case True
    obtain i where "obj_sched_expire i1 q (ca_expiry args) MEMQUEUE_TYPE = Some i" "sched_inv i" "oom i = []"
        "deadline i = (deadline i1)(MEMQUEUE_TYPE := (deadline i1 MEMQUEUE_TYPE)(q \<mapsto> now_ms i1 + ca_expiry args))"
      using exp.sched_law [of i1 MEMQUEUE_TYPE q "ca_expiry args"] s1 idle mem1 by blast
    moreover have "now_ms i1 = now_ms ins" by (simp add: now_ms_def i1_def)
    ultimately show ?thesis using True dl1 sched_frame_expire by (intro that) auto
  next
    case False
    then show ?thesis using s1 mem1 dl1 by (intro that [of i1]) auto
  qed
  have inv2: "mq_inv (d(q := 0)) h i" using sched_frame_mq_inv [OF i(2) inv1] .
  obtain u v where mq2: "queues i q = Some ((new_queue args qid cons)\<lparr>q_expiry_next := u, q_expiry_node := v\<rparr>)"
    using sched_frame_fwd(1) [OF i(2), of q] by (auto simp: i1_def)
  define mq where "mq = (new_queue args qid cons)\<lparr>q_expiry_next := u, q_expiry_node := v\<rparr>"
  have st: "queue_store i = queue_store ins" "h_wf (queue_store ins)" "order_next (queue_store ins) = None"
    using i(2) s by (auto simp: sched_frame_def i1_def mq_struct_def store_ok_def)
  obtain store where store: "h_insert True (queue_store ins) qid q = Some (0, store)" "h_wf store"
      "h_entries store = h_entries (queue_store ins) @ [(qid, q)]"
    using hh.ins_new [OF st(2) new] by blast
  have on: "order_next store = None" using h_insert_cursor [OF store(1)] st(3) by simp
  define j where "j = i\<lparr>queues := (queues i)(q \<mapsto> mq\<lparr>q_ref_count := q_ref_count mq + 1\<rparr>), next_addr := Suc (next_addr i),
      queue_store := store\<rparr>"
  have "mq_inv ((d(q := 0))(q := (d(q := 0)) q + 1)) h j"
    unfolding j_def by (rule store_queue_inv [OF inv2]) (use mq2 store st on in \<open>simp_all add: mq_def\<close>)
  then have inv3: "mq_inv (d(q := 1)) h j" by simp
  have nx: "get_expiry_next ty obj j = get_expiry_next ty obj i" for ty obj
    using mq2 by (cases ty) (auto simp: get_expiry_next_def j_def mq_def)
  have s3: "sched_inv j"
    by (rule sched_inv_links [OF i(3)])
      (simp_all add: nx, simp_all add: j_def exp_root_def split: obj_type.split)
  have dlj: "deadline j = deadline i" by (rule deadline_links) (simp_all add: nx, simp add: j_def)
  have cj: "consumers_of j = consumers_of ins"
    using sched_frame_refs(4) [OF i(2)] by (auto simp: consumers_of_def [abs_def] j_def i1_def fun_eq_iff)
  have "consumers_of ins q = {}" using ck by (force simp: consumers_of_def cons_known_def q_def)
  then have "held_ok (d(q := 1)) h j"
    using hi i(5) unfolding held_ok_def is_sched_deadline [OF s3] is_sched_deadline [OF si] cj dlj
    by (auto split: if_splits)
  then have sj: "srv_inv (d(q := 1)) h j" using inv3 s3 by (simp add: srv_inv_def)
  have c4: "calloc ins = (Some q, ?i0)"
    "calloc (?i0\<lparr>next_addr := next_addr ?i0 + 2\<rparr>) = (Some (q + 3), ins\<lparr>next_addr := q + 4\<rparr>)"
    using mem by (simp_all add: calloc_def q_def)
  have ret: "memqueue_retain q i = Some (i\<lparr>queues := (queues i)(q \<mapsto> mq\<lparr>q_ref_count := q_ref_count mq + 1\<rparr>)\<rparr>)"
    using mq2 by (simp add: memqueue_retain_def upd_queue_def int_incr_def mq_def)
  have hp: "heap_insert (queue_store ins) qid q (i\<lparr>queues := (queues i)(q \<mapsto> mq\<lparr>q_ref_count := q_ref_count mq + 1\<rparr>)\<rparr>) =
      Some (store, i\<lparr>queues := (queues i)(q \<mapsto> mq\<lparr>q_ref_count := q_ref_count mq + 1\<rparr>), next_addr := Suc (next_addr i)\<rparr>)"
    using store(1) st(2) new i(4) by (simp add: heap_insert_def hh.get_entries calloc_def)
  have res: "memqueue_create args ins = Some (Some q, j)"
  proof (cases "ca_expiry args > 0")
    case True
    then have "obj_sched_expire i1 q (ca_expiry args) MEMQUEUE_TYPE = Some i" using i(1) by simp
    then show ?thesis
      using True c4 cons(1) qid ret hp st(1) by (simp add: memqueue_create_def Let_def j_def flip: i1_def)
  next
    case False
    then have "i1 = i" using i(1) by simp
    then show ?thesis
      using False c4 cons(1) qid ret hp st(1) by (simp add: memqueue_create_def Let_def j_def flip: i1_def)
  qed
  have oth: "\<exists>u v. queues j q' = Some (mq0\<lparr>q_expiry_next := u, q_expiry_node := v\<rparr>)" if "queues ins q' = Some mq0" for q' mq0
  proof -
    have "q' \<noteq> q" "queues i1 q' = Some mq0" using that fresh by (auto simp: i1_def)
    then show ?thesis using sched_frame_fwd(1) [OF i(2), of q' mq0] by (auto simp: j_def)
  qed
  have ckj: "cons_known j"
    by (rule cons_known_mono [OF ck cj]) (use i(2) in \<open>auto simp: sched_frame_def j_def i1_def q_def\<close>)
  have rmj: "room k j" if "room k ins" "k < 2 ^ 31 - 1" for k
  proof -
    have "int k + 1 < 2 ^ 31" using that(2) by simp
    then have "room k i1" using that(1) by (auto simp: room_def i1_def)
    then have "room k i" using sched_frame_room [OF i(2)] by simp
    then show ?thesis using mq2 \<open>int k + 1 < 2 ^ 31\<close> by (auto simp: room_def j_def mq_def)
  qed
  have dj: "dom (queues j) = insert q (dom (queues ins))" "pending j = pending ins"
    using sched_frame_refs(3,5) [OF i(2)] mq2 by (auto simp: j_def i1_def pending_def [abs_def])
  have uv: "ca_expiry args = 0 \<Longrightarrow> u = None \<and> v = None"
    using i(1) mq2 by (cases args) (auto simp: i1_def new_queue_def)
  show ?thesis
    by (intro exI [of _ j] exI [of _ "mq\<lparr>q_ref_count := 1\<rparr>"] exI [of _ u] exI [of _ v] conjI allI impI oth ckj dj cj uv [THEN conjunct1] uv [THEN conjunct2])
      (use res sj i(2,4,5) fresh store dlj rmj in \<open>auto simp: j_def mq_def i1_def sched_frame_def\<close>)
qed

end
