(* ===== verification/Memqueue_Poll.thy ===== *)
theory Memqueue_Poll
  imports Memqueue_Queue
begin

text \<open>
  Polling: the bindings between queues and pollers, the messages a poll collects, and the end of a
  poll, which takes the bindings down and releases the messages.
\<close>

subsection \<open>Bindings\<close>

text \<open>The bindings in the list of a queue and in the list of a poller.\<close>

definition bound_to :: "memqueue_ins \<Rightarrow> addr \<Rightarrow> addr list" where
  "bound_to ins q = (case queues ins q of Some mq \<Rightarrow> q_memqueue_binders mq | None \<Rightarrow> [])"

definition binds :: "memqueue_ins \<Rightarrow> addr \<Rightarrow> addr list" where
  "binds ins b = (case cli_binders ins b of Some cb \<Rightarrow> cb_memqueues cb | None \<Rightarrow> [])"

text \<open>A binding is in the list of its queue and in that of its poller, once, or in neither.\<close>

definition bind_ok :: "memqueue_ins \<Rightarrow> bool" where
  "bind_ok ins \<longleftrightarrow> (\<forall>q. distinct (bound_to ins q)) \<and> (\<forall>b. distinct (binds ins b)) \<and>
     (\<forall>q. \<forall>t \<in> set (bound_to ins q). \<exists>bd. binders ins t = Some bd \<and> b_memqueue bd = q \<and>
        t \<in> set (binds ins (b_cli_binder bd))) \<and>
     (\<forall>b. \<forall>t \<in> set (binds ins b). \<exists>bd. binders ins t = Some bd \<and> b_cli_binder bd = b \<and>
        t \<in> set (bound_to ins (b_memqueue bd)))"

lemma bound_to_Some [simp]: "queues ins q = Some mq \<Longrightarrow> bound_to ins q = q_memqueue_binders mq"
  by (simp add: bound_to_def)

lemma binds_Some [simp]: "cli_binders ins b = Some cb \<Longrightarrow> binds ins b = cb_memqueues cb"
  by (simp add: binds_def)

lemma bind_okD:
  assumes "bind_ok ins"
  shows "t \<in> set (bound_to ins q) \<Longrightarrow>
      \<exists>bd. binders ins t = Some bd \<and> b_memqueue bd = q \<and> t \<in> set (binds ins (b_cli_binder bd))"
    "t \<in> set (binds ins b) \<Longrightarrow>
      \<exists>bd. binders ins t = Some bd \<and> b_cli_binder bd = b \<and> t \<in> set (bound_to ins (b_memqueue bd))"
    "distinct (bound_to ins q)" "distinct (binds ins b)"
  using assms unfolding bind_ok_def by blast+

lemma bind_ok_cong:
  "bind_ok ins \<Longrightarrow> binders ins' = binders ins \<Longrightarrow> bound_to ins' = bound_to ins \<Longrightarrow> binds ins' = binds ins \<Longrightarrow> bind_ok ins'"
  by (simp add: bind_ok_def)

lemma bind_ok_live: "bind_ok ins \<Longrightarrow> queues ins q = Some mq \<Longrightarrow> bound_live ins mq"
  unfolding bound_live_def
proof
  fix t assume b: "bind_ok ins" "queues ins q = Some mq" "t \<in> set (q_memqueue_binders mq)"
  then obtain bd where bd: "binders ins t = Some bd" "t \<in> set (binds ins (b_cli_binder bd))"
    unfolding bind_ok_def by (metis bound_to_Some)
  then show "\<exists>bd cb. binders ins t = Some bd \<and> cli_binders ins (b_cli_binder bd) = Some cb"
    by (cases "cli_binders ins (b_cli_binder bd)") (auto simp: binds_def)
qed

lemma bind_lists_eq:
  "(\<And>q. map_option q_memqueue_binders (queues ins' q) = map_option q_memqueue_binders (queues ins q)) \<Longrightarrow>
   bound_to ins' = bound_to ins"
  "(\<And>b. map_option cb_memqueues (cli_binders ins' b) = map_option cb_memqueues (cli_binders ins b)) \<Longrightarrow>
   binds ins' = binds ins"
proof -
  have bt: "bound_to i q = (case map_option q_memqueue_binders (queues i q) of Some l \<Rightarrow> l | None \<Rightarrow> [])" for i q
    by (simp add: bound_to_def split: option.split)
  have bs: "binds i b = (case map_option cb_memqueues (cli_binders i b) of Some l \<Rightarrow> l | None \<Rightarrow> [])" for i b
    by (simp add: binds_def split: option.split)
  show "(\<And>q. map_option q_memqueue_binders (queues ins' q) = map_option q_memqueue_binders (queues ins q)) \<Longrightarrow>
      bound_to ins' = bound_to ins"
    "(\<And>b. map_option cb_memqueues (cli_binders ins' b) = map_option cb_memqueues (cli_binders ins b)) \<Longrightarrow>
      binds ins' = binds ins"
    by (simp_all add: bt bs fun_eq_iff)
qed

lemma shape_binds:
  assumes "same_shape ins ins'"
  shows "bound_to ins' = bound_to ins" "binds ins' = binds ins" "dom (queues ins') = dom (queues ins)"
proof -
  have q: "map_option q_memqueue_binders (queues ins' q) = map_option q_memqueue_binders (queues ins q)" for q
    using assms by (simp add: same_shape_def)
  then show "bound_to ins' = bound_to ins" by (rule bind_lists_eq(1))
  show "binds ins' = binds ins" by (rule bind_lists_eq(2)) (use assms in \<open>simp add: same_shape_def\<close>)
  have "queues ins' q = None \<longleftrightarrow> queues ins q = None" for q using q [of q] by (metis map_option_is_None)
  then show "dom (queues ins') = dom (queues ins)" by (auto simp: dom_def)
qed

subsection \<open>The server invariant with its bindings\<close>

text \<open>Every queue is held by a reference beside those of its consumers.\<close>

definition own_ok :: "(addr \<Rightarrow> int) \<Rightarrow> memqueue_ins \<Rightarrow> bool" where
  "own_ok d ins \<longleftrightarrow> (\<forall>q \<in> dom (queues ins). int (card (consumers_of ins q)) + 1 \<le> d q)"

definition server_ok :: "(addr \<Rightarrow> int) \<Rightarrow> (addr \<Rightarrow> int) \<Rightarrow> memqueue_ins \<Rightarrow> bool" where
  "server_ok d h ins \<longleftrightarrow> srv_inv d h ins \<and> bind_ok ins \<and> own_ok d ins \<and> cons_known ins"

lemma shape_server_ok:
  assumes f: "same_shape ins ins'" and s: "server_ok d h ins" and m: "srv_inv d h' ins'"
  shows "server_ok d h' ins'"
proof -
  have c: "consumers_of ins' = consumers_of ins" "binders ins' = binders ins" "next_addr ins \<le> next_addr ins'"
    using f by (simp_all add: same_shape_def)
  show ?thesis
    using m s bind_ok_cong [OF _ c(2) shape_binds(1) [OF f] shape_binds(2) [OF f]] cons_known_mono [OF _ c(1,3)]
    unfolding server_ok_def own_ok_def c shape_binds(3) [OF f] by blast
qed

lemma quiet_server_ok:
  assumes "quiet ins ins'" "server_ok d h ins" "mq_inv d h ins'"
  shows "server_ok d h ins'"
  using shape_server_ok [OF quiet_shape [OF assms(1)] assms(2)] quiet_srv_inv [OF assms(1) _ assms(3)] assms(2)
  by (simp add: server_ok_def)

lemma sched_frame_server_ok:
  assumes f: "sched_frame ins ins'" and s: "server_ok d h ins" and m: "sched_inv ins'"
    and i: "\<And>ty obj. is_sched ins' ty obj \<Longrightarrow> is_sched ins ty obj"
  shows "server_ok d h ins'"
proof -
  have "mq_inv d h ins'" using sched_frame_mq_inv [OF f] s by (simp add: server_ok_def srv_inv_def)
  then have "srv_inv d h ins'"
    using m s i unfolding srv_inv_def server_ok_def held_ok_def sched_frame_refs [OF f] by blast
  then show ?thesis by (rule shape_server_ok [OF sched_frame_shape [OF f] s])
qed

subsection \<open>Changes of the bindings\<close>

text \<open>Everything but the bindings and the set of pollers stays.\<close>

definition rewired :: "memqueue_ins \<Rightarrow> memqueue_ins \<Rightarrow> bool" where
  "rewired ins ins' \<longleftrightarrow>
     (\<forall>q. map_option (q_memqueue_binders_update (\<lambda>_. [])) (queues ins' q) =
          map_option (q_memqueue_binders_update (\<lambda>_. [])) (queues ins q)) \<and>
     msgs ins' = msgs ins \<and> consumers ins' = consumers ins \<and> queue_store ins' = queue_store ins \<and>
     rb ins' = rb ins \<and> enodes ins' = enodes ins \<and> (\<forall>ty. exp_root ty ins' = exp_root ty ins) \<and>
     birth ins' = birth ins \<and> now ins' = now ins \<and> oom ins' = oom ins \<and> signals ins' = signals ins \<and>
     pending ins' = pending ins \<and> next_addr ins \<le> next_addr ins' \<and>
     dom (binders ins') \<union> dom (cli_binders ins') \<subseteq> {..<next_addr ins'}"

lemma rewired_queue:
  assumes "rewired ins ins'"
  shows "(queues ins q = None \<and> queues ins' q = None) \<or>
    (\<exists>mq l. queues ins q = Some mq \<and> queues ins' q = Some (mq\<lparr>q_memqueue_binders := l\<rparr>))"
proof -
  have e: "map_option (q_memqueue_binders_update (\<lambda>_. [])) (queues ins' q) =
      map_option (q_memqueue_binders_update (\<lambda>_. [])) (queues ins q)"
    using assms by (simp add: rewired_def)
  show ?thesis
  proof (cases "queues ins q")
    case (Some mq)
    with e obtain mq' where mq': "queues ins' q = Some mq'" "mq'\<lparr>q_memqueue_binders := []\<rparr> = mq\<lparr>q_memqueue_binders := []\<rparr>"
      by auto
    then have "mq' = mq\<lparr>q_memqueue_binders := q_memqueue_binders mq'\<rparr>" by (cases mq; cases mq') simp
    then have "queues ins' q = Some (mq\<lparr>q_memqueue_binders := q_memqueue_binders mq'\<rparr>)" using mq'(1) by metis
    with Some show ?thesis by blast
  qed (use e in simp)
qed

lemma rewired_back:
  assumes "rewired ins ins'" "queues ins' q = Some mq'"
  obtains mq l where "queues ins q = Some mq" "mq' = mq\<lparr>q_memqueue_binders := l\<rparr>"
  using rewired_queue [OF assms(1), of q] assms(2) by auto

lemma rewired_fwd:
  assumes "rewired ins ins'" "queues ins q = Some mq"
  obtains l where "queues ins' q = Some (mq\<lparr>q_memqueue_binders := l\<rparr>)"
  using rewired_queue [OF assms(1), of q] assms(2) by auto

lemma rewired_dom: "rewired ins ins' \<Longrightarrow> dom (queues ins') = dom (queues ins)"
proof -
  assume w: "rewired ins ins'"
  have "queues ins' q = None \<longleftrightarrow> queues ins q = None" for q using rewired_queue [OF w, of q] by auto
  then show ?thesis by (auto simp: dom_def)
qed

lemma rewired_trans: "rewired a b \<Longrightarrow> rewired b c \<Longrightarrow> rewired a c"
  by (auto simp: rewired_def)

lemma rewired_srv_inv:
  assumes w: "rewired ins ins'" and i: "srv_inv d h ins"
  shows "srv_inv d h ins'"
proof -
  have s: "mq_struct ins" and f: "fresh_ok ins" using i by (auto simp: srv_inv_def mq_inv_def mq_struct_def)
  have eq: "msgs ins' = msgs ins" "consumers ins' = consumers ins" "queue_store ins' = queue_store ins"
    "pending ins' = pending ins" and n: "next_addr ins \<le> next_addr ins'"
    using w by (auto simp: rewired_def)
  have rv: "rev_of ins' = rev_of ins" "ref_of ins' = ref_of ins" "consumers_of ins' = consumers_of ins"
    by (simp_all add: rev_of_def [abs_def] ref_of_def [abs_def] consumers_of_def [abs_def] eq)
  have "msg_ok ins' q mq \<and> cons_ok ins' q mq" if q: "queues ins' q = Some mq" for q mq
  proof -
    obtain mq0 l where "queues ins q = Some mq0" "mq = mq0\<lparr>q_memqueue_binders := l\<rparr>" using rewired_back [OF w q] .
    then show ?thesis
      using s unfolding mq_struct_def msg_ok_def cons_ok_def eq rv by simp
  qed
  moreover have "\<exists>mq. queues ins' q = Some mq \<and> q_q_id mq = k" if e: "(k, q) \<in> set (h_entries (queue_store ins))" for k q
  proof -
    have "store_ok ins" using s by (simp add: mq_struct_def)
    then obtain mq where "queues ins q = Some mq" "q_q_id mq = k" using e by (auto simp: store_ok_def)
    then show ?thesis using rewired_fwd [OF w, of q mq] by force
  qed
  then have "store_ok ins'" using s unfolding mq_struct_def store_ok_def eq by (auto simp: case_prod_beta)
  moreover note d = rewired_dom [OF w]
  have "fresh_ok ins'"
    using f w n unfolding fresh_ok_def d eq rewired_def by (auto dest: less_le_trans)
  moreover have "\<exists>mq. queues ins' q = Some mq \<and> m \<in> set (q_msg_queue mq)"
    if "queues ins q = Some mq" "m \<in> set (q_msg_queue mq)" for q mq m
    using that rewired_fwd [OF w, of q mq] by force
  then have "owner_ok ins'" using s unfolding mq_struct_def owner_ok_def eq by blast
  ultimately have s': "mq_struct ins'" by (simp add: mq_struct_def)
  have "ref_ok d ins'"
    using i unfolding srv_inv_def mq_inv_def ref_ok_def rv by (auto elim!: rewired_back [OF w])
  moreover have "hold_ok d ins'" using i unfolding srv_inv_def mq_inv_def hold_ok_def rv d by blast
  moreover have "pend_count ins' = pend_count ins"
    by (rule ext) (simp add: pend_count_def [of ins'] pend_count_ext [OF f n] eq)
  then have "pend_ok h ins'" using i unfolding srv_inv_def mq_inv_def pend_ok_def eq by simp
  moreover have nx: "get_expiry_next ty obj ins' = get_expiry_next ty obj ins" for ty obj
    using rewired_queue [OF w, of obj] by (cases ty) (auto simp: get_expiry_next_def eq)
  have "sched_inv ins'"
    by (rule sched_inv_links [where ins = ins]) (use i w nx in \<open>auto simp: srv_inv_def rewired_def\<close>)
  moreover have "held_ok d h ins'" using i unfolding srv_inv_def held_ok_def is_sched_def rv nx by blast
  ultimately show ?thesis using s' by (simp add: srv_inv_def mq_inv_def)
qed

lemma rewired_server_ok:
  assumes w: "rewired ins ins'" and i: "server_ok d h ins" and b: "bind_ok ins'"
  shows "server_ok d h ins'"
proof -
  have c: "consumers_of ins' = consumers_of ins" "dom (queues ins') = dom (queues ins)"
    using w rewired_dom [OF w] by (simp_all add: rewired_def consumers_of_def [abs_def])
  have "cons_known ins'" by (rule cons_known_mono [where ins = ins]) (use w i c in \<open>auto simp: rewired_def server_ok_def\<close>)
  then show ?thesis
    using i b rewired_srv_inv [OF w] by (simp add: server_ok_def own_ok_def c)
qed

lemma rewired_deadline: "rewired ins ins' \<Longrightarrow> deadline ins' = deadline ins"
proof (rule deadline_links)
  assume w: "rewired ins ins'"
  show "get_expiry_next ty obj ins' = Some (Some a) \<longleftrightarrow> get_expiry_next ty obj ins = Some (Some a)" for ty obj a
    using rewired_queue [OF w, of obj] w by (cases ty) (auto simp: get_expiry_next_def rewired_def)
qed (simp add: rewired_def)

lemma rewired_room:
  assumes w: "rewired ins ins'" and r: "room k ins"
  shows "room k ins'"
proof -
  have "q_ref_count mq + int k < 2 ^ 31 \<and> q_rev mq + int k < 2 ^ 31 \<and> q_msgs_in_queue mq + int k < 2 ^ 31"
    if q: "queues ins' q = Some mq" for q mq
  proof -
    obtain mq0 l where "queues ins q = Some mq0" "mq = mq0\<lparr>q_memqueue_binders := l\<rparr>" using rewired_back [OF w q] .
    then show ?thesis using r by (simp add: room_def)
  qed
  moreover have "msgs ins' = msgs ins" using w by (simp add: rewired_def)
  ultimately show ?thesis using r unfolding room_def by simp
qed

subsection \<open>Making and taking down bindings\<close>

lemma server_fresh:
  assumes "server_ok d h ins"
  shows "cli_binders ins b = Some cb \<Longrightarrow> b < next_addr ins" "binders ins t = Some bd \<Longrightarrow> t < next_addr ins"
    "queues ins q = Some mq \<Longrightarrow> q < next_addr ins"
  using assms by (auto simp: server_ok_def srv_inv_def mq_inv_def mq_struct_def fresh_ok_iff)

lemma rewired_refl: "server_ok d h ins \<Longrightarrow> rewired ins ins"
  using server_fresh [of d h ins] unfolding rewired_def by auto

lemma cli_binder_create_ok:
  assumes ok: "server_ok d h ins" and mem: "oom ins = []"
  defines "b \<equiv> next_addr ins"
  shows "\<exists>i. cli_binder_create timeout ins = (Some b, i) \<and> rewired ins i \<and> server_ok d h i \<and>
    queues i = queues ins \<and> cli_binders ins b = None \<and>
    cli_binders i b = Some \<lparr>cb_timeout = timeout, cb_memqueues = [], cb_pending_msgs = []\<rparr>"
proof -
  define i where "i = ins\<lparr>next_addr := Suc b, cli_binders := (cli_binders ins)(b \<mapsto>
    \<lparr>cb_timeout = timeout, cb_memqueues = [], cb_pending_msgs = []\<rparr>)\<rparr>"
  have n: "cli_binders ins b = None" using server_fresh(1) [OF ok, of b] by (cases "cli_binders ins b") (auto simp: b_def)
  have r: "rewired ins i"
    using server_fresh [OF ok] n unfolding rewired_def
    by (auto simp: i_def pending_def fun_eq_iff exp_root_def b_def less_SucI split: obj_type.split)
  have "binds i = binds ins" using n by (auto simp: i_def binds_def fun_eq_iff)
  moreover have "bound_to i = bound_to ins" by (auto simp: i_def bound_to_def fun_eq_iff)
  ultimately have "bind_ok i" using ok bind_ok_cong [of ins i] by (simp add: i_def server_ok_def)
  with r n show ?thesis
    using rewired_server_ok [OF r ok] mem by (auto simp: cli_binder_create_def calloc_ok b_def i_def)
qed

lemma memqueue_bind_ok:
  fixes ins rv incl
  assumes ok: "server_ok d h ins" and mem: "oom ins = []" and q: "queues ins q = Some mq" and b: "cli_binders ins b = Some cb"
  defines "t \<equiv> next_addr ins"
  defines "bd \<equiv> \<lparr>b_rev = rv, b_memqueue = q, b_cli_binder = b, b_include_consumers = incl\<rparr>"
  shows "\<exists>i. memqueue_bind q b rv incl ins = Some (0, i) \<and> rewired ins i \<and> server_ok d h i \<and>
    queues i = (queues ins)(q \<mapsto> mq\<lparr>q_memqueue_binders := t # q_memqueue_binders mq\<rparr>) \<and>
    cli_binders i = (cli_binders ins)(b \<mapsto> cb\<lparr>cb_memqueues := t # cb_memqueues cb\<rparr>) \<and>
    binders i = (binders ins)(t \<mapsto> bd)"
proof -
  define i where "i = ins\<lparr>next_addr := Suc t, binders := (binders ins)(t \<mapsto> bd),
    cli_binders := (cli_binders ins)(b \<mapsto> cb\<lparr>cb_memqueues := t # cb_memqueues cb\<rparr>),
    queues := (queues ins)(q \<mapsto> mq\<lparr>q_memqueue_binders := t # q_memqueue_binders mq\<rparr>)\<rparr>"
  have bk: "bind_ok ins" using ok by (simp add: server_ok_def)
  have n: "binders ins t = None" using server_fresh(2) [OF ok, of t] by (cases "binders ins t") (auto simp: t_def)
  have r: "rewired ins i"
    using server_fresh [OF ok] q b unfolding rewired_def
    by (auto simp: i_def pending_def fun_eq_iff exp_root_def t_def less_SucI split: obj_type.split)
  have bt: "bound_to i = (bound_to ins)(q := t # bound_to ins q)" using q by (auto simp: bound_to_def i_def fun_eq_iff)
  have bs: "binds i = (binds ins)(b := t # binds ins b)" using b by (auto simp: binds_def i_def fun_eq_iff)
  have bi: "binders i = (binders ins)(t \<mapsto> bd)" by (simp add: i_def)
  have nt: "t \<notin> set (bound_to ins q')" "t \<notin> set (binds ins b')" for q' b'
    using bind_okD(1) [OF bk, of t q'] bind_okD(2) [OF bk, of t b'] n by auto
  have ex: "binders ins t' = Some bd' \<Longrightarrow> binders i t' = Some bd'" for t' bd' using n by (auto simp: bi)
  have "bind_ok i"
    unfolding bind_ok_def
  proof (intro conjI allI ballI)
    show "distinct (bound_to i q')" for q' using bk nt by (simp add: bind_ok_def bt)
    show "distinct (binds i b')" for b' using bk nt by (simp add: bind_ok_def bs)
    show "\<exists>bd. binders i t' = Some bd \<and> b_memqueue bd = q' \<and> t' \<in> set (binds i (b_cli_binder bd))"
      if t': "t' \<in> set (bound_to i q')" for q' t'
    proof (cases "t' = t")
      case True
      then have "q' = q" using t' nt by (auto simp: bt split: if_splits)
      then show ?thesis using True by (simp add: bi bs bd_def)
    next
      case False
      then have "t' \<in> set (bound_to ins q')" using t' by (auto simp: bt split: if_splits)
      then obtain bd' where "binders ins t' = Some bd'" "b_memqueue bd' = q'" "t' \<in> set (binds ins (b_cli_binder bd'))"
        using bind_okD(1,2) [OF bk] by blast
      then show ?thesis using ex by (auto simp: bs)
    qed
    show "\<exists>bd. binders i t' = Some bd \<and> b_cli_binder bd = b' \<and> t' \<in> set (bound_to i (b_memqueue bd))"
      if t': "t' \<in> set (binds i b')" for b' t'
    proof (cases "t' = t")
      case True
      then have "b' = b" using t' nt by (auto simp: bs split: if_splits)
      then show ?thesis using True by (simp add: bi bt bd_def)
    next
      case False
      then have "t' \<in> set (binds ins b')" using t' by (auto simp: bs split: if_splits)
      then obtain bd' where "binders ins t' = Some bd'" "b_cli_binder bd' = b'" "t' \<in> set (bound_to ins (b_memqueue bd'))"
        using bind_okD(1,2) [OF bk] by blast
      then show ?thesis using ex by (auto simp: bt)
    qed
  qed
  then show ?thesis
    using r rewired_server_ok [OF r ok] mem q b
    by (auto simp: memqueue_bind_def calloc_ok upd_cli_def upd_queue_def i_def t_def bd_def)
qed

lemma unbind_step:
  assumes ok: "server_ok d h ins" and b: "cli_binders ins b = Some cb" and t: "t \<in> set (cb_memqueues cb)"
  obtains bd mq i where "binders ins t = Some bd" "queues ins (b_memqueue bd) = Some mq"
    "i = ins\<lparr>cli_binders := (cli_binders ins)(b \<mapsto> cb\<lparr>cb_memqueues := remove1 t (cb_memqueues cb)\<rparr>),
       queues := (queues ins)(b_memqueue bd \<mapsto> mq\<lparr>q_memqueue_binders := remove1 t (q_memqueue_binders mq)\<rparr>)\<rparr>"
    "rewired ins i" "server_ok d h i" "binds i = (binds ins)(b := remove1 t (binds ins b))"
    "\<And>q. bound_to i q = remove1 t (bound_to ins q)"
proof -
  have bk: "bind_ok ins" using ok by (simp add: server_ok_def)
  obtain bd where bd: "binders ins t = Some bd" "b_cli_binder bd = b" "t \<in> set (bound_to ins (b_memqueue bd))"
    using bind_okD(2) [OF bk, of t b] b t by auto
  obtain mq where mq: "queues ins (b_memqueue bd) = Some mq"
    using bd(3) by (cases "queues ins (b_memqueue bd)") (auto simp: bound_to_def)
  define i where "i = ins\<lparr>cli_binders := (cli_binders ins)(b \<mapsto> cb\<lparr>cb_memqueues := remove1 t (cb_memqueues cb)\<rparr>),
    queues := (queues ins)(b_memqueue bd \<mapsto> mq\<lparr>q_memqueue_binders := remove1 t (q_memqueue_binders mq)\<rparr>)\<rparr>"
  have r: "rewired ins i"
    using server_fresh [OF ok] mq b unfolding rewired_def
    by (auto simp: i_def pending_def fun_eq_iff exp_root_def split: obj_type.split)
  have only: "t \<notin> set (bound_to ins q)" if "q \<noteq> b_memqueue bd" for q
    using bind_okD(1) [OF bk, of t q] bd(1) that by auto
  have bt: "bound_to i q = remove1 t (bound_to ins q)" for q
    using mq only [of q] by (cases "q = b_memqueue bd") (auto simp: bound_to_def i_def remove1_idem split: option.split)
  have bs: "binds i = (binds ins)(b := remove1 t (binds ins b))" using b by (auto simp: binds_def i_def fun_eq_iff)
  have dt: "distinct (bound_to ins q)" "distinct (binds ins b')" for q b' using bind_okD(3,4) [OF bk] .
  have bi: "binders i = binders ins" by (simp add: i_def)
  have other: "t \<notin> set (binds ins b')" if "b' \<noteq> b" for b'
    using bind_okD(2) [OF bk, of t b'] bd(1,2) that by auto
  have "bind_ok i"
    unfolding bind_ok_def bi
  proof (intro conjI allI ballI)
    show "distinct (bound_to i q)" "distinct (binds i b')" for q b' using dt by (simp_all add: bt bs)
    show "\<exists>bd. binders ins t' = Some bd \<and> b_memqueue bd = q \<and> t' \<in> set (binds i (b_cli_binder bd))"
      if "t' \<in> set (bound_to i q)" for q t'
      using that bind_okD(1) [OF bk, of t' q] dt by (auto simp: bt bs)
    show "\<exists>bd. binders ins t' = Some bd \<and> b_cli_binder bd = b' \<and> t' \<in> set (bound_to i (b_memqueue bd))"
      if "t' \<in> set (binds i b')" for b' t'
      using that bind_okD(2) [OF bk, of t' b'] dt other by (fastforce simp: bt bs split: if_splits)
  qed
  then show thesis using that [OF bd(1) mq i_def r rewired_server_ok [OF r ok]] bs bt by blast
qed

lemma unbind_loop_ok:
  assumes "server_ok d h ins" "cli_binders ins b = Some cb" "cb_memqueues cb = ts"
  shows "\<exists>i. unbind_loop b ts ins = Some i \<and> (ts \<noteq> [] \<longrightarrow> rewired ins i) \<and> (ts = [] \<longrightarrow> i = ins) \<and> server_ok d h i \<and>
    binds i = (binds ins)(b := []) \<and> cli_binders i = (cli_binders ins)(b \<mapsto> cb\<lparr>cb_memqueues := []\<rparr>) \<and>
    (\<forall>q. bound_to i q = filter (\<lambda>t. t \<notin> set ts) (bound_to ins q))"
  using assms
proof (induction ts arbitrary: ins cb)
  case Nil
  then show ?case by (auto simp: fun_eq_iff)
next
  case (Cons t ts)
  have t: "t \<in> set (cb_memqueues cb)" using Cons.prems(3) by simp
  obtain bd mq i where i: "binders ins t = Some bd" "queues ins (b_memqueue bd) = Some mq"
    "i = ins\<lparr>cli_binders := (cli_binders ins)(b \<mapsto> cb\<lparr>cb_memqueues := remove1 t (cb_memqueues cb)\<rparr>),
       queues := (queues ins)(b_memqueue bd \<mapsto> mq\<lparr>q_memqueue_binders := remove1 t (q_memqueue_binders mq)\<rparr>)\<rparr>"
    "rewired ins i" "server_ok d h i" "binds i = (binds ins)(b := remove1 t (binds ins b))"
    "\<And>q. bound_to i q = remove1 t (bound_to ins q)"
    using unbind_step [OF Cons.prems(1,2) t] by metis
  let ?cb = "cb\<lparr>cb_memqueues := ts\<rparr>"
  have cb: "cli_binders i b = Some ?cb" "cb_memqueues ?cb = ts" using i(3) Cons.prems(3) by simp_all
  obtain j where j: "unbind_loop b ts i = Some j" "ts \<noteq> [] \<longrightarrow> rewired i j" "ts = [] \<longrightarrow> j = i" "server_ok d h j"
      "binds j = (binds i)(b := [])" "cli_binders j = (cli_binders i)(b \<mapsto> ?cb\<lparr>cb_memqueues := []\<rparr>)"
      "\<forall>q. bound_to j q = filter (\<lambda>t. t \<notin> set ts) (bound_to i q)"
    using Cons.IH [OF i(5) cb] by blast
  have "unbind_loop b (t # ts) ins = Some j"
    using i(1,2) j(1) Cons.prems(2) by (simp add: upd_cli_def upd_queue_def flip: i(3))
  moreover have "rewired ins j" using j(2,3) i(4) rewired_trans by (cases "ts = []") auto
  moreover have "distinct (bound_to ins q)" for q
    using Cons.prems(1) by (auto simp: server_ok_def intro: bind_okD)
  then have "bound_to j q = filter (\<lambda>t'. t' \<notin> set (t # ts)) (bound_to ins q)" for q
    using j(7) i(7) [of q] by (auto simp: distinct_remove1_removeAll removeAll_filter_not_eq intro: filter_cong)
  moreover have "cli_binders j = (cli_binders ins)(b \<mapsto> cb\<lparr>cb_memqueues := []\<rparr>)" using j(6) i(3) by (auto simp: fun_eq_iff)
  ultimately show ?case using j(4,5) i(6) by auto
qed

lemma cli_binder_free_ok:
  assumes ok: "server_ok d h ins" and b: "cli_binders ins b = Some cb" "cb_memqueues cb = []" "cb_pending_msgs cb = []"
  shows "\<exists>i. cli_binder_free (Some b) ins = Some i \<and> rewired ins i \<and> server_ok d h i \<and> queues i = queues ins \<and>
    cli_binders i = (cli_binders ins)(b := None)"
proof -
  define i where "i = ins\<lparr>cli_binders := (cli_binders ins)(b := None)\<rparr>"
  have r: "rewired ins i"
    using server_fresh [OF ok] b unfolding rewired_def
    by (auto simp: i_def pending_def fun_eq_iff exp_root_def split: obj_type.split if_splits)
  have "binds i = binds ins" "bound_to i = bound_to ins" "binders i = binders ins"
    using b by (auto simp: i_def binds_def bound_to_def fun_eq_iff)
  then have "bind_ok i" using ok bind_ok_cong [of ins i] by (simp add: server_ok_def)
  then show ?thesis
    using r rewired_server_ok [OF r ok] b(1) by (simp add: cli_binder_free_def i_def)
qed

end
