(* ===== verification/Memqueue_Release.thy ===== *)
theory Memqueue_Release
  imports Memqueue_Poll
begin

text \<open>
  The end of a poll: the pending messages are released one by one, which frees the messages that
  nothing else holds and keeps the invariant of the server.
\<close>

lemma pend_count_pos:
  assumes "fresh_ok ins" "m \<in> set (pending ins b)"
  shows "count_list (pending ins b) m \<le> pend_count ins m" "0 < pend_count ins m"
proof -
  have "pending ins b \<noteq> []" using assms(2) by auto
  then have b: "b \<in> {..<next_addr ins}" using pending_bound [OF assms(1)] by simp
  show "count_list (pending ins b) m \<le> pend_count ins m"
    unfolding pend_count_def by (rule member_le_sum [OF b]) simp_all
  moreover have "0 < count_list (pending ins b) m" using assms(2) count_list_0_iff by (metis gr0I)
  ultimately show "0 < pend_count ins m" by linarith
qed

text \<open>Only one poller has the message pending, and only once.\<close>

lemma pend_count_one:
  assumes f: "fresh_ok ins" and p: "pending ins b = m # ms"
  shows "pend_count ins m = 1 \<longleftrightarrow> m \<notin> set ms \<and> (\<forall>b'. b' \<noteq> b \<longrightarrow> m \<notin> set (pending ins b'))"
proof -
  have b: "b < next_addr ins" using pending_bound [OF f, of b] p by simp
  have bd: "b' < next_addr ins" if "m \<in> set (pending ins b')" for b'
    using that pending_bound [OF f, of b'] by (cases "pending ins b'") auto
  let ?rest = "\<Sum>b' \<in> {..<next_addr ins} - {b}. count_list (pending ins b') m"
  have "pend_count ins m = Suc (count_list ms m) + ?rest"
    unfolding pend_count_def using b p by (subst sum.remove [of _ b]) auto
  moreover have "?rest = 0 \<longleftrightarrow> (\<forall>b'. b' \<noteq> b \<longrightarrow> m \<notin> set (pending ins b'))"
  proof -
    have "?rest = 0 \<longleftrightarrow> (\<forall>b' \<in> {..<next_addr ins} - {b}. m \<notin> set (pending ins b'))" by (simp add: count_list_0_iff)
    then show ?thesis using bd by blast
  qed
  ultimately show ?thesis by (auto simp: count_list_0_iff)
qed

lemma ref_le_sum:
  assumes s: "mq_struct ins" and q: "queues ins q = Some mq" and m: "m \<in> set (q_msg_queue mq)"
  shows "ref_of ins m \<le> sum_list (map (ref_of ins) (q_msg_queue mq))"
proof -
  have nn: "0 \<le> ref_of ins k" if "k \<in> set (q_msg_queue mq)" for k
    using msg_in_own_queue [OF s q that] s by (auto simp: mq_struct_def owner_ok_def)
  have "0 \<le> sum_list (map (ref_of ins) (remove1 m (q_msg_queue mq)))"
    by (rule sum_list_nonneg) (use nn set_remove1_subset in fastforce)
  then show ?thesis using sum_list_map_remove1 [OF m, of "ref_of ins"] by simp
qed

text \<open>
  The release of a counted message: what the server keeps, whichever reference goes.
\<close>

lemma release_core:
  assumes s: "mq_struct ins" and r: "ref_ok d ins" and hd: "hold_ok d ins" and bk: "bind_ok ins" and ow: "own_ok d ins"
    and ck: "cons_known ins" and x: "msgs ins m = Some x" and pos: "0 < m_ref_count x"
  obtains mq i where "queues ins (m_memqueue x) = Some mq" "m \<in> set (q_msg_queue mq)" "q_ref_count mq \<noteq> 1"
    "i = ins\<lparr>msgs := (msgs ins)(m := msg_after x), queues := (queues ins)(m_memqueue x := queue_after m x mq)\<rparr>"
    "memqueue_msg_release m ins = Some i" "mq_struct i" "ref_ok d i" "hold_ok d i" "bind_ok i" "own_ok d i" "cons_known i"
    "consumers_of i = consumers_of ins"
    "(m_ref_count x = 1 \<longrightarrow> \<not> is_sched ins MSG_TYPE m) \<longrightarrow>
       (\<forall>ty obj a. get_expiry_next ty obj i = Some (Some a) \<longleftrightarrow> get_expiry_next ty obj ins = Some (Some a))"
proof -
  let ?q = "m_memqueue x"
  obtain mq where mq: "queues ins ?q = Some mq" "m \<in> set (q_msg_queue mq)" using counted_msg [OF s x pos] by blast
  have dq: "int (card (consumers_of ins ?q)) + 1 \<le> d ?q" using ow mq(1) unfolding own_ok_def by blast
  have cons: "finite (consumers_of ins ?q)" "int (card (consumers_of ins ?q)) \<le> d ?q" using hd dq unfolding hold_ok_def by auto
  have "m_ref_count x \<le> sum_list (map (ref_of ins) (q_msg_queue mq))"
    using ref_le_sum [OF s mq] x by simp
  moreover have "q_ref_count mq = d ?q + sum_list (map (ref_of ins) (q_msg_queue mq))" using r mq(1) by (simp add: ref_ok_def)
  ultimately have q1: "1 < q_ref_count mq" using dq pos by linarith
  obtain store i where i: "memqueue_msg_release m ins = Some i" "mq_struct i" "ref_ok d i"
      "i = ins\<lparr>msgs := (msgs ins)(m := msg_after x), queue_store := store,
               queues := (queues ins)(?q := queue_after m x mq)\<rparr>" "store = queue_store ins"
    using msg_release_inv [OF s r x pos mq(1) cons] q1 by auto
  have ii: "i = ins\<lparr>msgs := (msgs ins)(m := msg_after x), queues := (queues ins)(?q := queue_after m x mq)\<rparr>"
    using i(4,5) by simp
  have qa: "queue_after m x mq = Some ((if m_ref_count x = 1 then drop_msg m mq else mq)\<lparr>q_ref_count := q_ref_count mq - 1\<rparr>)"
    using q1 by (simp add: queue_after_def)
  have ci: "consumers_of i = consumers_of ins" by (simp add: consumers_of_def [abs_def] ii)
  have di: "dom (queues i) = dom (queues ins)" using mq(1) by (auto simp: ii qa)
  have h: "hold_ok d i" using hd unfolding hold_ok_def ci di .
  have o: "own_ok d i" using ow unfolding own_ok_def ci di .
  have bi: "bind_ok i"
  proof (rule bind_ok_cong [OF bk])
    show "bound_to i = bound_to ins" using mq(1) by (auto simp: bound_to_def ii qa drop_msg_def fun_eq_iff)
  qed (simp_all add: ii binds_def [abs_def])
  have ki: "cons_known i" by (rule cons_known_mono [OF ck ci]) (simp add: ii)
  have nx: "\<forall>ty obj a. get_expiry_next ty obj i = Some (Some a) \<longleftrightarrow> get_expiry_next ty obj ins = Some (Some a)"
    if "m_ref_count x = 1 \<longrightarrow> \<not> is_sched ins MSG_TYPE m"
  proof (intro allI)
    fix ty obj a
    show "get_expiry_next ty obj i = Some (Some a) \<longleftrightarrow> get_expiry_next ty obj ins = Some (Some a)"
      using that x mq(1) by (cases ty) (auto simp: get_expiry_next_def ii qa msg_after_def is_sched_def drop_msg_def)
  qed
  show thesis using that [OF mq _ ii i(1-3) h bi o ki ci] nx q1 by simp
qed

lemma release_step:
  assumes ok: "server_ok d h ins" and b: "cli_binders ins b = Some cb" and p: "cb_pending_msgs cb = m # ms"
  obtains x mq i where "msgs ins m = Some x" "queues ins (m_memqueue x) = Some mq"
    "memqueue_msg_release m ins = Some (ins\<lparr>msgs := (msgs ins)(m := msg_after x),
       queues := (queues ins)(m_memqueue x := queue_after m x mq)\<rparr>)"
    "i = ins\<lparr>msgs := (msgs ins)(m := msg_after x), queues := (queues ins)(m_memqueue x := queue_after m x mq),
       cli_binders := (cli_binders ins)(b \<mapsto> cb\<lparr>cb_pending_msgs := ms\<rparr>)\<rparr>"
    "server_ok d h i" "q_ref_count mq \<noteq> 1" "m_ref_count x = 1 \<longleftrightarrow> h m = 0 \<and> pend_count ins m = 1"
    "m_ref_count x = 1 \<Longrightarrow> \<not> is_sched ins MSG_TYPE m" "m \<in> set (q_msg_queue mq)"
proof -
  have s: "mq_struct ins" and r: "ref_ok d ins" and hd: "hold_ok d ins" and pk: "pend_ok h ins"
    and sc: "sched_inv ins" and hl: "held_ok d h ins" and bk: "bind_ok ins" and ow: "own_ok d ins" and ck: "cons_known ins"
    using ok by (auto simp: server_ok_def srv_inv_def mq_inv_def)
  have f: "fresh_ok ins" using s by (simp add: mq_struct_def)
  have pb: "pending ins b = m # ms" using b p by simp
  then have "m \<in> set (pending ins b)" by simp
  then obtain x where x: "msgs ins m = Some x" using pk unfolding pend_ok_def by blast
  have rc: "m_ref_count x = h m + int (pend_count ins m)" "0 \<le> h m" "0 < pend_count ins m"
    using pk x pend_count_pos(2) [OF f] \<open>m \<in> set (pending ins b)\<close> unfolding pend_ok_def by blast+
  then have pos: "0 < m_ref_count x" by simp
  have one: "m_ref_count x = 1 \<longleftrightarrow> h m = 0 \<and> pend_count ins m = 1" using rc by auto
  have ns: "\<not> is_sched ins MSG_TYPE m" if "m_ref_count x = 1"
    using that one hl unfolding held_ok_def by fastforce
  obtain mq i0 where i0: "queues ins (m_memqueue x) = Some mq" "m \<in> set (q_msg_queue mq)" "q_ref_count mq \<noteq> 1"
      "i0 = ins\<lparr>msgs := (msgs ins)(m := msg_after x), queues := (queues ins)(m_memqueue x := queue_after m x mq)\<rparr>"
      "memqueue_msg_release m ins = Some i0" "mq_struct i0" "ref_ok d i0" "hold_ok d i0" "bind_ok i0" "own_ok d i0" "cons_known i0"
      "consumers_of i0 = consumers_of ins"
    and nx0: "(m_ref_count x = 1 \<longrightarrow> \<not> is_sched ins MSG_TYPE m) \<longrightarrow>
       (\<forall>ty obj a. get_expiry_next ty obj i0 = Some (Some a) \<longleftrightarrow> get_expiry_next ty obj ins = Some (Some a))"
    by (rule release_core [OF s r hd bk ow ck x pos]) (rule that)
  define i where "i = i0\<lparr>cli_binders := (cli_binders ins)(b \<mapsto> cb\<lparr>cb_pending_msgs := ms\<rparr>)\<rparr>"
  have ii: "i = ins\<lparr>msgs := (msgs ins)(m := msg_after x), queues := (queues ins)(m_memqueue x := queue_after m x mq),
       cli_binders := (cli_binders ins)(b \<mapsto> cb\<lparr>cb_pending_msgs := ms\<rparr>)\<rparr>"
    by (simp add: i_def i0(4))
  have si: "mq_struct i" by (rule struct_same [OF i0(6)]) (use b in \<open>auto simp: i_def i0(4)\<close>)
  have ci: "consumers_of i = consumers_of ins" using i0(12) by (simp add: consumers_of_def [abs_def] i_def)
  have ri: "ref_ok d i" by (rule ref_ok_same [OF i0(7)]) (simp_all add: i_def)
  have hi: "hold_ok d i" "own_ok d i" using i0(8,10) by (simp_all add: hold_ok_def own_ok_def consumers_of_def i_def)
  have pi: "pending i = (pending ins)(b := ms)" using b by (auto simp: ii pending_def fun_eq_iff)
  have fi: "fresh_ok i" using si by (simp add: mq_struct_def)
  have pc: "pend_count i k + (if k = m then 1 else 0) = pend_count ins k" for k
    using pend_count_upd [OF f fi, of b ms k] pending_bound [OF f, of b] pb by (auto simp: pi) (auto simp: ii split: if_splits)
  have "pend_ok h i"
    unfolding pend_ok_def
  proof (intro conjI allI impI)
    fix k y assume k: "msgs i k = Some y"
    show "0 \<le> h k" "m_ref_count y = h k + int (pend_count i k)"
      using k pk x pc [of k] rc one unfolding pend_ok_def by (auto simp: ii msg_after_def split: if_splits)
  next
    fix b' k assume k: "k \<in> set (pending i b')"
    have "\<exists>b. k \<in> set (pending ins b)" using k pb unfolding pi by (metis fun_upd_apply list.set_intros(2))
    then have "k \<in> dom (msgs ins)" using pk unfolding pend_ok_def by blast
    moreover have "k \<noteq> m \<or> m_ref_count x \<noteq> 1"
      using k pend_count_pos(2) [OF fi k] pc [of m] one by auto
    ultimately show "k \<in> dom (msgs i)" by (auto simp: ii msg_after_def)
  qed
  then have mi: "mq_inv d h i" using si ri hi by (simp add: mq_inv_def)
  have nx: "get_expiry_next ty obj i = Some (Some a) \<longleftrightarrow> get_expiry_next ty obj ins = Some (Some a)" for ty obj a
  proof -
    have "get_expiry_next ty obj i = get_expiry_next ty obj i0" by (cases ty) (simp_all add: get_expiry_next_def i_def)
    then show ?thesis using nx0 ns by simp
  qed
  have "sched_inv i"
    by (rule sched_inv_links [OF sc _ _ _ _ nx]) (auto simp: ii exp_root_def split: obj_type.split)
  moreover have "is_sched i ty obj \<longleftrightarrow> is_sched ins ty obj" for ty obj using nx by (auto simp: is_sched_def)
  then have "held_ok d h i" using hl unfolding held_ok_def ci by blast
  moreover have "bind_ok i"
    by (rule bind_ok_cong [OF i0(9)]) (use b in \<open>auto simp: i_def i0(4) bound_to_def binds_def fun_eq_iff\<close>)
  moreover have "cons_known i" using i0(11) by (simp add: cons_known_def i_def)
  ultimately have "server_ok d h i" using mi hi by (simp add: server_ok_def srv_inv_def)
  then show thesis using that [OF x i0(1) _ ii] i0(2,3,4,5) one ns by auto
qed

text \<open>The messages that go with the last poller that has them pending.\<close>

definition last_held :: "(addr \<Rightarrow> int) \<Rightarrow> memqueue_ins \<Rightarrow> addr \<Rightarrow> addr set" where
  "last_held h ins b = {m \<in> set (pending ins b). h m = 0 \<and> (\<forall>b'. b' \<noteq> b \<longrightarrow> m \<notin> set (pending ins b'))}"

text \<open>A queue keeps its identity and loses the messages that are freed.\<close>

definition thinned :: "memqueue_ins \<Rightarrow> memqueue_ins \<Rightarrow> bool" where
  "thinned ins ins' \<longleftrightarrow> dom (queues ins') = dom (queues ins) \<and> (\<forall>q mq. queues ins q = Some mq \<longrightarrow> (\<exists>n.
     queues ins' q = Some (mq\<lparr>q_ref_count := n, q_msg_queue := filter (\<lambda>m. m \<in> dom (msgs ins')) (q_msg_queue mq),
       q_msgs_in_queue := int (length (filter (\<lambda>m. m \<in> dom (msgs ins')) (q_msg_queue mq)))\<rparr>)))"

lemma thinned_refl: "mq_struct ins \<Longrightarrow> thinned ins ins"
  unfolding thinned_def
proof (intro conjI allI impI exI)
  fix q mq assume s: "mq_struct ins" "queues ins q = Some mq"
  have "filter (\<lambda>m. m \<in> dom (msgs ins)) (q_msg_queue mq) = q_msg_queue mq"
    using msg_in_own_queue [OF s] by (intro filter_True) blast
  moreover have "q_msgs_in_queue mq = int (length (q_msg_queue mq))"
    using s by (auto simp: mq_struct_def msg_ok_def)
  ultimately show "queues ins q = Some (mq\<lparr>q_ref_count := q_ref_count mq,
      q_msg_queue := filter (\<lambda>m. m \<in> dom (msgs ins)) (q_msg_queue mq),
      q_msgs_in_queue := int (length (filter (\<lambda>m. m \<in> dom (msgs ins)) (q_msg_queue mq)))\<rparr>)"
    using s(2) by simp
qed simp

lemma thinned_trans:
  assumes "thinned a b" "thinned b c" "dom (msgs c) \<subseteq> dom (msgs b)"
  shows "thinned a c"
  unfolding thinned_def
proof (intro conjI allI impI)
  fix q mq assume q: "queues a q = Some mq"
  have f: "filter (\<lambda>m. m \<in> dom (msgs c)) (filter (\<lambda>m. m \<in> dom (msgs b)) l) = filter (\<lambda>m. m \<in> dom (msgs c)) l" for l
    unfolding filter_filter using assms(3) by (intro filter_cong) auto
  obtain n where "queues b q = Some (mq\<lparr>q_ref_count := n, q_msg_queue := filter (\<lambda>m. m \<in> dom (msgs b)) (q_msg_queue mq),
       q_msgs_in_queue := int (length (filter (\<lambda>m. m \<in> dom (msgs b)) (q_msg_queue mq)))\<rparr>)"
    using assms(1) q unfolding thinned_def by blast
  then show "\<exists>n. queues c q = Some (mq\<lparr>q_ref_count := n, q_msg_queue := filter (\<lambda>m. m \<in> dom (msgs c)) (q_msg_queue mq),
       q_msgs_in_queue := int (length (filter (\<lambda>m. m \<in> dom (msgs c)) (q_msg_queue mq)))\<rparr>)"
    using assms(2) unfolding thinned_def by (fastforce simp: f simp del: filter_filter)
qed (use assms in \<open>simp add: thinned_def\<close>)

lemma thinned_step:
  assumes s: "mq_struct ins" and x: "msgs ins m = Some x" and mq: "queues ins (m_memqueue x) = Some mq" "q_ref_count mq \<noteq> 1"
    and m: "m \<in> set (q_msg_queue mq)"
  defines "i \<equiv> ins\<lparr>msgs := (msgs ins)(m := msg_after x), queues := (queues ins)(m_memqueue x := queue_after m x mq)\<rparr>"
  shows "thinned ins i"
proof -
  have di: "dom (msgs i) = dom (msgs ins) - (if m_ref_count x = 1 then {m} else {})"
    using x unfolding i_def by (auto simp: msg_after_def)
  have "\<exists>n. queues i q = Some (mq0\<lparr>q_ref_count := n, q_msg_queue := filter (\<lambda>m. m \<in> dom (msgs i)) (q_msg_queue mq0),
       q_msgs_in_queue := int (length (filter (\<lambda>m. m \<in> dom (msgs i)) (q_msg_queue mq0)))\<rparr>)"
    if q: "queues ins q = Some mq0" for q mq0
  proof -
    have all: "set (q_msg_queue mq0) \<subseteq> dom (msgs ins)" using msg_in_own_queue [OF s q] by blast
    have cnt: "q_msgs_in_queue mq0 = int (length (q_msg_queue mq0))" "distinct (q_msg_queue mq0)"
      using s q by (auto simp: mq_struct_def msg_ok_def)
    have fl: "filter (\<lambda>k. k \<in> dom (msgs i)) (q_msg_queue mq0) =
        (if m_ref_count x = 1 then remove1 m (q_msg_queue mq0) else q_msg_queue mq0)"
      using all cnt(2) unfolding di
      by (auto simp: distinct_remove1_removeAll removeAll_filter_not_eq intro!: filter_cong filter_True)
    show ?thesis
    proof (cases "q = m_memqueue x")
      case True
      then have "mq0 = mq" using q mq by simp
      moreover have "int (length (q_msg_queue mq) - Suc 0) = int (length (q_msg_queue mq)) - 1"
        using length_pos_if_in_set [OF m] by linarith
      ultimately show ?thesis
        using True mq(2) m cnt(1) unfolding fl
        by (intro exI [of _ "q_ref_count mq - 1"]) (cases mq, simp add: i_def queue_after_def drop_msg_def Let_def length_remove1)
    next
      case False
      then have "m \<notin> set (q_msg_queue mq0)" using msg_in_own_queue [OF s q, of m] x by auto
      then show ?thesis
        using False q cnt(1) unfolding fl by (intro exI [of _ "q_ref_count mq0"]) (simp add: remove1_idem i_def)
    qed
  qed
  moreover have "dom (queues i) = dom (queues ins)" using mq by (auto simp: i_def queue_after_def Let_def)
  ultimately show ?thesis by (simp add: thinned_def)
qed

lemma release_loop_ok:
  assumes "server_ok d h ins" "cli_binders ins b = Some cb" "cb_pending_msgs cb = ms"
  shows "\<exists>i. release_loop b ms ins = Some i \<and> server_ok d h i \<and> thinned ins i \<and>
    cli_binders i = (cli_binders ins)(b \<mapsto> cb\<lparr>cb_pending_msgs := []\<rparr>) \<and>
    dom (msgs i) = dom (msgs ins) - last_held h ins b \<and> deadline i = deadline ins \<and>
    binders i = binders ins \<and> queue_store i = queue_store ins \<and> signals i = signals ins \<and> oom i = oom ins"
  using assms
proof (induction ms arbitrary: ins cb)
  case Nil
  then have "mq_struct ins" by (simp add: server_ok_def srv_inv_def mq_inv_def)
  with Nil show ?case using thinned_refl by (auto simp: last_held_def fun_eq_iff)
next
  case (Cons m ms)
  obtain x mq i where i: "msgs ins m = Some x" "queues ins (m_memqueue x) = Some mq"
    "memqueue_msg_release m ins = Some (ins\<lparr>msgs := (msgs ins)(m := msg_after x),
       queues := (queues ins)(m_memqueue x := queue_after m x mq)\<rparr>)"
    "i = ins\<lparr>msgs := (msgs ins)(m := msg_after x), queues := (queues ins)(m_memqueue x := queue_after m x mq),
       cli_binders := (cli_binders ins)(b \<mapsto> cb\<lparr>cb_pending_msgs := ms\<rparr>)\<rparr>"
    "server_ok d h i" "q_ref_count mq \<noteq> 1" "m_ref_count x = 1 \<longleftrightarrow> h m = 0 \<and> pend_count ins m = 1"
    "m_ref_count x = 1 \<Longrightarrow> \<not> is_sched ins MSG_TYPE m" "m \<in> set (q_msg_queue mq)"
    using release_step [OF Cons.prems] by metis
  let ?cb = "cb\<lparr>cb_pending_msgs := ms\<rparr>"
  have cb: "cli_binders i b = Some ?cb" "cb_pending_msgs ?cb = ms" using i(4) by simp_all
  obtain j where j: "release_loop b ms i = Some j" "server_ok d h j" "thinned i j"
      "cli_binders j = (cli_binders i)(b \<mapsto> ?cb\<lparr>cb_pending_msgs := []\<rparr>)"
      "dom (msgs j) = dom (msgs i) - last_held h i b" "deadline j = deadline i" "binders j = binders i"
      "queue_store j = queue_store i" "signals j = signals i" "oom j = oom i"
    using Cons.IH [OF i(5) cb] by blast
  have s: "mq_struct ins" "fresh_ok ins" using Cons.prems(1) by (auto simp: server_ok_def srv_inv_def mq_inv_def mq_struct_def)
  have pb: "pending ins b = m # ms" using Cons.prems(2,3) by simp
  have pi: "pending i = (pending ins)(b := ms)" using Cons.prems(2) i(4) by (auto simp: pending_def fun_eq_iff)
  have di: "dom (msgs i) = dom (msgs ins) - (if m_ref_count x = 1 then {m} else {})"
    using i(1) unfolding i(4) by (auto simp: msg_after_def)
  have "last_held h ins b = last_held h i b \<union> (if m_ref_count x = 1 then {m} else {})"
    unfolding i(7) pend_count_one [OF s(2) pb] last_held_def pi pb by auto
  then have "dom (msgs j) = dom (msgs ins) - last_held h ins b" using j(5) di by auto
  moreover have "thinned ins i"
    using thinned_step [OF s(1) i(1,2,6,9)] by (simp add: thinned_def i(4))
  then have "thinned ins j" using thinned_trans [OF _ j(3)] j(5) by blast
  moreover have "deadline i = deadline ins"
  proof (rule deadline_links)
    show "get_expiry_next ty obj i = Some (Some a) \<longleftrightarrow> get_expiry_next ty obj ins = Some (Some a)" for ty obj a
      using i(1,2,6,8) unfolding i(4)
      by (cases ty) (auto simp: get_expiry_next_def is_sched_def msg_after_def queue_after_def drop_msg_def Let_def)
  qed (simp add: i(4))
  moreover have "release_loop b (m # ms) ins = Some j"
    using i(3) j(1) Cons.prems(2) by (simp add: upd_cli_def i(4))
  moreover have "cli_binders j = (cli_binders ins)(b \<mapsto> cb\<lparr>cb_pending_msgs := []\<rparr>)"
    using j(4) unfolding i(4) by (auto simp: fun_eq_iff)
  ultimately show ?case using j(2,6-10) i(4) by (intro exI [of _ j]) simp
qed

end
