(* ===== verification/Memqueue_Expire.thy ===== *)
theory Memqueue_Expire
  imports Memqueue_Release
begin

text \<open>
  The expiry of messages by the cleaner: the walk of \<open>objs_expire\<close> over the tree of the messages
  returns, releases every message of the expired nodes it meets exactly once, frees these nodes and
  keeps the invariant of the server.
\<close>

text \<open>The invariant of the server without its scheduler.\<close>

definition core_ok :: "(addr \<Rightarrow> int) \<Rightarrow> (addr \<Rightarrow> int) \<Rightarrow> memqueue_ins \<Rightarrow> bool" where
  "core_ok d h ins \<longleftrightarrow> mq_inv d h ins \<and> held_ok d h ins \<and> bind_ok ins \<and> own_ok d ins \<and> cons_known ins"

lemma server_ok_core: "server_ok d h ins \<longleftrightarrow> core_ok d h ins \<and> sched_inv ins"
  by (auto simp: server_ok_def srv_inv_def core_ok_def)

lemma sched_frame_core:
  assumes f: "sched_frame ins ins'" and c: "core_ok d h ins"
    and s: "\<And>ty obj. is_sched ins' ty obj \<Longrightarrow> is_sched ins ty obj"
  shows "core_ok d h ins'"
proof -
  have sh: "same_shape ins ins'" by (rule sched_frame_shape [OF f])
  note R = sched_frame_refs [OF f]
  have n: "next_addr ins \<le> next_addr ins'" "binders ins' = binders ins" using f by (simp_all add: sched_frame_def)
  have "held_ok d h ins'" using c s unfolding core_ok_def held_ok_def R(4) by blast
  moreover have "bind_ok ins'" using c bind_ok_cong [OF _ n(2) shape_binds(1,2) [OF sh]] by (simp add: core_ok_def)
  moreover have "own_ok d ins'" using c unfolding core_ok_def own_ok_def R(4,5) by blast
  moreover have "cons_known ins'" using c cons_known_mono [OF _ R(4) n(1)] by (simp add: core_ok_def)
  ultimately show ?thesis using c sched_frame_mq_inv [OF f] by (simp add: core_ok_def)
qed

lemma core_ok_freed [simp]: "core_ok d h (ins\<lparr>freed_writes := w\<rparr>) = core_ok d h ins"
  by (simp add: core_ok_def mq_inv_def mq_struct_def msg_ok_def cons_ok_def store_ok_def fresh_ok_def owner_ok_def
      ref_ok_def ref_of_def [abs_def] rev_of_def [abs_def] hold_ok_def consumers_of_def pend_ok_def pend_count_def
      pending_def [abs_def] held_ok_def is_sched_def get_expiry_next_def bind_ok_def bound_to_def binds_def own_ok_def
      cons_known_def cong: obj_type.case_cong)

text \<open>A reference of its own goes: the one that a deadline has to its message.\<close>

lemma release_own:
  assumes c: "core_ok d h ins" and x: "msgs ins m = Some x" and h: "1 \<le> h m" and ns: "\<not> is_sched ins MSG_TYPE m"
  obtains mq i where "queues ins (m_memqueue x) = Some mq" "m \<in> set (q_msg_queue mq)" "q_ref_count mq \<noteq> 1"
    "i = ins\<lparr>msgs := (msgs ins)(m := msg_after x), queues := (queues ins)(m_memqueue x := queue_after m x mq)\<rparr>"
    "memqueue_msg_release m ins = Some i" "core_ok d (h(m := h m - 1)) i"
    "\<forall>ty obj a. get_expiry_next ty obj i = Some (Some a) \<longleftrightarrow> get_expiry_next ty obj ins = Some (Some a)"
    "m_ref_count x = 1 \<longleftrightarrow> h m = 1 \<and> (\<forall>b. m \<notin> set (pending ins b))"
proof -
  have s: "mq_struct ins" and r: "ref_ok d ins" and hd: "hold_ok d ins" and pk: "pend_ok h ins"
    and hl: "held_ok d h ins" and bk: "bind_ok ins" and ow: "own_ok d ins" and ck: "cons_known ins"
    using c by (auto simp: core_ok_def mq_inv_def)
  have f: "fresh_ok ins" using s by (simp add: mq_struct_def)
  have rc: "m_ref_count x = h m + int (pend_count ins m)" using pk x unfolding pend_ok_def by blast
  then have pos: "0 < m_ref_count x" using h by simp
  have "m_ref_count x = 1 \<longleftrightarrow> h m = 1 \<and> pend_count ins m = 0" using rc h by auto
  then have one: "m_ref_count x = 1 \<longleftrightarrow> h m = 1 \<and> (\<forall>b. m \<notin> set (pending ins b))" using pend_count_zero [OF f] by simp
  obtain mq i where i: "queues ins (m_memqueue x) = Some mq" "m \<in> set (q_msg_queue mq)" "q_ref_count mq \<noteq> 1"
      "i = ins\<lparr>msgs := (msgs ins)(m := msg_after x), queues := (queues ins)(m_memqueue x := queue_after m x mq)\<rparr>"
      "memqueue_msg_release m ins = Some i" "mq_struct i" "ref_ok d i" "hold_ok d i" "bind_ok i" "own_ok d i" "cons_known i"
      "consumers_of i = consumers_of ins"
    and nx: "(m_ref_count x = 1 \<longrightarrow> \<not> is_sched ins MSG_TYPE m) \<longrightarrow>
       (\<forall>ty obj a. get_expiry_next ty obj i = Some (Some a) \<longleftrightarrow> get_expiry_next ty obj ins = Some (Some a))"
    by (rule release_core [OF s r hd bk ow ck x pos]) (rule that)
  have pi: "pending i = pending ins" by (simp add: i(4) pending_def [abs_def])
  then have pc: "pend_count i = pend_count ins" by (simp add: pend_count_def [abs_def] i(4))
  let ?h = "h(m := h m - 1)"
  have "pend_ok ?h i"
    unfolding pend_ok_def pc pi
  proof (intro conjI allI impI)
    fix k y assume k: "msgs i k = Some y"
    show "0 \<le> ?h k" "m_ref_count y = ?h k + int (pend_count ins k)"
      using k pk x rc h unfolding pend_ok_def by (auto simp: i(4) msg_after_def split: if_splits)
  next
    fix b k assume k: "k \<in> set (pending ins b)"
    then have "k \<in> dom (msgs ins)" using pk unfolding pend_ok_def by blast
    then show "k \<in> dom (msgs i)" using k one by (auto simp: i(4) msg_after_def)
  qed
  moreover have "held_ok d ?h i"
    using hl nx ns unfolding held_ok_def i(12) is_sched_def by auto
  ultimately have "core_ok d ?h i" using i(6-11) by (simp add: core_ok_def mq_inv_def)
  then show thesis using that [OF i(1-5)] nx ns one by blast
qed

subsection \<open>The messages of a node\<close>

text \<open>
  While the messages of the node \<open>a\<close> expire: the node may be empty, all others are not.
\<close>

definition expiring :: "(obj_type \<Rightarrow> addr list) \<Rightarrow> addr \<Rightarrow> (addr \<Rightarrow> int) \<Rightarrow> (addr \<Rightarrow> int) \<Rightarrow> memqueue_ins \<Rightarrow> bool" where
  "expiring xs a d h ins \<longleftrightarrow> core_ok d h ins \<and> sched_pre xs ins \<and> a \<in> set (xs MSG_TYPE) \<and>
     (\<forall>t b e. b \<in> set (xs t) \<longrightarrow> b \<noteq> a \<longrightarrow> enodes ins b = Some e \<longrightarrow> en_objs t e \<noteq> [])"

lemma sched_pre_links:
  assumes "sched_pre xs ins" "rb ins' = rb ins" "enodes ins' = enodes ins"
    "\<And>ty. exp_root ty ins' = exp_root ty ins" "next_addr ins \<le> next_addr ins'"
    "\<And>ty obj a. get_expiry_next ty obj ins' = Some (Some a) \<longleftrightarrow> get_expiry_next ty obj ins = Some (Some a)"
  shows "sched_pre xs ins'"
  using assms(1,5) unfolding sched_pre_def
  by (simp only: assms(2-4,6)) (meson order_less_le_trans)

text \<open>
  What expiry leaves alone: bindings, pollers, consumers, the store, the clock and the other two trees;
  queues only lose the messages that are freed, and the others keep their texts.
\<close>

definition same_text :: "memqueue_ins \<Rightarrow> memqueue_ins \<Rightarrow> bool" where
  "same_text ins ins' \<longleftrightarrow> (\<forall>m y. msgs ins' m = Some y \<longrightarrow> (\<exists>x. msgs ins m = Some x \<and> m_data y = m_data x \<and>
     m_data_len y = m_data_len x \<and> m_rev y = m_rev x \<and> m_memqueue y = m_memqueue x))"

lemma same_text_trans: "same_text a b \<Longrightarrow> same_text b c \<Longrightarrow> same_text a c"
  unfolding same_text_def by metis

lemma same_text_dom: "same_text a b \<Longrightarrow> dom (msgs b) \<subseteq> dom (msgs a)"
  unfolding same_text_def by blast

definition exp_frame :: "memqueue_ins \<Rightarrow> memqueue_ins \<Rightarrow> bool" where
  "exp_frame ins ins' \<longleftrightarrow> thinned ins ins' \<and> same_text ins ins' \<and> binders ins' = binders ins \<and>
     cli_binders ins' = cli_binders ins \<and> consumers ins' = consumers ins \<and> queue_store ins' = queue_store ins \<and>
     birth ins' = birth ins \<and> now ins' = now ins \<and> oom ins' = oom ins \<and> signals ins' = signals ins \<and>
     memqueue_expiry ins' = memqueue_expiry ins \<and> consumer_expiry ins' = consumer_expiry ins"

lemma exp_frame_trans: "exp_frame a b \<Longrightarrow> exp_frame b c \<Longrightarrow> exp_frame a c"
  unfolding exp_frame_def using thinned_trans [of a b c] same_text_trans [of a b c] same_text_dom [of b c] by simp

text \<open>One message expires: \<open>h\<close> loses its reference, and it is freed when that was the last one.\<close>

lemma expire_msg:
  assumes e: "expiring xs a d h ins" and nx: "get_expiry_next MSG_TYPE m ins = Some (Some a)"
  obtains i1 i2 i3 where "expiry_unlink MSG_TYPE m ins = Some i1" "obj_expired MSG_TYPE m i1 = Some i2"
    "clear_expiry_node MSG_TYPE m i2 = i3" "expiring xs a d (h(m := h m - 1)) i3" "exp_frame ins i3"
    "\<forall>t b c. get_expiry_next t b i3 = Some (Some c) \<longleftrightarrow> (t, b) \<noteq> (MSG_TYPE, m) \<and> get_expiry_next t b ins = Some (Some c)"
    "deadline i3 = (deadline ins)(MSG_TYPE := (deadline ins MSG_TYPE)(m := None))"
    "rb i3 = rb ins" "exp_root MSG_TYPE i3 = exp_root MSG_TYPE ins"
    "\<forall>b. map_option en_msecs (enodes i3 b) = map_option en_msecs (enodes ins b)"
    "dom (msgs i3) = dom (msgs ins) - (if h m = 1 \<and> (\<forall>b. m \<notin> set (pending ins b)) then {m} else {})"
    "freed_writes i3 = freed_writes ins @ (if m \<in> dom (msgs i3) then [] else [m])"
proof -
  have c: "core_ok d h ins" and pre: "sched_pre xs ins"
    and full: "\<forall>t b e. b \<in> set (xs t) \<longrightarrow> b \<noteq> a \<longrightarrow> enodes ins b = Some e \<longrightarrow> en_objs t e \<noteq> []"
    and a: "a \<in> set (xs MSG_TYPE)" using e by (auto simp: expiring_def)
  have hm: "1 \<le> h m" using c nx by (auto simp: core_ok_def held_ok_def is_sched_def)
  obtain x where x: "msgs ins m = Some x" "m_expiry_next x = Some a" using nx by (auto simp: get_expiry_next_def)
  obtain e where en: "enodes ins a = Some e" using sched_pre_node [OF pre a] by blast
  let ?x = "x\<lparr>m_expiry_next := None\<rparr>"
  define i1 where "i1 = ins\<lparr>enodes := (enodes ins)(a \<mapsto> en_objs_update MSG_TYPE (remove1 m) e), msgs := (msgs ins)(m \<mapsto> ?x)\<rparr>"
  have u: "expiry_unlink MSG_TYPE m ins = Some i1"
    using nx en x by (simp add: expiry_unlink_def upd_enode_def set_expiry_next_def upd_msg_def i1_def)
  have p1: "sched_pre xs i1" using sched_pre_unlink [OF pre nx] u by auto
  have n1: "get_expiry_next t b i1 = (if t = MSG_TYPE \<and> b = m then Some None else get_expiry_next t b ins)" for t b
    by (cases t) (auto simp: get_expiry_next_def i1_def)
  have "is_sched ins t b" if "is_sched i1 t b" for t b using that by (auto simp: is_sched_def n1 split: if_splits)
  then have c1: "core_ok d h i1" by (rule sched_frame_core [OF sched_frame_link(2) [OF u] c])
  have x1: "msgs i1 m = Some ?x" and ns: "\<not> is_sched i1 MSG_TYPE m" by (auto simp: i1_def is_sched_def get_expiry_next_def)
  obtain mq i2 where i2: "queues i1 (m_memqueue ?x) = Some mq" "m \<in> set (q_msg_queue mq)" "q_ref_count mq \<noteq> 1"
      "i2 = i1\<lparr>msgs := (msgs i1)(m := msg_after ?x), queues := (queues i1)(m_memqueue ?x := queue_after m ?x mq)\<rparr>"
      "memqueue_msg_release m i1 = Some i2" "core_ok d (h(m := h m - 1)) i2"
      "\<forall>ty obj a. get_expiry_next ty obj i2 = Some (Some a) \<longleftrightarrow> get_expiry_next ty obj i1 = Some (Some a)"
      "m_ref_count ?x = 1 \<longleftrightarrow> h m = 1 \<and> (\<forall>b. m \<notin> set (pending i1 b))"
    by (rule release_own [OF c1 x1 hm ns]) (rule that)
  define i3 where "i3 = clear_expiry_node MSG_TYPE m i2"
  have m2: "msgs i2 m = msg_after ?x" by (simp add: i2(4))
  have i3: "i3 = (case msg_after ?x of None \<Rightarrow> i2\<lparr>freed_writes := freed_writes i2 @ [m]\<rparr>
      | Some y \<Rightarrow> i2\<lparr>msgs := (msgs i2)(m \<mapsto> y\<lparr>m_expiry_node := None\<rparr>)\<rparr>)"
    by (auto simp: i3_def clear_expiry_node_def set_expiry_node_def upd_msg_def m2 split: option.split)
  have n3: "get_expiry_next t b i3 = get_expiry_next t b i2" for t b
    using m2 by (cases t) (auto simp: i3 get_expiry_next_def split: option.splits)
  have fld: "queues i3 = queues i2" "rb i3 = rb ins" "enodes i3 = enodes i1" "binders i3 = binders ins" "cli_binders i3 = cli_binders ins"
      "consumers i3 = consumers ins" "queue_store i3 = queue_store ins" "birth i3 = birth ins" "now i3 = now ins" "oom i3 = oom ins"
      "signals i3 = signals ins" "next_addr i3 = next_addr ins" "memqueue_expiry i3 = memqueue_expiry ins"
      "consumer_expiry i3 = consumer_expiry ins" "msg_expiry i3 = msg_expiry ins"
    by (auto simp: i3 i2(4) i1_def split: option.split)
  have dm: "dom (msgs i3) = dom (msgs i2)" using m2 by (auto simp: i3 split: option.splits)
  have "sched_frame i2 i3" if "msg_after ?x \<noteq> None"
    using that m2 by (auto simp: i3 sched_frame_def m_core_def)
  moreover have "is_sched i2 t b" if "is_sched i3 t b" for t b using that by (simp add: is_sched_def n3)
  ultimately have c3: "core_ok d (h(m := h m - 1)) i3"
    using i2(6) sched_frame_core [of i2 i3] by (cases "msg_after ?x") (auto simp: i3)
  have nx3: "get_expiry_next t b i3 = Some (Some c) \<longleftrightarrow> (t, b) \<noteq> (MSG_TYPE, m) \<and> get_expiry_next t b ins = Some (Some c)" for t b c
    using i2(7) n1 n3 by auto
  have "sched_pre xs i3"
    by (rule sched_pre_links [OF p1]) (use i2(7) n3 fld in \<open>auto simp: i1_def exp_root_def split: obj_type.split\<close>)
  then have "expiring xs a d (h(m := h m - 1)) i3"
    using c3 a full fld(3) by (auto simp: expiring_def i1_def)
  moreover have "exp_frame ins i3"
  proof -
    have "mq_struct i1" using c1 by (simp add: core_ok_def mq_inv_def)
    from thinned_step [OF this x1 i2(1,3,2)] have "thinned i1 i2" by (simp only: i2(4))
    moreover have "queues i1 = queues ins" by (simp add: i1_def)
    ultimately have "thinned ins i2" unfolding thinned_def by metis
    then have "thinned ins i3" by (simp add: thinned_def fld(1) dm)
    moreover have "same_text ins i3"
      using x unfolding same_text_def by (auto simp: i3 i2(4) i1_def msg_after_def split: if_splits)
    ultimately show ?thesis using fld by (simp add: exp_frame_def)
  qed
  moreover have "deadline i3 = (deadline ins)(MSG_TYPE := (deadline ins MSG_TYPE)(m := None))"
  proof -
    have "deadline i3 = deadline i1" by (rule deadline_links) (use fld n3 i2(7) in auto)
    then show ?thesis using sched_pre_unlink [OF pre nx] u by auto
  qed
  moreover have "exp_root MSG_TYPE i3 = exp_root MSG_TYPE ins" by (simp add: exp_root_def fld)
  moreover have "\<forall>b. map_option en_msecs (enodes i3 b) = map_option en_msecs (enodes ins b)"
    using en by (simp add: fld i1_def en_objs_update_def)
  moreover have "pending i1 = pending ins" by (simp add: pending_def [abs_def] i1_def)
  then have "dom (msgs i3) = dom (msgs ins) - (if h m = 1 \<and> (\<forall>b. m \<notin> set (pending ins b)) then {m} else {})"
    using x i2(8) unfolding dm by (auto simp: i2(4) i1_def msg_after_def)
  moreover have "freed_writes i3 = freed_writes ins @ (if m \<in> dom (msgs i3) then [] else [m])"
    using m2 by (auto simp: dm i3 i2(4) i1_def split: option.splits)
  ultimately show thesis using that [OF u _ _ _ _ _ _ fld(2)] i2(5) nx3 by (simp add: obj_expired_def i3_def)
qed

text \<open>The messages of \<open>M\<close> of which the reference that expires is the last one.\<close>

definition dropped :: "(addr \<Rightarrow> int) \<Rightarrow> memqueue_ins \<Rightarrow> addr set \<Rightarrow> addr set" where
  "dropped h ins M = {m \<in> M. h m = 1 \<and> (\<forall>b. m \<notin> set (pending ins b))}"

definition lower :: "(addr \<Rightarrow> int) \<Rightarrow> addr set \<Rightarrow> addr \<Rightarrow> int" where
  "lower h M = (\<lambda>m. if m \<in> M then h m - 1 else h m)"

definition undue :: "addr set \<Rightarrow> (obj_type \<Rightarrow> addr \<Rightarrow> 32 word option) \<Rightarrow> obj_type \<Rightarrow> addr \<Rightarrow> 32 word option" where
  "undue M dl = (\<lambda>t m. if t = MSG_TYPE \<and> m \<in> M then None else dl t m)"

text \<open>The messages \<open>ms\<close> have expired between two states.\<close>

definition expired :: "addr list \<Rightarrow> (addr \<Rightarrow> int) \<Rightarrow> memqueue_ins \<Rightarrow> memqueue_ins \<Rightarrow> bool" where
  "expired ms h ins ins' \<longleftrightarrow> exp_frame ins ins' \<and> deadline ins' = undue (set ms) (deadline ins) \<and>
     dom (msgs ins') = dom (msgs ins) - dropped h ins (set ms) \<and>
     freed_writes ins' = freed_writes ins @ filter (\<lambda>m. m \<notin> dom (msgs ins')) ms"

lemma exp_frame_pending: "exp_frame ins ins' \<Longrightarrow> pending ins' = pending ins"
  by (simp add: exp_frame_def pending_def [abs_def])

lemma expired_append:
  assumes "expired ms h a b" "expired ns (lower h (set ms)) b c" "distinct (ms @ ns)" "set ms \<union> set ns \<subseteq> dom (msgs a)"
  shows "expired (ms @ ns) h a c"
proof -
  have ab: "exp_frame a b" "deadline b = undue (set ms) (deadline a)" "dom (msgs b) = dom (msgs a) - dropped h a (set ms)"
      "freed_writes b = freed_writes a @ filter (\<lambda>m. m \<notin> dom (msgs b)) ms"
    and bc: "exp_frame b c" "deadline c = undue (set ns) (deadline b)"
      "dom (msgs c) = dom (msgs b) - dropped (lower h (set ms)) b (set ns)"
      "freed_writes c = freed_writes b @ filter (\<lambda>m. m \<notin> dom (msgs c)) ns"
    using assms(1,2) by (simp_all add: expired_def)
  have pb: "pending b = pending a" by (rule exp_frame_pending [OF ab(1)])
  have d: "dropped (lower h (set ms)) b (set ns) = dropped h a (set ns)"
    using assms(3) by (auto simp: dropped_def lower_def pb)
  have "filter (\<lambda>m. m \<notin> dom (msgs b)) ms = filter (\<lambda>m. m \<notin> dom (msgs c)) ms"
    by (rule filter_cong) (use assms(3) bc(3) d in \<open>auto simp: dropped_def\<close>)
  moreover have "dom (msgs c) = dom (msgs a) - dropped h a (set (ms @ ns))"
    using ab(3) bc(3) d by (auto simp: dropped_def)
  moreover have "deadline c = undue (set (ms @ ns)) (deadline a)"
    unfolding bc(2) ab(2) by (auto simp: undue_def fun_eq_iff)
  ultimately show ?thesis
    using ab(4) bc(4) exp_frame_trans [OF ab(1) bc(1)] by (simp add: expired_def)
qed

lemma expire_list_ok:
  assumes "expiring xs a d h ins" "distinct ms" "\<forall>m \<in> set ms. get_expiry_next MSG_TYPE m ins = Some (Some a)"
  shows "\<exists>i. expire_list MSG_TYPE ms ins = Some i \<and> expiring xs a d (lower h (set ms)) i \<and> expired ms h ins i \<and>
    rb i = rb ins \<and> exp_root MSG_TYPE i = exp_root MSG_TYPE ins \<and>
    (\<forall>b. map_option en_msecs (enodes i b) = map_option en_msecs (enodes ins b)) \<and>
    (\<forall>t b c. get_expiry_next t b i = Some (Some c) \<longleftrightarrow> \<not> (t = MSG_TYPE \<and> b \<in> set ms) \<and> get_expiry_next t b ins = Some (Some c))"
  using assms
proof (induction ms arbitrary: ins h)
  case Nil
  then have "mq_struct ins" by (simp add: expiring_def core_ok_def mq_inv_def)
  then have "expired [] h ins ins" using thinned_refl by (auto simp: expired_def exp_frame_def same_text_def undue_def dropped_def)
  then show ?case using Nil.prems(1) by (simp add: lower_def)
next
  case (Cons m ms)
  have nx: "get_expiry_next MSG_TYPE m ins = Some (Some a)" using Cons.prems(3) by simp
  obtain i1 i2 i3 where i: "expiry_unlink MSG_TYPE m ins = Some i1" "obj_expired MSG_TYPE m i1 = Some i2"
    "clear_expiry_node MSG_TYPE m i2 = i3" "expiring xs a d (h(m := h m - 1)) i3" "exp_frame ins i3"
    "\<forall>t b c. get_expiry_next t b i3 = Some (Some c) \<longleftrightarrow> (t, b) \<noteq> (MSG_TYPE, m) \<and> get_expiry_next t b ins = Some (Some c)"
    "deadline i3 = (deadline ins)(MSG_TYPE := (deadline ins MSG_TYPE)(m := None))"
    "rb i3 = rb ins" "exp_root MSG_TYPE i3 = exp_root MSG_TYPE ins"
    "\<forall>b. map_option en_msecs (enodes i3 b) = map_option en_msecs (enodes ins b)"
    "dom (msgs i3) = dom (msgs ins) - (if h m = 1 \<and> (\<forall>b. m \<notin> set (pending ins b)) then {m} else {})"
    "freed_writes i3 = freed_writes ins @ (if m \<in> dom (msgs i3) then [] else [m])"
    by (rule expire_msg [OF Cons.prems(1) nx]) (rule that)
  have h1: "h(m := h m - 1) = lower h {m}" by (auto simp: lower_def fun_eq_iff)
  have "expired [m] h ins i3"
    unfolding expired_def using i(5,7,11,12) by (auto simp: undue_def dropped_def fun_eq_iff)
  moreover have "distinct ms" "\<forall>k \<in> set ms. get_expiry_next MSG_TYPE k i3 = Some (Some a)"
    using Cons.prems(2,3) i(6) by auto
  from Cons.IH [OF i(4) this] obtain j where j: "expire_list MSG_TYPE ms i3 = Some j"
      "expiring xs a d (lower (lower h {m}) (set ms)) j" "expired ms (lower h {m}) i3 j" "rb j = rb i3"
      "exp_root MSG_TYPE j = exp_root MSG_TYPE i3" "\<forall>b. map_option en_msecs (enodes j b) = map_option en_msecs (enodes i3 b)"
      "\<forall>t b c. get_expiry_next t b j = Some (Some c) \<longleftrightarrow> \<not> (t = MSG_TYPE \<and> b \<in> set ms) \<and> get_expiry_next t b i3 = Some (Some c)"
    unfolding h1 by blast
  moreover have "set [m] \<union> set ms \<subseteq> dom (msgs ins)"
    using Cons.prems(3) by (auto simp: get_expiry_next_def)
  ultimately have "expired ([m] @ ms) h ins j"
    using expired_append [of "[m]" h ins i3 ms j] Cons.prems(2) by simp
  moreover have "lower (lower h {m}) (set ms) = lower h (set (m # ms))"
    using Cons.prems(2) by (auto simp: lower_def fun_eq_iff)
  ultimately show ?case
    using i j by (intro exI [of _ j]) auto
qed

subsection \<open>The walk over the tree\<close>

text \<open>The left child of a node comes before it in the order of the tree.\<close>

lemma left_before:
  assumes "rb_holds m rt (ys @ a # zs)" "m a = Some n" "rb_left n = Some l"
  shows "l \<in> set ys"
proof -
  obtain t1 c t2 fs where z: "zip_at m rt (Nd t1 a c t2) fs"
      "ys @ a # zs = (fst (finorder fs) @ inorder t1) @ a # (inorder t2 @ snd (finorder fs))"
    by (rule rb_holds_zip [OF assms(1), of a]) auto
  from distinct_split_unique [OF rbs.holds_distinct [OF assms(1)] z(2)]
  have "ys = fst (finorder fs) @ inorder t1" by auto
  moreover have "rb_left n = root_of t1" using z(1) assms(2) by (auto simp: zip_at_def)
  then have "l \<in> addrs t1" using assms(3) root_of_addrs by metis
  ultimately show ?thesis by (simp add: addrs_inorder)
qed

lemma holds_node: "rb_holds m rt xs \<Longrightarrow> a \<in> set xs \<Longrightarrow> \<exists>n. m a = Some n"
  by (erule (1) rb_holds_zip) (auto simp: zip_at_def)

lemma expire_node:
  assumes ok: "server_ok d h ins" and w: "sched_with xs ins" and a: "a \<in> set (xs MSG_TYPE)" and en: "enodes ins a = Some e"
  obtains i1 r i2 where "expire_list MSG_TYPE (en_objs MSG_TYPE e) ins = Some i1" "possibly_node_free a MSG_TYPE i1 = Some (r, i2)"
    "server_ok d (lower h (set (en_objs MSG_TYPE e))) i2" "sched_with (xs(MSG_TYPE := remove1 a (xs MSG_TYPE))) i2"
    "expired (en_objs MSG_TYPE e) h ins i2"
proof -
  let ?ms = "en_objs MSG_TYPE e"
  have pre: "sched_pre xs ins" using w by (simp add: sched_with_def)
  have D: "distinct ?ms" "\<forall>m. m \<in> set ?ms \<longleftrightarrow> get_expiry_next MSG_TYPE m ins = Some (Some a)"
    using pre a en unfolding sched_pre_def by blast+
  have "expiring xs a d h ins" using ok w a by (auto simp: server_ok_core expiring_def sched_with_def)
  from expire_list_ok [OF this D(1)] D(2)
  obtain i1 where i1: "expire_list MSG_TYPE ?ms ins = Some i1" "expiring xs a d (lower h (set ?ms)) i1" "expired ?ms h ins i1"
      "\<forall>t b c. get_expiry_next t b i1 = Some (Some c) \<longleftrightarrow> \<not> (t = MSG_TYPE \<and> b \<in> set ?ms) \<and> get_expiry_next t b ins = Some (Some c)"
    by blast
  have c1: "core_ok d (lower h (set ?ms)) i1" "sched_pre xs i1"
    and full: "\<And>t b e. b \<in> set (xs t) \<Longrightarrow> b \<noteq> a \<Longrightarrow> enodes i1 b = Some e \<Longrightarrow> en_objs t e \<noteq> []"
    using i1(2) unfolding expiring_def by blast+
  obtain e1 where e1: "enodes i1 a = Some e1" using sched_pre_node [OF c1(2) a] by blast
  have "m \<in> set (en_objs MSG_TYPE e1) \<longleftrightarrow> get_expiry_next MSG_TYPE m i1 = Some (Some a)" for m
    using c1(2) a e1 unfolding sched_pre_def by blast
  then have "en_objs MSG_TYPE e1 = []" using i1(4) D(2) by (metis list.set_intros(1) neq_Nil_conv)
  moreover have "\<exists>r i2 xs'. possibly_node_free a MSG_TYPE i1 = Some (r, i2) \<and> sched_with xs' i2 \<and> deadline i2 = deadline i1 \<and>
      now_ms i2 = now_ms i1 \<and> (\<forall>t b. get_expiry_next t b i2 = get_expiry_next t b i1) \<and>
      (\<forall>e. enodes i1 a = Some e \<and> en_objs MSG_TYPE e = [] \<longrightarrow> xs' = xs(MSG_TYPE := remove1 a (xs MSG_TYPE)))"
    by (rule sched_free_node [OF c1(2) a]) (rule full)
  ultimately obtain r i2 where i2: "possibly_node_free a MSG_TYPE i1 = Some (r, i2)"
      "sched_with (xs(MSG_TYPE := remove1 a (xs MSG_TYPE))) i2" "deadline i2 = deadline i1"
      "\<forall>t b. get_expiry_next t b i2 = get_expiry_next t b i1"
    using e1 by blast
  have "is_sched i1 t b" if "is_sched i2 t b" for t b using that i2(4) by (simp add: is_sched_def)
  then have "core_ok d (lower h (set ?ms)) i2" by (rule sched_frame_core [OF sched_frame_free [OF i2(1)] c1(1)])
  then have s2: "server_ok d (lower h (set ?ms)) i2" using i2(2) by (auto simp: server_ok_core sched_inv_def)
  have f: "msgs i2 = msgs i1" "queues i2 = queues i1" "binders i2 = binders i1" "cli_binders i2 = cli_binders i1"
      "consumers i2 = consumers i1" "queue_store i2 = queue_store i1" "birth i2 = birth i1" "now i2 = now i1" "oom i2 = oom i1"
      "signals i2 = signals i1" "memqueue_expiry i2 = memqueue_expiry i1" "consumer_expiry i2 = consumer_expiry i1"
      "freed_writes i2 = freed_writes i1"
    using i2(1) by (auto simp: possibly_node_free_def set_exp_root_def bind_eq_Some_conv split: if_splits)
  have "expired ?ms h ins i2" using i1(3) unfolding expired_def exp_frame_def thinned_def same_text_def f i2(3) .
  then show thesis using that [OF i1(1) i2(1) s2 i2(2)] by blast
qed

lemma deadline_live:
  assumes "deadline ins MSG_TYPE m = Some t"
  shows "m \<in> dom (msgs ins)"
  using assms by (auto simp: deadline_def get_expiry_next_def split: option.splits)

lemma expire_loop_ok:
  assumes "server_ok d h ins" "sched_with xs ins" "xs MSG_TYPE = ys @ a # zs"
  shows "\<exists>i ms. objs_expire_loop MSG_TYPE t (Some a) ins = Some i \<and> distinct ms \<and> expired ms h ins i \<and>
    server_ok d (lower h (set ms)) i \<and> (\<forall>m \<in> set ms. \<exists>k. deadline ins MSG_TYPE m = Some k \<and> k \<le> t) \<and>
    (\<forall>e. enodes ins a = Some e \<and> en_msecs e \<le> t \<longrightarrow> set (en_objs MSG_TYPE e) \<subseteq> set ms)"
  using assms
proof (induction ys arbitrary: a zs ins h xs rule: measure_induct_rule [where f = length])
  case (less ys)
  have pre: "sched_pre xs ins" using less.prems(2) by (simp add: sched_with_def)
  have a: "a \<in> set (xs MSG_TYPE)" using less.prems(3) by simp
  have el: "exp_list (rb ins) (enodes ins) (exp_root MSG_TYPE ins) (ys @ a # zs)"
    using pre less.prems(3) unfolding sched_pre_def by metis
  then have rbh: "rb_holds (rb ins) (exp_root MSG_TYPE ins) (ys @ a # zs)" by (simp add: exp_list_def)
  obtain e where e: "enodes ins a = Some e" using sched_pre_node [OF pre a] by blast
  obtain n where n: "rb ins a = Some n" using holds_node [OF rbh, of a] by auto
  have rest: "\<exists>i ms. objs_expire_loop MSG_TYPE t (rb_left n) ins' = Some i \<and> distinct ms \<and> expired ms h' ins' i \<and>
      server_ok d (lower h' (set ms)) i \<and> (\<forall>m \<in> set ms. \<exists>k. deadline ins' MSG_TYPE m = Some k \<and> k \<le> t)"
    if ok: "server_ok d h' ins'" and w: "sched_with xs' ins'" and p: "\<exists>us. xs' MSG_TYPE = ys @ us" for h' ins' xs'
  proof (cases "rb_left n")
    case None
    have "mq_struct ins'" using ok by (simp add: server_ok_def srv_inv_def mq_inv_def)
    then have "expired [] h' ins' ins'" using thinned_refl by (auto simp: expired_def exp_frame_def same_text_def undue_def dropped_def)
    then show ?thesis using None ok by (intro exI [of _ ins'] exI [of _ "[]"]) (simp add: objs_expire_loop.simps lower_def)
  next
    case (Some l)
    have "l \<in> set ys" by (rule left_before [OF rbh n Some])
    then obtain y1 y2 where y: "ys = y1 @ l # y2" by (meson split_list)
    obtain us where "xs' MSG_TYPE = ys @ us" using p by blast
    then have "xs' MSG_TYPE = y1 @ l # (y2 @ us)" using y by simp
    from less.IH [OF _ ok w this] y Some show ?thesis by (simp; blast)
  qed
  show ?case
  proof (cases "en_msecs e \<le> t")
    case False
    then have "objs_expire_loop MSG_TYPE t (Some a) ins = objs_expire_loop MSG_TYPE t (rb_left n) ins"
      using n e by (simp add: objs_expire_loop.simps [of _ _ "Some a"])
    then show ?thesis using rest [OF less.prems(1,2)] less.prems(3) e False by simp
  next
    case True
    let ?ms = "en_objs MSG_TYPE e"
    obtain i1 r i2 where i: "expire_list MSG_TYPE ?ms ins = Some i1" "possibly_node_free a MSG_TYPE i1 = Some (r, i2)"
      "server_ok d (lower h (set ?ms)) i2" "sched_with (xs(MSG_TYPE := remove1 a (xs MSG_TYPE))) i2" "expired ?ms h ins i2"
      by (rule expire_node [OF less.prems(1,2) a e]) (rule that)
    have "distinct (ys @ a # zs)" by (rule rbs.holds_distinct [OF rbh])
    then have "\<exists>us. (xs(MSG_TYPE := remove1 a (xs MSG_TYPE))) MSG_TYPE = ys @ us"
      using less.prems(3) by (simp add: remove1_append)
    from rest [OF i(3,4) this] obtain i ms where r: "objs_expire_loop MSG_TYPE t (rb_left n) i2 = Some i" "distinct ms"
        "expired ms (lower h (set ?ms)) i2 i" "server_ok d (lower (lower h (set ?ms)) (set ms)) i"
        "\<forall>m \<in> set ms. \<exists>k. deadline i2 MSG_TYPE m = Some k \<and> k \<le> t" by blast
    have "objs_expire_loop MSG_TYPE t (Some a) ins = Some i"
      using n e True i(1,2) r(1) by (simp add: objs_expire_loop.simps [of _ _ "Some a"])
    moreover have D: "distinct ?ms" "\<forall>m \<in> set ?ms. deadline ins MSG_TYPE m = Some (en_msecs e)"
      using pre a e unfolding sched_pre_def deadline_def by auto
    have dl: "\<forall>m \<in> set ms. m \<notin> set ?ms \<and> (\<exists>k. deadline ins MSG_TYPE m = Some k \<and> k \<le> t)"
      using r(5) i(5) by (auto simp: expired_def undue_def split: if_splits)
    have "set ?ms \<union> set ms \<subseteq> dom (msgs ins)" using D(2) dl deadline_live by blast
    then have "expired (?ms @ ms) h ins i" using expired_append [OF i(5) r(3)] D(1) r(2) dl by auto
    moreover have "lower (lower h (set ?ms)) (set ms) = lower h (set (?ms @ ms))" using dl by (auto simp: lower_def fun_eq_iff)
    ultimately show ?thesis
      using r(2,4) D dl True e by (intro exI [of _ i] exI [of _ "?ms @ ms"]) auto
  qed
qed

lemma root_in_list: "rb_holds m (Some r) xs \<Longrightarrow> r \<in> set xs"
  by (metis addrs_inorder rb_holds_def root_of_addrs tree_at_def)

lemma objs_expire_ok:
  assumes ok: "server_ok d h ins"
  shows "\<exists>i ms. objs_expire MSG_TYPE ins = Some i \<and> distinct ms \<and> expired ms h ins i \<and> server_ok d (lower h (set ms)) i \<and>
    (\<forall>m \<in> set ms. \<exists>k. deadline ins MSG_TYPE m = Some k \<and> k \<le> now_ms ins) \<and>
    (\<forall>m k. get_expiry_next MSG_TYPE m ins = Some (exp_root MSG_TYPE ins) \<and> deadline ins MSG_TYPE m = Some k \<and> k \<le> now_ms ins \<longrightarrow> m \<in> set ms)"
proof -
  obtain t where t: "tick_diff_msecs (birth ins) (now ins) = Some t" using tick_diff_msecs_total by blast
  then have oe: "objs_expire MSG_TYPE ins = objs_expire_loop MSG_TYPE (now_ms ins) (exp_root MSG_TYPE ins) ins"
    by (simp add: objs_expire_def now_ms_def)
  obtain xs where w: "sched_with xs ins" using ok by (auto simp: server_ok_core sched_inv_def)
  then have rbh: "rb_holds (rb ins) (exp_root MSG_TYPE ins) (xs MSG_TYPE)" by (simp add: sched_with_def sched_pre_def exp_list_def)
  show ?thesis
  proof (cases "exp_root MSG_TYPE ins")
    case None
    have "mq_struct ins" using ok by (simp add: server_ok_def srv_inv_def mq_inv_def)
    then have "expired [] h ins ins" using thinned_refl by (auto simp: expired_def exp_frame_def same_text_def undue_def dropped_def)
    then show ?thesis
      using None ok by (intro exI [of _ ins] exI [of _ "[]"]) (auto simp: oe objs_expire_loop.simps lower_def deadline_def)
  next
    case (Some r)
    then have r: "r \<in> set (xs MSG_TYPE)" using rbh root_in_list by metis
    then obtain ys zs where y: "xs MSG_TYPE = ys @ r # zs" by (meson split_list)
    have en: "m \<in> set (en_objs MSG_TYPE e)" if "get_expiry_next MSG_TYPE m ins = Some (Some r)" "enodes ins r = Some e" for m e
      using w that r unfolding sched_with_def sched_pre_def by blast
    obtain i ms where i: "objs_expire_loop MSG_TYPE (now_ms ins) (Some r) ins = Some i" "distinct ms" "expired ms h ins i"
        "server_ok d (lower h (set ms)) i" "\<forall>m \<in> set ms. \<exists>k. deadline ins MSG_TYPE m = Some k \<and> k \<le> now_ms ins"
        "\<forall>e. enodes ins r = Some e \<and> en_msecs e \<le> now_ms ins \<longrightarrow> set (en_objs MSG_TYPE e) \<subseteq> set ms"
      using expire_loop_ok [OF ok w y, of "now_ms ins"] by blast
    have "m \<in> set ms" if dl: "get_expiry_next MSG_TYPE m ins = Some (Some r)" "deadline ins MSG_TYPE m = Some k" "k \<le> now_ms ins" for m k
    proof -
      obtain e where "enodes ins r = Some e" "k = en_msecs e" using dl(1,2) by (auto simp: deadline_Some)
      then show ?thesis using en [OF dl(1)] i(6) dl(3) by blast
    qed
    then show ?thesis unfolding oe Some using i(1-5) by blast
  qed
qed

end
