(* ===== verification/Memqueue_Results.thy ===== *)
theory Memqueue_Results
  imports Memqueue_Release
begin

text \<open>
  The answer of a poll. Its messages are grouped by queue: the queues in the order of their first
  message, the messages of a queue in the order of delivery. Building the answer changes nothing.
\<close>

subsection \<open>Groups\<close>

text \<open>The first element of each group of elements with the same key.\<close>

fun leaders :: "('a \<Rightarrow> 'k) \<Rightarrow> 'a list \<Rightarrow> 'a list" where
  "leaders f [] = []"
| "leaders f (x # xs) = x # filter (\<lambda>y. f y \<noteq> f x) (leaders f xs)"

lemma leaders_keys [simp]: "f ` set (leaders f xs) = f ` set xs"
proof (induction xs)
  case (Cons x xs)
  have "f ` {y \<in> A. f y \<noteq> f x} = f ` A - {f x}" for A by auto
  then show ?case using Cons by auto
qed simp

lemma leaders_in: "x \<in> set (leaders f xs) \<Longrightarrow> x \<in> set xs"
  by (induction xs) auto

lemma leaders_distinct: "distinct (map f (leaders f xs))"
  by (induction xs) (auto simp: distinct_map intro: inj_on_subset)

lemma leaders_snoc: "leaders f (xs @ [y]) = (if f y \<in> f ` set xs then leaders f xs else leaders f xs @ [y])"
  by (induction xs) auto

definition msg_queue :: "memqueue_ins \<Rightarrow> addr \<Rightarrow> addr" where
  "msg_queue ins m = m_memqueue (the (msgs ins m))"

definition msg_key :: "memqueue_ins \<Rightarrow> addr \<Rightarrow> cstring" where
  "msg_key ins m = q_q_id (the (queues ins (msg_queue ins m)))"

definition msg_text :: "memqueue_ins \<Rightarrow> addr \<Rightarrow> json" where
  "msg_text ins m = (let x = the (msgs ins m) in json_object_new_string_len (m_data x) (unat (m_data_len x)))"

definition wants :: "memqueue_ins \<Rightarrow> addr list \<Rightarrow> addr \<Rightarrow> bool" where
  "wants ins bs q \<longleftrightarrow> list_ex (\<lambda>t. b_memqueue (the (binders ins t)) = q \<and> b_include_consumers (the (binders ins t)) \<noteq> 0) bs"

text \<open>The object of a queue with the messages \<open>ms\<close>.\<close>

definition queue_obj :: "memqueue_ins \<Rightarrow> addr list \<Rightarrow> addr \<Rightarrow> addr list \<Rightarrow> json" where
  "queue_obj ins bs q ms =
     (let mq = the (queues ins q) in
      JObject ([(''messages'', JArray (map (msg_text ins) ms)), (''rev'', JInt (q_rev mq))] @
        (if wants ins bs q
         then [(''consumers'', JArray (map (\<lambda>(k, _). json_object_new_string k) (h_entries (q_consumers mq))))] else [])))"

definition results_of :: "memqueue_ins \<Rightarrow> addr list \<Rightarrow> addr list \<Rightarrow> (cstring \<times> json) list" where
  "results_of ins bs ms =
     map (\<lambda>m. (msg_key ins m, queue_obj ins bs (msg_queue ins m) (filter (\<lambda>k. msg_key ins k = msg_key ins m) ms)))
       (leaders (msg_key ins) ms)"

lemma results_of_Nil [simp]: "results_of ins bs [] = []"
  by (simp add: results_of_def)

lemma results_of_keys: "map fst (results_of ins bs ms) = map (msg_key ins) (leaders (msg_key ins) ms)"
  by (simp add: results_of_def)

subsection \<open>The loop over the pending messages\<close>

lemma wants_consumers_ok: "set bs \<subseteq> dom (binders ins) \<Longrightarrow> wants_consumers q bs ins = Some (wants ins bs q)"
  by (induction bs) (auto simp: wants_def)

lemma consumers_json_ok:
  assumes "mq_struct ins" "queues ins q = Some mq"
  shows "consumers_json (q_consumers mq) =
    Some (JArray (map (\<lambda>(k, _). json_object_new_string k) (h_entries (q_consumers mq))), q_consumers mq)"
proof -
  have "h_wf (q_consumers mq)" "order_next (q_consumers mq) = None"
    using assms by (auto simp: mq_struct_def cons_ok_def)
  then have "h_traverse (Suc (length (order_head (q_consumers mq)))) (q_consumers mq) =
      Some (h_entries (q_consumers mq), q_consumers mq)"
    by (rule h_traverse_entries) (simp add: h_entries_def)
  then show ?thesis by (simp add: consumers_json_def del: h_traverse.simps)
qed

lemma queue_json_ok:
  assumes s: "mq_struct ins" and q: "queues ins q = Some mq" and b: "set bs \<subseteq> dom (binders ins)"
  shows "queue_json bs q ins = Some (queue_obj ins bs q [], ins)"
proof -
  have same: "upd_queue q (q_consumers_update (\<lambda>_. q_consumers mq)) ins = Some ins"
    using q by (simp add: upd_queue_def fun_upd_idem)
  show ?thesis
    using q wants_consumers_ok [OF b, of q] consumers_json_ok [OF s q] same
    by (simp add: queue_json_def queue_obj_def json_object_new_object_def json_object_new_array_def
        json_object_new_int_def Let_def)
qed

lemma queue_obj_add:
  "object_modify (queue_obj ins bs q ms) ''messages'' (\<lambda>arr. json_object_array_add arr (msg_text ins m)) =
   Some (queue_obj ins bs q (ms @ [m]))"
  by (simp add: queue_obj_def Let_def)

lemma map_of_results:
  assumes "k \<in> msg_key ins ` set ms"
  obtains l where "l \<in> set (leaders (msg_key ins) ms)" "msg_key ins l = k"
    "map_of (results_of ins bs ms) k = Some (queue_obj ins bs (msg_queue ins l) (filter (\<lambda>j. msg_key ins j = k) ms))"
proof -
  obtain l where l: "l \<in> set (leaders (msg_key ins) ms)" "msg_key ins l = k"
    using assms leaders_keys [of "msg_key ins" ms] by (metis imageE)
  have "distinct (map fst (results_of ins bs ms))" unfolding results_of_keys by (rule leaders_distinct)
  moreover have "(k, queue_obj ins bs (msg_queue ins l) (filter (\<lambda>j. msg_key ins j = k) ms)) \<in> set (results_of ins bs ms)"
    using l by (auto simp: results_of_def)
  ultimately show thesis using that [OF l] by simp
qed

lemma results_modify:
  assumes "msg_key ins m \<in> msg_key ins ` set ms"
  shows "object_modify (JObject (results_of ins bs ms)) (msg_key ins m)
      (\<lambda>obj. object_modify obj ''messages'' (\<lambda>arr. json_object_array_add arr (msg_text ins m))) =
    Some (JObject (results_of ins bs (ms @ [m])))"
proof -
  let ?f = "msg_key ins"
  obtain l where l: "l \<in> set (leaders ?f ms)" "?f l = ?f m"
    "map_of (results_of ins bs ms) (?f m) = Some (queue_obj ins bs (msg_queue ins l) (filter (\<lambda>j. ?f j = ?f m) ms))"
    using map_of_results [OF assms] by metis
  have uniq: "k = l" if "k \<in> set (leaders ?f ms)" "?f k = ?f m" for k
    using that l(1,2) leaders_distinct [of ?f ms] by (metis distinct_map inj_onD)
  show ?thesis
    using l(2,3) assms uniq
    by (auto simp: queue_obj_add results_of_def leaders_snoc)
qed

lemma add_pending_ok:
  assumes s: "mq_struct ins" and x: "msgs ins m = Some x" and q: "queues ins (m_memqueue x) = Some mq"
    and len: "m_data_len x < 2 ^ 31" and b: "set bs \<subseteq> dom (binders ins)"
  shows "add_pending bs m (JObject (results_of ins bs ms)) ins = Some (JObject (results_of ins bs (ms @ [m])), ins)"
proof -
  have k: "msg_key ins m = q_q_id mq" "msg_queue ins m = m_memqueue x"
    using x q by (simp_all add: msg_key_def msg_queue_def)
  have t: "msg_text ins m = json_object_new_string_len (m_data x) (unat (m_data_len x))"
    using x by (simp add: msg_text_def)
  show ?thesis
  proof (cases "msg_key ins m \<in> msg_key ins ` set ms")
    case True
    then obtain v where "map_of (results_of ins bs ms) (msg_key ins m) = Some v"
      using map_of_results [OF True] by metis
    then show ?thesis
      using x q len results_modify [OF True, of bs] unfolding t k by (simp add: add_pending_def)
  next
    case False
    then have n: "map_of (results_of ins bs ms) (q_q_id mq) = None" "filter (\<lambda>(j, _). j \<noteq> q_q_id mq) (results_of ins bs ms) = results_of ins bs ms"
      by (auto simp: map_of_eq_None_iff results_of_def k filter_id_conv image_iff dest!: leaders_in)
    have "results_of ins bs (ms @ [m]) = results_of ins bs ms @ [(q_q_id mq, queue_obj ins bs (m_memqueue x) [m])]"
    proof -
      have "filter (\<lambda>j. msg_key ins j = msg_key ins l) (ms @ [m]) = filter (\<lambda>j. msg_key ins j = msg_key ins l) ms"
        if "l \<in> set (leaders (msg_key ins) ms)" for l
        using leaders_in [OF that] False by auto
      moreover have "filter (\<lambda>j. msg_key ins j = q_q_id mq) ms = []" using False by (auto simp: filter_empty_conv k image_iff)
      ultimately show ?thesis using False by (simp add: results_of_def leaders_snoc k)
    qed
    moreover have "map (\<lambda>(j, w). if j = q_q_id mq then (j, v) else (j, w)) (results_of ins bs ms) = results_of ins bs ms" for v
      using n(1) by (intro map_idI) (auto simp: map_of_eq_None_iff image_iff)
    ultimately show ?thesis
      using x q len n queue_json_ok [OF s q b] queue_obj_add [of ins bs "m_memqueue x" "[]" m] unfolding t
      by (simp add: add_pending_def map_add_def)
  qed
qed

text \<open>What a pending list needs so that its messages can be answered.\<close>

definition answerable :: "memqueue_ins \<Rightarrow> addr list \<Rightarrow> bool" where
  "answerable ins ms \<longleftrightarrow> (\<forall>m \<in> set ms. \<exists>x. msgs ins m = Some x \<and> queues ins (m_memqueue x) \<noteq> None \<and> m_data_len x < 2 ^ 31)"

lemma result_loop_ok:
  assumes s: "mq_struct ins" and b: "set bs \<subseteq> dom (binders ins)" and a: "answerable ins ms"
  shows "result_loop bs ms (JObject (results_of ins bs ds)) ins = Some (JObject (results_of ins bs (ds @ ms)), ins)"
  using a
proof (induction ms arbitrary: ds)
  case (Cons m ms)
  then obtain x mq where "msgs ins m = Some x" "queues ins (m_memqueue x) = Some mq" "m_data_len x < 2 ^ 31"
    by (auto simp: answerable_def)
  with add_pending_ok [OF s this b] Cons.IH [of "ds @ [m]"] Cons.prems show ?case by (simp add: answerable_def)
qed simp

lemma server_binds_dom: "server_ok d h ins \<Longrightarrow> cli_binders ins b = Some cb \<Longrightarrow> set (cb_memqueues cb) \<subseteq> dom (binders ins)"
  using bind_okD(2) [of ins _ b] by (fastforce simp: server_ok_def)

lemma memqueue_create_result_ok:
  assumes "server_ok d h ins" "cli_binders ins b = Some cb" "answerable ins (cb_pending_msgs cb)"
  shows "memqueue_create_result b ins = Some (JObject (results_of ins (cb_memqueues cb) (cb_pending_msgs cb)), ins)"
proof -
  have "mq_struct ins" using assms(1) by (simp add: server_ok_def srv_inv_def mq_inv_def)
  from result_loop_ok [OF this server_binds_dom [OF assms(1,2)] assms(3), of "[]"] assms(2)
  show ?thesis by (simp add: memqueue_create_result_def json_object_new_object_def)
qed

text \<open>The answer with the messages, and the answer when the time is over.\<close>

definition msgs_answer :: "memqueue_ins \<Rightarrow> cli_binder \<Rightarrow> response" where
  "msgs_answer ins cb = (200, JObject [(''version'', JString ''memqueue 1.0''), (''ret'', JString ''MEMQUEUE_MSGS''),
     (''results'', JObject (results_of ins (cb_memqueues cb) (cb_pending_msgs cb)))])"

definition timeout_answer :: response where
  "timeout_answer = (408, JObject [(''version'', JString ''memqueue 1.0''), (''ret'', JString ''MEMQUEUE_TIMEOUT''),
     (''error'', JString ''poll timed out'')])"

lemma respond_msgs:
  assumes "server_ok d h ins" "cli_binders ins b = Some cb" "answerable ins (cb_pending_msgs cb)"
  shows "memqueue_respond MEMQUEUE_MSGS (Some b) ins = Some (msgs_answer ins cb, ins)"
  using memqueue_create_result_ok [OF assms]
  by (simp add: memqueue_respond_def respond_body_def json_object_new_object_def json_object_new_string_def c_str_def
      msgs_answer_def)

lemma respond_timeout: "memqueue_respond MEMQUEUE_TIMEOUT None ins = Some (timeout_answer, ins)"
  by (simp add: memqueue_respond_def respond_body_def json_object_new_object_def json_object_new_string_def c_str_def
      timeout_answer_def)

subsection \<open>The end of a poll\<close>

lemma poll_finish_ok:
  assumes ok: "server_ok d h ins" and b: "cli_binders ins b = Some cb" and a: "answerable ins (cb_pending_msgs cb)"
  shows "\<exists>i. memqueue_poll_finish b ins =
      Some (if cb_pending_msgs cb = [] then timeout_answer else msgs_answer ins cb, i) \<and> server_ok d h i \<and>
    cli_binders i = (cli_binders ins)(b := None) \<and> dom (msgs i) = dom (msgs ins) - last_held h ins b \<and>
    dom (queues i) = dom (queues ins) \<and>
    (\<forall>q mq. queues ins q = Some mq \<longrightarrow> (\<exists>mq'. queues i q = Some mq' \<and> q_rev mq' = q_rev mq \<and>
       q_msg_queue mq' = filter (\<lambda>m. m \<in> dom (msgs i)) (q_msg_queue mq) \<and>
       q_memqueue_binders mq' = filter (\<lambda>t. t \<notin> set (cb_memqueues cb)) (q_memqueue_binders mq)))"
proof -
  let ?r = "if cb_pending_msgs cb = [] then timeout_answer else msgs_answer ins cb"
  have r: "(if cb_pending_msgs cb \<noteq> [] then memqueue_respond MEMQUEUE_MSGS (Some b) ins
      else memqueue_respond MEMQUEUE_TIMEOUT None ins) = Some (?r, ins)"
    using respond_msgs [OF ok b a] respond_timeout by simp
  obtain i1 where i1: "unbind_loop b (cb_memqueues cb) ins = Some i1" "cb_memqueues cb \<noteq> [] \<longrightarrow> rewired ins i1"
      "cb_memqueues cb = [] \<longrightarrow> i1 = ins" "server_ok d h i1"
      "cli_binders i1 = (cli_binders ins)(b \<mapsto> cb\<lparr>cb_memqueues := []\<rparr>)"
      "\<forall>q. bound_to i1 q = filter (\<lambda>t. t \<notin> set (cb_memqueues cb)) (bound_to ins q)"
    using unbind_loop_ok [OF ok b refl] by blast
  have rw: "rewired ins i1" using i1(2,3) rewired_refl [OF ok] by (cases "cb_memqueues cb = []") auto
  let ?c = "cb\<lparr>cb_memqueues := []\<rparr>"
  have c1: "cli_binders i1 b = Some ?c" "cb_pending_msgs ?c = cb_pending_msgs cb" using i1(5) by simp_all
  obtain i2 where i2: "release_loop b (cb_pending_msgs cb) i1 = Some i2" "server_ok d h i2" "thinned i1 i2"
      "cli_binders i2 = (cli_binders i1)(b \<mapsto> ?c\<lparr>cb_pending_msgs := []\<rparr>)" "dom (msgs i2) = dom (msgs i1) - last_held h i1 b"
    using release_loop_ok [OF i1(4) c1] by blast
  have c2: "cli_binders i2 b = Some (?c\<lparr>cb_pending_msgs := []\<rparr>)" using i2(4) by simp
  obtain i3 where i3: "cli_binder_free (Some b) i2 = Some i3" "rewired i2 i3" "server_ok d h i3" "queues i3 = queues i2"
      "cli_binders i3 = (cli_binders i2)(b := None)"
    using cli_binder_free_ok [OF i2(2) c2] by auto
  have same: "msgs i3 = msgs i2" "msgs i1 = msgs ins" "last_held h i1 b = last_held h ins b"
    using i3(2) rw by (simp_all add: rewired_def last_held_def)
  have "memqueue_poll_finish b ins = Some (?r, i3)"
    using r b i1(1) c1 i2(1) i3(1)
    by (simp add: memqueue_poll_finish_def cli_binder_has_pending_msgs_def memqueue_unbind_all_def
        cli_binder_release_pending_msgs_def)
  moreover have "\<exists>mq'. queues i3 q = Some mq' \<and> q_rev mq' = q_rev mq \<and>
       q_msg_queue mq' = filter (\<lambda>m. m \<in> dom (msgs i3)) (q_msg_queue mq) \<and>
       q_memqueue_binders mq' = filter (\<lambda>t. t \<notin> set (cb_memqueues cb)) (q_memqueue_binders mq)"
    if q: "queues ins q = Some mq" for q mq
  proof -
    obtain l where l: "queues i1 q = Some (mq\<lparr>q_memqueue_binders := l\<rparr>)" using rewired_fwd [OF rw q] .
    then have "l = filter (\<lambda>t. t \<notin> set (cb_memqueues cb)) (q_memqueue_binders mq)" using i1(6) q bound_to_Some [OF l] by simp
    then show ?thesis using i2(3) l unfolding thinned_def i3(4) same by fastforce
  qed
  moreover have "cli_binders i3 = (cli_binders ins)(b := None)" unfolding i3(5) i2(4) i1(5) by simp
  moreover have "dom (queues i3) = dom (queues ins)" using i2(3) rewired_dom [OF rw] unfolding thinned_def i3(4) by simp
  moreover have "dom (msgs i3) = dom (msgs ins) - last_held h ins b" using i2(5) unfolding same .
  ultimately show ?thesis using i3(3) by blast
qed

end
