(* ===== verification/Memqueue_Answer.thy ===== *)
theory Memqueue_Answer
  imports Memqueue_Results
begin

text \<open>
  The start of a poll of one queue: the queue is kept alive, the poller is bound to it and gets the
  messages it has not seen. The poll is answered at once when there are any, and waits otherwise.
\<close>

text \<open>The pointer \<open>expiry_node\<close> of a queue names the node it is linked to, if any.\<close>

definition linked_ok :: "memqueue \<Rightarrow> bool" where
  "linked_ok mq \<longleftrightarrow> q_expiry_node mq = None \<or> q_expiry_node mq = q_expiry_next mq"

lemma resched_ok:
  assumes ok: "server_ok d h ins" and mem: "oom ins = []" and q: "queues ins q = Some mq" and l: "linked_ok mq"
  shows "\<exists>i. memqueue_resched ins q = Some i \<and> server_ok d h i \<and> sched_frame ins i \<and> oom i = []"
proof (cases "q_expiry_node mq")
  case None
  then show ?thesis using q mem ok by (simp add: memqueue_resched_def)
next
  case (Some node)
  then have nx: "q_expiry_next mq = Some node" using l by (auto simp: linked_ok_def)
  have si: "sched_inv ins" using ok by (simp add: server_ok_def srv_inv_def)
  then obtain xs where "sched_with xs ins" by (auto simp: sched_inv_def)
  from memqueue_resched_ok [OF this q Some nx mem]
  obtain i xs' where i: "memqueue_resched ins q = Some i" "sched_with xs' i" "oom i = []"
      "deadline i = (deadline ins)(MEMQUEUE_TYPE := (deadline ins MEMQUEUE_TYPE)(q \<mapsto> now_ms ins + q_expiry mq))"
    by blast
  have f: "sched_frame ins i" by (rule sched_frame_resched(1) [OF i(1)])
  have sj: "sched_inv i" using i(2) by (auto simp: sched_inv_def)
  have "is_sched ins ty obj" if "is_sched i ty obj" for ty obj
  proof (cases "ty = MEMQUEUE_TYPE \<and> obj = q")
    case True
    then show ?thesis using q nx by (simp add: is_sched_def get_expiry_next_def)
  next
    case False
    then have "deadline i ty obj = deadline ins ty obj" using i(4) by (auto split: if_splits)
    then show ?thesis using that is_sched_deadline [OF sj] is_sched_deadline [OF si] by simp
  qed
  then show ?thesis using i(1,3) f sched_frame_server_ok [OF f ok sj] by blast
qed

lemma selected_frame:
  assumes "sched_frame ins ins'"
  shows "selected ins' rv latest ms = selected ins rv latest ms"
  unfolding selected_def
proof (rule filter_cong [OF refl])
  fix m
  show "(case msgs ins' m of Some x \<Rightarrow> rv < m_rev x \<or> (latest \<noteq> 0 \<and> m_new x = 1) | None \<Rightarrow> False) =
    (case msgs ins m of Some x \<Rightarrow> rv < m_rev x \<or> (latest \<noteq> 0 \<and> m_new x = 1) | None \<Rightarrow> False)"
    using sched_frame_msg [OF assms, of m] by auto
qed

text \<open>The revision from which on a poll gets messages: a revision in the future starts over.\<close>

definition poll_rev :: "memqueue \<Rightarrow> queue_arg \<Rightarrow> int" where
  "poll_rev mq a = (if q_rev mq < qa_rev a then - 1 else qa_rev a)"

lemma quiet_cli_pending:
  assumes "quiet ins ins'" "cli_binders ins b = Some cb"
  shows "cli_binders ins' b = Some (cb\<lparr>cb_pending_msgs := pending ins' b\<rparr>)"
proof -
  obtain cb' where cb': "cli_binders ins' b = Some cb'" using quiet_cli [OF assms] by blast
  have "map_option (cb_pending_msgs_update (\<lambda>_. [])) (cli_binders ins' b) =
      map_option (cb_pending_msgs_update (\<lambda>_. [])) (cli_binders ins b)"
    using assms(1) by (simp add: quiet_def)
  then have "cb'\<lparr>cb_pending_msgs := []\<rparr> = cb\<lparr>cb_pending_msgs := []\<rparr>" using cb' assms(2) by simp
  then have "cb' = cb\<lparr>cb_pending_msgs := cb_pending_msgs cb'\<rparr>" by (cases cb; cases cb') simp
  then show ?thesis using cb' by (metis pending_Some)
qed

lemma poll_one_ok:
  assumes ok: "server_ok d h ins" and mem: "oom ins = []" and b: "cli_binders ins b = Some cb"
    and a: "qa_q_id a = Some qid" "qa_consumer_id a = None \<or> q_consumer_expiry mq = 0"
    and q: "map_of (h_entries (queue_store ins)) qid = Some q" "queues ins q = Some mq" and l: "linked_ok mq"
    and rm: "room (length (q_msg_queue mq) + k) ins"
  defines "sel \<equiv> selected ins (poll_rev mq a) (qa_latest a) (q_msg_queue mq)"
  shows "\<exists>i t bd mq'. poll_one (Some b) a ins = Some (1, int (length sel), i) \<and> server_ok d h i \<and> room k i \<and> oom i = [] \<and>
    cli_binders i b = Some (cb\<lparr>cb_memqueues := t # cb_memqueues cb, cb_pending_msgs := cb_pending_msgs cb @ sel\<rparr>) \<and>
    binders i t = Some bd \<and> bd = \<lparr>b_rev = poll_rev mq a, b_memqueue = q, b_cli_binder = b, b_include_consumers = qa_include_consumers a\<rparr> \<and>
    queues i q = Some mq' \<and> q_msg_queue mq' = q_msg_queue mq \<and> q_rev mq' = q_rev mq \<and> q_q_id mq' = q_q_id mq \<and>
    q_consumers mq' = q_consumers mq \<and> dom (queues i) = dom (queues ins) \<and> (\<forall>m x. msgs ins m = Some x \<longrightarrow> (\<exists>y. msgs i m = Some y \<and>
       m_data y = m_data x \<and> m_data_len y = m_data_len x \<and> m_memqueue y = m_memqueue x))"
proof -
  have st: "h_wf (queue_store ins)" using ok by (simp add: server_ok_def srv_inv_def mq_inv_def mq_struct_def store_ok_def)
  obtain i1 where i1: "memqueue_resched ins q = Some i1" "server_ok d h i1" "sched_frame ins i1" "oom i1 = []"
    using resched_ok [OF ok mem q(2) l] by blast
  obtain u v where mq1: "queues i1 q = Some (mq\<lparr>q_expiry_next := u, q_expiry_node := v\<rparr>)"
    using sched_frame_fwd(1) [OF i1(3) q(2)] by blast
  let ?mq1 = "mq\<lparr>q_expiry_next := u, q_expiry_node := v\<rparr>" and ?rv = "poll_rev mq a"
  have b1: "cli_binders i1 b = Some cb" using b i1(3) by (simp add: sched_frame_def)
  define t where "t = next_addr i1"
  define bd where "bd = \<lparr>b_rev = ?rv, b_memqueue = q, b_cli_binder = b, b_include_consumers = qa_include_consumers a\<rparr>"
  obtain i2 where i2: "memqueue_bind q b ?rv (qa_include_consumers a) i1 = Some (0, i2)" "rewired i1 i2" "server_ok d h i2"
      "queues i2 = (queues i1)(q \<mapsto> ?mq1\<lparr>q_memqueue_binders := t # q_memqueue_binders ?mq1\<rparr>)"
      "cli_binders i2 = (cli_binders i1)(b \<mapsto> cb\<lparr>cb_memqueues := t # cb_memqueues cb\<rparr>)" "binders i2 = (binders i1)(t \<mapsto> bd)"
    using memqueue_bind_ok [OF i1(2,4) mq1 b1] unfolding t_def bd_def by blast
  let ?cb2 = "cb\<lparr>cb_memqueues := t # cb_memqueues cb\<rparr>"
  let ?mq2 = "?mq1\<lparr>q_memqueue_binders := t # q_memqueue_binders ?mq1\<rparr>"
  have m2: "msgs i2 = msgs i1" "oom i2 = []" using i2(2) i1(4) by (auto simp: rewired_def)
  have sel2: "selected i2 ?rv (qa_latest a) (q_msg_queue mq) = sel"
    using selected_frame [OF i1(3)] by (simp add: sel_def selected_def m2)
  have q2: "queues i2 q = Some ?mq2" "q_msg_queue ?mq2 = q_msg_queue mq" and b2: "cli_binders i2 b = Some ?cb2" using i2(4,5) by simp_all
  have rm2: "room (length (q_msg_queue ?mq2) + k) i2"
    using rewired_room [OF i2(2) sched_frame_room [OF i1(3) rm]] by simp
  have "mq_inv d h i2" using i2(3) by (simp add: server_ok_def srv_inv_def)
  from enqueue_loop_ok [OF this m2(2) rm2 b2 q2(1) order_refl, of ?rv "qa_latest a" 0]
  obtain i3 where i3: "enqueue_loop b ?rv (qa_latest a) (q_msg_queue mq) 0 i2 = Some (int (length sel), i3)" "mq_inv d h i3"
      "quiet i2 i3" "room k i3" "oom i3 = []" "\<forall>b'. pending i3 b' = pending i2 b' @ (if b' = b then sel else [])"
    unfolding q2(2) sel2 by auto
  have ok3: "server_ok d h i3" by (rule quiet_server_ok [OF i3(3) i2(3) i3(2)])
  have g: "h_get (queue_store ins) qid = Some (Some q)" using hh.get_entries [OF st] q(1) by simp
  have run: "poll_one (Some b) a ins = Some (1, int (length sel), i3)"
    using a(1) g q(2) i1(1) mq1 i2(1) i3(1) q2 a(2)
    by (auto simp: poll_one_def poll_rev_def cli_binder_enqueue_msgs_def Let_def split: option.split)
  have cb3: "cli_binders i3 b = Some (?cb2\<lparr>cb_pending_msgs := cb_pending_msgs cb @ sel\<rparr>)"
    using quiet_cli_pending [OF i3(3) b2] i3(6) b2 by simp
  obtain n where mq3: "queues i3 q = Some (?mq2\<lparr>q_ref_count := n\<rparr>)"
    using counts_only_queue_fwd [OF _ q2(1)] i3(3) unfolding quiet_def by blast
  have bi3: "binders i3 t = Some bd" using i3(3) i2(6) by (simp add: quiet_def)
  have ms: "\<exists>y. msgs i3 m = Some y \<and> m_data y = m_data x \<and> m_data_len y = m_data_len x \<and> m_memqueue y = m_memqueue x"
    if x: "msgs ins m = Some x" for m x
  proof -
    obtain u v where "msgs i2 m = Some (x\<lparr>m_expiry_next := u, m_expiry_node := v\<rparr>)"
      using sched_frame_fwd(2) [OF i1(3) x] m2(1) by auto
    from quiet_msg [OF i3(3) this] show ?thesis by auto
  qed
  have dm: "dom (queues i3) = dom (queues ins)"
    using sched_frame_refs(5) [OF i1(3)] rewired_dom [OF i2(2)] counts_only_dom(1) [of i2 i3] i3(3) by (simp add: quiet_def)
  show ?thesis
    by (intro exI [of _ i3] exI [of _ t] exI [of _ bd] exI [of _ "?mq2\<lparr>q_ref_count := n\<rparr>"] conjI allI impI ms)
      (use run ok3 i3(4,5) cb3 bi3 mq3 dm in \<open>simp_all add: bd_def\<close>)
qed

subsection \<open>A poll of one queue\<close>

lemma leaders_const:
  assumes "\<And>x. x \<in> set xs \<Longrightarrow> f x = k" "xs \<noteq> []"
  shows "leaders f xs = [hd xs]"
  using assms
proof (cases xs)
  case (Cons x ys)
  have "filter (\<lambda>y. f y \<noteq> f x) (leaders f ys) = []"
    using assms(1) Cons leaders_in by (fastforce simp: filter_empty_conv)
  then show ?thesis using Cons by simp
qed simp

text \<open>The answer to a poll of one queue with the messages \<open>texts\<close>.\<close>

definition poll_answer :: "cstring \<Rightarrow> memqueue \<Rightarrow> queue_arg \<Rightarrow> json list \<Rightarrow> response" where
  "poll_answer qid mq a texts =
     (200, JObject [(''version'', JString ''memqueue 1.0''), (''ret'', JString ''MEMQUEUE_MSGS''),
       (''results'', JObject [(qid, JObject ([(''messages'', JArray texts), (''rev'', JInt (q_rev mq))] @
          (if qa_include_consumers a \<noteq> 0
           then [(''consumers'', JArray (map (\<lambda>(k, _). json_object_new_string k) (h_entries (q_consumers mq))))] else [])))])])"

lemma msgs_answer_one:
  assumes t: "binders i t = Some bd" "b_memqueue bd = q" "b_include_consumers bd = qa_include_consumers a"
    and q: "queues i q = Some mq'" "q_rev mq' = q_rev mq" "q_q_id mq' = qid" "q_consumers mq' = q_consumers mq"
    and sel: "sel \<noteq> []" "\<And>m. m \<in> set sel \<Longrightarrow> \<exists>y. msgs i m = Some y \<and> m_memqueue y = q"
    and tx: "\<And>m. m \<in> set sel \<Longrightarrow> msg_text i m = msg_text ins m"
    and cb: "cb_memqueues cb = [t]" "cb_pending_msgs cb = sel"
  shows "msgs_answer i cb = poll_answer qid mq a (map (msg_text ins) sel)"
proof -
  have k: "msg_queue i m = q" "msg_key i m = qid" if "m \<in> set sel" for m
    using sel(2) [OF that] q by (auto simp: msg_queue_def msg_key_def)
  have "leaders (msg_key i) sel = [hd sel]" by (rule leaders_const [OF _ sel(1)]) (rule k(2))
  moreover have "filter (\<lambda>j. msg_key i j = qid) sel = sel" using k(2) by (intro filter_True) auto
  moreover have "map (msg_text i) sel = map (msg_text ins) sel" using tx by simp
  moreover have "wants i [t] q \<longleftrightarrow> qa_include_consumers a \<noteq> 0" using t by (simp add: wants_def)
  ultimately show ?thesis
    using k [OF hd_in_set [OF sel(1)]] q cb
    by (simp add: msgs_answer_def poll_answer_def results_of_def queue_obj_def)
qed

lemma poll_queue_ok:
  assumes ok: "server_ok d h ins" and mem: "oom ins = []" and ua: "pa_total ua = 1" "queue_args ua = a # rest"
    and a: "qa_q_id a = Some qid" "qa_consumer_id a = None \<or> q_consumer_expiry mq = 0"
    and q: "map_of (h_entries (queue_store ins)) qid = Some q" "queues ins q = Some mq" and l: "linked_ok mq"
    and rm: "room (length (q_msg_queue mq)) ins"
    and len: "\<And>m x. m \<in> set (selected ins (poll_rev mq a) (qa_latest a) (q_msg_queue mq)) \<Longrightarrow> msgs ins m = Some x \<Longrightarrow>
      m_data_len x < 2 ^ 31"
  defines "sel \<equiv> selected ins (poll_rev mq a) (qa_latest a) (q_msg_queue mq)" and "b \<equiv> next_addr ins"
  shows "sel = [] \<Longrightarrow> \<exists>i cb t. memqueue_poll_queue ua ins = Some (Waiting b, i) \<and> server_ok d h i \<and> cli_binders i b = Some cb \<and>
      cb_timeout cb = word_of_int (pa_timeout ua) \<and> cb_pending_msgs cb = [] \<and> t \<in> set (bound_to i q) \<and>
      binders i t = Some \<lparr>b_rev = poll_rev mq a, b_memqueue = q, b_cli_binder = b, b_include_consumers = qa_include_consumers a\<rparr>"
    "sel \<noteq> [] \<Longrightarrow> \<exists>i. memqueue_poll_queue ua ins = Some (Answered (poll_answer qid mq a (map (msg_text ins) sel)), i) \<and>
      server_ok d h i \<and> cli_binders i b = None \<and> dom (queues i) = dom (queues ins)"
proof -
  obtain i0 where i0: "cli_binder_create (word_of_int (pa_timeout ua)) ins = (Some b, i0)" "rewired ins i0" "server_ok d h i0"
      "queues i0 = queues ins" "cli_binders i0 b = Some \<lparr>cb_timeout = word_of_int (pa_timeout ua), cb_memqueues = [], cb_pending_msgs = []\<rparr>"
    using cli_binder_create_ok [OF ok mem] unfolding b_def by blast
  have e0: "msgs i0 = msgs ins" "queue_store i0 = queue_store ins" "oom i0 = []" using i0(2) mem by (auto simp: rewired_def)
  have q0: "map_of (h_entries (queue_store i0)) qid = Some q" "queues i0 q = Some mq" using q e0 i0(4) by simp_all
  have s0: "selected i0 (poll_rev mq a) (qa_latest a) (q_msg_queue mq) = sel" by (simp add: sel_def selected_def e0)
  have rm0: "room (length (q_msg_queue mq) + 0) i0" using rewired_room [OF i0(2) rm] by simp
  define bd where "bd = \<lparr>b_rev = poll_rev mq a, b_memqueue = q, b_cli_binder = b, b_include_consumers = qa_include_consumers a\<rparr>"
  obtain i t mq' where i: "poll_one (Some b) a i0 = Some (1, int (length sel), i)" "server_ok d h i"
      "cli_binders i b = Some \<lparr>cb_timeout = word_of_int (pa_timeout ua), cb_memqueues = [t], cb_pending_msgs = sel\<rparr>"
      "binders i t = Some bd" "queues i q = Some mq'" "q_rev mq' = q_rev mq" "q_q_id mq' = q_q_id mq" "q_consumers mq' = q_consumers mq"
      "dom (queues i) = dom (queues i0)"
      "\<And>m x. msgs ins m = Some x \<Longrightarrow> \<exists>y. msgs i m = Some y \<and> m_data y = m_data x \<and> m_data_len y = m_data_len x \<and> m_memqueue y = m_memqueue x"
    using poll_one_ok [OF i0(3) e0(3) i0(5) a q0 l rm0] unfolding s0 e0(1) bd_def by auto
  let ?cb = "\<lparr>cb_timeout = word_of_int (pa_timeout ua), cb_memqueues = [t], cb_pending_msgs = sel\<rparr>"
  have s: "mq_struct ins" using ok by (simp add: server_ok_def srv_inv_def mq_inv_def)
  have run: "memqueue_poll_queue ua ins = (if sel = [] then Some (Waiting b, i)
      else do { (resp, ins) \<leftarrow> memqueue_poll_finish b i; Some (Answered resp, ins) })"
    using i0(1) ua i(1) by (auto simp: memqueue_poll_queue_def)
  show "\<exists>i cb t. memqueue_poll_queue ua ins = Some (Waiting b, i) \<and> server_ok d h i \<and> cli_binders i b = Some cb \<and>
      cb_timeout cb = word_of_int (pa_timeout ua) \<and> cb_pending_msgs cb = [] \<and> t \<in> set (bound_to i q) \<and>
      binders i t = Some \<lparr>b_rev = poll_rev mq a, b_memqueue = q, b_cli_binder = b, b_include_consumers = qa_include_consumers a\<rparr>"
    if e: "sel = []"
  proof -
    have "t \<in> set (bound_to i q)"
      using bind_okD(2) [of i t b] i(2-4) by (auto simp: server_ok_def bd_def)
    then show ?thesis using run e i(2-4) by (auto simp: bd_def)
  qed
  assume ne: "sel \<noteq> []"
  have live: "\<exists>x. msgs ins m = Some x \<and> m_memqueue x = q \<and> m_data_len x < 2 ^ 31" if m: "m \<in> set sel" for m
    using msg_in_own_queue [OF s q(2), of m] len [of m] m unfolding sel_def by (auto simp: selected_def)
  have li: "\<exists>y. msgs i m = Some y \<and> m_memqueue y = q \<and> m_data_len y < 2 ^ 31 \<and> msg_text i m = msg_text ins m" if m: "m \<in> set sel" for m
    using live [OF m] i(10) [of m] by (auto simp: msg_text_def)
  have "answerable i sel" unfolding answerable_def using li i(5) by fastforce
  then have "answerable i (cb_pending_msgs ?cb)" by simp
  from poll_finish_ok [OF i(2,3) this] ne
  obtain j where j: "memqueue_poll_finish b i = Some (msgs_answer i ?cb, j)" "server_ok d h j"
      "cli_binders j = (cli_binders i)(b := None)" "dom (queues j) = dom (queues i)" by auto
  have "q_q_id mq = qid" using ok q by (auto simp: server_ok_def srv_inv_def mq_inv_def mq_struct_def store_ok_def dest!: map_of_SomeD)
  then have ans: "msgs_answer i ?cb = poll_answer qid mq a (map (msg_text ins) sel)"
    by (intro msgs_answer_one [OF i(4) _ _ i(5,6)]) (use li i(7,8) ne in \<open>auto simp: bd_def\<close>)
  show "\<exists>i. memqueue_poll_queue ua ins = Some (Answered (poll_answer qid mq a (map (msg_text ins) sel)), i) \<and>
      server_ok d h i \<and> cli_binders i b = None \<and> dom (queues i) = dom (queues ins)"
    using run ne j ans i(9) i0(4) by simp
qed

end
