(* ===== verification/Memqueue_Props.thy ===== *)
theory Memqueue_Props
  imports Memqueue_Answer
begin

text \<open>
  The properties of the queue server: its invariant, the life of queues and messages, what a poll
  gets, and the answers to requests for queues that do not exist.
\<close>

subsection \<open>Queues and messages\<close>

lemma memqueue_init_server:
  "\<exists>i. memqueue_init (memqueue_ins0\<lparr>now := t\<rparr>) = (0, i) \<and> server_ok (\<lambda>_. 0) (\<lambda>_. 0) i \<and> oom i = [] \<and> now i = t \<and>
    queues i = Map.empty \<and> msgs i = Map.empty \<and> consumers i = Map.empty \<and> cli_binders i = Map.empty \<and>
    h_entries (queue_store i) = []"
proof -
  obtain i where i: "memqueue_init (memqueue_ins0\<lparr>now := t\<rparr>) = (0, i)" "srv_inv (\<lambda>_. 0) (\<lambda>_. 0) i" "oom i = []" "now i = t"
    "queues i = Map.empty" "msgs i = Map.empty" "consumers i = Map.empty" "binders i = Map.empty"
    "cli_binders i = Map.empty" "h_entries (queue_store i) = []"
    using memqueue_init_ok [OF refl, of t] by auto
  then have "bind_ok i" "own_ok (\<lambda>_. 0) i" "cons_known i"
    by (auto simp: bind_ok_def bound_to_def binds_def own_ok_def cons_known_def)
  with i show ?thesis by (auto simp: server_ok_def)
qed

lemma memqueue_create_server:
  assumes "server_ok d h ins" "oom ins = []" "ca_q_id args = Some qid" "map_of (h_entries (queue_store ins)) qid = None"
  defines "q \<equiv> next_addr ins"
  shows "\<exists>j mq u v. memqueue_create args ins = Some (Some q, j) \<and> server_ok (d(q := 1)) h j \<and> oom j = [] \<and>
    queues ins q = None \<and> queues j q = Some mq \<and>
    mq = (new_queue args qid (q_consumers mq))\<lparr>q_ref_count := 1, q_expiry_next := u, q_expiry_node := v\<rparr> \<and>
    h_entries (queue_store j) = h_entries (queue_store ins) @ [(qid, q)] \<and>
    (\<forall>q' mq0. queues ins q' = Some mq0 \<longrightarrow> (\<exists>u v. queues j q' = Some (mq0\<lparr>q_expiry_next := u, q_expiry_node := v\<rparr>))) \<and>
    (\<forall>k. room k ins \<and> k < 2 ^ 31 - 1 \<longrightarrow> room k j) \<and>
    (\<forall>ty obj. deadline j ty obj = (if ca_expiry args > 0 \<and> ty = MEMQUEUE_TYPE \<and> obj = q
       then Some (now_ms ins + ca_expiry args) else deadline ins ty obj)) \<and>
    (ca_expiry args = 0 \<longrightarrow> u = None \<and> v = None)"
proof -
  have inv: "srv_inv d h ins" and ck: "cons_known ins" and bk: "bind_ok ins" and ow: "own_ok d ins"
    using assms(1) by (auto simp: server_ok_def)
  obtain j mq u v where j: "memqueue_create args ins = Some (Some q, j)" "srv_inv (d(q := 1)) h j" "oom j = []"
    "queues ins q = None" "queues j q = Some mq"
    "mq = (new_queue args qid (q_consumers mq))\<lparr>q_ref_count := 1, q_expiry_next := u, q_expiry_node := v\<rparr>"
    "h_entries (queue_store j) = h_entries (queue_store ins) @ [(qid, q)]"
    "\<forall>q' mq0. queues ins q' = Some mq0 \<longrightarrow> (\<exists>u v. queues j q' = Some (mq0\<lparr>q_expiry_next := u, q_expiry_node := v\<rparr>))"
    "binders j = binders ins" "cli_binders j = cli_binders ins"
    "\<forall>ty obj. deadline j ty obj = (if ca_expiry args > 0 \<and> ty = MEMQUEUE_TYPE \<and> obj = q
       then Some (now_ms ins + ca_expiry args) else deadline ins ty obj)"
    "cons_known j" "\<forall>k. room k ins \<and> k < 2 ^ 31 - 1 \<longrightarrow> room k j" "dom (queues j) = insert q (dom (queues ins))"
    "consumers_of j = consumers_of ins" "ca_expiry args = 0 \<longrightarrow> u = None \<and> v = None"
    using memqueue_create_ok [OF inv assms(2) ck assms(3,4)] unfolding q_def by blast
  have nb: "q_memqueue_binders mq = []" by (subst j(6)) simp
  have "bound_to j q' = bound_to ins q'" for q'
  proof (cases "q' = q")
    case True
    then show ?thesis using j(4,5) nb by (simp add: bound_to_def)
  next
    case False
    show ?thesis
    proof (cases "queues ins q'")
      case None
      then have "queues j q' = None" using j(14) False by (metis domIff insert_iff)
      then show ?thesis using None by (simp add: bound_to_def)
    next
      case (Some mq0)
      then show ?thesis using j(8) by (fastforce simp: bound_to_def)
    qed
  qed
  then have "bind_ok j" by (intro bind_ok_cong [OF bk j(9)]) (simp_all add: fun_eq_iff binds_def j(10))
  moreover have "consumers_of ins q = {}" using ck unfolding cons_known_iff q_def by blast
  then have "own_ok (d(q := 1)) j" using ow unfolding own_ok_def j(14,15) by simp
  ultimately show ?thesis using j by (auto simp: server_ok_def)
qed

lemma msg_create_server:
  fixes ins data data_len msecs
  assumes "server_ok d h ins" "oom ins = []" "queues ins q = Some mq" "room (length (q_memqueue_binders mq) + k + 2) ins"
  defines "m \<equiv> Suc (next_addr ins)"
  shows "\<exists>ins' x n w. memqueue_msg_create q msecs data data_len ins = Some (0, ins') \<and>
    server_ok d (h(m := own_refs msecs)) ins' \<and> oom ins' = [] \<and> room k ins' \<and>
    queues ins' q = Some (mq\<lparr>q_rev := q_rev mq + 1, q_msg_queue := q_msg_queue mq @ [m],
       q_msgs_in_queue := q_msgs_in_queue mq + 1, q_ref_count := n\<rparr>) \<and> queue_store ins' = queue_store ins \<and>
    msgs ins' m = Some x \<and> m_rev x = q_rev mq + 1 \<and> m_data x = data \<and> m_data_len x = data_len \<and> m_new x = 1 \<and>
    (\<forall>b. pending ins' b = pending ins b @
       replicate (count_list (receivers ins (q_rev mq + 1) (q_memqueue_binders mq)) b) m) \<and>
    signals ins' = w @ map Some (receivers ins (q_rev mq + 1) (q_memqueue_binders mq)) \<and>
    (\<forall>ty obj. deadline ins' ty obj = (if msecs > 0 \<and> ty = MSG_TYPE \<and> obj = m
       then Some (now_ms ins + word_of_int msecs) else deadline ins ty obj)) \<and>
    (\<forall>q' mq0. q' \<noteq> q \<and> queues ins q' = Some mq0 \<longrightarrow> (\<exists>n. queues ins' q' = Some (mq0\<lparr>q_ref_count := n\<rparr>)))"
proof -
  have "srv_inv d h ins" "bound_live ins mq"
    using assms(1) bind_ok_live [OF _ assms(3)] by (auto simp: server_ok_def)
  from memqueue_msg_create_ok [OF this(1) assms(2,3) this(2) assms(4), of msecs data data_len]
  show ?thesis unfolding m_def using shape_server_ok [OF _ assms(1)] unfolding same_shape_def by blast
qed

subsection \<open>Full queues\<close>

text \<open>
  A retain followed by a release gives the counts back; a message that nothing holds goes.
\<close>

definition touched :: "addr \<Rightarrow> msg \<Rightarrow> addr \<Rightarrow> memqueue \<Rightarrow> memqueue_ins \<Rightarrow> memqueue_ins" where
  "touched m x q mq ins =
     ins\<lparr>msgs := (msgs ins)(m := if m_ref_count x = 0 then None else Some (x\<lparr>m_new := 0\<rparr>)),
         queues := (queues ins)(q \<mapsto> if m_ref_count x = 0 then drop_msg m mq else mq)\<rparr>"

lemma retain_release:
  assumes ok: "server_ok d h ins" and rm: "room 1 ins" and q: "queues ins q = Some mq" "m \<in> set (q_msg_queue mq)"
    and x: "msgs ins m = Some x"
  shows "\<exists>i. memqueue_msg_retain m ins = Some i \<and> (\<exists>n. queues i q = Some (mq\<lparr>q_ref_count := n\<rparr>)) \<and>
    memqueue_msg_release m i = Some (touched m x q mq ins) \<and>
    mq_struct (touched m x q mq ins) \<and> ref_ok d (touched m x q mq ins)"
proof -
  have s: "mq_struct ins" and r: "ref_ok d ins" and hd: "hold_ok d ins" and ow: "own_ok d ins"
    using ok by (auto simp: server_ok_def srv_inv_def mq_inv_def)
  have mx: "m_memqueue x = q" using msg_in_own_queue [OF s q] x by auto
  have q': "queues ins (m_memqueue x) = Some mq" using q mx by simp
  have rm': "room (Suc 0) ins" using rm by simp
  define i where "i = ins\<lparr>msgs := (msgs ins)(m \<mapsto> x\<lparr>m_ref_count := m_ref_count x + 1\<rparr>),
      queues := (queues ins)(q \<mapsto> mq\<lparr>q_ref_count := q_ref_count mq + 1\<rparr>)\<rparr>"
  have ret: "memqueue_msg_retain m ins = Some i" using memqueue_msg_retain_ok [OF x q' rm'] by (simp add: i_def mx)
  then have si: "mq_struct i" "ref_ok d i" using msg_retain_inv [OF s r x q' q(2) rm'] by auto
  let ?x = "x\<lparr>m_ref_count := m_ref_count x + 1\<rparr>" and ?mq = "mq\<lparr>q_ref_count := q_ref_count mq + 1\<rparr>"
  have nn: "0 \<le> m_ref_count x" using s x unfolding mq_struct_def owner_ok_def by blast
  have d1: "int (card (consumers_of ins q)) + 1 \<le> d q" using ow q(1) unfolding own_ok_def by blast
  have "q_ref_count mq = d q + sum_list (map (ref_of ins) (q_msg_queue mq))" using r q(1) by (simp add: ref_ok_def)
  then have q1: "q_ref_count ?mq \<noteq> 1" using d1 sum_refs_nonneg [OF s q(1)] by simp
  have ci: "consumers_of i = consumers_of ins" by (simp add: consumers_of_def [abs_def] i_def)
  have cons: "finite (consumers_of i (m_memqueue ?x))" "int (card (consumers_of i (m_memqueue ?x))) \<le> d (m_memqueue ?x)"
    using hd d1 unfolding ci hold_ok_def by (simp_all add: mx)
  have "msgs i m = Some ?x" "queues i (m_memqueue ?x) = Some ?mq" "0 < m_ref_count ?x" using nn by (simp_all add: i_def mx)
  from msg_release_inv [OF si this(1,3,2) cons] q1
  obtain i2 where i2: "memqueue_msg_release m i = Some i2" "mq_struct i2" "ref_ok d i2"
      "i2 = i\<lparr>msgs := (msgs i)(m := msg_after ?x), queue_store := queue_store i, queues := (queues i)(q := queue_after m ?x ?mq)\<rparr>"
    by (auto simp: mx)
  have "i2 = touched m x q mq ins"
    using q1 unfolding i2(4) i_def touched_def msg_after_def queue_after_def Let_def
    by (cases x; cases mq) (auto simp: drop_msg_def)
  then show ?thesis using ret i2 by (intro exI [of _ i]) (auto simp: i_def)
qed

lemma touched_server:
  assumes ok: "server_ok d h ins" and q: "queues ins q = Some mq" "m \<in> set (q_msg_queue mq)" and x: "msgs ins m = Some x"
    and inv: "mq_struct (touched m x q mq ins)" "ref_ok d (touched m x q mq ins)"
  shows "server_ok d h (touched m x q mq ins)"
proof -
  let ?i = "touched m x q mq ins"
  have s: "fresh_ok ins" and hd: "hold_ok d ins" and pk: "pend_ok h ins" and hl: "held_ok d h ins" and sc: "sched_inv ins"
    using ok by (auto simp: server_ok_def srv_inv_def mq_inv_def mq_struct_def)
  have sh: "same_shape ins ?i"
    using q(1) by (auto simp: same_shape_def touched_def drop_msg_def consumers_of_def [abs_def])
  have ci: "consumers_of ?i = consumers_of ins" using sh by (simp add: same_shape_def)
  have pi: "pending ?i = pending ins" "pend_count ?i = pend_count ins"
    by (simp_all add: pending_def [abs_def] pend_count_def [abs_def] touched_def)
  have free: "h m = 0 \<and> (\<forall>b. m \<notin> set (pending ins b))" if "m_ref_count x = 0"
  proof -
    have "h m = 0" "pend_count ins m = 0" using pk x that unfolding pend_ok_def by fastforce+
    then show ?thesis using pend_count_zero [OF s] by blast
  qed
  have "pend_ok h ?i"
    using pk x free unfolding pend_ok_def pi by (auto simp: touched_def split: if_splits)
  moreover have "hold_ok d ?i" using hd shape_binds(3) [OF sh] unfolding hold_ok_def ci by simp
  ultimately have mi: "mq_inv d h ?i" using inv by (simp add: mq_inv_def)
  have ns: "m_ref_count x = 0 \<Longrightarrow> \<not> is_sched ins MSG_TYPE m" using free hl unfolding held_ok_def by fastforce
  have nx: "get_expiry_next ty obj ?i = Some (Some a) \<longleftrightarrow> get_expiry_next ty obj ins = Some (Some a)" for ty obj a
    using ns x q(1) by (cases ty) (auto simp: get_expiry_next_def touched_def is_sched_def drop_msg_def)
  have "sched_inv ?i"
    by (rule sched_inv_links [OF sc _ _ _ _ nx]) (auto simp: touched_def exp_root_def split: obj_type.split)
  moreover have "held_ok d h ?i" using hl nx unfolding held_ok_def ci is_sched_def by blast
  ultimately show ?thesis using mi by (intro shape_server_ok [OF sh ok]) (simp add: srv_inv_def)
qed

lemma full_branches:
  assumes "server_ok d h ins" "room 1 ins" "queues ins q = Some mq"
  shows "is_memqueue_full q ins =
      (if q_max_size mq \<le> 0 \<or> q_msgs_in_queue mq < q_max_size mq then Some (0, ins)
       else if q_drop_from_head mq = 0 then Some (1, ins)
       else let m = hd (q_msg_queue mq); x = the (msgs ins m) in Some (0, touched m x q mq ins)) \<and>
    (\<forall>r i. is_memqueue_full q ins = Some (r, i) \<longrightarrow> server_ok d h i)"
proof (cases "q_max_size mq \<le> 0 \<or> q_msgs_in_queue mq < q_max_size mq \<or> q_drop_from_head mq = 0")
  case True
  then show ?thesis using assms(1,3) by (auto simp: is_memqueue_full_def)
next
  case False
  have s: "mq_struct ins" using assms(1) by (simp add: server_ok_def srv_inv_def mq_inv_def)
  then have "q_msgs_in_queue mq = int (length (q_msg_queue mq))" using assms(3) by (auto simp: mq_struct_def msg_ok_def)
  then obtain m ms where m: "q_msg_queue mq = m # ms" using False by (cases "q_msg_queue mq") auto
  then have q: "m \<in> set (q_msg_queue mq)" by simp
  obtain x where x: "msgs ins m = Some x" using msg_in_own_queue [OF s assms(3) q] by blast
  obtain i n where i: "memqueue_msg_retain m ins = Some i" "queues i q = Some (mq\<lparr>q_ref_count := n\<rparr>)"
      "memqueue_msg_release m i = Some (touched m x q mq ins)"
      "mq_struct (touched m x q mq ins)" "ref_ok d (touched m x q mq ins)"
    using retain_release [OF assms(1,2,3) q x] by blast
  have "server_ok d h (touched m x q mq ins)" by (rule touched_server [OF assms(1,3) q x i(4,5)])
  then show ?thesis using False assms(3) i m x by (auto simp: is_memqueue_full_def)
qed

subsection \<open>The messages of a poll\<close>

lemma filter_sorted_suffix:
  fixes c :: int
  shows "sorted_wrt (<) (map f xs) \<Longrightarrow> filter (\<lambda>x. c < f x) xs = dropWhile (\<lambda>x. f x \<le> c) xs"
proof (induction xs)
  case (Cons x xs)
  then have "c < f x \<Longrightarrow> filter (\<lambda>y. c < f y) xs = xs" by (intro filter_True) auto
  with Cons show ?case by auto
qed simp

text \<open>Messages are ordered by revision, so a poll gets a suffix of the list.\<close>

lemma selected_suffix:
  assumes s: "mq_struct ins" and q: "queues ins q = Some mq"
  shows "selected ins rv 0 (q_msg_queue mq) = dropWhile (\<lambda>m. rev_of ins m \<le> rv) (q_msg_queue mq)"
proof -
  have "sorted_wrt (<) (map (rev_of ins) (q_msg_queue mq))" using s q by (auto simp: mq_struct_def msg_ok_def)
  moreover have "selected ins rv 0 (q_msg_queue mq) = filter (\<lambda>m. rv < rev_of ins m) (q_msg_queue mq)"
    unfolding selected_def
  proof (rule filter_cong [OF refl])
    fix m assume "m \<in> set (q_msg_queue mq)"
    from msg_in_own_queue [OF s q this] show "(case msgs ins m of Some x \<Rightarrow> rv < m_rev x \<or> (0 :: int) \<noteq> 0 \<and> m_new x = 1
        | None \<Rightarrow> False) = (rv < rev_of ins m)" by auto
  qed
  ultimately show ?thesis by (simp add: filter_sorted_suffix)
qed

subsection \<open>Answers to requests for missing queues\<close>

definition not_found :: response where
  "not_found = (404, JObject [(''version'', JString ''memqueue 1.0''), (''ret'', JString ''MEMQUEUE_NOT_FOUND''),
     (''error'', JString ''memqueue not found'')])"

definition exists_already :: response where
  "exists_already = (200, JObject [(''version'', JString ''memqueue 1.0''), (''ret'', JString ''MEMQUEUE_EXISTS''),
     (''error'', JString ''memqueue already exists'')])"

lemma respond_errors:
  "memqueue_respond MEMQUEUE_NOT_FOUND p ins = Some (not_found, ins)"
  "memqueue_respond MEMQUEUE_EXISTS p ins = Some (exists_already, ins)"
  by (simp_all add: memqueue_respond_def respond_body_def json_object_new_object_def json_object_new_string_def c_str_def
      not_found_def exists_already_def)

subsection \<open>Properties\<close>

text \<open>
  The start of the server succeeds and establishes the invariant, with no queue, message or
  poller.
\<close>

lemma memqueue_init_correct:
  "\<exists>i. memqueue_init (memqueue_ins0\<lparr>now := t\<rparr>) = (0, i) \<and> server_ok (\<lambda>_. 0) (\<lambda>_. 0) i \<and>
    queues i = Map.empty \<and> msgs i = Map.empty \<and> cli_binders i = Map.empty \<and> h_entries (queue_store i) = []"
  using memqueue_init_server by blast

text \<open>
  C8. Creating a queue under a new name, with enough memory, succeeds and keeps the invariant: the
  queue is empty, held by one reference, entered into the store behind the other queues and
  scheduled to expire when it has an expiry; the other queues and all other deadlines stay.
\<close>

theorem memqueue_create_correct:
  assumes "server_ok d h ins" "oom ins = []" "ca_q_id args = Some qid" "map_of (h_entries (queue_store ins)) qid = None"
  shows "\<exists>j mq u v. memqueue_create args ins = Some (Some (next_addr ins), j) \<and> server_ok (d(next_addr ins := 1)) h j \<and>
    queues ins (next_addr ins) = None \<and> queues j (next_addr ins) = Some mq \<and>
    mq = (new_queue args qid (q_consumers mq))\<lparr>q_ref_count := 1, q_expiry_next := u, q_expiry_node := v\<rparr> \<and>
    h_entries (queue_store j) = h_entries (queue_store ins) @ [(qid, next_addr ins)] \<and>
    (\<forall>q' mq0. queues ins q' = Some mq0 \<longrightarrow> (\<exists>u v. queues j q' = Some (mq0\<lparr>q_expiry_next := u, q_expiry_node := v\<rparr>))) \<and>
    (\<forall>ty obj. deadline j ty obj = (if ca_expiry args > 0 \<and> ty = MEMQUEUE_TYPE \<and> obj = next_addr ins
       then Some (now_ms ins + ca_expiry args) else deadline ins ty obj))"
  using memqueue_create_server [OF assms] by blast

text \<open>
  C4. A new message is appended to its queue with the next revision and entered as a pending message
  of every poller bound to the queue at that revision, once per binding, in the order of the
  bindings, and these pollers are woken; it expires when it has an expiry; the other queues only
  change in their counts, and the invariant is kept.
\<close>

theorem memqueue_msg_create_correct:
  assumes "server_ok d h ins" "oom ins = []" "queues ins q = Some mq" "room (length (q_memqueue_binders mq) + 2) ins"
  shows "\<exists>ins' x n w. memqueue_msg_create q msecs data data_len ins = Some (0, ins') \<and>
    server_ok d (h(Suc (next_addr ins) := own_refs msecs)) ins' \<and>
    queues ins' q = Some (mq\<lparr>q_rev := q_rev mq + 1, q_msg_queue := q_msg_queue mq @ [Suc (next_addr ins)],
       q_msgs_in_queue := q_msgs_in_queue mq + 1, q_ref_count := n\<rparr>) \<and>
    msgs ins' (Suc (next_addr ins)) = Some x \<and> m_rev x = q_rev mq + 1 \<and> m_data x = data \<and> m_data_len x = data_len \<and>
    (\<forall>b. pending ins' b = pending ins b @
       replicate (count_list (receivers ins (q_rev mq + 1) (q_memqueue_binders mq)) b) (Suc (next_addr ins))) \<and>
    signals ins' = w @ map Some (receivers ins (q_rev mq + 1) (q_memqueue_binders mq)) \<and>
    (\<forall>ty obj. deadline ins' ty obj = (if msecs > 0 \<and> ty = MSG_TYPE \<and> obj = Suc (next_addr ins)
       then Some (now_ms ins + word_of_int msecs) else deadline ins ty obj)) \<and>
    (\<forall>q' mq0. q' \<noteq> q \<and> queues ins q' = Some mq0 \<longrightarrow> (\<exists>n. queues ins' q' = Some (mq0\<lparr>q_ref_count := n\<rparr>)))"
proof -
  have "room (length (q_memqueue_binders mq) + 0 + 2) ins" using assms(4) by simp
  from msg_create_server [OF assms(1-3) this, of msecs data data_len] show ?thesis by blast
qed

text \<open>
  A poll from a revision on gets exactly the messages behind that revision, which are a suffix of
  the list of the queue, in order; nothing else becomes pending for any poller.
\<close>

lemma cli_binder_enqueue_msgs_correct:
  fixes rv :: int
  assumes "server_ok d h ins" "oom ins = []" "room (length (q_msg_queue mq)) ins" "cli_binders ins b = Some cb"
    "queues ins q = Some mq"
  defines "sel \<equiv> dropWhile (\<lambda>m. rev_of ins m \<le> rv) (q_msg_queue mq)"
  shows "\<exists>ins'. cli_binder_enqueue_msgs b q rv 0 ins = Some (int (length sel), ins') \<and> server_ok d h ins' \<and>
    (\<forall>b'. pending ins' b' = pending ins b' @ (if b' = b then sel else []))"
proof -
  have inv: "mq_inv d h ins" "mq_struct ins" using assms(1) by (auto simp: server_ok_def srv_inv_def mq_inv_def)
  have sel: "selected ins rv 0 (q_msg_queue mq) = sel" unfolding sel_def by (rule selected_suffix [OF inv(2) assms(5)])
  have "room (length (q_msg_queue mq) + 0) ins" using assms(3) by simp
  from enqueue_loop_ok [OF inv(1) assms(2) this assms(4,5) order_refl, of rv 0 0]
  obtain ins' where i: "enqueue_loop b rv 0 (q_msg_queue mq) 0 ins = Some (int (length sel), ins')" "mq_inv d h ins'"
      "quiet ins ins'" "\<forall>b'. pending ins' b' = pending ins b' @ (if b' = b then sel else [])"
    unfolding sel by auto
  then show ?thesis
    using quiet_server_ok [OF i(3) assms(1) i(2)] assms(5) by (simp add: cli_binder_enqueue_msgs_def)
qed


text \<open>
  C6. The end of a poll answers with the pending messages, grouped by queue, or with a timeout when
  there are none. It keeps the invariant, takes the bindings of the poller and only these off the
  queues, frees the poller, and frees exactly the messages that nothing but this poller held.
\<close>

theorem memqueue_poll_finish_correct:
  assumes "server_ok d h ins" "cli_binders ins b = Some cb" "answerable ins (cb_pending_msgs cb)"
  shows "\<exists>i. memqueue_poll_finish b ins =
      Some (if cb_pending_msgs cb = [] then timeout_answer else msgs_answer ins cb, i) \<and> server_ok d h i \<and>
    cli_binders i = (cli_binders ins)(b := None) \<and> dom (msgs i) = dom (msgs ins) - last_held h ins b \<and>
    dom (queues i) = dom (queues ins) \<and>
    (\<forall>q mq. queues ins q = Some mq \<longrightarrow> (\<exists>mq'. queues i q = Some mq' \<and> q_rev mq' = q_rev mq \<and>
       q_msg_queue mq' = filter (\<lambda>m. m \<in> dom (msgs i)) (q_msg_queue mq) \<and>
       q_memqueue_binders mq' = filter (\<lambda>t. t \<notin> set (cb_memqueues cb)) (q_memqueue_binders mq)))"
  by (rule poll_finish_ok [OF assms])

text \<open>
  C20. A queue without a maximal size, or below it, is never full; a full queue that does not drop
  is left alone and the request is refused. A full queue that drops from the head loses its first
  message only when nothing holds that message; otherwise its list stays as long as it was.
\<close>

theorem is_memqueue_full_correct:
  assumes "server_ok d h ins" "room 1 ins" "queues ins q = Some mq"
  shows "is_memqueue_full q ins =
      (if q_max_size mq \<le> 0 \<or> q_msgs_in_queue mq < q_max_size mq then Some (0, ins)
       else if q_drop_from_head mq = 0 then Some (1, ins)
       else let m = hd (q_msg_queue mq); x = the (msgs ins m) in Some (0, touched m x q mq ins)) \<and>
    (\<forall>r i. is_memqueue_full q ins = Some (r, i) \<longrightarrow> server_ok d h i)"
  by (rule full_branches [OF assms])

text \<open>
  A request that names a queue that does not exist is answered with 404 and changes nothing:
  posting a message, asking for information and deleting; a poll allocates and frees its poller.
\<close>

lemma missing_queue_answers:
  assumes "server_ok d h ins" "oom ins = []" "path_arg args ''q_id'' = Some (Some qid)"
    "map_of (h_entries (queue_store ins)) qid = None" "pa_total ua = 1" "queue_args ua = a # rest" "qa_q_id a = Some qid"
  shows "on_msg_post args qs body ins = Some (Some (Answered not_found), 0, ins) \<and>
    on_queue_info args ins = Some (Some (Answered not_found), 0, ins) \<and>
    on_queue_delete args ins = Some (Some (Answered not_found), 0, ins) \<and>
    memqueue_poll_queue ua ins = Some (Answered not_found, ins\<lparr>next_addr := Suc (next_addr ins)\<rparr>)"
proof -
  have "h_wf (queue_store ins)" using assms(1) by (simp add: server_ok_def srv_inv_def mq_inv_def mq_struct_def store_ok_def)
  then have g: "h_get (queue_store ins) qid = Some None" using assms(4) by (simp add: hh.get_entries)
  have "cli_binders ins (next_addr ins) = None"
    using server_fresh(1) [OF assms(1), of "next_addr ins"] by (cases "cli_binders ins (next_addr ins)") auto
  then have f: "(cli_binders ins)(next_addr ins := None) = cli_binders ins" by (simp add: fun_upd_idem)
  show ?thesis
    using g assms(2,3,5-7) f
    by (simp add: on_msg_post_def on_queue_info_def on_queue_delete_def respond_errors memqueue_poll_queue_def
        poll_one_def cli_binder_create_def cli_binder_free_def calloc_ok)
qed

text \<open>
  C7. What is posted is what the next poll gets: a message posted to a queue is the one message a
  poll from the former revision gets, with its text, and the revision goes up by one.
\<close>

theorem post_then_poll:
  assumes "server_ok d h ins" "oom ins = []" "pa_total ua = 1" "queue_args ua = a # rest"
    "qa_q_id a = Some qid" "qa_consumer_id a = None" "qa_latest a = 0" "qa_rev a = q_rev mq"
    "map_of (h_entries (queue_store ins)) qid = Some q" "queues ins q = Some mq" "linked_ok mq"
    "room (length (q_memqueue_binders mq) + length (q_msg_queue mq) + 3) ins" "length data < 2 ^ 31"
  shows "\<exists>i j. memqueue_msg_create q msecs data (of_nat (length data)) ins = Some (0, i) \<and>
    memqueue_poll_queue ua i =
      Some (Answered (poll_answer qid (mq\<lparr>q_rev := q_rev mq + 1\<rparr>) a [json_object_new_string data]), j)"
proof -
  let ?m = "Suc (next_addr ins)" and ?len = "of_nat (length data) :: 64 word"
  have "room (length (q_memqueue_binders mq) + (length (q_msg_queue mq) + 1) + 2) ins"
    using assms(12) by (simp add: numeral_3_eq_3)
  from msg_create_server [OF assms(1,2,10) this, of msecs data ?len]
  obtain i x n where i: "memqueue_msg_create q msecs data ?len ins = Some (0, i)"
      "server_ok d (h(?m := own_refs msecs)) i" "oom i = []" "room (length (q_msg_queue mq) + 1) i"
      "queues i q = Some (mq\<lparr>q_rev := q_rev mq + 1, q_msg_queue := q_msg_queue mq @ [?m],
         q_msgs_in_queue := q_msgs_in_queue mq + 1, q_ref_count := n\<rparr>)" "queue_store i = queue_store ins"
      "msgs i ?m = Some x" "m_rev x = q_rev mq + 1" "m_data x = data" "m_data_len x = ?len"
    by blast
  let ?mq = "mq\<lparr>q_rev := q_rev mq + 1, q_msg_queue := q_msg_queue mq @ [?m],
         q_msgs_in_queue := q_msgs_in_queue mq + 1, q_ref_count := n\<rparr>"
  have si: "mq_struct i" using i(2) by (simp add: server_ok_def srv_inv_def mq_inv_def)
  have "sorted_wrt (<) (map (rev_of i) (q_msg_queue mq @ [?m]))" using si i(5) by (fastforce simp: mq_struct_def msg_ok_def)
  then have "\<forall>k \<in> set (q_msg_queue mq). rev_of i k \<le> q_rev mq" using i(7,8) by (auto simp: sorted_wrt_append)
  then have "dropWhile (\<lambda>k. rev_of i k \<le> q_rev mq) (q_msg_queue ?mq) = [?m]"
    using i(7,8) by (simp add: dropWhile_append2)
  moreover have pr: "poll_rev ?mq a = q_rev mq" using assms(8) by (simp add: poll_rev_def)
  ultimately have sel: "selected i (poll_rev ?mq a) (qa_latest a) (q_msg_queue ?mq) = [?m]"
    unfolding pr assms(7) using selected_suffix [OF si i(5), of "q_rev mq"] by simp
  have ul: "unat ?len = length data" using assms(13) by (simp add: unat_of_nat take_bit_nat_eq_self)
  have tx: "msg_text i ?m = json_object_new_string data"
    using i(7,9,10) ul by (simp add: msg_text_def json_object_new_string_len_def json_object_new_string_def)
  have len: "m_data_len y < 2 ^ 31" if "k \<in> set (selected i (poll_rev ?mq a) (qa_latest a) (q_msg_queue ?mq))" "msgs i k = Some y" for k y
    using that i(7,10) ul assms(13) unfolding sel by (auto simp: word_less_nat_alt)
  have "qa_consumer_id a = None \<or> q_consumer_expiry ?mq = 0" "linked_ok ?mq" "room (length (q_msg_queue ?mq)) i"
    "map_of (h_entries (queue_store i)) qid = Some q"
    using assms(6,9,11) i(4,6) by (simp_all add: linked_ok_def)
  note P = poll_queue_ok(2) [OF i(2,3) assms(3-5) this(1,4) i(5) this(2,3)]
  have "\<exists>j. memqueue_poll_queue ua i = Some (Answered (poll_answer qid ?mq a (map (msg_text i) [?m])), j)"
    using P len unfolding sel by blast
  then obtain j where "memqueue_poll_queue ua i = Some (Answered (poll_answer qid ?mq a [json_object_new_string data]), j)"
    by (auto simp: tx)
  moreover have "poll_answer qid ?mq a ts = poll_answer qid (mq\<lparr>q_rev := q_rev mq + 1\<rparr>) a ts" for ts
    by (simp add: poll_answer_def)
  ultimately show ?thesis using i(1) by auto
qed

subsection \<open>A server at work\<close>

text \<open>A started server, with a queue that drops its head when it is full, and with a message.\<close>

definition demo_start :: memqueue_ins where
  "demo_start = snd (memqueue_init (memqueue_ins0\<lparr>now := 5000\<rparr>))"

definition demo_args :: memqueue_create_args where
  "demo_args = \<lparr>ca_expiry = 0, ca_max_size = 1, ca_consumer_expiry = 0, ca_drop_from_head = 1, ca_q_id = Some ''jobs''\<rparr>"

definition demo_q :: addr where
  "demo_q = next_addr demo_start"

definition demo_server :: memqueue_ins where
  "demo_server = snd (the (memqueue_create demo_args demo_start))"

definition demo_mq :: memqueue where
  "demo_mq = the (queues demo_server demo_q)"

definition demo_posted :: memqueue_ins where
  "demo_posted = snd (the (memqueue_msg_create demo_q 5000 ''hello'' 5 demo_server))"

definition demo_poll :: poll_args where
  "demo_poll = \<lparr>queue_args = [\<lparr>qa_rev = 0, qa_latest = 0, qa_consumer_id = None, qa_q_id = Some ''jobs'',
     qa_include_consumers = 0\<rparr>], pa_timeout = 1000, pa_total = 1\<rparr>"

definition demo_missing :: poll_args where
  "demo_missing = \<lparr>queue_args = [\<lparr>qa_rev = 0, qa_latest = 0, qa_consumer_id = None, qa_q_id = Some ''none'',
     qa_include_consumers = 0\<rparr>], pa_timeout = 1000, pa_total = 1\<rparr>"

definition demo_path :: args where
  "demo_path = Some (snd (the (h_insert True (the (h_init True True 128)) ''q_id'' ''none'')))"

abbreviation demo_d :: "addr \<Rightarrow> int" where
  "demo_d \<equiv> (\<lambda>_. 0)(demo_q := 1)"

lemma demo_start_facts:
  "server_ok (\<lambda>_. 0) (\<lambda>_. 0) demo_start" "oom demo_start = []" "h_entries (queue_store demo_start) = []" "room k demo_start"
  using memqueue_init_server [of 5000] by (auto simp: demo_start_def room_def)

lemma demo_server_facts:
  "server_ok demo_d (\<lambda>_. 0) demo_server" "oom demo_server = []" "queues demo_server demo_q = Some demo_mq"
  "h_entries (queue_store demo_server) = [(''jobs'', demo_q)]" "k < 2 ^ 31 - 1 \<Longrightarrow> room k demo_server"
  "q_memqueue_binders demo_mq = []" "q_msg_queue demo_mq = []" "q_rev demo_mq = 0" "linked_ok demo_mq"
  "q_consumer_expiry demo_mq = 0" "q_q_id demo_mq = ''jobs''" "q_max_size demo_mq = 1" "q_drop_from_head demo_mq = 1"
proof -
  have "ca_q_id demo_args = Some ''jobs''" "map_of (h_entries (queue_store demo_start)) ''jobs'' = None"
    by (simp_all add: demo_args_def demo_start_facts)
  from memqueue_create_server [OF demo_start_facts(1,2) this]
  obtain j mq u v where j: "memqueue_create demo_args demo_start = Some (Some demo_q, j)" "server_ok demo_d (\<lambda>_. 0) j"
      "oom j = []" "queues j demo_q = Some mq"
      "mq = (new_queue demo_args ''jobs'' (q_consumers mq))\<lparr>q_ref_count := 1, q_expiry_next := u, q_expiry_node := v\<rparr>"
      "h_entries (queue_store j) = [(''jobs'', demo_q)]" "\<forall>k. room k demo_start \<and> k < 2 ^ 31 - 1 \<longrightarrow> room k j"
      "ca_expiry demo_args = 0 \<longrightarrow> u = None \<and> v = None"
    unfolding demo_q_def demo_start_facts(3) by auto
  have s: "demo_server = j" "demo_mq = mq" using j(1,4) by (simp_all add: demo_server_def demo_mq_def)
  have uv: "u = None" "v = None" using j(8) by (simp_all add: demo_args_def)
  show "server_ok demo_d (\<lambda>_. 0) demo_server" "oom demo_server = []" "queues demo_server demo_q = Some demo_mq"
    "h_entries (queue_store demo_server) = [(''jobs'', demo_q)]" "k < 2 ^ 31 - 1 \<Longrightarrow> room k demo_server"
    using j demo_start_facts(4) unfolding s by blast+
  show "q_memqueue_binders demo_mq = []" "q_msg_queue demo_mq = []" "q_rev demo_mq = 0" "linked_ok demo_mq"
    "q_consumer_expiry demo_mq = 0" "q_q_id demo_mq = ''jobs''" "q_max_size demo_mq = 1" "q_drop_from_head demo_mq = 1"
    unfolding s by (subst j(5), simp add: uv linked_ok_def demo_args_def new_queue_def)+
qed

definition demo_mq1 :: memqueue where
  "demo_mq1 = the (queues demo_posted demo_q)"

abbreviation demo_m :: addr where
  "demo_m \<equiv> Suc (next_addr demo_server)"

abbreviation demo_h :: "addr \<Rightarrow> int" where
  "demo_h \<equiv> (\<lambda>_. 0)(demo_m := 1)"

lemma demo_posted_facts:
  "server_ok demo_d demo_h demo_posted" "oom demo_posted = []" "queues demo_posted demo_q = Some demo_mq1"
  "h_entries (queue_store demo_posted) = [(''jobs'', demo_q)]" "room 100 demo_posted"
  "q_msg_queue demo_mq1 = [demo_m]" "q_rev demo_mq1 = 1" "linked_ok demo_mq1" "q_max_size demo_mq1 = 1"
  "q_drop_from_head demo_mq1 = 1" "m_data_len (the (msgs demo_posted demo_m)) = 5"
  "rev_of demo_posted demo_m = 1"
proof -
  have "room (length (q_memqueue_binders demo_mq) + 100 + 2) demo_server" by (rule demo_server_facts(5)) (simp add: demo_server_facts)
  from msg_create_server [OF demo_server_facts(1-3) this, of 5000 "''hello''" 5]
  obtain i x n where i: "memqueue_msg_create demo_q 5000 ''hello'' 5 demo_server = Some (0, i)"
      "server_ok demo_d demo_h i" "oom i = []" "room 100 i"
      "queues i demo_q = Some (demo_mq\<lparr>q_rev := q_rev demo_mq + 1, q_msg_queue := q_msg_queue demo_mq @ [demo_m],
         q_msgs_in_queue := q_msgs_in_queue demo_mq + 1, q_ref_count := n\<rparr>)" "queue_store i = queue_store demo_server"
      "msgs i demo_m = Some x" "m_data_len x = 5" "m_rev x = q_rev demo_mq + 1"
    by (auto simp: own_refs_def)
  have s: "demo_posted = i" using i(1) by (simp add: demo_posted_def)
  show "server_ok demo_d demo_h demo_posted" "oom demo_posted = []" "queues demo_posted demo_q = Some demo_mq1"
    "h_entries (queue_store demo_posted) = [(''jobs'', demo_q)]" "room 100 demo_posted"
    "q_msg_queue demo_mq1 = [demo_m]" "q_rev demo_mq1 = 1" "linked_ok demo_mq1" "q_max_size demo_mq1 = 1"
    "q_drop_from_head demo_mq1 = 1" "m_data_len (the (msgs demo_posted demo_m)) = 5"
    "rev_of demo_posted demo_m = 1"
    using i(2-9) demo_server_facts by (simp_all add: demo_mq1_def s linked_ok_def)
qed

text \<open>A new poller, and the poller with the message pending.\<close>

definition demo_b :: addr where
  "demo_b = next_addr demo_posted"

definition demo_client :: memqueue_ins where
  "demo_client = snd (cli_binder_create 1000 demo_posted)"

definition demo_cb :: cli_binder where
  "demo_cb = \<lparr>cb_timeout = 1000, cb_memqueues = [], cb_pending_msgs = []\<rparr>"

definition demo_pending :: memqueue_ins where
  "demo_pending = snd (the (cli_binder_enqueue_msgs demo_b demo_q 0 0 demo_client))"

lemma demo_client_facts:
  "server_ok demo_d demo_h demo_client" "oom demo_client = []" "queues demo_client demo_q = Some demo_mq1"
  "cli_binders demo_client demo_b = Some demo_cb" "room 1 demo_client" "msgs demo_client = msgs demo_posted"
proof -
  obtain i where i: "cli_binder_create 1000 demo_posted = (Some demo_b, i)" "rewired demo_posted i" "server_ok demo_d demo_h i"
      "queues i = queues demo_posted" "cli_binders i demo_b = Some demo_cb"
    using cli_binder_create_ok [OF demo_posted_facts(1,2)] unfolding demo_b_def demo_cb_def by blast
  have s: "demo_client = i" using i(1) by (simp add: demo_client_def)
  have "room 1 i" by (rule rewired_room [OF i(2) room_mono [OF demo_posted_facts(5)]]) simp
  then show "server_ok demo_d demo_h demo_client" "oom demo_client = []" "queues demo_client demo_q = Some demo_mq1"
    "cli_binders demo_client demo_b = Some demo_cb" "room 1 demo_client" "msgs demo_client = msgs demo_posted"
    using i demo_posted_facts(2,3) by (simp_all add: s rewired_def)
qed

lemma demo_pending_facts:
  "server_ok demo_d demo_h demo_pending"
  "cli_binders demo_pending demo_b = Some (demo_cb\<lparr>cb_pending_msgs := [demo_m]\<rparr>)" "answerable demo_pending [demo_m]"
proof -
  have inv: "mq_inv demo_d demo_h demo_client" "mq_struct demo_client"
    using demo_client_facts(1) by (auto simp: server_ok_def srv_inv_def mq_inv_def)
  have "rev_of demo_client demo_m = 1" using demo_posted_facts(12) demo_client_facts(6) by (simp add: rev_of_def)
  then have sel: "selected demo_client 0 0 (q_msg_queue demo_mq1) = [demo_m]"
    unfolding selected_suffix [OF inv(2) demo_client_facts(3)] by (simp add: demo_posted_facts)
  have "room (length (q_msg_queue demo_mq1) + 0) demo_client" using demo_client_facts(5) by (simp add: demo_posted_facts)
  from enqueue_loop_ok [OF inv(1) demo_client_facts(2) this demo_client_facts(4,3) order_refl, of 0 0 0]
  obtain i where i: "enqueue_loop demo_b 0 0 (q_msg_queue demo_mq1) 0 demo_client = Some (1, i)" "mq_inv demo_d demo_h i"
      "quiet demo_client i" "pending i demo_b = [demo_m]"
    unfolding sel using demo_client_facts(4) by (auto simp: demo_cb_def)
  have s: "demo_pending = i" using i(1) demo_client_facts(3) by (simp add: demo_pending_def cli_binder_enqueue_msgs_def)
  show ok: "server_ok demo_d demo_h demo_pending" unfolding s by (rule quiet_server_ok [OF i(3) demo_client_facts(1) i(2)])
  show "cli_binders demo_pending demo_b = Some (demo_cb\<lparr>cb_pending_msgs := [demo_m]\<rparr>)"
    using quiet_cli_pending [OF i(3) demo_client_facts(4)] i(4) by (simp add: s)
  obtain x where x: "msgs demo_client demo_m = Some x" "m_memqueue x = demo_q"
    using msg_in_own_queue [OF inv(2) demo_client_facts(3)] by (auto simp: demo_posted_facts)
  obtain y where "msgs i demo_m = Some y" "m_data_len y = m_data_len x" "m_memqueue y = m_memqueue x"
    using quiet_msg [OF i(3) x(1)] by blast
  moreover have "m_data_len x = 5" using x(1) demo_posted_facts(11) demo_client_facts(6) by simp
  moreover have "queues i demo_q \<noteq> None" using quiet_list [OF i(3) demo_client_facts(3)] by auto
  ultimately show "answerable demo_pending [demo_m]" using x by (simp add: answerable_def s)
qed

subsection \<open>Witnesses\<close>

theorem memqueue_create_correct_witness:
  "\<exists>j mq u v. memqueue_create demo_args demo_start = Some (Some (next_addr demo_start), j) \<and>
    server_ok ((\<lambda>_. 0)(next_addr demo_start := 1)) (\<lambda>_. 0) j \<and> queues demo_start (next_addr demo_start) = None \<and>
    queues j (next_addr demo_start) = Some mq \<and>
    mq = (new_queue demo_args ''jobs'' (q_consumers mq))\<lparr>q_ref_count := 1, q_expiry_next := u, q_expiry_node := v\<rparr> \<and>
    h_entries (queue_store j) = [(''jobs'', next_addr demo_start)]"
proof -
  have "ca_q_id demo_args = Some ''jobs''" "map_of (h_entries (queue_store demo_start)) ''jobs'' = None"
    by (simp_all add: demo_args_def demo_start_facts)
  from memqueue_create_correct [OF demo_start_facts(1,2) this] show ?thesis
    unfolding demo_start_facts(3) append_Nil by blast
qed

theorem memqueue_msg_create_correct_witness:
  "\<exists>ins' n. memqueue_msg_create demo_q 5000 ''hello'' 5 demo_server = Some (0, ins') \<and>
    server_ok demo_d ((\<lambda>_. 0)(demo_m := own_refs 5000)) ins' \<and>
    queues ins' demo_q = Some (demo_mq\<lparr>q_rev := q_rev demo_mq + 1, q_msg_queue := q_msg_queue demo_mq @ [demo_m],
       q_msgs_in_queue := q_msgs_in_queue demo_mq + 1, q_ref_count := n\<rparr>)"
proof -
  have "room (length (q_memqueue_binders demo_mq) + 2) demo_server" by (rule demo_server_facts(5)) (simp add: demo_server_facts)
  from memqueue_msg_create_correct [OF demo_server_facts(1-3) this, of 5000 "''hello''" 5] show ?thesis by blast
qed

lemma cli_binder_enqueue_msgs_correct_witness:
  "\<exists>ins'. cli_binder_enqueue_msgs demo_b demo_q 0 0 demo_client = Some (1, ins') \<and> server_ok demo_d demo_h ins' \<and>
    pending ins' demo_b = [demo_m]"
proof -
  have r: "room (length (q_msg_queue demo_mq1)) demo_client" using demo_client_facts(5) by (simp add: demo_posted_facts)
  have "rev_of demo_client demo_m = 1" using demo_posted_facts(12) demo_client_facts(6) by (simp add: rev_of_def)
  then show ?thesis
    using cli_binder_enqueue_msgs_correct [OF demo_client_facts(1,2) r demo_client_facts(4,3), of 0] demo_client_facts(4)
    by (auto simp: demo_posted_facts demo_cb_def)
qed


theorem memqueue_poll_finish_correct_witness:
  "\<exists>i. memqueue_poll_finish demo_b demo_pending =
      Some (msgs_answer demo_pending (demo_cb\<lparr>cb_pending_msgs := [demo_m]\<rparr>), i) \<and> server_ok demo_d demo_h i \<and>
    cli_binders i = (cli_binders demo_pending)(demo_b := None) \<and>
    dom (msgs i) = dom (msgs demo_pending) - last_held demo_h demo_pending demo_b"
  using memqueue_poll_finish_correct [OF demo_pending_facts(1,2)] demo_pending_facts(3) by auto

theorem is_memqueue_full_correct_witness:
  "is_memqueue_full demo_q demo_posted =
    Some (0, touched demo_m (the (msgs demo_posted demo_m)) demo_q demo_mq1 demo_posted)"
proof -
  have "mq_struct demo_posted" using demo_posted_facts(1) by (simp add: server_ok_def srv_inv_def mq_inv_def)
  then have "q_msgs_in_queue demo_mq1 = 1" using demo_posted_facts(3,6) by (auto simp: mq_struct_def msg_ok_def)
  then show ?thesis
    using is_memqueue_full_correct [OF demo_posted_facts(1) room_mono [OF demo_posted_facts(5)] demo_posted_facts(3)] demo_posted_facts
    by simp
qed

lemma demo_path_arg: "path_arg demo_path ''q_id'' = Some (Some ''none'')"
proof -
  obtain h :: "cstring h_hash" where h: "h_init True True 128 = Some h" "h_wf h" "h_entries h = []"
    using h_init_wf [of 128] by auto
  obtain h' where h': "h_insert True h ''q_id'' ''none'' = Some (0, h')" "h_wf h'" "h_entries h' = [(''q_id'', ''none'')]"
    using hh.ins_new [OF h(2), of "''q_id''" "''none''"] h(3) by auto
  then show ?thesis by (simp add: demo_path_def path_arg_def h(1) hh.get_entries)
qed

lemma missing_queue_answers_witness:
  "on_msg_post demo_path Map.empty ''x'' demo_server = Some (Some (Answered not_found), 0, demo_server) \<and>
    on_queue_info demo_path demo_server = Some (Some (Answered not_found), 0, demo_server) \<and>
    on_queue_delete demo_path demo_server = Some (Some (Answered not_found), 0, demo_server) \<and>
    memqueue_poll_queue demo_missing demo_server = Some (Answered not_found, demo_server\<lparr>next_addr := Suc (next_addr demo_server)\<rparr>)"
  by (rule missing_queue_answers [OF demo_server_facts(1,2) demo_path_arg,
        where ua = demo_missing and a = "hd (queue_args demo_missing)" and rest = "[]"])
    (simp_all add: demo_server_facts demo_missing_def)

theorem post_then_poll_witness:
  "\<exists>i j. memqueue_msg_create demo_q 5000 ''hello'' (of_nat (length ''hello'')) demo_server = Some (0, i) \<and>
    memqueue_poll_queue demo_poll i = Some (Answered (poll_answer ''jobs'' (demo_mq\<lparr>q_rev := q_rev demo_mq + 1\<rparr>)
      (hd (queue_args demo_poll)) [json_object_new_string ''hello'']), j)"
proof -
  have "room (length (q_memqueue_binders demo_mq) + length (q_msg_queue demo_mq) + 3) demo_server"
    by (rule demo_server_facts(5)) (simp add: demo_server_facts)
  then show ?thesis
    by (intro post_then_poll [OF demo_server_facts(1,2), where rest = "[]"])
      (simp_all add: demo_server_facts demo_poll_def)
qed

end
