(* ===== verification/Memqueue_Calm.thy ===== *)
theory Memqueue_Calm
  imports Memqueue_Expire Memqueue_Props
begin

text \<open>
  A server whose queues and consumers do not expire: with enough memory, no operation on behalf of a
  request changes that, and no operation frees a poller that waits.
\<close>

definition calm_q :: "memqueue \<Rightarrow> bool" where
  "calm_q mq \<longleftrightarrow> q_expiry_next mq = None \<and> q_expiry_node mq = None \<and> q_consumer_expiry mq = 0"

text \<open>\<open>W\<close> is a set of live pollers.\<close>

definition calm :: "addr set \<Rightarrow> memqueue_ins \<Rightarrow> bool" where
  "calm W ins \<longleftrightarrow> oom ins = [] \<and> consumers ins = Map.empty \<and> (\<forall>q mq. queues ins q = Some mq \<longrightarrow> calm_q mq) \<and>
     (\<forall>m x. msgs ins m = Some x \<longrightarrow> m_data_len x < 2 ^ 31) \<and> W \<subseteq> dom (cli_binders ins)"

named_theorems calm_ops

lemma calm_upd [calm_ops]:
  "upd_queue q f ins = Some i \<Longrightarrow> calm W ins \<Longrightarrow> (\<And>mq. calm_q (f mq) = calm_q mq) \<Longrightarrow> calm W i"
  "upd_msg m g ins = Some i \<Longrightarrow> calm W ins \<Longrightarrow> (\<And>x. m_data_len (g x) = m_data_len x) \<Longrightarrow> calm W i"
  "upd_cli b k ins = Some i \<Longrightarrow> calm W ins \<Longrightarrow> calm W i"
  by (auto simp: upd_queue_def upd_msg_def upd_cli_def calm_def bind_eq_Some_conv split: if_splits)

lemma calm_calloc: "calloc ins = (r, i) \<Longrightarrow> calm W ins \<Longrightarrow> calm W i" "calloc ins = (r, i) \<Longrightarrow> calm W ins \<Longrightarrow> r \<noteq> None"
  by (auto simp: calloc_def calm_def split: if_splits)

lemma calm_cong [simp]:
  "calm W (cond_signal c ins) = calm W ins" "calm W (ins\<lparr>queue_store := s\<rparr>) = calm W ins"
  "calm W (ins\<lparr>binders := bs\<rparr>) = calm W ins" "calm W (ins\<lparr>now := t\<rparr>) = calm W ins" "calm W (ins\<lparr>birth := t\<rparr>) = calm W ins"
  by (auto simp: calm_def cond_signal_def)

lemma calm_retain [calm_ops]: "memqueue_retain q ins = Some i \<Longrightarrow> calm W ins \<Longrightarrow> calm W i"
  by (auto simp: memqueue_retain_def bind_eq_Some_conv calm_q_def elim!: calm_upd(1))

lemma calm_msg_retain [calm_ops]: "memqueue_msg_retain m ins = Some i \<Longrightarrow> calm W ins \<Longrightarrow> calm W i"
  by (auto simp: memqueue_msg_retain_def bind_eq_Some_conv elim!: calm_retain calm_upd(2))

lemma calm_free_consumers: "free_consumers cs ins = Some i \<Longrightarrow> calm W ins \<Longrightarrow> calm W i"
  by (induction cs arbitrary: ins) (auto simp: bind_eq_Some_conv calm_def)

lemma calm_release [calm_ops]:
  assumes "memqueue_release q ins = Some i" "calm W ins"
  shows "calm W i"
proof -
  obtain mq j where j: "upd_queue q (q_ref_count_update (\<lambda>_. q_ref_count mq - 1)) ins = Some j"
    and r: "(if q_ref_count mq - 1 < 0 then None
       else if q_ref_count mq - 1 = 0 then
         do {
           (_, store) \<leftarrow> h_remove (queue_store j) (q_q_id mq);
           let ins = j\<lparr>queue_store := store\<rparr>;
           (items, h) \<leftarrow> h_traverse (Suc (length (order_head (q_consumers mq)))) (q_consumers (mq :: memqueue));
           ins \<leftarrow> free_consumers (map snd items) ins;
           _ \<leftarrow> h_free h;
           Some (ins\<lparr>queues := (queues ins)(q := None)\<rparr>)
         }
       else Some j) = Some i"
    using assms(1) unfolding memqueue_release_def bind_eq_Some_conv Let_def by blast
  have c: "calm W j" by (rule calm_upd(1) [OF j assms(2)]) (simp add: calm_q_def)
  have "calm W (k\<lparr>queues := (queues k)(q := None)\<rparr>)" if "calm W k" for k
    using that by (simp add: calm_def)
  then show ?thesis
    using r c by (auto simp: bind_eq_Some_conv Let_def simp del: h_traverse.simps split: if_splits dest!: calm_free_consumers)
qed

lemma calm_msg_gone: "calm W ins \<Longrightarrow> calm W (memqueue_msg_free m ins)"
  by (simp add: calm_def memqueue_msg_free_def)

lemma calm_msg_release [calm_ops]:
  assumes "memqueue_msg_release m ins = Some i" "calm W ins"
  shows "calm W i"
proof -
  obtain x j where j: "upd_msg m (\<lambda>y. y\<lparr>m_new := 0, m_ref_count := m_ref_count x - 1\<rparr>) ins = Some j"
    and r: "(if m_ref_count (x :: msg) - 1 < 0 then None
       else if m_ref_count x - 1 = 0 then
         do {
           mq \<leftarrow> queues j (m_memqueue x);
           if m \<in> set (q_msg_queue mq) then
             do {
               ins \<leftarrow> upd_queue (m_memqueue x) (\<lambda>mq. mq\<lparr>q_msg_queue := remove1 m (q_msg_queue mq),
                                        q_msgs_in_queue := q_msgs_in_queue mq - 1\<rparr>) j;
               ins \<leftarrow> memqueue_release (m_memqueue x) ins;
               Some (memqueue_msg_free m ins)
             }
           else None
         }
       else memqueue_release (m_memqueue x) j) = Some i"
    using assms(1) unfolding memqueue_msg_release_def bind_eq_Some_conv Let_def by blast
  have c: "calm W j" by (rule calm_upd(2) [OF j assms(2)]) simp
  show ?thesis
    using r c by (auto simp: bind_eq_Some_conv calm_q_def split: if_splits elim!: calm_release calm_upd(1) intro!: calm_msg_gone)
qed

lemma calm_enqueue_msg [calm_ops]:
  assumes "cli_binder_enqueue_msg b m ins = Some (r, i)" "calm W ins"
  shows "calm W i"
  using assms calm_calloc [of ins _ _ W]
  by (auto simp: cli_binder_enqueue_msg_def bind_eq_Some_conv split: prod.splits option.splits
      elim!: calm_msg_retain calm_upd(3))

lemma calm_enqueue_loop:
  "enqueue_loop b rv latest ms tot ins = Some (n, i) \<Longrightarrow> calm W ins \<Longrightarrow> calm W i"
  by (induction ms arbitrary: tot ins) (auto simp: bind_eq_Some_conv calm_enqueue_msg split: if_splits)

lemma calm_enqueue_msgs [calm_ops]:
  "cli_binder_enqueue_msgs b q rv latest ins = Some (n, i) \<Longrightarrow> calm W ins \<Longrightarrow> calm W i"
  by (auto simp: cli_binder_enqueue_msgs_def bind_eq_Some_conv calm_enqueue_loop)

lemma calm_release_loop: "release_loop b ms ins = Some i \<Longrightarrow> calm W ins \<Longrightarrow> calm W i"
  by (induction ms arbitrary: ins) (auto simp: bind_eq_Some_conv dest: calm_msg_release calm_upd(3))

lemma calm_bind [calm_ops]:
  assumes "memqueue_bind q b rv inc ins = Some (r, i)" "calm W ins"
  shows "calm W i"
  using assms calm_calloc [of ins _ _ W]
  by (auto simp: memqueue_bind_def bind_eq_Some_conv calm_q_def split: prod.splits option.splits
      elim!: calm_upd(1) calm_upd(3))

lemma calm_unbind_loop: "unbind_loop b ts ins = Some i \<Longrightarrow> calm W ins \<Longrightarrow> calm W i"
proof (induction ts arbitrary: ins)
  case (Cons t ts)
  then obtain bd i1 i2 where i: "upd_cli b (\<lambda>cb. cb\<lparr>cb_memqueues := remove1 t (cb_memqueues cb)\<rparr>) ins = Some i1"
      "upd_queue (b_memqueue (bd :: memqueue_binder)) (\<lambda>mq. mq\<lparr>q_memqueue_binders := remove1 t (q_memqueue_binders mq)\<rparr>) i1 = Some i2"
      "unbind_loop b ts i2 = Some i" by (auto simp: bind_eq_Some_conv)
  have "calm W i2" by (rule calm_upd(1) [OF i(2) calm_upd(3) [OF i(1) Cons.prems(2)]]) (simp add: calm_q_def)
  then show ?case by (rule Cons.IH [OF i(3)])
qed simp

lemma calm_deliver_loop: "deliver_loop rv m ts ins = Some i \<Longrightarrow> calm W ins \<Longrightarrow> calm W i"
  by (induction ts arbitrary: ins) (auto simp: bind_eq_Some_conv cli_wakeup_def calm_enqueue_msg split: if_splits)

lemma sched_msg_queues: "obj_sched_expire ins m ms MSG_TYPE = Some i \<Longrightarrow> queues i = queues ins"
  by (auto simp: obj_sched_expire_def sched_new_node_def expiry_link_def set_expiry_next_def set_expiry_node_def upd_msg_def
      upd_enode_def set_exp_root_def new_expiry_node_def cond_signal_def calloc_def Let_def bind_eq_Some_conv
      split: option.splits if_splits prod.splits)

lemma calm_sched_msg [calm_ops]:
  assumes "obj_sched_expire ins m ms MSG_TYPE = Some i" "calm W ins"
  shows "calm W i"
proof -
  have f: "sched_frame ins i" by (rule sched_frame_expire [OF assms(1)])
  have "consumers i c = None" for c using sched_frame_consumer [OF f, of c] assms(2) by (auto simp: calm_def)
  moreover have "\<forall>k x. msgs i k = Some x \<longrightarrow> m_data_len x < 2 ^ 31"
    using assms(2) by (auto simp: calm_def dest!: sched_frame_back(2) [OF f])
  moreover have "cli_binders i = cli_binders ins" using f by (simp add: sched_frame_def)
  ultimately show ?thesis
    using assms(2) oom_expire [OF assms(1)] sched_msg_queues [OF assms(1)] by (auto simp: calm_def fun_eq_iff)
qed

lemma calm_msg_sched [calm_ops]: "msg_sched m msecs ins = Some i \<Longrightarrow> calm W ins \<Longrightarrow> calm W i"
  by (auto simp: msg_sched_def bind_eq_Some_conv split: if_splits dest: calm_sched_msg calm_msg_retain)

lemma calm_msg_create [calm_ops]:
  assumes "memqueue_msg_create q msecs data len ins = Some (r, i)" "calm W ins" "len < 2 ^ 31"
  shows "calm W i"
proof -
  have mem: "oom ins = []" using assms(2) by (simp add: calm_def)
  let ?m = "Suc (next_addr ins)"
  obtain mq rv i1 i2 n i3 where i: "queues ins q = Some mq"
      "msg_sched ?m msecs (ins\<lparr>next_addr := Suc ?m, queues := (queues ins)(q \<mapsto> mq\<lparr>q_rev := rv\<rparr>), unique_msg_id := unique_msg_id ins + 1,
         msgs := (msgs ins)(?m \<mapsto> new_msg (mq\<lparr>q_rev := rv\<rparr>) q msecs data len (unique_msg_id ins + 1))\<rparr>) = Some i1"
      "upd_queue q (\<lambda>mq. mq\<lparr>q_msg_queue := q_msg_queue mq @ [?m], q_msgs_in_queue := n\<rparr>) i1 = Some i2"
      "deliver_loop (q_rev i3) ?m (q_memqueue_binders (i3 :: memqueue)) i2 = Some i"
    using assms(1) mem by (auto simp: memqueue_msg_create_def calloc_ok bind_eq_Some_conv Let_def)
  have "calm W (ins\<lparr>next_addr := Suc ?m, queues := (queues ins)(q \<mapsto> mq\<lparr>q_rev := rv\<rparr>), unique_msg_id := unique_msg_id ins + 1,
         msgs := (msgs ins)(?m \<mapsto> new_msg (mq\<lparr>q_rev := rv\<rparr>) q msecs data len (unique_msg_id ins + 1))\<rparr>)"
    using assms(2,3) i(1) by (auto simp: calm_def calm_q_def new_msg_def)
  from calm_msg_sched [OF i(2) this] have "calm W i2" by (rule calm_upd(1) [OF i(3)]) (simp add: calm_q_def)
  then show ?thesis by (rule calm_deliver_loop [OF i(4)])
qed

lemma calm_resched [calm_ops]: "memqueue_resched ins q = Some i \<Longrightarrow> calm W ins \<Longrightarrow> i = ins"
  by (auto simp: memqueue_resched_def bind_eq_Some_conv calm_def calm_q_def)

lemma calm_full [calm_ops]:
  assumes "is_memqueue_full q ins = Some (r, i)" "calm W ins"
  shows "calm W i"
proof -
  have "i = ins \<or> (\<exists>m k j. memqueue_msg_retain m ins = Some j \<and> memqueue_msg_release k j = Some i)"
    using assms(1) unfolding is_memqueue_full_def bind_eq_Some_conv by (auto split: if_splits simp: bind_eq_Some_conv)
  then show ?thesis using assms(2) calm_msg_retain calm_msg_release by blast
qed

subsection \<open>Requests\<close>

lemma calm_queue_json: "queue_json bs q ins = Some (obj, i) \<Longrightarrow> calm W ins \<Longrightarrow> calm W i"
  by (auto simp: queue_json_def bind_eq_Some_conv calm_q_def split: if_splits elim!: calm_upd(1))

lemma calm_add_pending: "add_pending bs m resp ins = Some (resp', i) \<Longrightarrow> calm W ins \<Longrightarrow> calm W i"
  by (auto simp: add_pending_def bind_eq_Some_conv calm_queue_json split: if_splits option.splits)

lemma calm_result_loop: "result_loop bs ms resp ins = Some (resp', i) \<Longrightarrow> calm W ins \<Longrightarrow> calm W i"
  by (induction ms arbitrary: resp ins) (auto simp: bind_eq_Some_conv dest: calm_add_pending)

lemma calm_respond [calm_ops]: "memqueue_respond ret ptr ins = Some (resp, i) \<Longrightarrow> calm W ins \<Longrightarrow> calm W i"
  by (auto simp: memqueue_respond_def respond_body_def memqueue_create_result_def bind_eq_Some_conv calm_result_loop
      split: if_splits)

lemma calm_free:
  assumes "cli_binder_free (Some b) ins = Some i" "calm W ins"
  shows "calm (W - {b}) i"
proof -
  have i: "i = ins\<lparr>cli_binders := (cli_binders ins)(b := None)\<rparr>" using assms(1) by (auto simp: cli_binder_free_def bind_eq_Some_conv)
  have "W - {b} \<subseteq> dom (cli_binders i)" using assms(2) by (auto simp: i calm_def)
  then show ?thesis using assms(2) by (simp add: i calm_def)
qed

lemma calm_finish [calm_ops]:
  assumes "memqueue_poll_finish b ins = Some (resp, i)" "calm W ins"
  shows "calm (W - {b}) i"
proof -
  obtain i1 i2 i3 cb cb' where i: "calm W i1" "unbind_loop b (cb_memqueues (cb :: cli_binder)) i1 = Some i2"
      "release_loop b (cb_pending_msgs (cb' :: cli_binder)) i2 = Some i3" "cli_binder_free (Some b) i3 = Some i"
    using assms calm_respond
    by (auto simp: memqueue_poll_finish_def memqueue_unbind_all_def cli_binder_release_pending_msgs_def bind_eq_Some_conv
        split: if_splits; blast)
  have "calm W i3" by (rule calm_release_loop [OF i(3) calm_unbind_loop [OF i(2,1)]])
  then show ?thesis by (rule calm_free [OF i(4)])
qed

lemma calm_heap_insert: "heap_insert h k v ins = Some (h', i) \<Longrightarrow> calm W ins \<Longrightarrow> calm W i"
  by (auto simp: heap_insert_def bind_eq_Some_conv split: option.splits prod.splits dest: calm_calloc(1))

lemma calm_create [calm_ops]:
  assumes "memqueue_create args ins = Some (r, i)" "calm W ins" "ca_expiry args = 0" "ca_consumer_expiry args = 0"
  shows "calm W i"
proof -
  have mem: "oom ins = []" using assms(2) by (simp add: calm_def)
  obtain qid cons n i1 store i2 where i: "memqueue_retain (next_addr ins) (ins\<lparr>next_addr := n,
        queues := (queues ins)(next_addr ins \<mapsto> new_queue args qid cons)\<rparr>) = Some i1"
      "heap_insert (queue_store i1) qid (next_addr ins) i1 = Some (store, i2)" "i = i2\<lparr>queue_store := store\<rparr>"
    using assms(1,3) mem h_init_wf [of 128, where 'a = addr]
    by (auto simp: memqueue_create_def heap_h_init_def calloc_ok bind_eq_Some_conv Let_def split: option.splits)
  have "calm W (ins\<lparr>next_addr := n, queues := (queues ins)(next_addr ins \<mapsto> new_queue args qid cons)\<rparr>)"
    using assms(2,4) by (auto simp: calm_def calm_q_def new_queue_def)
  from calm_heap_insert [OF i(2) calm_retain [OF i(1) this]] show ?thesis by (simp add: i(3))
qed

lemma calm_poll_one [calm_ops]:
  assumes "poll_one (Some b) a ins = Some (k, n, i)" "calm W ins"
  shows "calm W i"
proof -
  have "i = ins \<or> (\<exists>q rv inc r j l. memqueue_bind q b rv inc ins = Some (r, j) \<and> cli_binder_enqueue_msgs b q rv l j = Some (n, i))"
    using assms calm_resched [of ins _ _ W]
    by (auto simp: poll_one_def bind_eq_Some_conv Let_def calm_def calm_q_def split: option.splits if_splits; blast)
  then show ?thesis using assms(2) calm_bind calm_enqueue_msgs by blast
qed

text \<open>A poll: its poller waits, or is gone.\<close>

lemma calm_poll [calm_ops]:
  assumes "memqueue_poll_queue ua ins = Some (out, i)" "calm W ins" "pa_total ua = 1" "queue_args ua = a # rest"
    "cli_binders ins (next_addr ins) = None"
  shows "calm (case out of Waiting b \<Rightarrow> insert b W | Answered r \<Rightarrow> W) i"
proof -
  let ?b = "next_addr ins"
  have w: "?b \<notin> W" using assms(2,5) by (auto simp: calm_def)
  have mem: "oom ins = []" using assms(2) by (simp add: calm_def)
  let ?i0 = "ins\<lparr>next_addr := Suc ?b, cli_binders := (cli_binders ins)(?b \<mapsto>
      \<lparr>cb_timeout = word_of_int (pa_timeout ua), cb_memqueues = [], cb_pending_msgs = []\<rparr>)\<rparr>"
  have c0: "calm (insert ?b W) ?i0" using assms(2) by (auto simp: calm_def)
  obtain k n i1 where p: "poll_one (Some ?b) a ?i0 = Some (k, n, i1)"
    and r: "(if k = 0 then
              do {
                ins \<leftarrow> cli_binder_free (Some ?b) i1;
                (resp, ins) \<leftarrow> memqueue_respond MEMQUEUE_NOT_FOUND None ins;
                Some (Answered resp, ins)
              }
            else do {
                b \<leftarrow> Some ?b;
                if n = 0 then Some (Waiting b, i1)
                else do { (resp, ins) \<leftarrow> memqueue_poll_finish b i1; Some (Answered resp, ins) }
              }) = Some (out, i)"
    using assms(1,3,4) mem
    by (auto simp: memqueue_poll_queue_def cli_binder_create_def calloc_ok bind_eq_Some_conv)
  have c1: "calm (insert ?b W) i1" by (rule calm_poll_one [OF p c0])
  show ?thesis
    using r w c1 by (auto simp: bind_eq_Some_conv split: if_splits dest!: calm_free calm_finish calm_respond)
qed

end
