(* ===== verification/Memqueue_Post.thy ===== *)
theory Memqueue_Post
  imports Memqueue_Props
begin

text \<open>
  Posting a message: the answer, and the state after it, whether the queue has room or drops its head.
\<close>

text \<open>The answer to a post.\<close>

definition msg_added :: "int \<Rightarrow> int \<Rightarrow> response" where
  "msg_added r n = (200, JObject [(''version'', JString ''memqueue 1.0''), (''ret'', JString ''MEMQUEUE_MSG_ADDED''),
     (''ret_desc'', JString ''message added successfully''), (''rev'', JInt r), (''msgs_in_queue'', JInt n)])"

lemma respond_added:
  "queues ins q = Some mq \<Longrightarrow>
    memqueue_respond MEMQUEUE_MSG_ADDED (Some q) ins = Some (msg_added (q_rev mq) (q_msgs_in_queue mq), ins)"
  by (simp add: memqueue_respond_def respond_body_def json_object_new_object_def json_object_new_string_def
      json_object_new_int_def c_str_def msg_added_def)

lemma counters_ok:
  assumes "server_ok d h ins" "queues ins q = Some mq"
  shows "0 \<le> q_rev mq" "q_msgs_in_queue mq = int (length (q_msg_queue mq))"
proof -
  have "msg_ok ins q mq" using assms by (simp add: server_ok_def srv_inv_def mq_inv_def mq_struct_def)
  then show "0 \<le> q_rev mq" "q_msgs_in_queue mq = int (length (q_msg_queue mq))" by (simp_all add: msg_ok_def)
qed

text \<open>A post to a queue that is not full, or no longer: \<open>ins1\<close> is the state after the test for fullness.\<close>

lemma post_after:
  fixes qs :: query
  assumes g: "h_get (queue_store ins) qid = Some (Some q)" and full: "is_memqueue_full q ins = Some (f, ins1)" "f \<noteq> 1"
    and ok: "server_ok d h ins1" "oom ins1 = []" "queues ins1 q = Some mq" and l: "linked_ok mq"
    and room: "room (length (q_memqueue_binders mq) + 2) ins1"
  defines "msecs \<equiv> (case qs ''expiry'' of Some s \<Rightarrow> atoi s | None \<Rightarrow> 0)"
  shows "\<exists>i j. memqueue_msg_create q msecs body (of_nat (length body)) ins1 = Some (0, i) \<and> memqueue_resched i q = Some j \<and>
    (\<forall>args. path_arg args ''q_id'' = Some (Some qid) \<longrightarrow>
       on_msg_post args qs body ins = Some (Some (Answered (msg_added (q_rev mq + 1) (q_msgs_in_queue mq + 1))), 0, j)) \<and>
    server_ok d (h(Suc (next_addr ins1) := own_refs msecs)) j"
proof -
  have "room (length (q_memqueue_binders mq) + 0 + 2) ins1" using room by simp
  from msg_create_server [OF ok this, of msecs body "of_nat (length body)"]
  obtain i n where i: "memqueue_msg_create q msecs body (of_nat (length body)) ins1 = Some (0, i)"
      "server_ok d (h(Suc (next_addr ins1) := own_refs msecs)) i" "oom i = []"
      "queues i q = Some (mq\<lparr>q_rev := q_rev mq + 1, q_msg_queue := q_msg_queue mq @ [Suc (next_addr ins1)],
         q_msgs_in_queue := q_msgs_in_queue mq + 1, q_ref_count := n\<rparr>)" by blast
  obtain j where j: "memqueue_resched i q = Some j" "server_ok d (h(Suc (next_addr ins1) := own_refs msecs)) j"
    using resched_ok [OF i(2,3,4)] l by (auto simp: linked_ok_def)
  show ?thesis using i(1) j g full respond_added [OF i(4)] by (simp add: on_msg_post_def msecs_def)
qed

lemma store_get:
  assumes "server_ok d h ins"
  shows "h_get (queue_store ins) qid = Some (map_of (h_entries (queue_store ins)) qid)"
proof -
  have "h_wf (queue_store ins)" using assms by (simp add: server_ok_def srv_inv_def mq_inv_def mq_struct_def store_ok_def)
  then show ?thesis by (simp add: hh.get_entries)
qed

lemma msg_post_ok:
  fixes qs :: query
  assumes ok: "server_ok d h ins" "oom ins = []" and q: "map_of (h_entries (queue_store ins)) qid = Some q" "queues ins q = Some mq"
    and space: "q_max_size mq \<le> 0 \<or> q_msgs_in_queue mq < q_max_size mq" and l: "linked_ok mq"
    and room: "room (length (q_memqueue_binders mq) + 2) ins"
  defines "msecs \<equiv> (case qs ''expiry'' of Some s \<Rightarrow> atoi s | None \<Rightarrow> 0)"
  shows "\<exists>i j. memqueue_msg_create q msecs body (of_nat (length body)) ins = Some (0, i) \<and> memqueue_resched i q = Some j \<and>
    (\<forall>args. path_arg args ''q_id'' = Some (Some qid) \<longrightarrow>
       on_msg_post args qs body ins = Some (Some (Answered (msg_added (q_rev mq + 1) (q_msgs_in_queue mq + 1))), 0, j)) \<and>
    server_ok d (h(Suc (next_addr ins) := own_refs msecs)) j"
  unfolding msecs_def
  by (rule post_after [OF _ _ _ ok q(2) l room]) (use store_get [OF ok(1)] q space in \<open>auto simp: is_memqueue_full_def\<close>)

lemma touched_queue:
  assumes "queues ins q = Some mq" "linked_ok mq" "room k ins"
  shows "oom (touched m x q mq ins) = oom ins"
    "\<exists>mq'. queues (touched m x q mq ins) q = Some mq' \<and> q_memqueue_binders mq' = q_memqueue_binders mq \<and> linked_ok mq'"
    "msgs ins m = Some x \<Longrightarrow> room k (touched m x q mq ins)"
proof -
  show "oom (touched m x q mq ins) = oom ins" by (simp add: touched_def)
  show "\<exists>mq'. queues (touched m x q mq ins) q = Some mq' \<and> q_memqueue_binders mq' = q_memqueue_binders mq \<and> linked_ok mq'"
    using assms by (simp add: touched_def drop_msg_def linked_ok_def)
  show "room k (touched m x q mq ins)" if "msgs ins m = Some x"
    using assms(1,3) that unfolding room_def by (fastforce simp: touched_def drop_msg_def split: if_splits)
qed

text \<open>Whatever the queue, a post is defined and keeps the invariant.\<close>

lemma post_total:
  fixes qs :: query
  assumes ok: "server_ok d h ins" "oom ins = []" and arg: "path_arg args ''q_id'' = Some (Some qid)"
    and q: "\<And>q mq. queues ins q = Some mq \<Longrightarrow> linked_ok mq \<and> room (length (q_memqueue_binders mq) + 2) ins"
  shows "\<exists>out i h'. on_msg_post args qs body ins = Some (Some (Answered out), 0, i) \<and> server_ok d h' i"
proof (cases "map_of (h_entries (queue_store ins)) qid")
  case None
  then have "on_msg_post args qs body ins = Some (Some (Answered not_found), 0, ins)"
    using arg store_get [OF ok(1)] by (simp add: on_msg_post_def respond_errors)
  then show ?thesis using ok(1) by blast
next
  case (Some a)
  have g: "h_get (queue_store ins) qid = Some (Some a)" using Some store_get [OF ok(1)] by simp
  obtain mq where mq: "queues ins a = Some mq"
    using ok(1) map_of_SomeD [OF Some] by (auto simp: server_ok_def srv_inv_def mq_inv_def mq_struct_def store_ok_def)
  have rm: "linked_ok mq" "room (length (q_memqueue_binders mq) + 2) ins" using q [OF mq] by auto
  have "room 1 ins" by (rule room_mono [OF rm(2)]) simp
  note F = full_branches [OF ok(1) this mq]
  show ?thesis
  proof (cases "is_memqueue_full a ins = Some (1, ins)")
    case True
    obtain i where i: "memqueue_resched ins a = Some i" "server_ok d h i" using resched_ok [OF ok mq rm(1)] by blast
    obtain r where "memqueue_respond MEMQUEUE_FULL None ins = Some (r, ins)"
      by (simp add: memqueue_respond_def respond_body_def json_object_new_object_def)
    then have "on_msg_post args qs body ins = Some (Some (Answered r), 0, i)"
      using arg g True i by (simp add: on_msg_post_def)
    then show ?thesis using i by blast
  next
    case False
    have "\<exists>i1 mq1. is_memqueue_full a ins = Some (0, i1) \<and> oom i1 = [] \<and> queues i1 a = Some mq1 \<and> linked_ok mq1 \<and>
        room (length (q_memqueue_binders mq1) + 2) i1"
    proof (cases "is_memqueue_full a ins = Some (0, ins)")
      case True
      then show ?thesis using ok(2) mq rm by blast
    next
      case ne: False
      let ?m = "hd (q_msg_queue mq)"
      let ?x = "the (msgs ins ?m)"
      have c: "0 < q_max_size mq" "q_max_size mq \<le> q_msgs_in_queue mq" "is_memqueue_full a ins = Some (0, touched ?m ?x a mq ins)"
        using F False ne by (auto simp: Let_def split: if_splits)
      have "q_msg_queue mq \<noteq> []" using c(1,2) counters_ok(2) [OF ok(1) mq] by auto
      then have "?m \<in> set (q_msg_queue mq)" by simp
      then have "msgs ins ?m = Some ?x"
        using msg_in_own_queue [of ins a mq ?m] mq ok(1) by (auto simp: server_ok_def srv_inv_def mq_inv_def)
      then show ?thesis using c(3) touched_queue [OF mq rm, of ?m ?x] ok(2) by auto
    qed
    then obtain i1 mq1 where i1: "is_memqueue_full a ins = Some (0, i1)" "oom i1 = []" "queues i1 a = Some mq1" "linked_ok mq1"
        "room (length (q_memqueue_binders mq1) + 2) i1" by blast
    have "server_ok d h i1" using F i1(1) by blast
    from post_after [OF g i1(1) _ this i1(2-5), of qs body] arg show ?thesis by (metis zero_neq_one)
  qed
qed

end
