(* ===== verification/Memqueue_Run.thy ===== *)
theory Memqueue_Run
  imports Memqueue_Calm Memqueue_Post
begin

text \<open>
  The runs of the server: its threads run one after the other, each up to its next wait. A step is a
  whole request, the end of a poll that waited, a round of the cleaner, or the passing of time. The
  invariant holds in every state that a server reaches, so that no step meets undefined behaviour.
\<close>

datatype request = Put args query | Post args query string | Info args | Poll args query

fun handle :: "request \<Rightarrow> memqueue_ins \<Rightarrow> handled" where
  "handle (Put args qs) ins = on_queue_create args qs ins"
| "handle (Post args qs body) ins = on_msg_post args qs body ins"
| "handle (Info args) ins = on_queue_info args ins"
| "handle (Poll args qs) ins = on_queue_poll args qs ins"

text \<open>
  The requests that are considered: they name a queue, as the routes make sure, and ask for no expiry
  of queues and consumers, whose rescheduling the code does not do right.
\<close>

fun req_ok :: "request \<Rightarrow> bool" where
  "req_ok (Put args qs) =
     (case args_memqueue_create_populate qs args of
        Some ua \<Rightarrow> ca_q_id ua \<noteq> None \<and> ca_expiry ua = 0 \<and> ca_consumer_expiry ua = 0
      | None \<Rightarrow> False)"
| "req_ok (Post args qs body) =
     ((case path_arg args ''q_id'' of Some q \<Rightarrow> q \<noteq> None | None \<Rightarrow> False) \<and> length body < 2 ^ 31)"
| "req_ok (Info args) = (case path_arg args ''q_id'' of Some q \<Rightarrow> q \<noteq> None | None \<Rightarrow> False)"
| "req_ok (Poll args qs) =
     (case args_memqueue_poll_populate qs args of
        Some ua \<Rightarrow> pa_total ua = 1 \<and> (case queue_args ua of a # _ \<Rightarrow> qa_q_id a \<noteq> None | [] \<Rightarrow> False)
      | None \<Rightarrow> False)"

text \<open>The counters of type \<open>int\<close> are not about to overflow.\<close>

definition limits :: "memqueue_ins \<Rightarrow> bool" where
  "limits ins \<longleftrightarrow> (\<forall>q mq. queues ins q = Some mq \<longrightarrow>
     room (length (q_memqueue_binders mq) + length (q_msg_queue mq) + 3) ins)"

text \<open>A state of the server with the pollers of the threads that wait.\<close>

type_synonym config = "memqueue_ins \<times> addr set"

definition waiting :: "outcome option \<Rightarrow> addr set \<Rightarrow> addr set" where
  "waiting out W = (case out of Some (Waiting b) \<Rightarrow> insert b W | _ \<Rightarrow> W)"

inductive step :: "config \<Rightarrow> config \<Rightarrow> bool" where
  request: "req_ok r \<Longrightarrow> limits ins \<Longrightarrow> handle r ins = Some (out, ret, ins') \<Longrightarrow> step (ins, W) (ins', waiting out W)"
| wake: "b \<in> W \<Longrightarrow> memqueue_poll_finish b ins = Some (resp, ins') \<Longrightarrow> step (ins, W) (ins', W - {b})"
| clean: "obj_cleaner_round ins = Some (sleep, ins') \<Longrightarrow> step (ins, W) (ins', W)"
| tick: "step (ins, W) (ins\<lparr>now := t\<rparr>, W)"

inductive reachable :: "config \<Rightarrow> bool" where
  start: "memqueue_init (memqueue_ins0\<lparr>now := t\<rparr>) = (0, ins) \<Longrightarrow> reachable (ins, {})"
| step: "reachable c \<Longrightarrow> step c c' \<Longrightarrow> reachable c'"

inductive_cases stepE: "step (ins, W) c'"

definition config_ok :: "config \<Rightarrow> bool" where
  "config_ok c \<longleftrightarrow> (\<exists>d h. server_ok d h (fst c)) \<and> calm (snd c) (fst c)"

subsection \<open>Requests\<close>

lemma respond_trivial:
  "ret \<in> {MEMQUEUE_CREATED, MEMQUEUE_EXISTS, MEMQUEUE_FULL, MEMQUEUE_NOT_FOUND} \<Longrightarrow> \<exists>r. memqueue_respond ret p ins = Some (r, ins)"
  by (auto simp: memqueue_respond_def respond_body_def json_object_new_object_def)

lemma respond_info: "queues ins q = Some mq \<Longrightarrow> \<exists>r. memqueue_respond MEMQUEUE_QUEUE_INFO (Some q) ins = Some (r, ins)"
  by (simp add: memqueue_respond_def respond_body_def json_object_new_object_def)

lemma store_live:
  assumes "server_ok d h ins" "map_of (h_entries (queue_store ins)) qid = Some q"
  shows "\<exists>mq. queues ins q = Some mq"
  using assms(1) map_of_SomeD [OF assms(2)] by (auto simp: server_ok_def srv_inv_def mq_inv_def mq_struct_def store_ok_def)

lemma calm_linked: "calm W ins \<Longrightarrow> queues ins q = Some mq \<Longrightarrow> linked_ok mq \<and> q_consumer_expiry mq = 0"
  by (simp add: calm_def calm_q_def linked_ok_def)

lemma put_ok:
  assumes ok: "server_ok d h ins" and c: "calm W ins" and r: "req_ok (Put args qs)"
  shows "\<exists>out ret i d. on_queue_create args qs ins = Some (out, ret, i) \<and> server_ok d h i \<and> calm W i \<and> waiting out W = W"
proof -
  obtain ua qid where ua: "args_memqueue_create_populate qs args = Some ua" "ca_q_id ua = Some qid" "ca_expiry ua = 0"
      "ca_consumer_expiry ua = 0" using r by (auto split: option.splits)
  show ?thesis
  proof (cases "map_of (h_entries (queue_store ins)) qid")
    case None
    have mem: "oom ins = []" using c by (simp add: calm_def)
    obtain q j where j: "memqueue_create ua ins = Some (Some q, j)" "server_ok (d(q := 1)) h j"
      using memqueue_create_server [OF ok mem ua(2) None] by blast
    have "calm W j" by (rule calm_create [OF j(1) c ua(3,4)])
    moreover obtain r where "memqueue_respond MEMQUEUE_CREATED None j = Some (r, j)"
      using respond_trivial [of MEMQUEUE_CREATED None j] by auto
    ultimately show ?thesis using ua j None store_get [OF ok, of qid] by (auto simp: on_queue_create_def waiting_def)
  next
    case (Some q)
    obtain r where "memqueue_respond MEMQUEUE_EXISTS None ins = Some (r, ins)"
      using respond_trivial [of MEMQUEUE_EXISTS None ins] by auto
    then show ?thesis using ua Some ok c store_get [OF ok, of qid] by (auto simp: on_queue_create_def waiting_def)
  qed
qed

lemma calm_post:
  assumes "on_msg_post args qs body ins = Some (out, ret, i)" "calm W ins" "(of_nat (length body) :: 64 word) < 2 ^ 31"
  shows "calm W i"
proof -
  obtain q qid found where f: "h_get (queue_store ins) qid = Some found" and
    r: "(case found of
          None \<Rightarrow>
            do {
              (resp, ins) \<leftarrow> memqueue_respond MEMQUEUE_NOT_FOUND None ins;
              Some (Some (Answered resp), 0, ins)
            }
        | Some q \<Rightarrow>
            do {
              (full, ins) \<leftarrow> is_memqueue_full q ins;
              (resp, ins) \<leftarrow>
                (if full \<noteq> 1 then
                   do {
                     (_, ins) \<leftarrow> memqueue_msg_create q (case qs ''expiry'' of Some s \<Rightarrow> atoi s | None \<Rightarrow> 0) body (of_nat (length body)) ins;
                     memqueue_respond MEMQUEUE_MSG_ADDED (Some q) ins
                   }
                 else memqueue_respond MEMQUEUE_FULL None ins);
              ins \<leftarrow> memqueue_resched ins q;
              Some (Some (Answered resp), 0, ins)
            }) = Some (out, ret, i)"
    using assms(1) by (auto simp: on_msg_post_def bind_eq_Some_conv Let_def)
  show ?thesis
  proof (cases found)
    case None
    then show ?thesis using r assms(2) by (auto simp: bind_eq_Some_conv intro: calm_respond)
  next
    case (Some q)
    then obtain full i1 resp i2 where i: "is_memqueue_full q ins = Some (full, i1)" "memqueue_resched i2 q = Some i"
      "(if full \<noteq> 1 then
         do {
           (_, ins) \<leftarrow> memqueue_msg_create q (case qs ''expiry'' of Some s \<Rightarrow> atoi s | None \<Rightarrow> 0) body (of_nat (length body)) i1;
           memqueue_respond MEMQUEUE_MSG_ADDED (Some q) ins
         }
       else memqueue_respond MEMQUEUE_FULL None i1) = Some (resp, i2)"
      using r by (auto simp: bind_eq_Some_conv)
    have c1: "calm W i1" by (rule calm_full [OF i(1) assms(2)])
    have "calm W i2"
    proof (cases "full = 1")
      case True
      then show ?thesis using i(3) c1 by (auto intro: calm_respond)
    next
      case False
      then obtain k j where j: "memqueue_msg_create q (case qs ''expiry'' of Some s \<Rightarrow> atoi s | None \<Rightarrow> 0) body (of_nat (length body)) i1 = Some (k, j)"
          "memqueue_respond MEMQUEUE_MSG_ADDED (Some q) j = Some (resp, i2)"
        using i(3) by (auto simp: bind_eq_Some_conv)
      show ?thesis by (rule calm_respond [OF j(2) calm_msg_create [OF j(1) c1 assms(3)]])
    qed
    then show ?thesis using calm_resched [OF i(2)] by simp
  qed
qed

lemma post_ok:
  assumes ok: "server_ok d h ins" and c: "calm W ins" and l: "limits ins" and r: "req_ok (Post args qs body)"
  shows "\<exists>out ret i h. on_msg_post args qs body ins = Some (out, ret, i) \<and> server_ok d h i \<and> calm W i \<and> waiting out W = W"
proof -
  obtain qid where q: "path_arg args ''q_id'' = Some (Some qid)" and len: "length body < 2 ^ 31" using r by (auto split: option.splits)
  have mem: "oom ins = []" using c by (simp add: calm_def)
  have lk: "linked_ok mq \<and> room (length (q_memqueue_binders mq) + 2) ins" if "queues ins q = Some mq" for q mq
  proof -
    have "room (length (q_memqueue_binders mq) + length (q_msg_queue mq) + 3) ins" using l that by (simp add: limits_def)
    then show ?thesis using calm_linked [OF c that] room_mono by force
  qed
  have "\<exists>out i h'. on_msg_post args qs body ins = Some (Some (Answered out), 0, i) \<and> server_ok d h' i"
    by (rule post_total [OF ok mem q]) (rule lk)
  then obtain out i h' where i: "on_msg_post args qs body ins = Some (Some (Answered out), 0, i)" "server_ok d h' i" by blast
  have "(of_nat (length body) :: 64 word) < 2 ^ 31" using len by (simp add: word_less_nat_alt unat_of_nat take_bit_nat_eq_self)
  then have "calm W i" by (rule calm_post [OF i(1) c])
  then show ?thesis using i by (auto simp: waiting_def)
qed

lemma info_ok:
  assumes ok: "server_ok d h ins" and r: "req_ok (Info args)"
  shows "\<exists>out ret. on_queue_info args ins = Some (out, ret, ins) \<and> waiting out W = W"
proof -
  obtain qid where q: "path_arg args ''q_id'' = Some (Some qid)" using r by (auto split: option.splits)
  show ?thesis
  proof (cases "map_of (h_entries (queue_store ins)) qid")
    case None
    then show ?thesis using q store_get [OF ok, of qid] by (simp add: on_queue_info_def respond_errors waiting_def)
  next
    case (Some a)
    then obtain mq where "queues ins a = Some mq" using store_live [OF ok] by blast
    then obtain r where "memqueue_respond MEMQUEUE_QUEUE_INFO (Some a) ins = Some (r, ins)" using respond_info by blast
    then show ?thesis using q Some store_get [OF ok, of qid] by (simp add: on_queue_info_def waiting_def)
  qed
qed

lemma poll_missing:
  assumes ok: "server_ok d h ins" and mem: "oom ins = []" and ua: "pa_total ua = 1" "queue_args ua = a # rest" "qa_q_id a = Some qid"
    and no: "map_of (h_entries (queue_store ins)) qid = None"
  shows "\<exists>i. memqueue_poll_queue ua ins = Some (Answered not_found, i) \<and> server_ok d h i"
proof -
  let ?b = "next_addr ins"
  obtain i where i: "cli_binder_create (word_of_int (pa_timeout ua)) ins = (Some ?b, i)" "rewired ins i" "server_ok d h i"
      "cli_binders i ?b = Some \<lparr>cb_timeout = word_of_int (pa_timeout ua), cb_memqueues = [], cb_pending_msgs = []\<rparr>"
    using cli_binder_create_ok [OF ok mem] by blast
  obtain j where j: "cli_binder_free (Some ?b) i = Some j" "server_ok d h j" using cli_binder_free_ok [OF i(3,4)] by auto
  have "queue_store i = queue_store ins" using i(2) by (simp add: rewired_def)
  then have "poll_one (Some ?b) a i = Some (0, 0, i)" using ua(3) no store_get [OF i(3), of qid] by (simp add: poll_one_def)
  then have "memqueue_poll_queue ua ins = Some (Answered not_found, j)"
    using i(1) j(1) ua(1,2) by (simp add: memqueue_poll_queue_def respond_errors)
  then show ?thesis using j(2) by blast
qed

lemma poll_ok:
  assumes ok: "server_ok d h ins" and c: "calm W ins" and l: "limits ins" and r: "req_ok (Poll args qs)"
  shows "\<exists>out ret i. on_queue_poll args qs ins = Some (out, ret, i) \<and> server_ok d h i \<and> calm (waiting out W) i"
proof -
  obtain ua a rest qid where ua: "args_memqueue_poll_populate qs args = Some ua" "pa_total ua = 1" "queue_args ua = a # rest"
      "qa_q_id a = Some qid" using r by (auto split: option.splits list.splits)
  have mem: "oom ins = []" using c by (simp add: calm_def)
  have nb: "cli_binders ins (next_addr ins) = None"
    using server_fresh(1) [OF ok, of "next_addr ins"] by (cases "cli_binders ins (next_addr ins)") auto
  have "\<exists>out i. memqueue_poll_queue ua ins = Some (out, i) \<and> server_ok d h i"
  proof (cases "map_of (h_entries (queue_store ins)) qid")
    case None
    then show ?thesis using poll_missing [OF ok mem ua(2-4)] by blast
  next
    case (Some q)
    then obtain mq where mq: "queues ins q = Some mq" using store_live [OF ok] by blast
    have "room (length (q_memqueue_binders mq) + length (q_msg_queue mq) + 3) ins" using l mq by (simp add: limits_def)
    then have rm: "room (length (q_msg_queue mq)) ins" by (rule room_mono) simp
    have k: "linked_ok mq" "qa_consumer_id a = None \<or> q_consumer_expiry mq = 0" using calm_linked [OF c mq] by auto
    have len: "m_data_len x < 2 ^ 31" if "m \<in> set (selected ins (poll_rev mq a) (qa_latest a) (q_msg_queue mq))" "msgs ins m = Some x" for m x
      using c that(2) unfolding calm_def by blast
    note P = poll_queue_ok [OF ok mem ua(2-4) k(2) Some mq k(1) rm]
    show ?thesis
      using P(1) P(2) len by (cases "selected ins (poll_rev mq a) (qa_latest a) (q_msg_queue mq) = []") blast+
  qed
  then obtain out i where i: "memqueue_poll_queue ua ins = Some (out, i)" "server_ok d h i" by blast
  have "calm (waiting (Some out) W) i"
    using calm_poll [OF i(1) c ua(2,3) nb] by (simp add: waiting_def split: outcome.split)
  then show ?thesis using i ua(1) by (simp add: on_queue_poll_def)
qed

lemma handle_ok:
  assumes "server_ok d h ins" "calm W ins" "limits ins" "req_ok r"
  shows "\<exists>out ret i d h. handle r ins = Some (out, ret, i) \<and> server_ok d h i \<and> calm (waiting out W) i"
proof (cases r)
  case (Put args qs)
  then have "req_ok (Put args qs)" using assms(4) by simp
  from put_ok [OF assms(1,2) this] show ?thesis unfolding Put handle.simps by metis
next
  case (Post args qs body)
  then have "req_ok (Post args qs body)" using assms(4) by simp
  from post_ok [OF assms(1-3) this] show ?thesis unfolding Post handle.simps by metis
next
  case (Info args)
  then have "req_ok (Info args)" using assms(4) by simp
  from info_ok [OF assms(1) this, of W] show ?thesis using assms(1,2) unfolding Info handle.simps by metis
next
  case (Poll args qs)
  then have "req_ok (Poll args qs)" using assms(4) by simp
  from poll_ok [OF assms(1-3) this] show ?thesis unfolding Poll handle.simps by metis
qed

subsection \<open>The other steps\<close>

lemma pending_answerable:
  assumes ok: "server_ok d h ins" and c: "calm W ins" and b: "cli_binders ins b = Some cb"
  shows "answerable ins (cb_pending_msgs cb)"
  unfolding answerable_def
proof
  fix m assume m: "m \<in> set (cb_pending_msgs cb)"
  have s: "mq_struct ins" and pk: "pend_ok h ins" using ok by (auto simp: server_ok_def srv_inv_def mq_inv_def)
  have p: "m \<in> set (pending ins b)" using m b by simp
  then obtain x where x: "msgs ins m = Some x" using pk unfolding pend_ok_def by blast
  have "0 < pend_count ins m" using pend_count_pos(2) [OF _ p] s by (simp add: mq_struct_def)
  moreover have "0 \<le> h m" "m_ref_count x = h m + int (pend_count ins m)" using pk x unfolding pend_ok_def by blast+
  ultimately have "0 < m_ref_count x" by linarith
  from counted_msg [OF s x this] have "queues ins (m_memqueue x) \<noteq> None" by auto
  moreover have "m_data_len x < 2 ^ 31" using c x unfolding calm_def by blast
  ultimately show "\<exists>x. msgs ins m = Some x \<and> queues ins (m_memqueue x) \<noteq> None \<and> m_data_len x < 2 ^ 31" using x by blast
qed

lemma wake_ok:
  assumes ok: "server_ok d h ins" and c: "calm W ins" and b: "b \<in> W"
  shows "\<exists>resp i. memqueue_poll_finish b ins = Some (resp, i) \<and> server_ok d h i \<and> calm (W - {b}) i"
proof -
  obtain cb where cb: "cli_binders ins b = Some cb" using b c by (auto simp: calm_def)
  obtain resp i where "memqueue_poll_finish b ins = Some (resp, i)" "server_ok d h i"
    using poll_finish_ok [OF ok cb pending_answerable [OF ok c cb]] by blast
  then show ?thesis using calm_finish [OF _ c] by blast
qed

text \<open>No queue and no consumer is scheduled, so that their trees are empty.\<close>

lemma calm_no_roots:
  assumes "sched_inv ins" "calm W ins" "ty \<noteq> MSG_TYPE"
  shows "exp_root ty ins = None"
proof (rule ccontr)
  assume "exp_root ty ins \<noteq> None"
  then obtain r where r: "exp_root ty ins = Some r" by blast
  obtain xs where xs: "sched_pre xs ins" "\<forall>ty a e. a \<in> set (xs ty) \<longrightarrow> enodes ins a = Some e \<longrightarrow> en_objs ty e \<noteq> []"
    using assms(1) by (auto simp: sched_inv_def sched_with_def)
  have "rb_holds (rb ins) (Some r) (xs ty)" using xs(1) r unfolding sched_pre_def exp_list_def by metis
  then have rx: "r \<in> set (xs ty)" by (rule root_in_list)
  then obtain e where e: "enodes ins r = Some e" using sched_pre_node [OF xs(1)] by blast
  then obtain obj where "obj \<in> set (en_objs ty e)" using xs(2) rx by (meson list.set_sel(1))
  then have "get_expiry_next ty obj ins = Some (Some r)" using xs(1) rx e unfolding sched_pre_def by blast
  then show False using assms(2,3) by (cases ty) (auto simp: get_expiry_next_def calm_def calm_q_def)
qed

lemma calm_expired:
  assumes "expired ms h ins i" "calm W ins"
  shows "calm W i"
proof -
  have f: "thinned ins i" "same_text ins i" "consumers i = consumers ins" "cli_binders i = cli_binders ins" "oom i = oom ins"
    using assms(1) by (simp_all add: expired_def exp_frame_def)
  have "calm_q mq" if q: "queues i q = Some mq" for q mq
  proof -
    have "q \<in> dom (queues ins)" using f(1) q unfolding thinned_def by blast
    then obtain mq0 where mq0: "queues ins q = Some mq0" by blast
    then have "calm_q mq0" using assms(2) by (simp add: calm_def)
    moreover obtain n ms k where "mq = mq0\<lparr>q_ref_count := n, q_msg_queue := ms, q_msgs_in_queue := k\<rparr>"
      using f(1) mq0 q unfolding thinned_def by force
    ultimately show ?thesis by (simp add: calm_q_def)
  qed
  moreover have "m_data_len x < 2 ^ 31" if "msgs i m = Some x" for m x
    using f(2) that assms(2) unfolding same_text_def calm_def by metis
  ultimately show ?thesis using assms(2) f(3-5) unfolding calm_def by metis
qed

lemma clean_ok:
  assumes ok: "server_ok d h ins" and c: "calm W ins"
  shows "\<exists>sleep i h. obj_cleaner_round ins = Some (sleep, i) \<and> server_ok d h i \<and> calm W i"
proof -
  obtain i ms where i: "objs_expire MSG_TYPE ins = Some i" "expired ms h ins i" "server_ok d (lower h (set ms)) i"
    using objs_expire_ok [OF ok] by blast
  have ci: "calm W i" by (rule calm_expired [OF i(2) c])
  have si: "sched_inv i" using i(3) by (simp add: server_ok_core)
  obtain t where "tick_diff_msecs (birth i) (now i) = Some t" using tick_diff_msecs_total by blast
  then have "objs_expire MEMQUEUE_TYPE i = Some i" "objs_expire CONSUMER_TYPE i = Some i"
    using calm_no_roots [OF si ci] by (simp_all add: objs_expire_def objs_expire_loop.simps)
  moreover obtain sleep where "sched_get_min_timeout i = Some sleep" using si sched_min_timeout unfolding sched_inv_def by blast
  ultimately show ?thesis using i ci by (auto simp: obj_cleaner_round_def)
qed

text \<open>The invariant does not speak about the clock.\<close>

lemma tick_ok: "server_ok d h (ins\<lparr>now := t\<rparr>) = server_ok d h ins"
  by (simp add: server_ok_core core_ok_def mq_inv_def mq_struct_def msg_ok_def cons_ok_def store_ok_def fresh_ok_def owner_ok_def
      ref_ok_def ref_of_def [abs_def] rev_of_def [abs_def] hold_ok_def consumers_of_def pend_ok_def pend_count_def
      pending_def [abs_def] held_ok_def is_sched_def get_expiry_next_def bind_ok_def bound_to_def binds_def own_ok_def
      cons_known_def sched_inv_def sched_with_def sched_pre_def exp_root_def cong: obj_type.case_cong)

lemma start_ok:
  assumes "memqueue_init (memqueue_ins0\<lparr>now := t\<rparr>) = (0, ins)"
  shows "server_ok (\<lambda>_. 0) (\<lambda>_. 0) ins \<and> calm {} ins"
  using memqueue_init_server [of t] assms by (auto simp: calm_def)

text \<open>The invariant is kept by a step, and by a run.\<close>

lemma step_ok:
  assumes "step (ins, W) c'" "config_ok (ins, W)"
  shows "config_ok c'"
proof -
  obtain d h where ok: "server_ok d h ins" and c: "calm W ins" using assms(2) by (auto simp: config_ok_def)
  from assms(1) show ?thesis
  proof (rule stepE)
    fix r out ret i assume "c' = (i, waiting out W)" "req_ok r" "limits ins" "handle r ins = Some (out, ret, i)"
    with handle_ok [OF ok c, of r] show ?thesis unfolding config_ok_def by auto
  next
    fix b resp i assume "c' = (i, W - {b})" "b \<in> W" "memqueue_poll_finish b ins = Some (resp, i)"
    with wake_ok [OF ok c, of b] show ?thesis unfolding config_ok_def by auto
  next
    fix sleep i assume "c' = (i, W)" "obj_cleaner_round ins = Some (sleep, i)"
    with clean_ok [OF ok c] show ?thesis unfolding config_ok_def by auto
  next
    fix t assume "c' = (ins\<lparr>now := t\<rparr>, W)"
    then show ?thesis using ok c unfolding config_ok_def by (auto simp: tick_ok)
  qed
qed

lemma reachable_config_ok: "reachable c \<Longrightarrow> config_ok c"
proof (induction rule: reachable.induct)
  case (start t ins)
  then show ?case using start_ok unfolding config_ok_def by auto
next
  case (step c c')
  obtain ins W where "c = (ins, W)" by (cases c)
  then show ?case using step_ok step.hyps(2) step.IH by blast
qed

subsection \<open>Properties\<close>



text \<open>
  C34. A pass of the cleaner over the message tree is defined and keeps the invariant. The messages
  that it drops are all due, and all the due messages at the root of the tree are among them; each
  loses the reference of its deadline and is freed exactly when no poller still has it pending; every
  other object, deadline and queue is as before. The pass writes to each message it has freed.
\<close>

theorem objs_expire_correct:
  assumes "server_ok d h ins"
  shows "\<exists>i ms. objs_expire MSG_TYPE ins = Some i \<and> distinct ms \<and> expired ms h ins i \<and> server_ok d (lower h (set ms)) i \<and>
    (\<forall>m \<in> set ms. \<exists>k. deadline ins MSG_TYPE m = Some k \<and> k \<le> now_ms ins) \<and>
    (\<forall>m k. get_expiry_next MSG_TYPE m ins = Some (exp_root MSG_TYPE ins) \<and> deadline ins MSG_TYPE m = Some k \<and> k \<le> now_ms ins
       \<longrightarrow> m \<in> set ms)"
  by (rule objs_expire_ok [OF assms])

subsection \<open>Witnesses\<close>

text \<open>The requests that create a queue and poll it.\<close>

definition demo_put :: request where
  "demo_put = Put (Some (snd (the (h_insert True (the (h_init True True 128)) ''q_id'' ''jobs'')))) (\<lambda>_. None)"

definition demo_get :: request where
  "demo_get = Poll (Some (snd (the (h_insert True (the (h_init True True 128)) ''q_id'' ''jobs'')))) (\<lambda>_. None)"

lemma demo_requests: "req_ok demo_put" "req_ok demo_get"
  by code_simp+

text \<open>The counters of a small server have room; its objects are below \<open>next_addr\<close>.\<close>

definition small :: "memqueue_ins \<Rightarrow> bool" where
  "small ins \<longleftrightarrow>
     list_all (\<lambda>a. case queues ins a of
         None \<Rightarrow> True
       | Some mq \<Rightarrow> q_ref_count mq < 1000 \<and> q_rev mq < 1000 \<and> q_msgs_in_queue mq < 1000 \<and>
           length (q_memqueue_binders mq) + length (q_msg_queue mq) < 1000) [0..<next_addr ins] \<and>
     list_all (\<lambda>a. case msgs ins a of None \<Rightarrow> True | Some x \<Rightarrow> m_ref_count x < 1000) [0..<next_addr ins]"

lemma small_limits:
  assumes ok: "server_ok d h ins" and s: "small ins"
  shows "limits ins"
proof -
  have q: "q_ref_count mq < 1000 \<and> q_rev mq < 1000 \<and> q_msgs_in_queue mq < 1000 \<and>
      length (q_memqueue_binders mq) + length (q_msg_queue mq) < 1000" if "queues ins a = Some mq" for a mq
  proof -
    have "a \<in> set [0..<next_addr ins]" using server_fresh [OF ok, of a] that by auto
    then show ?thesis using s that unfolding small_def list_all_iff by force
  qed
  moreover have "m_ref_count x < 1000" if "msgs ins m = Some x" for m x
  proof -
    have "m \<in> set [0..<next_addr ins]"
      using ok that by (auto simp: server_ok_def srv_inv_def mq_inv_def mq_struct_def fresh_ok_iff)
    then show ?thesis using s that unfolding small_def list_all_iff by force
  qed
  ultimately have "room 2000 ins" by (fastforce simp: room_def)
  then show ?thesis unfolding limits_def using q room_mono by fastforce
qed

text \<open>The state after the requests, with the pollers that wait.\<close>

fun run :: "request list \<Rightarrow> config \<Rightarrow> config option" where
  "run [] c = Some c"
| "run (r # rs) c =
     (if req_ok r \<and> small (fst c) then
        do {
          (out, ret, i) \<leftarrow> handle r (fst c);
          run rs (i, waiting out (snd c))
        }
      else None)"

lemma run_reachable: "run rs c = Some c' \<Longrightarrow> reachable c \<Longrightarrow> reachable c'"
proof (induction rs c arbitrary: c' rule: run.induct)
  case (2 r rs c)
  obtain ins W where c: "c = (ins, W)" by (cases c)
  obtain out ret i where i: "req_ok r" "small ins" "handle r ins = Some (out, ret, i)" "run rs (i, waiting out W) = Some c'"
    using "2.prems"(1) by (auto simp: c bind_eq_Some_conv split: if_splits)
  obtain d h where "server_ok d h ins" using reachable_config_ok [OF "2.prems"(2)] by (auto simp: c config_ok_def)
  then have "limits ins" using i(2) by (rule small_limits)
  then have "reachable (i, waiting out W)" using i(1,3) "2.prems"(2) unfolding c by (blast intro: reachable.step step.request)
  then show ?case using "2.IH" i by (simp add: c)
qed simp

text \<open>Two threads wait on the queue.\<close>

definition demo_config :: config where
  "demo_config = the (run [demo_put, demo_get, demo_get] (demo_start, {}))"

lemma demo_start_reachable: "reachable (demo_start, {})"
  using memqueue_init_server [of 5000] by (auto simp: demo_start_def intro: reachable.start)

lemma demo_config_run:
  "case run [demo_put, demo_get, demo_get] (demo_start, {}) of Some (i, W) \<Rightarrow> card W = 2 | None \<Rightarrow> False"
  by code_simp

lemma demo_config_small: "small (fst demo_config)"
  by code_simp

lemma demo_config_reachable: "reachable (fst demo_config, snd demo_config)" "card (snd demo_config) = 2"
proof -
  obtain i W where r: "run [demo_put, demo_get, demo_get] (demo_start, {}) = Some (i, W)" "card W = 2"
    using demo_config_run by (simp del: run.simps split: option.splits prod.splits)
  then show "reachable (fst demo_config, snd demo_config)" "card (snd demo_config) = 2"
    using run_reachable [OF r(1) demo_start_reachable] by (simp_all add: demo_config_def del: run.simps)
qed



text \<open>The message of the server at work is due after 5000 milliseconds, and nobody waits for it.\<close>

definition demo_late :: memqueue_ins where
  "demo_late = demo_posted\<lparr>now := 20000000000\<rparr>"

lemma demo_late_run:
  "case objs_expire MSG_TYPE demo_late of Some i \<Rightarrow> msgs i demo_m = None \<and> freed_writes i = [demo_m] | None \<Rightarrow> False"
  by code_simp

theorem objs_expire_correct_witness:
  "\<exists>i ms. objs_expire MSG_TYPE demo_late = Some i \<and> distinct ms \<and> expired ms demo_h demo_late i \<and>
    server_ok demo_d (lower demo_h (set ms)) i \<and> msgs i demo_m = None \<and> freed_writes i = [demo_m]"
proof -
  have "server_ok demo_d demo_h demo_late" using demo_posted_facts(1) by (simp add: demo_late_def tick_ok)
  from objs_expire_correct [OF this] obtain i ms where "objs_expire MSG_TYPE demo_late = Some i" "distinct ms"
      "expired ms demo_h demo_late i" "server_ok demo_d (lower demo_h (set ms)) i" by blast
  then show ?thesis using demo_late_run by auto
qed

end
