(* ===== verification/Server_Props.thy ===== *)
theory Server_Props
  imports Server Http_Recv_Props Json_Print_Props Answer_Type Memqueue_Run
begin

text \<open>
  The composition: the router calls the handler of the first route that matches, and a request is
  answered with the printed bytes of the handler's answer.
\<close>

subsection \<open>The router\<close>

definition matches :: "('re \<Rightarrow> cstring \<Rightarrow> (int \<times> int) list option) \<Rightarrow> cstring \<Rightarrow> cstring \<Rightarrow> ('re, 'cb) http_route \<Rightarrow> bool" where
  "matches exec method path r \<longleftrightarrow> rt_method r = method \<and> exec (rt_re r) path \<noteq> None"

lemma route_loop_skip:
  assumes "\<forall>r \<in> set before. \<not> matches exec (http_get_method_str c) path r"
  shows "route_loop exec names call path (before @ rs) h m c st = route_loop exec names call path rs h m c st"
  using assms by (induction before) (auto simp: matches_def split: option.split)

text \<open>The groups of a match lie in the path, and their texts.\<close>

definition groups_ok :: "(nat \<times> cstring) list \<Rightarrow> (int \<times> int) list \<Rightarrow> cstring \<Rightarrow> bool" where
  "groups_ok ns ov path \<longleftrightarrow> distinct (map snd ns) \<and>
     (\<forall>(n, name) \<in> set ns. \<exists>i j. rd ov n = Some (i, j) \<and> 0 \<le> i \<and> i \<le> j \<and> j \<le> int (length path))"

definition group_texts :: "(nat \<times> cstring) list \<Rightarrow> (int \<times> int) list \<Rightarrow> cstring \<Rightarrow> (cstring \<times> cstring) list" where
  "group_texts ns ov path =
     map (\<lambda>(n, name). (name, case the (rd ov n) of (i, j) \<Rightarrow> strndup (drop (nat i) path) (nat (j - i)))) ns"

lemma add_path_args_ok:
  assumes "tbl_ok h" "http_oom c = []" "groups_ok ns ov path" "fst ` set (h_entries h) \<inter> snd ` set ns = {}"
  shows "\<exists>h'. add_path_args ns ov path h c = Some (h', c) \<and> tbl_ok h' \<and> h_entries h' = h_entries h @ group_texts ns ov path"
  using assms
proof (induction ns arbitrary: h)
  case (Cons nn ns)
  obtain n name where nn: "nn = (n, name)" by (cases nn)
  obtain i j where ij: "rd ov n = Some (i, j)" "0 \<le> i" "i \<le> j" "j \<le> int (length path)"
    using Cons.prems(3) nn by (auto simp: groups_ok_def)
  have "map_of (h_entries h) name = None" using Cons.prems(4) nn unfolding map_of_eq_None_iff by auto
  from http_h_insert_new [OF Cons.prems(1,2) this]
  obtain h1 where h1: "http_h_insert h name (strndup (drop (nat i) path) (nat (j - i))) c = Some (h1, c)" "tbl_ok h1"
      "h_entries h1 = h_entries h @ [(name, strndup (drop (nat i) path) (nat (j - i)))]"
    by blast
  have "groups_ok ns ov path" "fst ` set (h_entries h1) \<inter> snd ` set ns = {}"
    using Cons.prems(3,4) nn h1(3) by (auto simp: groups_ok_def)
  from Cons.IH [OF h1(2) Cons.prems(2) this] show ?case using nn ij h1 by (auto simp: group_texts_def)
qed (simp add: group_texts_def)

lemma http_h_init_ok:
  "http_oom c = [] \<Longrightarrow> \<exists>h :: 'v h_hash. http_h_init c = (Some h, c) \<and> tbl_ok h \<and> h_entries h = []"
  using h_init_wf [of 128, where 'a = 'v] by (auto simp: http_h_init_def http_alloc_ok tbl_ok_def)

lemma free_table_ok: "tbl_ok h \<Longrightarrow> free_table True (Some h) = Some ()"
  using tbl_traverse [of h] h_free_all [of h] by (auto simp: free_table_def tbl_ok_def simp del: h_traverse.simps)

lemma route_first:
  assumes "\<forall>b \<in> set before. \<not> matches exec (http_get_method_str c) path b" "rt_method r = http_get_method_str c"
    "exec (rt_re r) path = Some ov" "names (rt_re r) \<noteq> []" "groups_ok (names (rt_re r)) ov path" "http_oom c = []"
    "http_get_path c = Some path"
  shows "\<exists>t. tbl_ok t \<and> h_entries t = group_texts (names (rt_re r)) ov path \<and>
    (\<forall>ret c' st'. call (rt_cb r) (Some t) c st = Some (ret, c', st') \<and> ret \<noteq> - 2 \<longrightarrow>
       http_route_handle_request exec names call (before @ r # after) c st = Some (ret, c', st'))"
proof -
  obtain h :: "cstring h_hash" where h: "http_h_init c = (Some h, c)" "tbl_ok h" "h_entries h = []"
    using http_h_init_ok [OF assms(6)] by blast
  obtain t where t: "add_path_args (names (rt_re r)) ov path h c = Some (t, c)" "tbl_ok t"
      "h_entries t = group_texts (names (rt_re r)) ov path"
    using add_path_args_ok [OF h(2) assms(6,5)] h(3) by auto
  have "route_args names (rt_re r) ov path No_Args c = Some (Path_Args t, c)"
    using assms(4) h(1) t(1) by (simp add: route_args_def)
  then have "http_route_handle_request exec names call (before @ r # after) c st = Some (ret, c', st')"
    if "call (rt_cb r) (Some t) c st = Some (ret, c', st')" "ret \<noteq> - 2" for ret c' st'
    using that assms(2,3,7) free_table_ok [OF t(2)]
    by (simp add: http_route_handle_request_def route_loop_skip [OF assms(1)] free_args_def)
  then show ?thesis using t(2,3) by blast
qed

subsection \<open>The routes of the server\<close>

text \<open>When all patterns compile, the routes stand in the reverse order of their registration.\<close>

lemma server_routes_eq:
  assumes "\<forall>(m, p, cb) \<in> set memqueue_routes. compile p = Some (f p)"
  shows "server_routes compile =
    map (\<lambda>(m, p, cb). \<lparr>rt_path = p, rt_method = m, rt_cb = cb, rt_re = f p\<rparr>) (rev memqueue_routes)"
  using assms by (simp add: server_routes_def memqueue_routes_def http_route_init_def http_route_on_def)


lemma server_routes_post:
  assumes "\<forall>(m, p, cb) \<in> set memqueue_routes. compile p = Some (f p)"
  obtains before after where "server_routes compile = before @
      \<lparr>rt_path = ''/(?<q_id>.*)/?'', rt_method = ''POST'', rt_cb = H_msg_post, rt_re = f ''/(?<q_id>.*)/?''\<rparr> # after"
    "\<forall>r \<in> set before. rt_method r \<noteq> ''POST''"
proof -
  let ?rt = "\<lambda>(m, p, cb). \<lparr>rt_path = p, rt_method = m, rt_cb = cb, rt_re = f p\<rparr> :: ('a, handler) http_route"
  show ?thesis
    by (rule that [of "map ?rt [(''HEAD'', ''/(?<q_id>.*)/?'', H_queue_info), (''DELETE'', ''/(?<q_id>.*)/?'', H_queue_delete)]"
          "map ?rt (rev (take 4 memqueue_routes))"])
      (simp_all add: server_routes_eq [OF assms] memqueue_routes_def)
qed

subsection \<open>Answers\<close>

text \<open>A client that has sent nothing of its answer yet, with memory.\<close>

definition cli_ready :: "http_cli \<Rightarrow> bool" where
  "cli_ready c \<longleftrightarrow> resp_state (resp c) = HTTP_HDR_BEGIN \<and> respcode (resp c) = 0 \<and> http_oom c = [] \<and>
     (\<exists>h. resp_hdrs (resp c) = Some h \<and> tbl_ok h \<and> h_entries h = [])"

text \<open>The bytes of an answer.\<close>

definition answer_bytes :: "http_cli \<Rightarrow> response \<Rightarrow> char list" where
  "answer_bytes c r =
     (case map_of respcodes (fst r) of
        Some (reason, num, keep) \<Rightarrow>
          response_text (http11 (cli_hdr c)) num reason
            (own_headers keep (of_nat (length (json_text (snd r))))) (json_text (snd r))
      | None \<Rightarrow> [])"

text \<open>What the code can print: strings without NUL, a text that fits into the buffer, a known code.\<close>

definition printable :: "response \<Rightarrow> bool" where
  "printable r \<longleftrightarrow> fst r \<in> fst ` set respcodes \<and> json_ok (snd r) \<and> json_text (snd r) \<noteq> [] \<and> length (json_text (snd r)) + 16 < 2 ^ 30"

lemma send_response_ok:
  assumes "cli_ready c" "printable r"
  shows "\<exists>c'. send_response r c = Some c' \<and> sent c' = sent c @ answer_bytes c r \<and> resp_state (resp c') = HTTP_BODY_SENT"
proof -
  let ?s = "json_text (snd r)"
  obtain h where h: "resp_hdrs (resp c) = Some h" "tbl_ok h" "h_entries h = []" "resp_state (resp c) = HTTP_HDR_BEGIN"
      "respcode (resp c) = 0" "http_oom c = []"
    using assms(1) by (auto simp: cli_ready_def)
  obtain reason num keep where code: "map_of respcodes (fst r) = Some (reason, num, keep)"
    using assms(2) unfolding printable_def by (cases "map_of respcodes (fst r)") (auto simp: map_of_eq_None_iff)
  have p: "json_object_to_json_string [] (snd r) = Some (Some ?s)"
    using json_print_ok assms(2) by (simp add: printable_def)
  have n: "unat (of_nat (length ?s) :: 64 word) = length ?s"
    using assms(2) by (simp add: printable_def unat_of_nat take_bit_nat_eq_self)
  then have n0: "(of_nat (length ?s) :: 64 word) \<noteq> 0" using assms(2) by (auto simp: printable_def)
  from respond_text [OF h(4,5,1,2) _ h(6) code n0] n h(3)
  obtain c' where "http_respond (fst r) (Some ?s) (of_nat (length ?s)) c = Some (0, c')" "resp_state (resp c') = HTTP_BODY_SENT"
      "sent c' = sent c @ response_text (http11 (cli_hdr c)) num reason (own_headers keep (of_nat (length ?s))) ?s"
    by fastforce
  with p code show ?thesis by (simp add: send_response_def answer_bytes_def)
qed


subsection \<open>Posting\<close>

abbreviation POST_PATTERN :: cstring where "POST_PATTERN \<equiv> ''/(?<q_id>.*)/?''"

text \<open>
  What is used of the PCRE library for a post to \<open>/qid\<close>: the patterns of the routes compile, that of
  the posts has the one named group \<open>q_id\<close>, numbered 1, and it matches the path with the group on
  all that follows the slash.
\<close>

definition pcre_post ::
  "(cstring \<Rightarrow> 're option) \<Rightarrow> ('re \<Rightarrow> cstring \<Rightarrow> (int \<times> int) list option) \<Rightarrow> ('re \<Rightarrow> (nat \<times> cstring) list) \<Rightarrow> cstring \<Rightarrow> bool" where
  "pcre_post compile exec names qid \<longleftrightarrow>
     (\<forall>(m, p, cb) \<in> set memqueue_routes. compile p \<noteq> None) \<and>
     names (the (compile POST_PATTERN)) = [(1, ''q_id'')] \<and>
     (\<exists>ov. exec (the (compile POST_PATTERN)) (CHR ''/'' # qid) = Some ov \<and> rd ov 1 = Some (1, int (length qid) + 1))"

lemma serve_post:
  assumes pcre: "pcre_post compile exec names qid" and nn: "NUL \<notin> set qid"
    and c: "cli_ready c" "http_get_method_str c = ''POST''" "http_get_path c = Some (CHR ''/'' # qid)" "request_body c = Some body"
    and ans: "\<And>t. path_arg (Some t) ''q_id'' = Some (Some qid) \<Longrightarrow>
        on_msg_post (Some t) (request_query c) body ins = Some (Some (Answered r), 0, ins')" "printable r"
  shows "\<exists>c'. serve_request env compile exec names c ins = Some (0, c', ins') \<and> sent c' = sent c @ answer_bytes c r"
proof -
  let ?f = "\<lambda>p. the (compile p)"
  obtain ov where ov: "exec (?f POST_PATTERN) (CHR ''/'' # qid) = Some ov" "rd ov 1 = Some (1, int (length qid) + 1)"
    using pcre by (auto simp: pcre_post_def)
  have nm: "names (?f POST_PATTERN) = [(1, ''q_id'')]" using pcre by (simp add: pcre_post_def)
  have "\<forall>(m, p, cb) \<in> set memqueue_routes. compile p = Some (?f p)" using pcre by (auto simp: pcre_post_def)
  from server_routes_post [OF this]
  obtain before after where rts: "server_routes compile = before @
      \<lparr>rt_path = POST_PATTERN, rt_method = ''POST'', rt_cb = H_msg_post, rt_re = ?f POST_PATTERN\<rparr> # after"
    and bf: "\<forall>r \<in> set before. rt_method r \<noteq> ''POST''" by blast
  have nb: "\<forall>r \<in> set before. \<not> matches exec (http_get_method_str c) (CHR ''/'' # qid) r" using bf c(2) by (simp add: matches_def)
  have g: "groups_ok [(1, ''q_id'')] ov (CHR ''/'' # qid)" using ov(2) by (simp add: groups_ok_def)
  obtain t where t: "tbl_ok t" "h_entries t = group_texts [(1, ''q_id'')] ov (CHR ''/'' # qid)"
      "\<forall>ret c' st'. call_handler env H_msg_post (Some t) c ins = Some (ret, c', st') \<and> ret \<noteq> - 2 \<longrightarrow>
        serve_request env compile exec names c ins = Some (ret, c', st')"
    using route_first [OF nb, of "\<lparr>rt_path = POST_PATTERN, rt_method = ''POST'', rt_cb = H_msg_post, rt_re = ?f POST_PATTERN\<rparr>"
        ov names "call_handler env" ins after] c g nm ov(1)
    by (auto simp: rts serve_request_def cli_ready_def)
  have "strndup qid (length qid) = qid" using strndup_append [OF nn, of "[]"] by simp
  then have "h_entries t = [(''q_id'', qid)]" using t(2) ov(2) by (simp add: group_texts_def)
  then have "path_arg (Some t) ''q_id'' = Some (Some qid)" using t(1) by (simp add: path_arg_def tbl_get)
  note a = ans(1) [OF this]
  obtain c' where "send_response r c = Some c'" "sent c' = sent c @ answer_bytes c r"
    using send_response_ok [OF c(1) ans(2)] by blast
  then show ?thesis using t(3) a c(4) by (simp add: call_handler_def finish_def)
qed


lemma nat_dec_length: "n < 10 ^ Suc k \<Longrightarrow> length (nat_dec n) \<le> Suc k"
proof (induction k arbitrary: n)
  case (Suc k)
  have "n div 10 < 10 ^ Suc k" using Suc.prems by (simp add: less_mult_imp_div_less)
  from Suc.IH [OF this] show ?case by (subst nat_dec.simps) simp
qed (simp add: nat_dec.simps)

lemma int_dec_length:
  assumes "0 \<le> i" "i < 2 ^ 31"
  shows "length (int_dec i) \<le> 10"
proof -
  have "nat i < 10 ^ Suc 9" using assms by (simp add: nat_less_iff)
  from nat_dec_length [OF this] show ?thesis using assms by (simp add: int_dec_def)
qed

lemma printable_added:
  assumes "0 \<le> r" "r < 2 ^ 31" "0 \<le> n" "n < 2 ^ 31"
  shows "printable (msg_added r n)"
proof -
  let ?pre = "json_text (JObject [(''version'', JString ''memqueue 1.0''), (''ret'', JString ''MEMQUEUE_MSG_ADDED''),
     (''ret_desc'', JString ''message added successfully''), (''rev'', JInt 0), (''msgs_in_queue'', JInt 0)])"
  have p: "length ?pre < 200" by code_simp
  have "length (json_text (snd (msg_added r n))) + 2 = length ?pre + length (int_dec r) + length (int_dec n)"
    by (simp add: msg_added_def int_dec_def nat_dec.simps [of 0])
  then have "length (json_text (snd (msg_added r n))) < 220"
    using p int_dec_length [OF assms(1,2)] int_dec_length [OF assms(3,4)] by linarith
  moreover have "fst (msg_added r n) \<in> fst ` set respcodes" by (simp add: msg_added_def respcodes_def)
  ultimately show ?thesis by (simp add: printable_def msg_added_def)
qed

lemma printable_not_found: "printable not_found"
proof -
  have "length (json_text (snd not_found)) < 200" "json_text (snd not_found) \<noteq> []" "json_ok (snd not_found)" by code_simp+
  then show ?thesis by (simp add: printable_def not_found_def respcodes_def)
qed

lemma set_404:
  assumes "resp_ok c" "respcode (resp c) = 0"
  shows "\<exists>c'. http_set_respcode 404 c = Some c' \<and> answering c c' \<and> respcode (resp c') = 404"
proof -
  let ?c = "resp_update (\<lambda>r. r\<lparr>respcode := 404, respcode_int := ''404 '', respcode_str := ''Not Found''\<rparr>) c"
  have "resp_ok ?c" using assms(1) by (simp add: resp_ok_def)
  from add_header_answering [OF this, of "''Connection''" "''close''"]
  obtain c' where "http_add_header ?c ''Connection'' ''close'' = Some c'" "answering ?c c'" "respcode (resp c') = 404" by auto
  then show ?thesis using assms by (simp add: http_set_respcode_def respcodes_def answering_def)
qed

subsection \<open>Properties\<close>

text \<open>
  C15. The router calls the handler of the first route whose method is that of the request and whose
  pattern matches the path, with a table of exactly the named groups of the match and their texts,
  and unless the handler asks for the next route its return value and its effects are those of the
  request.
\<close>

theorem router_first_match:
  assumes "\<forall>b \<in> set before. \<not> matches exec (http_get_method_str c) path b" "rt_method r = http_get_method_str c"
    "exec (rt_re r) path = Some ov" "names (rt_re r) \<noteq> []" "groups_ok (names (rt_re r)) ov path" "http_oom c = []"
    "http_get_path c = Some path"
  shows "\<exists>t. tbl_ok t \<and> h_entries t = group_texts (names (rt_re r)) ov path \<and>
    (\<forall>ret c' st'. call (rt_cb r) (Some t) c st = Some (ret, c', st') \<and> ret \<noteq> - 2 \<longrightarrow>
       http_route_handle_request exec names call (before @ r # after) c st = Some (ret, c', st'))"
  using assms by (rule route_first)

text \<open>
  A request that no route matches gets the code 404 and calls no handler: the state of the server
  is unchanged and nothing is sent by the router.
\<close>

lemma router_no_match:
  assumes "\<forall>r \<in> set routes. \<not> matches exec (http_get_method_str c) path r" "http_get_path c = Some path"
    "resp_ok c" "respcode (resp c) = 0"
  shows "\<exists>c'. http_route_handle_request exec names call routes c st = Some (- 1, c', st) \<and> answering c c' \<and>
    respcode (resp c') = 404"
  using route_loop_skip [OF assms(1), of names call "[]" No_Args False st] set_404 [OF assms(3,4)] assms(2)
  by (auto simp: http_route_handle_request_def)

text \<open>
  C3. A post to a queue, from the router to the bytes on the socket: when the queue exists and has
  room, the body becomes a new message of the queue, the queue is rescheduled, and exactly the bytes
  of the answer with the new revision and the new number of messages are sent.
\<close>

theorem serve_post_added:
  assumes "pcre_post compile exec names qid" "NUL \<notin> set qid" "cli_ready c" "http_get_method_str c = ''POST''"
    "http_get_path c = Some (CHR ''/'' # qid)" "request_body c = Some body"
    "server_ok d h ins" "oom ins = []" "map_of (h_entries (queue_store ins)) qid = Some q" "queues ins q = Some mq"
    "q_max_size mq \<le> 0 \<or> q_msgs_in_queue mq < q_max_size mq" "linked_ok mq" "room (length (q_memqueue_binders mq) + 2) ins"
  shows "\<exists>c' i j h'. serve_request env compile exec names c ins = Some (0, c', j) \<and>
    sent c' = sent c @ answer_bytes c (msg_added (q_rev mq + 1) (q_msgs_in_queue mq + 1)) \<and>
    memqueue_msg_create q (case request_query c ''expiry'' of Some s \<Rightarrow> atoi s | None \<Rightarrow> 0) body (of_nat (length body)) ins = Some (0, i) \<and>
    memqueue_resched i q = Some j \<and> server_ok d h' j"
proof -
  let ?ms = "case request_query c ''expiry'' of Some s \<Rightarrow> atoi s | None \<Rightarrow> 0" and ?r = "msg_added (q_rev mq + 1) (q_msgs_in_queue mq + 1)"
  obtain i j where ij: "memqueue_msg_create q ?ms body (of_nat (length body)) ins = Some (0, i)" "memqueue_resched i q = Some j"
      "\<forall>t. path_arg (Some t) ''q_id'' = Some (Some qid) \<longrightarrow>
        on_msg_post (Some t) (request_query c) body ins = Some (Some (Answered ?r), 0, j)"
      "server_ok d (h(Suc (next_addr ins) := own_refs ?ms)) j"
    using msg_post_ok [OF assms(7-13), of "request_query c" body] by blast
  have "room 1 ins" by (rule room_mono [OF assms(13)]) simp
  then have "q_rev mq + 1 < 2 ^ 31" "q_msgs_in_queue mq + 1 < 2 ^ 31" using assms(10) by (auto simp: room_def)
  then have "printable ?r" using counters_ok [OF assms(7,10)] by (intro printable_added) simp_all
  from serve_post [OF assms(1-6) _ this] ij show ?thesis by metis
qed

text \<open>
  A post to a queue that does not exist, from the router to the bytes on the socket: the answer
  404 is sent and the server does not change.
\<close>

lemma serve_post_missing:
  assumes "pcre_post compile exec names qid" "NUL \<notin> set qid" "cli_ready c" "http_get_method_str c = ''POST''"
    "http_get_path c = Some (CHR ''/'' # qid)" "request_body c = Some body"
    "server_ok d h ins" "map_of (h_entries (queue_store ins)) qid = None"
  shows "\<exists>c'. serve_request env compile exec names c ins = Some (0, c', ins) \<and> sent c' = sent c @ answer_bytes c not_found"
proof -
  have "h_wf (queue_store ins)" using assms(7) by (simp add: server_ok_def srv_inv_def mq_inv_def mq_struct_def store_ok_def)
  then have "h_get (queue_store ins) qid = Some None" using assms(8) by (simp add: hh.get_entries)
  then have "on_msg_post (Some t) (request_query c) body ins = Some (Some (Answered not_found), 0, ins)"
    if "path_arg (Some t) ''q_id'' = Some (Some qid)" for t
    using that by (simp add: on_msg_post_def respond_errors)
  from serve_post [OF assms(1-6) this printable_not_found] show ?thesis by blast
qed


subsection \<open>A request\<close>

text \<open>
  A library that compiles a pattern to itself and matches as the pattern of the posts does on paths
  with no line break: from the slash to the end.
\<close>

definition demo_exec :: "cstring \<Rightarrow> cstring \<Rightarrow> (int \<times> int) list option" where
  "demo_exec re path = (if path \<noteq> [] \<and> hd path = CHR ''/'' then Some [(0, int (length path)), (1, int (length path))] else None)"

definition demo_post :: "cstring \<Rightarrow> http_cli" where
  "demo_post qid = req_update (\<lambda>r. r\<lparr>req_method := Some HTTP_POST, req_path := Some (CHR ''/'' # qid),
     req_body := Some ''hello'', req_body_len := 5\<rparr>) (demo_cli [] 0)"

lemma demo_pcre: "pcre_post Some demo_exec (\<lambda>_. [(1, ''q_id'')]) qid"
  by (auto simp: pcre_post_def demo_exec_def memqueue_routes_def rd_def)

lemma demo_post_facts:
  "cli_ready (demo_post qid)" "http_get_method_str (demo_post qid) = ''POST''" "http_get_path (demo_post qid) = Some (CHR ''/'' # qid)"
  "request_body (demo_post qid) = Some ''hello''" "resp_ok (demo_post qid)" "respcode (resp (demo_post qid)) = 0" "http_oom (demo_post qid) = []"
  by (simp_all add: demo_post_def demo_cli_def cli_ready_def resp_ok_def demo_tbl demo_table_wf http_get_method_str_def http_get_path_def
      request_body_def http_get_body_len_def http_get_body_def)

theorem serve_post_added_witness:
  "\<exists>c' j. serve_request id Some demo_exec (\<lambda>_. [(1, ''q_id'')]) (demo_post ''jobs'') demo_server = Some (0, c', j) \<and>
    sent c' = sent (demo_post ''jobs'') @ answer_bytes (demo_post ''jobs'') (msg_added 1 (q_msgs_in_queue demo_mq + 1))"
proof -
  have "room (length (q_memqueue_binders demo_mq) + 2) demo_server" by (rule demo_server_facts(5)) (simp add: demo_server_facts)
  moreover have "q_msgs_in_queue demo_mq < q_max_size demo_mq"
    using counters_ok(2) [OF demo_server_facts(1,3)] by (simp add: demo_server_facts)
  ultimately have "\<exists>c' i j h'. serve_request id Some demo_exec (\<lambda>_. [(1, ''q_id'')]) (demo_post ''jobs'') demo_server = Some (0, c', j) \<and>
    sent c' = sent (demo_post ''jobs'') @ answer_bytes (demo_post ''jobs'') (msg_added (q_rev demo_mq + 1) (q_msgs_in_queue demo_mq + 1)) \<and>
    memqueue_msg_create demo_q (case request_query (demo_post ''jobs'') ''expiry'' of Some s \<Rightarrow> atoi s | None \<Rightarrow> 0) ''hello''
      (of_nat (length ''hello'')) demo_server = Some (0, i) \<and> memqueue_resched i demo_q = Some j \<and> server_ok demo_d h' j"
    by (intro serve_post_added [OF demo_pcre _ demo_post_facts(1-4) demo_server_facts(1,2) _ demo_server_facts(3) _ demo_server_facts(9)])
      (simp_all add: demo_server_facts)
  then show ?thesis unfolding demo_server_facts(8) by auto
qed

lemma serve_post_missing_witness:
  "\<exists>c'. serve_request id Some demo_exec (\<lambda>_. [(1, ''q_id'')]) (demo_post ''none'') demo_server = Some (0, c', demo_server) \<and>
    sent c' = sent (demo_post ''none'') @ answer_bytes (demo_post ''none'') not_found"
  by (rule serve_post_missing [OF demo_pcre _ demo_post_facts(1-4) demo_server_facts(1)]) (simp_all add: demo_server_facts)

theorem router_first_match_witness:
  "\<exists>t. tbl_ok t \<and> h_entries t = [(''q_id'', ''jobs'')] \<and>
    http_route_handle_request demo_exec (\<lambda>_. [(1, ''q_id'')]) (\<lambda>cb args c st. Some (cb, c, st + 1))
      [\<lparr>rt_path = ''a'', rt_method = ''GET'', rt_cb = 1, rt_re = ''a''\<rparr>, \<lparr>rt_path = ''b'', rt_method = ''POST'', rt_cb = 7, rt_re = ''b''\<rparr>]
      (demo_post ''jobs'') (0 :: int) = Some (7, demo_post ''jobs'', 1)"
proof -
  let ?a = "\<lparr>rt_path = ''a'', rt_method = ''GET'', rt_cb = 1, rt_re = ''a''\<rparr>"
    and ?b = "\<lparr>rt_path = ''b'', rt_method = ''POST'', rt_cb = 7, rt_re = ''b''\<rparr>"
  let ?ov = "[(0, 5), (1, 5)] :: (int \<times> int) list"
  have "groups_ok [(1, ''q_id'')] ?ov ''/jobs''" "group_texts [(1, ''q_id'')] ?ov ''/jobs'' = [(''q_id'', ''jobs'')]"
    by (simp_all add: groups_ok_def group_texts_def rd_def strndup_def)
  then show ?thesis
    using router_first_match [of "[?a]" demo_exec "demo_post ''jobs''" "''/jobs''" ?b ?ov "\<lambda>_. [(1, ''q_id'')]"
        "\<lambda>cb args c st. Some (cb, c, st + 1)" "0 :: int" "[]"]
    by (auto simp: demo_post_facts matches_def demo_exec_def)
qed

lemma router_no_match_witness:
  "\<exists>c'. http_route_handle_request demo_exec (\<lambda>_. []) (\<lambda>cb args c st. None)
      [\<lparr>rt_path = ''a'', rt_method = ''GET'', rt_cb = (), rt_re = ''a''\<rparr>] (demo_post ''jobs'') (0 :: nat) = Some (- 1, c', 0) \<and>
    respcode (resp c') = 404"
  using router_no_match [of "[\<lparr>rt_path = ''a'', rt_method = ''GET'', rt_cb = (), rt_re = ''a''\<rparr>]" demo_exec "demo_post ''jobs''" "''/jobs''"
      "\<lambda>_. []" "\<lambda>cb args c st. None" "0 :: nat"]
  by (auto simp: demo_post_facts matches_def)

end
