(* ===== verification/Spec2Isabelle.thy ===== *)
theory Spec2Isabelle
  imports Hash Expiry_Props Http_Str_Props Http_Parser_Props Json_Containers Tokener_Roundtrip Server_Props
begin

text \<open>
  A verification of memqueue, a message queue behind an HTTP interface (\<open>src/src\<close>), with its JSON
  library (\<open>src/lib/json\<close>).

  \<^bold>\<open>The program.\<close> A client creates a queue with PUT, posts messages to it with POST and polls it with
  GET. Each queue counts a revision; a poll names the revision it has seen and gets the later
  messages, at once or when one arrives. Queues, messages and consumers expire. Every connection is
  served by a cooperative thread of the lthread library (\<open>http_impl.c\<close>), which parses a request
  (\<open>http_parser.c\<close>), finds its route (\<open>router.c\<close>) and calls a handler (\<open>memqueue.c\<close>). The handlers work on
  one global state: a hash table of queues (\<open>hash.c\<close>), objects with reference counts, and three
  red-black trees of deadlines (\<open>rbtree.c\<close>, \<open>memqueue_expiry.c\<close>) measured with the time stamp counter
  (\<open>time.c\<close>). Answers are JSON objects (\<open>json_object.c\<close>) printed into a growing buffer (\<open>printbuf.c\<close>).

  \<^bold>\<open>Theories.\<close> Each component has a theory with its data and operations in the order of the source, and
  theories with its invariants and proofs.
  \<^item> \<open>MQ_Prelude\<close>, \<open>C_String\<close>: addresses, C characters, blocks of memory, the C library.
  \<^item> \<open>Hash\<close> (\<open>hash.c\<close>): items as heap objects in bucket lists and in a list in insertion order. The
    locale \<open>ordered_dict\<close> states what a client relies on and is interpreted on the code; \<open>h_wf\<close> is
    the invariant and \<open>h_entries\<close> the abstract contents.
  \<^item> \<open>Rbtree\<close>, \<open>Rbtree_Proofs\<close>, \<open>Rbtree_Props\<close> (\<open>rbtree.c\<close>, \<open>rbtree.h\<close>): the pointer programs on a memory of
    nodes; \<open>rb_holds\<close> says that the memory holds a red-black tree with a given sequence of nodes
    (locale \<open>node_sequence\<close>); the packed word of parent and colour (locale \<open>two_fields\<close>).
  \<^item> \<open>Ticks\<close> (\<open>time.c\<close>): the conversions in extended precision and their error.
  \<^item> \<open>MQ_State\<close> (\<open>memqueue_impl.h\<close>): the global state as a record of heaps, one per type of object.
  \<^item> \<open>Expiry\<close>, \<open>Expiry_Proofs\<close>, \<open>Expiry_Props\<close> (\<open>memqueue_expiry.c\<close>): scheduling; \<open>sched_inv\<close> ties the trees
    to the objects, \<open>deadline\<close> is the abstract view (locale \<open>timer_service\<close>).
  \<^item> \<open>Memqueue\<close>, \<open>Memqueue_Handlers\<close> (\<open>memqueue.c\<close>, \<open>objs_expire\<close> of \<open>memqueue_expiry.c\<close>): reference counts,
    messages, pollers, consumers, expiry, answers and handlers. \<open>Args\<close> (\<open>args_parser.c\<close>): their arguments.
  \<^item> \<open>Memqueue_Inv\<close>, \<open>_Proofs\<close>, \<open>_Create\<close>, \<open>_Queue\<close>, \<open>_Poll\<close>, \<open>_Release\<close>, \<open>_Results\<close>, \<open>_Answer\<close>, \<open>_Props\<close>: the
    invariant \<open>server_ok d h\<close> of the server and its preservation. It says that the lists of a queue are
    live, distinct and ordered by revision, that bindings stand in the lists of both ends, that the
    scheduler's invariant holds, and that every reference count is the number of references: \<open>d\<close>
    gives the references to queues and \<open>h\<close> those to messages that are held from outside of the lists.
  \<^item> \<open>Memqueue_Expire\<close>, \<open>_Calm\<close>, \<open>_Post\<close>, \<open>_Run\<close>: the pass of the cleaner over the message tree, and the runs of
    the server as a step relation on a state and the set of waiting threads, in any interleaving of
    requests, waking threads, rounds of the cleaner and ticks of the clock. The runs are those in which
    no queue or consumer is given an expiry and no allocation fails (\<open>calm\<close>).
  \<^item> \<open>Http_Str\<close>, \<open>Http_Data\<close>, \<open>Http_Parser\<close>, \<open>Http\<close> with their \<open>_Props\<close> and \<open>Http_Recv_Props\<close> (\<open>http_str.c\<close>,
    \<open>http_impl.h\<close>, \<open>http_parser.c\<close>, \<open>http_impl.c\<close>): strings, parsing, receiving and responding.
  \<^item> \<open>Json\<close>, \<open>Json_Print\<close>, \<open>Json_Print_Props\<close>, \<open>Answer_Type\<close> (\<open>json_object.c\<close>, \<open>printbuf.c\<close>): values,
    printing against a plain definition \<open>json_text\<close>, and the type of the answers.
  \<^item> \<open>Linkhash\<close>, \<open>Linkhash_Props\<close>, \<open>Array_List\<close>, \<open>Json_Containers\<close> (\<open>linkhash.c\<close>, \<open>arraylist.c\<close>): the containers
    below the JSON values. \<open>lh_holds\<close> says that a table holds an association list, \<open>al_vals\<close> is the list
    that an array holds; the locales \<open>growing_object\<close> and \<open>growing_array\<close> state what the values rely on.
  \<^item> \<open>Tokener\<close>, \<open>Tokener_Props\<close>, \<open>Tokener_Roundtrip\<close> (\<open>json_tokener.c\<close>): the JSON parser, a machine with a stack
    of 32 levels, one definition per state. \<open>cfg_ok\<close> types the levels; \<open>rank\<close> bounds the rounds without
    a new character; \<open>leads\<close> composes the runs over parts of a text (locale \<open>text_format\<close>).
  \<^item> \<open>Router\<close>, \<open>Server\<close>, \<open>Server_Props\<close> (\<open>router.c\<close>, \<open>memqueue_init\<close>, \<open>main.c\<close>): the composition, from a
    parsed request to the bytes that are sent.

  \<^bold>\<open>Conventions.\<close> A C pointer is an \<open>addr option\<close>. An operation returns \<open>None\<close> when the C code would have
  undefined behaviour (a read of freed memory, an index outside of a block, an overflow of a signed
  integer, a failed assertion); the theorems show that it returns \<open>Some\<close>. Unsigned integers are words
  and wrap around; signed ones are integers with their range as a condition (\<open>room k\<close>: each counter has
  room for \<open>k\<close> increments). Allocations may fail: the lists \<open>oom\<close>, \<open>http_oom\<close> and \<open>pb_oom\<close> tell the fate of
  the coming ones, and the empty list stands for enough memory. Addresses are not reused, so that a
  use after \<open>free\<close> is seen. Loops over pointers are partial functions with \<open>None\<close> for a loop that does
  not end; loops over lists are recursive, and walks of a table have as fuel the length of its list.
  Threads are cooperative: a handler runs without interruption up to a wait, so a poll is cut into
  \<open>memqueue_poll_queue\<close> and \<open>memqueue_poll_finish\<close>, with an arbitrary change of the state between them.

  \<^bold>\<open>What is shown.\<close> The server starts in its invariant, and creating queues, posting and polling keep it:
  nothing is used after it is freed, and no reference is lost. A posted message goes to exactly the
  waiting pollers and is what the next poll gets. Deadlines are kept exactly in the trees, and the
  cleaner is told to wake up in time. In every state that the server reaches, every request, every
  waking thread and the cleaner run to their end without undefined behaviour. A post is followed from
  the route to the bytes on the socket. The hash table, the trees, the printer, the header parser and
  the receiving of packets meet their abstract specifications. The JSON parser returns on every text,
  and reads back every value that the printer prints, up to its limit of the nesting. Several theorems record deviations of the code from what it means to do.

  \<^bold>\<open>Parameters.\<close> The PCRE library is three functions: \<open>compile\<close>, \<open>exec\<close> and \<open>names\<close>; the theorems on whole
  requests name what they use of it (\<open>groups_ok\<close>, \<open>pcre_post\<close>). Of \<open>sscanf\<close>, what it reads with \<open>%lf\<close> and what it
  stores for a decimal number that is not an \<open>int\<close> are arbitrary functions.

  \<^bold>\<open>Not modelled.\<close> Sockets, listeners, the creation of threads, \<open>sendfile\<close> and logging are calls of the
  operating system and of lthread. The backdoor console, the command line and the reading of JSON files
  (\<open>json_util.c\<close>) are not modelled. The copies of strings by the hash table and the routes and the
  allocations of the JSON parser are taken to succeed, and writing an answer is taken not to block. The expiry of
  queues and consumers is modelled, and the theorems on runs are for queues that do not expire; polls
  with consumers are modelled, and the theorems on polls are for polls without.
\<close>

end
